(* ===== verification/Wire_Prelude.thy ===== *)
theory Wire_Prelude
  imports Main "HOL-Library.Word"
begin

text \<open>
  Shared vocabulary of the netipc development.

  \<^item> Machine types: fixed-width Rust integers are words; \<open>usize\<close> is \<open>nat\<close>, with the 64-bit
    bound written out in the checked and wrapping operations.
  \<^item> Outcomes: \<open>Ok\<close> and \<open>Err\<close> are Rust's \<open>Result\<close>; \<open>Panic\<close> is a failed slice index,
    \<open>unwrap\<close> or \<open>assert!\<close>. Every slice access of the models can yield \<open>Panic\<close>, so the
    absence of panics is something to prove.
  \<^item> Byte buffers are lists of bytes, with \<open>sub\<close> (read a window) and \<open>upd\<close> (overwrite a
    window) and their frame laws.
  \<^item> Host byte order is little-endian, as on every platform the crate is built for.
\<close>

unbundle bit_operations_syntax

section \<open>Machine types\<close>

type_synonym u8 = "8 word"
type_synonym u16 = "16 word"
type_synonym u32 = "32 word"
type_synonym u64 = "64 word"
type_synonym usize = nat
type_synonym bytes = "u8 list"

named_theorems outcome_simps \<open>evaluation of outcomes\<close>
named_theorems no_panic \<open>absence of panics\<close>
named_theorems evals \<open>evaluation of buffer operations on concrete buffers\<close>
named_theorems layout \<open>lengths and frame laws of buffer windows\<close>

section \<open>Outcomes\<close>

datatype ('e, 'a) outcome = Ok 'a | Err 'e | Panic

fun rbind :: "('e, 'a) outcome \<Rightarrow> ('a \<Rightarrow> ('e, 'b) outcome) \<Rightarrow> ('e, 'b) outcome" where
  "rbind (Ok x) f = f x"
| "rbind (Err e) f = Err e"
| "rbind Panic f = Panic"

fun map_err :: "('e \<Rightarrow> 'f) \<Rightarrow> ('e, 'a) outcome \<Rightarrow> ('f, 'a) outcome" where
  "map_err g (Ok x) = Ok x"
| "map_err g (Err e) = Err (g e)"
| "map_err g Panic = Panic"

fun ok_or :: "'a option \<Rightarrow> 'e \<Rightarrow> ('e, 'a) outcome" where
  "ok_or (Some x) e = Ok x"
| "ok_or None e = Err e"

lemma rbind_eq_Ok: "rbind m f = Ok y \<longleftrightarrow> (\<exists>x. m = Ok x \<and> f x = Ok y)"
  by (cases m) auto

lemma rbind_eq_Err: "rbind m f = Err e \<longleftrightarrow> m = Err e \<or> (\<exists>x. m = Ok x \<and> f x = Err e)"
  by (cases m) auto

lemma rbind_eq_Panic: "rbind m f = Panic \<longleftrightarrow> m = Panic \<or> (\<exists>x. m = Ok x \<and> f x = Panic)"
  by (cases m) auto

lemma ok_or_eq_Ok [simp]: "ok_or m e = Ok y \<longleftrightarrow> m = Some y"
  by (cases m) auto

lemma ok_or_eq_Err [simp]: "ok_or m e = Err e' \<longleftrightarrow> m = None \<and> e' = e"
  by (cases m) auto

lemma map_err_eq_Ok [simp]: "map_err g m = Ok y \<longleftrightarrow> m = Ok y"
  by (cases m) auto

lemma rbind_no_panic [no_panic]:
  "m \<noteq> Panic \<Longrightarrow> (\<And>x. m = Ok x \<Longrightarrow> f x \<noteq> Panic) \<Longrightarrow> rbind m f \<noteq> Panic"
  by (cases m) auto

lemma ok_or_no_panic [no_panic, simp]: "ok_or m e \<noteq> Panic"
  by (cases m) auto

lemma map_err_no_panic [no_panic]: "m \<noteq> Panic \<Longrightarrow> map_err g m \<noteq> Panic"
  by (cases m) auto

lemma if_no_panic [no_panic]:
  "(b \<Longrightarrow> x \<noteq> Panic) \<Longrightarrow> (\<not> b \<Longrightarrow> y \<noteq> Panic) \<Longrightarrow> (if b then x else y) \<noteq> Panic"
  by simp

lemma ctor_no_panic [no_panic]: "Ok x \<noteq> Panic" "Err e \<noteq> Panic"
  by simp_all

lemmas rbind_inv = rbind_eq_Ok rbind_eq_Err

text \<open>One step of a loop that checks every index of a range.\<close>

lemma all_range_Suc:
  "(\<forall>j. i \<le> j \<and> j < i + Suc n \<longrightarrow> P j) \<longleftrightarrow> P i \<and> (\<forall>j. Suc i \<le> j \<and> j < Suc i + n \<longrightarrow> P j)"
proof
  assume r: "P i \<and> (\<forall>j. Suc i \<le> j \<and> j < Suc i + n \<longrightarrow> P j)"
  show "\<forall>j. i \<le> j \<and> j < i + Suc n \<longrightarrow> P j"
  proof (intro allI impI)
    fix j assume "i \<le> j \<and> j < i + Suc n"
    with r show "P j" by (cases "j = i") auto
  qed
qed auto

section \<open>Unsigned arithmetic on usize\<close>

definition USIZE_MAX :: nat where
  "USIZE_MAX = 18446744073709551615"

definition ISIZE_MAX :: nat where
  "ISIZE_MAX = 9223372036854775807"

definition checked_add :: "usize \<Rightarrow> usize \<Rightarrow> usize option" where
  "checked_add a b = (if a + b \<le> USIZE_MAX then Some (a + b) else None)"

definition checked_mul :: "usize \<Rightarrow> usize \<Rightarrow> usize option" where
  "checked_mul a b = (if a * b \<le> USIZE_MAX then Some (a * b) else None)"

definition checked_sub :: "usize \<Rightarrow> usize \<Rightarrow> usize option" where
  "checked_sub a b = (if b \<le> a then Some (a - b) else None)"

definition saturating_add :: "usize \<Rightarrow> usize \<Rightarrow> usize" where
  "saturating_add a b = min (a + b) USIZE_MAX"

definition saturating_mul :: "usize \<Rightarrow> usize \<Rightarrow> usize" where
  "saturating_mul a b = min (a * b) USIZE_MAX"

text \<open>Unchecked \<open>usize\<close> addition and subtraction wrap in release builds.\<close>

definition usize_wrap :: "nat \<Rightarrow> usize" where
  "usize_wrap n = n mod (USIZE_MAX + 1)"

definition usize_sub :: "usize \<Rightarrow> usize \<Rightarrow> usize" where
  "usize_sub a b = (if b \<le> a then a - b else USIZE_MAX + 1 - (b - a))"

lemma usize_sub_le [simp]: "b \<le> a \<Longrightarrow> usize_sub a b = a - b"
  by (simp add: usize_sub_def)

lemma checked_add_eq_Some: "checked_add a b = Some c \<longleftrightarrow> c = a + b \<and> a + b \<le> USIZE_MAX"
  by (auto simp: checked_add_def)

lemma checked_mul_eq_Some: "checked_mul a b = Some c \<longleftrightarrow> c = a * b \<and> a * b \<le> USIZE_MAX"
  by (auto simp: checked_mul_def)

lemma checked_sub_eq_Some: "checked_sub a b = Some c \<longleftrightarrow> c = a - b \<and> b \<le> a"
  by (auto simp: checked_sub_def)

lemma checked_add_ok: "a + b \<le> USIZE_MAX \<Longrightarrow> checked_add a b = Some (a + b)"
  by (simp add: checked_add_def)

lemma checked_mul_ok: "a * b \<le> USIZE_MAX \<Longrightarrow> checked_mul a b = Some (a * b)"
  by (simp add: checked_mul_def)

lemma checked_sub_ok: "b \<le> a \<Longrightarrow> checked_sub a b = Some (a - b)"
  by (simp add: checked_sub_def)

lemmas checked_Some = checked_add_eq_Some checked_mul_eq_Some checked_sub_eq_Some
lemmas checked_ok = checked_add_ok checked_mul_ok checked_sub_ok
lemmas usize_bounds = USIZE_MAX_def ISIZE_MAX_def

lemma u32_lt: "unat (w :: u32) < 4294967296"
  using unsigned_less [of w] by simp

lemma u16_lt: "unat (w :: u16) < 65536"
  using unsigned_less [of w] by simp

text \<open>A count of at most \<open>2^32\<close> entries never overflows the 64-bit directory size.\<close>

lemma checked_mul_u32 [simp]:
  "k \<le> 60 \<Longrightarrow> checked_mul (unat (n :: u32)) k = Some (unat n * k)"
proof -
  assume k: "k \<le> 60"
  have "unat n * k \<le> 4294967296 * 60"
    using u32_lt [of n] k by (intro mult_le_mono) auto
  then show ?thesis by (simp add: checked_mul_def USIZE_MAX_def)
qed

section \<open>Windows of a buffer\<close>

definition sub :: "'a list \<Rightarrow> nat \<Rightarrow> nat \<Rightarrow> 'a list" where
  "sub xs off n = take n (drop off xs)"

definition upd :: "'a list \<Rightarrow> nat \<Rightarrow> 'a list \<Rightarrow> 'a list" where
  "upd xs off ys = take off xs @ ys @ drop (off + length ys) xs"

lemma length_sub [layout, simp]: "length (sub xs off n) = min n (length xs - off)"
  by (simp add: sub_def)

lemma length_upd [layout, simp]: "off + length ys \<le> length xs \<Longrightarrow> length (upd xs off ys) = length xs"
  by (simp add: upd_def)

lemma nth_sub: "i < n \<Longrightarrow> off + n \<le> length xs \<Longrightarrow> sub xs off n ! i = xs ! (off + i)"
  by (simp add: sub_def)

lemma nth_upd:
  assumes "off + length ys \<le> length xs"
  shows "upd xs off ys ! i = (if off \<le> i \<and> i < off + length ys then ys ! (i - off) else xs ! i)"
proof -
  from assms have "length (take off xs) = off" by simp
  then show ?thesis
    using assms by (auto simp: upd_def nth_append)
qed

lemma sub_nth_eqI:
  assumes "off + n \<le> length xs" "off' + n \<le> length ys"
    and "\<And>i. i < n \<Longrightarrow> xs ! (off + i) = ys ! (off' + i)"
  shows "sub xs off n = sub ys off' n"
  using assms by (intro nth_equalityI) (auto simp: nth_sub)

lemma sub_upd_same [layout, simp]:
  "off + length ys \<le> length xs \<Longrightarrow> n = length ys \<Longrightarrow> sub (upd xs off ys) off n = ys"
  by (simp add: sub_def upd_def)

lemma sub_upd_disjoint [layout]:
  assumes "off + length ys \<le> length xs" "o' + n \<le> off \<or> off + length ys \<le> o'" "o' + n \<le> length xs"
  shows "sub (upd xs off ys) o' n = sub xs o' n"
  using assms by (intro sub_nth_eqI) (auto simp: nth_upd)

lemma sub_upd_inside [layout]:
  assumes "off + length ys \<le> length xs" "off \<le> o'" "o' + n \<le> off + length ys"
  shows "sub (upd xs off ys) o' n = sub ys (o' - off) n"
  using assms by (intro sub_nth_eqI) (auto simp: nth_upd)

lemma sub_sub [layout]: "b + m \<le> n \<Longrightarrow> sub (sub xs a n) b m = sub xs (a + b) m"
  by (simp add: sub_def drop_take min_def add.commute)

lemma sub_take [layout]: "off + n \<le> k \<Longrightarrow> sub (take k xs) off n = sub xs off n"
  by (simp add: sub_def drop_take min_def)

lemma sub_all [layout, simp]: "n = length xs \<Longrightarrow> sub xs 0 n = xs"
  by (simp add: sub_def)

lemma sub_0 [simp]: "sub xs off 0 = []"
  by (simp add: sub_def)

lemma sub_append_left: "off + n \<le> length xs \<Longrightarrow> sub (xs @ ys) off n = sub xs off n"
  by (simp add: sub_def)

lemma sub_append_right: "length xs \<le> off \<Longrightarrow> sub (xs @ ys) off n = sub ys (off - length xs) n"
  by (simp add: sub_def)

lemma upd_append_right:
  "length xs \<le> off \<Longrightarrow> upd (xs @ ys) off zs = xs @ upd ys (off - length xs) zs"
  by (simp add: upd_def)

lemma upd_0: "upd xs 0 ys = ys @ drop (length ys) xs"
  by (simp add: upd_def)

lemma upd_Nil [simp]: "off \<le> length xs \<Longrightarrow> upd xs off [] = xs"
  by (simp add: upd_def)

lemma take_upd_left: "k \<le> off \<Longrightarrow> off \<le> length xs \<Longrightarrow> take k (upd xs off ys) = take k xs"
  by (simp add: upd_def)

lemma drop_upd_right: "off + length ys \<le> k \<Longrightarrow> off + length ys \<le> length xs \<Longrightarrow> drop k (upd xs off ys) = drop k xs"
  by (auto simp: list_eq_iff_nth_eq nth_upd)

text \<open>Writes that continue where the previous one ended are one write.\<close>

lemma upd_upd_append:
  assumes "q = p + length xs" "q + length ys \<le> length buf"
  shows "upd (upd buf p xs) q ys = upd buf p (xs @ ys)"
  using assms by (simp add: upd_def ac_simps)

lemma upd_commute:
  assumes "a + length xs \<le> b" "b + length ys \<le> length buf"
  shows "upd (upd buf a xs) b ys = upd (upd buf b ys) a xs"
proof (rule nth_equalityI)
  show "length (upd (upd buf a xs) b ys) = length (upd (upd buf b ys) a xs)" using assms by simp
  fix i assume "i < length (upd (upd buf a xs) b ys)"
  show "upd (upd buf a xs) b ys ! i = upd (upd buf b ys) a xs ! i"
    using assms by (auto simp: nth_upd)
qed

lemma upd_all [simp]: "length ys = length xs \<Longrightarrow> upd xs 0 ys = ys"
  by (simp add: upd_def)

lemmas append_windows = sub_append_left sub_append_right upd_append_right upd_0

text \<open>Slice expressions as Rust evaluates them.\<close>

definition slice_rng :: "'a list \<Rightarrow> usize \<Rightarrow> usize \<Rightarrow> ('e, 'a list) outcome" where
  "slice_rng buf a b = (if a \<le> b \<and> b \<le> length buf then Ok (sub buf a (b - a)) else Panic)"

definition index :: "'a list \<Rightarrow> usize \<Rightarrow> ('e, 'a) outcome" where
  "index buf i = (if i < length buf then Ok (buf ! i) else Panic)"

definition copy_from_slice :: "'a list \<Rightarrow> usize \<Rightarrow> usize \<Rightarrow> 'a list \<Rightarrow> ('e, 'a list) outcome" where
  "copy_from_slice buf a b src =
     (if a \<le> b \<and> b \<le> length buf \<and> length src = b - a then Ok (upd buf a src) else Panic)"

definition fill :: "'a list \<Rightarrow> usize \<Rightarrow> usize \<Rightarrow> 'a \<Rightarrow> ('e, 'a list) outcome" where
  "fill buf a b v = (if a \<le> b \<and> b \<le> length buf then Ok (upd buf a (replicate (b - a) v)) else Panic)"

definition copy_within :: "'a list \<Rightarrow> usize \<Rightarrow> usize \<Rightarrow> usize \<Rightarrow> ('e, 'a list) outcome" where
  "copy_within buf a b dest =
     (if a \<le> b \<and> b \<le> length buf \<and> dest + (b - a) \<le> length buf
      then Ok (upd buf dest (sub buf a (b - a))) else Panic)"

definition index_set :: "'a list \<Rightarrow> usize \<Rightarrow> 'a \<Rightarrow> ('e, 'a list) outcome" where
  "index_set buf i v = (if i < length buf then Ok (upd buf i [v]) else Panic)"

lemma index_set_ok [outcome_simps]: "i < length buf \<Longrightarrow> index_set buf i v = Ok (upd buf i [v])"
  by (simp add: index_set_def)

lemma slice_rng_ok [outcome_simps]: "a \<le> b \<Longrightarrow> b \<le> length buf \<Longrightarrow> slice_rng buf a b = Ok (sub buf a (b - a))"
  by (simp add: slice_rng_def)

lemma index_ok [outcome_simps]: "i < length buf \<Longrightarrow> index buf i = Ok (buf ! i)"
  by (simp add: index_def)

lemma copy_from_slice_ok [outcome_simps]:
  "a \<le> b \<Longrightarrow> b \<le> length buf \<Longrightarrow> length src = b - a \<Longrightarrow> copy_from_slice buf a b src = Ok (upd buf a src)"
  by (simp add: copy_from_slice_def)

lemma fill_ok [outcome_simps]:
  "a \<le> b \<Longrightarrow> b \<le> length buf \<Longrightarrow> fill buf a b v = Ok (upd buf a (replicate (b - a) v))"
  by (simp add: fill_def)

lemma copy_within_ok [outcome_simps]:
  "a \<le> b \<Longrightarrow> b \<le> length buf \<Longrightarrow> dest + (b - a) \<le> length buf \<Longrightarrow>
   copy_within buf a b dest = Ok (upd buf dest (sub buf a (b - a)))"
  by (simp add: copy_within_def)

section \<open>Little-endian integers\<close>

fun le_bytes :: "nat \<Rightarrow> nat \<Rightarrow> bytes" where
  "le_bytes 0 v = []"
| "le_bytes (Suc n) v = word_of_nat v # le_bytes n (v div 256)"

fun le_val :: "bytes \<Rightarrow> nat" where
  "le_val [] = 0"
| "le_val (b # bs) = unat b + 256 * le_val bs"

lemma length_le_bytes [simp]: "length (le_bytes n v) = n"
  by (induction n arbitrary: v) auto

lemma le_val_le_bytes: "le_val (le_bytes n v) = v mod 256 ^ n"
proof (induction n arbitrary: v)
  case 0
  then show ?case by simp
next
  case (Suc n)
  have "v mod 256 + 256 * (v div 256 mod 256 ^ n) = v mod (256 * 256 ^ n)"
    by (metis add.commute mod_mult2_eq)
  then show ?case by (simp add: Suc.IH unat_of_nat)
qed

lemma le_bytes_le_val: "le_bytes (length bs) (le_val bs) = bs"
proof (induction bs)
  case Nil
  then show ?case by simp
next
  case (Cons b bs)
  have b: "unat b < 256" using unsigned_less [of b] by simp
  have "(word_of_nat (unat b + 256 * le_val bs) :: u8) = b"
  proof -
    have "(256 :: u8) = 0" by simp
    then show ?thesis by (simp only: of_nat_add of_nat_mult of_nat_unat of_nat_numeral) simp
  qed
  with Cons b show ?case by simp
qed

lemma le_val_lt: "le_val bs < 256 ^ length bs"
proof (induction bs)
  case Nil
  then show ?case by simp
next
  case (Cons b bs)
  have "unat b < 256" using unsigned_less [of b] by simp
  with Cons show ?case by simp
qed

text \<open>
  The contract of \<open>to_ne_bytes\<close> and \<open>from_ne_bytes\<close> at one width, and what it gives for reading
  and writing a field of a buffer.
\<close>

locale ne_codec =
  fixes width :: nat
    and to_ne :: "'v \<Rightarrow> bytes"
    and from_ne :: "bytes \<Rightarrow> 'v"
  assumes length_to_ne: "length (to_ne v) = width"
    and from_to_ne: "from_ne (to_ne v) = v"
    and to_from_ne: "length bs = width \<Longrightarrow> to_ne (from_ne bs) = bs"
begin

lemma read_written:
  "off + width \<le> length buf \<Longrightarrow> from_ne (sub (upd buf off (to_ne v)) off width) = v"
  by (simp add: length_to_ne from_to_ne)

lemma read_frame:
  "off + width \<le> length buf \<Longrightarrow> o' + n \<le> off \<or> off + width \<le> o' \<Longrightarrow> o' + n \<le> length buf \<Longrightarrow>
   sub (upd buf off (to_ne v)) o' n = sub buf o' n"
  by (simp add: sub_upd_disjoint length_to_ne)

lemma to_ne_inj: "to_ne v = to_ne w \<longleftrightarrow> v = w"
  by (metis from_to_ne)

lemma write_back:
  assumes "off + width \<le> length buf"
  shows "to_ne (from_ne (sub buf off width)) = sub buf off width"
  using assms by (intro to_from_ne) simp

end

definition u16_to_ne :: "u16 \<Rightarrow> bytes" where
  "u16_to_ne v = le_bytes 2 (unat v)"

definition u32_to_ne :: "u32 \<Rightarrow> bytes" where
  "u32_to_ne v = le_bytes 4 (unat v)"

definition u64_to_ne :: "u64 \<Rightarrow> bytes" where
  "u64_to_ne v = le_bytes 8 (unat v)"

definition u16_from_ne :: "bytes \<Rightarrow> u16" where
  "u16_from_ne bs = word_of_nat (le_val bs)"

definition u32_from_ne :: "bytes \<Rightarrow> u32" where
  "u32_from_ne bs = word_of_nat (le_val bs)"

definition u64_from_ne :: "bytes \<Rightarrow> u64" where
  "u64_from_ne bs = word_of_nat (le_val bs)"

lemma le_roundtrip:
  assumes "LENGTH('a::len) = 8 * n"
  shows "(word_of_nat (le_val (le_bytes n (unat (v :: 'a word)))) :: 'a word) = v"
proof -
  have "unat v < 256 ^ n"
    using unsigned_less [of v] by (simp add: assms power_mult)
  then show ?thesis by (simp add: le_val_le_bytes)
qed

lemma le_roundtrip_back:
  assumes "LENGTH('a::len) = 8 * length bs"
  shows "le_bytes (length bs) (unat (word_of_nat (le_val bs) :: 'a word)) = bs"
proof -
  have "le_val bs < 2 ^ LENGTH('a)"
    using le_val_lt [of bs] by (simp add: assms power_mult)
  then show ?thesis by (simp add: unat_of_nat le_bytes_le_val)
qed

interpretation u16c: ne_codec 2 u16_to_ne u16_from_ne
  by unfold_locales
     (use le_roundtrip_back [where 'a = 16] in \<open>auto simp: u16_to_ne_def u16_from_ne_def le_roundtrip\<close>)

interpretation u32c: ne_codec 4 u32_to_ne u32_from_ne
  by unfold_locales
     (use le_roundtrip_back [where 'a = 32] in \<open>auto simp: u32_to_ne_def u32_from_ne_def le_roundtrip\<close>)

interpretation u64c: ne_codec 8 u64_to_ne u64_from_ne
  by unfold_locales
     (use le_roundtrip_back [where 'a = 64] in \<open>auto simp: u64_to_ne_def u64_from_ne_def le_roundtrip\<close>)

lemmas length_to_ne [simp] = u16c.length_to_ne u32c.length_to_ne u64c.length_to_ne
lemmas from_to_ne [simp] = u16c.from_to_ne u32c.from_to_ne u64c.from_to_ne

section \<open>Evaluation on concrete buffers\<close>

lemma replicate_numeral [evals]: "replicate (numeral k) x = x # replicate (pred_numeral k) x"
  by (simp add: numeral_eq_Suc)

lemma le_bytes_numeral [evals]:
  "le_bytes (numeral k) v = word_of_nat v # le_bytes (pred_numeral k) (v div 256)"
  by (simp only: numeral_eq_Suc [of k] le_bytes.simps)

lemmas [evals] = slice_rng_def index_def index_set_def copy_from_slice_def fill_def copy_within_def sub_def upd_def
  u16_to_ne_def u32_to_ne_def u64_to_ne_def u16_from_ne_def u32_from_ne_def u64_from_ne_def
  usize_wrap_def USIZE_MAX_def checked_add_def checked_mul_def checked_sub_def Let_def

end
