(* ===== verification/Envelope.thy ===== *)
theory Envelope
  imports Wire_Prelude
begin

text \<open>
  The wire envelope (\<open>protocol/mod.rs\<close>): constants, the error type, \<open>align8\<close>, the field
  accessors of \<open>protocol/lookup/common.rs\<close>, and the four fixed-size structures: the outer header,
  the chunk continuation header, HELLO and HELLO_ACK. Each structure has its \<open>encode\<close> and
  \<open>decode\<close> as the code writes them, and a reference layout (\<open>..._wire\<close>) they are proved against.
\<close>

section \<open>Constants\<close>

definition MAGIC_MSG :: u32 where "MAGIC_MSG = 0x4e495043"
definition MAGIC_CHUNK :: u32 where "MAGIC_CHUNK = 0x4e43484b"
definition VERSION :: u16 where "VERSION = 1"
definition HEADER_LEN :: u16 where "HEADER_LEN = 32"
definition HEADER_SIZE :: usize where "HEADER_SIZE = 32"

definition KIND_REQUEST :: u16 where "KIND_REQUEST = 1"
definition KIND_RESPONSE :: u16 where "KIND_RESPONSE = 2"
definition KIND_CONTROL :: u16 where "KIND_CONTROL = 3"

definition FLAG_BATCH :: u16 where "FLAG_BATCH = 0x0001"

definition STATUS_OK :: u16 where "STATUS_OK = 0"
definition STATUS_BAD_ENVELOPE :: u16 where "STATUS_BAD_ENVELOPE = 1"
definition STATUS_AUTH_FAILED :: u16 where "STATUS_AUTH_FAILED = 2"
definition STATUS_INCOMPATIBLE :: u16 where "STATUS_INCOMPATIBLE = 3"
definition STATUS_UNSUPPORTED :: u16 where "STATUS_UNSUPPORTED = 4"
definition STATUS_LIMIT_EXCEEDED :: u16 where "STATUS_LIMIT_EXCEEDED = 5"
definition STATUS_INTERNAL_ERROR :: u16 where "STATUS_INTERNAL_ERROR = 6"

definition CODE_HELLO :: u16 where "CODE_HELLO = 1"
definition CODE_HELLO_ACK :: u16 where "CODE_HELLO_ACK = 2"

definition METHOD_INCREMENT :: u16 where "METHOD_INCREMENT = 1"
definition METHOD_CGROUPS_SNAPSHOT :: u16 where "METHOD_CGROUPS_SNAPSHOT = 2"
definition METHOD_STRING_REVERSE :: u16 where "METHOD_STRING_REVERSE = 3"
definition METHOD_CGROUPS_LOOKUP :: u16 where "METHOD_CGROUPS_LOOKUP = 4"
definition METHOD_APPS_LOOKUP :: u16 where "METHOD_APPS_LOOKUP = 5"

definition PROFILE_BASELINE :: u32 where "PROFILE_BASELINE = 0x01"
definition PROFILE_SHM_HYBRID :: u32 where "PROFILE_SHM_HYBRID = 0x02"
definition PROFILE_SHM_FUTEX :: u32 where "PROFILE_SHM_FUTEX = 0x04"
definition PROFILE_SHM_WAITADDR :: u32 where "PROFILE_SHM_WAITADDR = 0x08"

definition MAX_PAYLOAD_DEFAULT :: u32 where "MAX_PAYLOAD_DEFAULT = 1024"
definition MAX_PAYLOAD_CAP :: u32 where "MAX_PAYLOAD_CAP = 1024 * 1024"
definition ALIGNMENT :: usize where "ALIGNMENT = 8"
definition HELLO_SIZE :: usize where "HELLO_SIZE = 44"
definition HELLO_ACK_SIZE :: usize where "HELLO_ACK_SIZE = 48"

lemmas magic_defs = MAGIC_MSG_def MAGIC_CHUNK_def VERSION_def HEADER_LEN_def
lemmas kind_defs = KIND_REQUEST_def KIND_RESPONSE_def KIND_CONTROL_def
lemmas size_defs = HEADER_SIZE_def HELLO_SIZE_def HELLO_ACK_SIZE_def ALIGNMENT_def
lemmas status_defs = STATUS_OK_def STATUS_BAD_ENVELOPE_def STATUS_AUTH_FAILED_def
  STATUS_INCOMPATIBLE_def STATUS_UNSUPPORTED_def STATUS_LIMIT_EXCEEDED_def STATUS_INTERNAL_ERROR_def

section \<open>Errors\<close>

datatype nipc_error =
    Truncated | BadMagic | BadVersion | BadHeaderLen | BadKind | BadLayout | OutOfBounds
  | MissingNul | BadAlignment | BadItemCount | Overflow | HandlerFailed | Timeout | Aborted

type_synonym 'a result = "(nipc_error, 'a) outcome"

section \<open>Alignment and field access\<close>

text \<open>Round up to a multiple of 8: \<open>(v + 7) & !7\<close> on a 64-bit \<open>usize\<close>.\<close>

definition align8 :: "usize \<Rightarrow> usize" where
  "align8 v = usize_wrap (v + 7) div 8 * 8"

definition u16_at :: "bytes \<Rightarrow> usize \<Rightarrow> ('e, u16) outcome" where
  "u16_at buf off = rbind (slice_rng buf off (off + 2)) (\<lambda>s. Ok (u16_from_ne s))"

definition u32_at :: "bytes \<Rightarrow> usize \<Rightarrow> ('e, u32) outcome" where
  "u32_at buf off = rbind (slice_rng buf off (off + 4)) (\<lambda>s. Ok (u32_from_ne s))"

definition u64_at :: "bytes \<Rightarrow> usize \<Rightarrow> ('e, u64) outcome" where
  "u64_at buf off = rbind (slice_rng buf off (off + 8)) (\<lambda>s. Ok (u64_from_ne s))"

definition put_u16 :: "bytes \<Rightarrow> usize \<Rightarrow> u16 \<Rightarrow> ('e, bytes) outcome" where
  "put_u16 buf off value = copy_from_slice buf off (off + 2) (u16_to_ne value)"

definition put_u32 :: "bytes \<Rightarrow> usize \<Rightarrow> u32 \<Rightarrow> ('e, bytes) outcome" where
  "put_u32 buf off value = copy_from_slice buf off (off + 4) (u32_to_ne value)"

definition put_u64 :: "bytes \<Rightarrow> usize \<Rightarrow> u64 \<Rightarrow> ('e, bytes) outcome" where
  "put_u64 buf off value = copy_from_slice buf off (off + 8) (u64_to_ne value)"

text \<open>The value of a field that lies inside the buffer.\<close>

definition rd16 :: "bytes \<Rightarrow> usize \<Rightarrow> u16" where
  "rd16 buf off = u16_from_ne (sub buf off 2)"

definition rd32 :: "bytes \<Rightarrow> usize \<Rightarrow> u32" where
  "rd32 buf off = u32_from_ne (sub buf off 4)"

definition rd64 :: "bytes \<Rightarrow> usize \<Rightarrow> u64" where
  "rd64 buf off = u64_from_ne (sub buf off 8)"

lemma field_read [outcome_simps, simp]:
  "off + 2 \<le> length buf \<Longrightarrow> u16_at buf off = Ok (rd16 buf off)"
  "off + 4 \<le> length buf \<Longrightarrow> u32_at buf off = Ok (rd32 buf off)"
  "off + 8 \<le> length buf \<Longrightarrow> u64_at buf off = Ok (rd64 buf off)"
  by (simp_all add: u16_at_def u32_at_def u64_at_def slice_rng_ok rd16_def rd32_def rd64_def)

lemma field_write [outcome_simps, simp]:
  "off + 2 \<le> length buf \<Longrightarrow> put_u16 buf off h = Ok (upd buf off (u16_to_ne h))"
  "off + 4 \<le> length buf \<Longrightarrow> put_u32 buf off w = Ok (upd buf off (u32_to_ne w))"
  "off + 8 \<le> length buf \<Longrightarrow> put_u64 buf off d = Ok (upd buf off (u64_to_ne d))"
  by (simp_all add: put_u16_def put_u32_def put_u64_def copy_from_slice_ok)

lemma rd_append_left:
  "off + 2 \<le> length xs \<Longrightarrow> rd16 (xs @ ys) off = rd16 xs off"
  "off + 4 \<le> length xs \<Longrightarrow> rd32 (xs @ ys) off = rd32 xs off"
  "off + 8 \<le> length xs \<Longrightarrow> rd64 (xs @ ys) off = rd64 xs off"
  by (simp_all add: rd16_def rd32_def rd64_def sub_append_left)

lemma rd_append_right:
  "length xs \<le> off \<Longrightarrow> rd16 (xs @ ys) off = rd16 ys (off - length xs)"
  "length xs \<le> off \<Longrightarrow> rd32 (xs @ ys) off = rd32 ys (off - length xs)"
  "length xs \<le> off \<Longrightarrow> rd64 (xs @ ys) off = rd64 ys (off - length xs)"
  by (simp_all add: rd16_def rd32_def rd64_def sub_append_right)

lemma rd_here:
  "rd16 (u16_to_ne h) 0 = h" "rd16 (u16_to_ne h @ ys) 0 = h"
  "rd32 (u32_to_ne w) 0 = w" "rd32 (u32_to_ne w @ ys) 0 = w"
  "rd64 (u64_to_ne d) 0 = d" "rd64 (u64_to_ne d @ ys) 0 = d"
  by (simp_all add: rd16_def rd32_def rd64_def sub_append_left)

lemma rd_take:
  "off + 2 \<le> k \<Longrightarrow> rd16 (take k buf) off = rd16 buf off"
  "off + 4 \<le> k \<Longrightarrow> rd32 (take k buf) off = rd32 buf off"
  "off + 8 \<le> k \<Longrightarrow> rd64 (take k buf) off = rd64 buf off"
  by (simp_all add: rd16_def rd32_def rd64_def sub_take)

lemma to_ne_rd:
  "off + 2 \<le> length buf \<Longrightarrow> u16_to_ne (rd16 buf off) = sub buf off 2"
  "off + 4 \<le> length buf \<Longrightarrow> u32_to_ne (rd32 buf off) = sub buf off 4"
  "off + 8 \<le> length buf \<Longrightarrow> u64_to_ne (rd64 buf off) = sub buf off 8"
  by (simp_all add: rd16_def rd32_def rd64_def u16c.write_back u32c.write_back u64c.write_back)

lemma sub_join: "sub buf a n @ sub buf (a + n) m = sub buf a (n + m)"
  by (simp add: sub_def take_add drop_drop [symmetric] add.commute [of a n] del: drop_drop)

lemma sub_join_append: "b = a + n \<Longrightarrow> sub buf a n @ sub buf b m @ zs = sub buf a (n + m) @ zs"
  using sub_join [of buf a n m] by simp

lemma sub_join_end: "b = a + n \<Longrightarrow> sub buf a n @ sub buf b m = sub buf a (n + m)"
  by (simp add: sub_join)

lemma sub_front: "take n buf = sub buf 0 n"
  by (simp add: sub_def)

lemmas wire_back = to_ne_rd sub_join_append sub_join_end sub_front

lemmas wire_reads = rd_append_left rd_append_right rd_here

lemma align8_eq: "v + 7 \<le> USIZE_MAX \<Longrightarrow> align8 v = (v + 7) div 8 * 8"
  by (simp add: align8_def usize_wrap_def)

lemma align8_mod [simp]: "align8 v mod 8 = 0"
  by (simp add: align8_def)

lemma align8_bounds: "v + 7 \<le> USIZE_MAX \<Longrightarrow> v \<le> align8 v \<and> align8 v \<le> v + 7"
  by (simp add: align8_eq)

lemma align8_id [simp]: "v mod 8 = 0 \<Longrightarrow> v + 7 \<le> USIZE_MAX \<Longrightarrow> align8 v = v"
  by (simp add: align8_eq) presburger

text \<open>The arithmetic form is the masking the code performs on a 64-bit word.\<close>

lemma unat_and_not_7:
  fixes w :: "'a::len word"
  assumes "3 \<le> LENGTH('a)"
  shows "unat (w AND NOT 7) = unat w div 8 * 8"
proof -
  have m: "(7 :: 'a word) = mask 3" by (simp add: mask_eq_exp_minus_1)
  have p: "w AND NOT (mask 3) = push_bit 3 (drop_bit 3 w)"
    by (rule bit_eqI) (auto simp: bit_simps)
  have w: "unat w < 2 ^ LENGTH('a)" by (rule unsigned_less)
  then have b: "unat w div 8 * 8 < 2 ^ LENGTH('a)"
    using div_times_less_eq_dividend [of "unat w" 8] by linarith
  have "unat (push_bit 3 (drop_bit 3 w)) = take_bit LENGTH('a) (push_bit 3 (drop_bit 3 (unat w)))"
    using w by (simp add: unsigned_push_bit_eq unsigned_drop_bit_eq take_bit_nat_eq_self)
  also have "push_bit 3 (drop_bit 3 (unat w)) = unat w div 8 * 8"
    by (simp add: push_bit_eq_mult drop_bit_eq_div)
  finally show ?thesis using b by (simp add: m p take_bit_nat_eq_self)
qed

lemma align8_masks: "align8 v = unat ((word_of_nat v + 7 :: u64) AND NOT 7)"
proof -
  have "unat (word_of_nat (v + 7) :: u64) = usize_wrap (v + 7)"
    by (simp only: unat_of_nat usize_wrap_def USIZE_MAX_def) simp
  then show ?thesis
    using unat_and_not_7 [of "word_of_nat (v + 7) :: u64"] by (simp add: align8_def add.commute)
qed

section \<open>The contract of a fixed-size structure\<close>

text \<open>
  \<open>encode\<close> writes the reference layout at the front of the buffer and leaves the rest alone, or
  returns 0 and changes nothing when the buffer is short. \<open>decode\<close> reads the front of the buffer,
  never panics, and accepts what was encoded from a valid value. A \<open>canonical\<close> codec accepts only
  the reference layout of the value it returns, so no two byte strings decode to the same value.
\<close>

locale fixed_codec =
  fixes size :: nat
    and wire :: "'m \<Rightarrow> bytes"
    and valid :: "'m \<Rightarrow> bool"
    and encode :: "'m \<Rightarrow> bytes \<Rightarrow> ('e, usize \<times> bytes) outcome"
    and decode :: "bytes \<Rightarrow> 'm result"
  assumes length_wire: "length (wire m) = size"
    and encode_ok: "size \<le> length buf \<Longrightarrow> encode m buf = Ok (size, wire m @ drop size buf)"
    and encode_short: "length buf < size \<Longrightarrow> encode m buf = Ok (0, buf)"
    and decode_wire: "valid m \<Longrightarrow> decode (wire m @ rest) = Ok m"
    and decode_short: "length buf < size \<Longrightarrow> decode buf = Err Truncated"
    and decode_valid: "decode buf = Ok m \<Longrightarrow> valid m"
    and decode_no_panic: "decode buf \<noteq> Panic"
begin

lemma roundtrip:
  assumes "valid m" "size \<le> length buf"
  shows "\<exists>buf'. encode m buf = Ok (size, buf') \<and> decode (take size buf') = Ok m
           \<and> length buf' = length buf \<and> drop size buf' = drop size buf"
  using assms encode_ok [of buf m] decode_wire [of m "[]"] length_wire [of m] by auto

lemma encode_len: "encode m buf = Ok (n, buf') \<Longrightarrow> length buf' = length buf \<and> n \<in> {0, size}"
  using encode_ok [of buf m] encode_short [of buf m] length_wire [of m]
  by (cases "size \<le> length buf") auto

end

locale canonical_codec = fixed_codec +
  assumes decode_canonical: "decode buf = Ok m \<Longrightarrow> take size buf = wire m"
begin

lemma decode_iff: "decode buf = Ok m \<longleftrightarrow> size \<le> length buf \<and> take size buf = wire m \<and> valid m"
proof
  assume d: "decode buf = Ok m"
  then have "\<not> length buf < size" using decode_short [of buf] by auto
  with d show "size \<le> length buf \<and> take size buf = wire m \<and> valid m"
    using decode_canonical decode_valid by auto
next
  assume "size \<le> length buf \<and> take size buf = wire m \<and> valid m"
  then show "decode buf = Ok m"
    using decode_wire [of m "drop size buf"] append_take_drop_id [of size buf] by metis
qed

lemma decode_inj: "decode a = Ok m \<Longrightarrow> decode b = Ok m \<Longrightarrow> take size a = take size b"
  by (simp add: decode_canonical)

end

section \<open>Outer message header (32 bytes)\<close>

record header =
  hdr_magic :: u32
  hdr_version :: u16
  hdr_header_len :: u16
  hdr_kind :: u16
  hdr_flags :: u16
  hdr_code :: u16
  hdr_transport_status :: u16
  hdr_payload_len :: u32
  hdr_item_count :: u32
  hdr_message_id :: u64

definition header_default :: header where
  "header_default = \<lparr>hdr_magic = 0, hdr_version = 0, hdr_header_len = 0, hdr_kind = 0, hdr_flags = 0,
     hdr_code = 0, hdr_transport_status = 0, hdr_payload_len = 0, hdr_item_count = 0, hdr_message_id = 0\<rparr>"

definition header_encode :: "header \<Rightarrow> bytes \<Rightarrow> ('e, usize \<times> bytes) outcome" where
  "header_encode h buf =
     (if length buf < HEADER_SIZE then Ok (0, buf)
      else
        rbind (put_u32 buf 0 (hdr_magic h)) (\<lambda>buf.
        rbind (put_u16 buf 4 (hdr_version h)) (\<lambda>buf.
        rbind (put_u16 buf 6 (hdr_header_len h)) (\<lambda>buf.
        rbind (put_u16 buf 8 (hdr_kind h)) (\<lambda>buf.
        rbind (put_u16 buf 10 (hdr_flags h)) (\<lambda>buf.
        rbind (put_u16 buf 12 (hdr_code h)) (\<lambda>buf.
        rbind (put_u16 buf 14 (hdr_transport_status h)) (\<lambda>buf.
        rbind (put_u32 buf 16 (hdr_payload_len h)) (\<lambda>buf.
        rbind (put_u32 buf 20 (hdr_item_count h)) (\<lambda>buf.
        rbind (put_u64 buf 24 (hdr_message_id h)) (\<lambda>buf.
        Ok (HEADER_SIZE, buf))))))))))))"

definition header_decode :: "bytes \<Rightarrow> header result" where
  "header_decode buf =
     (if length buf < HEADER_SIZE then Err Truncated
      else
        rbind (u32_at buf 0) (\<lambda>magic.
        rbind (u16_at buf 4) (\<lambda>version.
        rbind (u16_at buf 6) (\<lambda>header_len.
        rbind (u16_at buf 8) (\<lambda>kind.
        rbind (u16_at buf 10) (\<lambda>flags.
        rbind (u16_at buf 12) (\<lambda>code.
        rbind (u16_at buf 14) (\<lambda>transport_status.
        rbind (u32_at buf 16) (\<lambda>payload_len.
        rbind (u32_at buf 20) (\<lambda>item_count.
        rbind (u64_at buf 24) (\<lambda>message_id.
        if magic \<noteq> MAGIC_MSG then Err BadMagic
        else if version \<noteq> VERSION then Err BadVersion
        else if header_len \<noteq> HEADER_LEN then Err BadHeaderLen
        else if kind < KIND_REQUEST \<or> kind > KIND_CONTROL then Err BadKind
        else Ok \<lparr>hdr_magic = magic, hdr_version = version, hdr_header_len = header_len,
                  hdr_kind = kind, hdr_flags = flags, hdr_code = code,
                  hdr_transport_status = transport_status, hdr_payload_len = payload_len,
                  hdr_item_count = item_count, hdr_message_id = message_id\<rparr>)))))))))))"

definition header_wire :: "header \<Rightarrow> bytes" where
  "header_wire h =
     u32_to_ne (hdr_magic h) @ u16_to_ne (hdr_version h) @ u16_to_ne (hdr_header_len h) @
     u16_to_ne (hdr_kind h) @ u16_to_ne (hdr_flags h) @ u16_to_ne (hdr_code h) @
     u16_to_ne (hdr_transport_status h) @ u32_to_ne (hdr_payload_len h) @
     u32_to_ne (hdr_item_count h) @ u64_to_ne (hdr_message_id h)"

definition header_valid :: "header \<Rightarrow> bool" where
  "header_valid h \<longleftrightarrow> hdr_magic h = MAGIC_MSG \<and> hdr_version h = VERSION \<and>
     hdr_header_len h = HEADER_LEN \<and> KIND_REQUEST \<le> hdr_kind h \<and> hdr_kind h \<le> KIND_CONTROL"

definition header_read :: "bytes \<Rightarrow> header" where
  "header_read buf = \<lparr>hdr_magic = rd32 buf 0, hdr_version = rd16 buf 4, hdr_header_len = rd16 buf 6,
     hdr_kind = rd16 buf 8, hdr_flags = rd16 buf 10, hdr_code = rd16 buf 12,
     hdr_transport_status = rd16 buf 14, hdr_payload_len = rd32 buf 16,
     hdr_item_count = rd32 buf 20, hdr_message_id = rd64 buf 24\<rparr>"

lemma header_decode_read: "header_decode buf = Ok m \<Longrightarrow> m = header_read buf \<and> HEADER_SIZE \<le> length buf"
  by (auto simp: header_decode_def header_read_def HEADER_SIZE_def not_less split: if_splits)

interpretation hdr: canonical_codec HEADER_SIZE header_wire header_valid header_encode header_decode
proof (unfold_locales, goal_cases)
  case (1 m)
  then show ?case by (simp add: header_wire_def HEADER_SIZE_def)
next
  case (2 buf m)
  then show ?case
    by (simp add: header_encode_def header_wire_def HEADER_SIZE_def append_windows)
next
  case (3 buf m)
  then show ?case by (simp add: header_encode_def)
next
  case (4 m rest)
  then show ?case
    by (simp add: header_decode_def header_wire_def HEADER_SIZE_def header_valid_def wire_reads not_less)
next
  case (5 buf)
  then show ?case by (simp add: header_decode_def)
next
  case (6 buf m)
  then show ?case
    by (auto simp: header_decode_def HEADER_SIZE_def header_valid_def not_less split: if_splits)
next
  case (7 buf)
  then show ?case by (simp add: header_decode_def HEADER_SIZE_def)
next
  case (8 buf m)
  then have "m = header_read buf" "HEADER_SIZE \<le> length buf" using header_decode_read by auto
  then show ?case
    by (simp add: header_read_def header_wire_def HEADER_SIZE_def wire_back)
qed


section \<open>Chunk continuation header (32 bytes)\<close>

record chunk_header =
  chk_magic :: u32
  chk_version :: u16
  chk_flags :: u16
  chk_message_id :: u64
  chk_total_message_len :: u32
  chk_chunk_index :: u32
  chk_chunk_count :: u32
  chk_chunk_payload_len :: u32

definition chunk_header_encode :: "chunk_header \<Rightarrow> bytes \<Rightarrow> ('e, usize \<times> bytes) outcome" where
  "chunk_header_encode c buf =
     (if length buf < HEADER_SIZE then Ok (0, buf)
      else
        rbind (put_u32 buf 0 (chk_magic c)) (\<lambda>buf.
        rbind (put_u16 buf 4 (chk_version c)) (\<lambda>buf.
        rbind (put_u16 buf 6 (chk_flags c)) (\<lambda>buf.
        rbind (put_u64 buf 8 (chk_message_id c)) (\<lambda>buf.
        rbind (put_u32 buf 16 (chk_total_message_len c)) (\<lambda>buf.
        rbind (put_u32 buf 20 (chk_chunk_index c)) (\<lambda>buf.
        rbind (put_u32 buf 24 (chk_chunk_count c)) (\<lambda>buf.
        rbind (put_u32 buf 28 (chk_chunk_payload_len c)) (\<lambda>buf.
        Ok (HEADER_SIZE, buf))))))))))"

definition chunk_header_decode :: "bytes \<Rightarrow> chunk_header result" where
  "chunk_header_decode buf =
     (if length buf < HEADER_SIZE then Err Truncated
      else
        rbind (u32_at buf 0) (\<lambda>magic.
        rbind (u16_at buf 4) (\<lambda>version.
        rbind (u16_at buf 6) (\<lambda>flags.
        rbind (u64_at buf 8) (\<lambda>message_id.
        rbind (u32_at buf 16) (\<lambda>total_message_len.
        rbind (u32_at buf 20) (\<lambda>chunk_index.
        rbind (u32_at buf 24) (\<lambda>chunk_count.
        rbind (u32_at buf 28) (\<lambda>chunk_payload_len.
        if magic \<noteq> MAGIC_CHUNK then Err BadMagic
        else if version \<noteq> VERSION then Err BadVersion
        else if flags \<noteq> 0 then Err BadLayout
        else if chunk_payload_len = 0 then Err BadLayout
        else Ok \<lparr>chk_magic = magic, chk_version = version, chk_flags = flags, chk_message_id =
                  message_id, chk_total_message_len = total_message_len,
                  chk_chunk_index = chunk_index, chk_chunk_count = chunk_count,
                  chk_chunk_payload_len = chunk_payload_len\<rparr>)))))))))"

definition chunk_header_wire :: "chunk_header \<Rightarrow> bytes" where
  "chunk_header_wire c =
     u32_to_ne (chk_magic c) @ u16_to_ne (chk_version c) @ u16_to_ne (chk_flags c) @
     u64_to_ne (chk_message_id c) @ u32_to_ne (chk_total_message_len c) @ u32_to_ne (chk_chunk_index c) @
     u32_to_ne (chk_chunk_count c) @ u32_to_ne (chk_chunk_payload_len c)"

definition chunk_header_valid :: "chunk_header \<Rightarrow> bool" where
  "chunk_header_valid c \<longleftrightarrow> chk_magic c = MAGIC_CHUNK \<and> chk_version c = VERSION \<and> chk_flags c = 0 \<and> chk_chunk_payload_len c \<noteq> 0"

definition chunk_header_read :: "bytes \<Rightarrow> chunk_header" where
  "chunk_header_read buf = \<lparr>chk_magic = rd32 buf 0, chk_version = rd16 buf 4, chk_flags = rd16 buf 6,
     chk_message_id = rd64 buf 8, chk_total_message_len = rd32 buf 16,
     chk_chunk_index = rd32 buf 20, chk_chunk_count = rd32 buf 24,
     chk_chunk_payload_len = rd32 buf 28\<rparr>"

lemma chunk_header_decode_read:
  "chunk_header_decode buf = Ok m \<Longrightarrow> m = chunk_header_read buf \<and> HEADER_SIZE \<le> length buf"
  by (auto simp: chunk_header_decode_def chunk_header_read_def HEADER_SIZE_def not_less split: if_splits)

interpretation chk: canonical_codec HEADER_SIZE chunk_header_wire chunk_header_valid chunk_header_encode chunk_header_decode
proof (unfold_locales, goal_cases)
  case (1 m)
  then show ?case by (simp add: chunk_header_wire_def HEADER_SIZE_def)
next
  case (2 buf m)
  then show ?case
    by (simp add: chunk_header_encode_def chunk_header_wire_def HEADER_SIZE_def append_windows)
next
  case (3 buf m)
  then show ?case by (simp add: chunk_header_encode_def)
next
  case (4 m rest)
  then show ?case
    by (simp add: chunk_header_decode_def chunk_header_wire_def HEADER_SIZE_def chunk_header_valid_def wire_reads)
next
  case (5 buf)
  then show ?case by (simp add: chunk_header_decode_def)
next
  case (6 buf m)
  then show ?case
    by (auto simp: chunk_header_decode_def HEADER_SIZE_def chunk_header_valid_def not_less split: if_splits)
next
  case (7 buf)
  then show ?case by (simp add: chunk_header_decode_def HEADER_SIZE_def)
next
  case (8 buf m)
  then have "m = chunk_header_read buf" "HEADER_SIZE \<le> length buf" using chunk_header_decode_read by auto
  then show ?case
    by (simp add: chunk_header_read_def chunk_header_wire_def HEADER_SIZE_def wire_back)
qed

section \<open>Hello payload (44 bytes)\<close>

record hello =
  hello_layout_version :: u16
  hello_flags :: u16
  hello_supported_profiles :: u32
  hello_preferred_profiles :: u32
  hello_max_request_payload_bytes :: u32
  hello_max_request_batch_items :: u32
  hello_max_response_payload_bytes :: u32
  hello_max_response_batch_items :: u32
  hello_auth_token :: u64
  hello_packet_size :: u32

definition hello_encode :: "hello \<Rightarrow> bytes \<Rightarrow> ('e, usize \<times> bytes) outcome" where
  "hello_encode h buf =
     (if length buf < HELLO_SIZE then Ok (0, buf)
      else
        rbind (put_u16 buf 0 (hello_layout_version h)) (\<lambda>buf.
        rbind (put_u16 buf 2 (hello_flags h)) (\<lambda>buf.
        rbind (put_u32 buf 4 (hello_supported_profiles h)) (\<lambda>buf.
        rbind (put_u32 buf 8 (hello_preferred_profiles h)) (\<lambda>buf.
        rbind (put_u32 buf 12 (hello_max_request_payload_bytes h)) (\<lambda>buf.
        rbind (put_u32 buf 16 (hello_max_request_batch_items h)) (\<lambda>buf.
        rbind (put_u32 buf 20 (hello_max_response_payload_bytes h)) (\<lambda>buf.
        rbind (put_u32 buf 24 (hello_max_response_batch_items h)) (\<lambda>buf.
        rbind (put_u32 buf 28 0) (\<lambda>buf.
        rbind (put_u64 buf 32 (hello_auth_token h)) (\<lambda>buf.
        rbind (put_u32 buf 40 (hello_packet_size h)) (\<lambda>buf.
        Ok (HELLO_SIZE, buf)))))))))))))"

definition hello_decode :: "bytes \<Rightarrow> hello result" where
  "hello_decode buf =
     (if length buf < HELLO_SIZE then Err Truncated
      else
        rbind (u16_at buf 0) (\<lambda>layout_version.
        rbind (u16_at buf 2) (\<lambda>flags.
        rbind (u32_at buf 4) (\<lambda>supported_profiles.
        rbind (u32_at buf 8) (\<lambda>preferred_profiles.
        rbind (u32_at buf 12) (\<lambda>max_request_payload_bytes.
        rbind (u32_at buf 16) (\<lambda>max_request_batch_items.
        rbind (u32_at buf 20) (\<lambda>max_response_payload_bytes.
        rbind (u32_at buf 24) (\<lambda>max_response_batch_items.
        rbind (u64_at buf 32) (\<lambda>auth_token.
        rbind (u32_at buf 40) (\<lambda>packet_size.
        if layout_version \<noteq> 1 then Err BadLayout
        else rbind (u32_at buf 28) (\<lambda>padding.
        if padding \<noteq> 0 then Err BadLayout
        else Ok \<lparr>hello_layout_version = layout_version, hello_flags = flags, hello_supported_profiles
                  = supported_profiles, hello_preferred_profiles =
                  preferred_profiles, hello_max_request_payload_bytes =
                  max_request_payload_bytes, hello_max_request_batch_items =
                  max_request_batch_items, hello_max_response_payload_bytes =
                  max_response_payload_bytes, hello_max_response_batch_items =
                  max_response_batch_items, hello_auth_token = auth_token,
                  hello_packet_size = packet_size\<rparr>))))))))))))"

definition hello_wire :: "hello \<Rightarrow> bytes" where
  "hello_wire h =
     u16_to_ne (hello_layout_version h) @ u16_to_ne (hello_flags h) @ u32_to_ne (hello_supported_profiles h) @
     u32_to_ne (hello_preferred_profiles h) @ u32_to_ne (hello_max_request_payload_bytes h) @ u32_to_ne (hello_max_request_batch_items h) @
     u32_to_ne (hello_max_response_payload_bytes h) @ u32_to_ne (hello_max_response_batch_items h) @ u32_to_ne 0 @
     u64_to_ne (hello_auth_token h) @ u32_to_ne (hello_packet_size h)"

definition hello_valid :: "hello \<Rightarrow> bool" where
  "hello_valid h \<longleftrightarrow> hello_layout_version h = 1"

definition hello_read :: "bytes \<Rightarrow> hello" where
  "hello_read buf = \<lparr>hello_layout_version = rd16 buf 0, hello_flags = rd16 buf 2, hello_supported_profiles
     = rd32 buf 4, hello_preferred_profiles = rd32 buf 8,
     hello_max_request_payload_bytes = rd32 buf 12, hello_max_request_batch_items =
     rd32 buf 16, hello_max_response_payload_bytes = rd32 buf 20,
     hello_max_response_batch_items = rd32 buf 24, hello_auth_token = rd64 buf 32,
     hello_packet_size = rd32 buf 40\<rparr>"

lemma hello_decode_read:
  "hello_decode buf = Ok m \<Longrightarrow> m = hello_read buf \<and> HELLO_SIZE \<le> length buf \<and> rd32 buf 28 = 0"
  by (auto simp: hello_decode_def hello_read_def HELLO_SIZE_def not_less split: if_splits)

interpretation hello: canonical_codec HELLO_SIZE hello_wire hello_valid hello_encode hello_decode
proof (unfold_locales, goal_cases)
  case (1 m)
  then show ?case by (simp add: hello_wire_def HELLO_SIZE_def)
next
  case (2 buf m)
  then show ?case
    by (simp add: hello_encode_def hello_wire_def HELLO_SIZE_def append_windows)
next
  case (3 buf m)
  then show ?case by (simp add: hello_encode_def)
next
  case (4 m rest)
  then show ?case
    by (simp add: hello_decode_def hello_wire_def HELLO_SIZE_def hello_valid_def wire_reads)
next
  case (5 buf)
  then show ?case by (simp add: hello_decode_def)
next
  case (6 buf m)
  then show ?case
    by (auto simp: hello_decode_def HELLO_SIZE_def hello_valid_def not_less split: if_splits)
next
  case (7 buf)
  then show ?case by (simp add: hello_decode_def HELLO_SIZE_def)
next
  case (8 buf m)
  then have "m = hello_read buf" "HELLO_SIZE \<le> length buf" "u32_to_ne 0 = u32_to_ne (rd32 buf 28)"
    using hello_decode_read by auto
  then show ?case
    by (simp add: hello_read_def hello_wire_def HELLO_SIZE_def wire_back)
qed

section \<open>Hello-ack payload (48 bytes)\<close>

record hello_ack =
  ack_layout_version :: u16
  ack_flags :: u16
  ack_server_supported_profiles :: u32
  ack_intersection_profiles :: u32
  ack_selected_profile :: u32
  ack_agreed_max_request_payload_bytes :: u32
  ack_agreed_max_request_batch_items :: u32
  ack_agreed_max_response_payload_bytes :: u32
  ack_agreed_max_response_batch_items :: u32
  ack_agreed_packet_size :: u32
  ack_session_id :: u64

definition hello_ack_encode :: "hello_ack \<Rightarrow> bytes \<Rightarrow> ('e, usize \<times> bytes) outcome" where
  "hello_ack_encode h buf =
     (if length buf < HELLO_ACK_SIZE then Ok (0, buf)
      else
        rbind (put_u16 buf 0 (ack_layout_version h)) (\<lambda>buf.
        rbind (put_u16 buf 2 (ack_flags h)) (\<lambda>buf.
        rbind (put_u32 buf 4 (ack_server_supported_profiles h)) (\<lambda>buf.
        rbind (put_u32 buf 8 (ack_intersection_profiles h)) (\<lambda>buf.
        rbind (put_u32 buf 12 (ack_selected_profile h)) (\<lambda>buf.
        rbind (put_u32 buf 16 (ack_agreed_max_request_payload_bytes h)) (\<lambda>buf.
        rbind (put_u32 buf 20 (ack_agreed_max_request_batch_items h)) (\<lambda>buf.
        rbind (put_u32 buf 24 (ack_agreed_max_response_payload_bytes h)) (\<lambda>buf.
        rbind (put_u32 buf 28 (ack_agreed_max_response_batch_items h)) (\<lambda>buf.
        rbind (put_u32 buf 32 (ack_agreed_packet_size h)) (\<lambda>buf.
        rbind (put_u32 buf 36 0) (\<lambda>buf.
        rbind (put_u64 buf 40 (ack_session_id h)) (\<lambda>buf.
        Ok (HELLO_ACK_SIZE, buf))))))))))))))"

definition hello_ack_decode :: "bytes \<Rightarrow> hello_ack result" where
  "hello_ack_decode buf =
     (if length buf < HELLO_ACK_SIZE then Err Truncated
      else
        rbind (u16_at buf 0) (\<lambda>layout_version.
        rbind (u16_at buf 2) (\<lambda>flags.
        rbind (u32_at buf 4) (\<lambda>server_supported_profiles.
        rbind (u32_at buf 8) (\<lambda>intersection_profiles.
        rbind (u32_at buf 12) (\<lambda>selected_profile.
        rbind (u32_at buf 16) (\<lambda>agreed_max_request_payload_bytes.
        rbind (u32_at buf 20) (\<lambda>agreed_max_request_batch_items.
        rbind (u32_at buf 24) (\<lambda>agreed_max_response_payload_bytes.
        rbind (u32_at buf 28) (\<lambda>agreed_max_response_batch_items.
        rbind (u32_at buf 32) (\<lambda>agreed_packet_size.
        rbind (u64_at buf 40) (\<lambda>session_id.
        if layout_version \<noteq> 1 then Err BadLayout
        else if flags \<noteq> 0 then Err BadLayout
        else Ok \<lparr>ack_layout_version = layout_version, ack_flags = flags, ack_server_supported_profiles
                  = server_supported_profiles, ack_intersection_profiles =
                  intersection_profiles, ack_selected_profile = selected_profile,
                  ack_agreed_max_request_payload_bytes =
                  agreed_max_request_payload_bytes,
                  ack_agreed_max_request_batch_items =
                  agreed_max_request_batch_items,
                  ack_agreed_max_response_payload_bytes =
                  agreed_max_response_payload_bytes,
                  ack_agreed_max_response_batch_items =
                  agreed_max_response_batch_items, ack_agreed_packet_size =
                  agreed_packet_size, ack_session_id = session_id\<rparr>))))))))))))"

definition hello_ack_wire :: "hello_ack \<Rightarrow> bytes" where
  "hello_ack_wire h =
     u16_to_ne (ack_layout_version h) @ u16_to_ne (ack_flags h) @ u32_to_ne (ack_server_supported_profiles h) @
     u32_to_ne (ack_intersection_profiles h) @ u32_to_ne (ack_selected_profile h) @ u32_to_ne (ack_agreed_max_request_payload_bytes h) @
     u32_to_ne (ack_agreed_max_request_batch_items h) @ u32_to_ne (ack_agreed_max_response_payload_bytes h) @ u32_to_ne (ack_agreed_max_response_batch_items h) @
     u32_to_ne (ack_agreed_packet_size h) @ u32_to_ne 0 @ u64_to_ne (ack_session_id h)"

definition hello_ack_valid :: "hello_ack \<Rightarrow> bool" where
  "hello_ack_valid h \<longleftrightarrow> ack_layout_version h = 1 \<and> ack_flags h = 0"

interpretation ack: fixed_codec HELLO_ACK_SIZE hello_ack_wire hello_ack_valid hello_ack_encode hello_ack_decode
proof (unfold_locales, goal_cases)
  case (1 m)
  then show ?case by (simp add: hello_ack_wire_def HELLO_ACK_SIZE_def)
next
  case (2 buf m)
  then show ?case
    by (simp add: hello_ack_encode_def hello_ack_wire_def HELLO_ACK_SIZE_def append_windows)
next
  case (3 buf m)
  then show ?case by (simp add: hello_ack_encode_def)
next
  case (4 m rest)
  then show ?case
    by (simp add: hello_ack_decode_def hello_ack_wire_def HELLO_ACK_SIZE_def hello_ack_valid_def wire_reads)
next
  case (5 buf)
  then show ?case by (simp add: hello_ack_decode_def)
next
  case (6 buf m)
  then show ?case
    by (auto simp: hello_ack_decode_def HELLO_ACK_SIZE_def hello_ack_valid_def not_less split: if_splits)
next
  case (7 buf)
  then show ?case by (simp add: hello_ack_decode_def HELLO_ACK_SIZE_def)
qed


section \<open>Properties\<close>

text \<open>C20: the four fixed structures of the envelope survive the wire. Encoding a valid header, chunk
  header, HELLO or HELLO_ACK into any large enough buffer writes exactly its size, leaves the bytes
  behind it alone, and decoding the written prefix gives the same structure back.\<close>

theorem envelope_roundtrip:
  assumes "header_valid h" "chunk_header_valid c" "hello_valid he" "hello_ack_valid a" "48 \<le> length buf"
  shows "(\<exists>buf'. header_encode h buf = (Ok (32, buf') :: (nipc_error, _) outcome) \<and>
            header_decode (take 32 buf') = Ok h \<and> drop 32 buf' = drop 32 buf) \<and>
         (\<exists>buf'. chunk_header_encode c buf = (Ok (32, buf') :: (nipc_error, _) outcome) \<and>
            chunk_header_decode (take 32 buf') = Ok c \<and> drop 32 buf' = drop 32 buf) \<and>
         (\<exists>buf'. hello_encode he buf = (Ok (44, buf') :: (nipc_error, _) outcome) \<and>
            hello_decode (take 44 buf') = Ok he \<and> drop 44 buf' = drop 44 buf) \<and>
         (\<exists>buf'. hello_ack_encode a buf = (Ok (48, buf') :: (nipc_error, _) outcome) \<and>
            hello_ack_decode (take 48 buf') = Ok a \<and> drop 48 buf' = drop 48 buf)"
proof (intro conjI)
  note sz = HEADER_SIZE_def HELLO_SIZE_def HELLO_ACK_SIZE_def
  show "\<exists>buf'. header_encode h buf = (Ok (32, buf') :: (nipc_error, _) outcome) \<and>
            header_decode (take 32 buf') = Ok h \<and> drop 32 buf' = drop 32 buf"
    using hdr.roundtrip [OF assms(1), of buf] assms(5) by (auto simp: sz)
  show "\<exists>buf'. chunk_header_encode c buf = (Ok (32, buf') :: (nipc_error, _) outcome) \<and>
            chunk_header_decode (take 32 buf') = Ok c \<and> drop 32 buf' = drop 32 buf"
    using chk.roundtrip [OF assms(2), of buf] assms(5) by (auto simp: sz)
  show "\<exists>buf'. hello_encode he buf = (Ok (44, buf') :: (nipc_error, _) outcome) \<and>
            hello_decode (take 44 buf') = Ok he \<and> drop 44 buf' = drop 44 buf"
    using hello.roundtrip [OF assms(3), of buf] assms(5) by (auto simp: sz)
  show "\<exists>buf'. hello_ack_encode a buf = (Ok (48, buf') :: (nipc_error, _) outcome) \<and>
            hello_ack_decode (take 48 buf') = Ok a \<and> drop 48 buf' = drop 48 buf"
    using ack.roundtrip [OF assms(4), of buf] assms(5) by (auto simp: sz)
qed

definition sample_header :: header where
  "sample_header = header_default\<lparr>hdr_magic := MAGIC_MSG, hdr_version := VERSION,
     hdr_header_len := HEADER_LEN, hdr_kind := KIND_RESPONSE, hdr_message_id := 7\<rparr>"

definition sample_chunk :: chunk_header where
  "sample_chunk = \<lparr>chk_magic = MAGIC_CHUNK, chk_version = VERSION, chk_flags = 0, chk_message_id = 7,
     chk_total_message_len = 100, chk_chunk_index = 1, chk_chunk_count = 2, chk_chunk_payload_len = 40\<rparr>"

definition sample_hello :: hello where
  "sample_hello = \<lparr>hello_layout_version = 1, hello_flags = 0, hello_supported_profiles = 3,
     hello_preferred_profiles = 2, hello_max_request_payload_bytes = 1024, hello_max_request_batch_items = 1,
     hello_max_response_payload_bytes = 1024, hello_max_response_batch_items = 1, hello_auth_token = 99,
     hello_packet_size = 65536\<rparr>"

definition sample_ack :: hello_ack where
  "sample_ack = \<lparr>ack_layout_version = 1, ack_flags = 0, ack_server_supported_profiles = 3,
     ack_intersection_profiles = 3, ack_selected_profile = 2, ack_agreed_max_request_payload_bytes = 1024,
     ack_agreed_max_request_batch_items = 1, ack_agreed_max_response_payload_bytes = 1024,
     ack_agreed_max_response_batch_items = 1, ack_agreed_packet_size = 65536, ack_session_id = 5\<rparr>"

lemma samples_valid:
  "header_valid sample_header" "chunk_header_valid sample_chunk" "hello_valid sample_hello"
  "hello_ack_valid sample_ack"
  by (simp_all add: sample_header_def sample_chunk_def sample_hello_def sample_ack_def header_valid_def
      chunk_header_valid_def hello_valid_def hello_ack_valid_def kind_defs header_default_def)

theorem envelope_roundtrip_witness:
  "\<exists>buf'. header_encode sample_header (replicate 60 1) = (Ok (32, buf') :: (nipc_error, _) outcome) \<and>
      header_decode (take 32 buf') = Ok sample_header \<and> drop 32 buf' = drop 32 (replicate 60 1)"
  using envelope_roundtrip [OF samples_valid, of "replicate 60 1"] by simp

text \<open>C21: the header, chunk header and HELLO decoders accept exactly the canonical encodings of valid
  structures, and none of the four decoders panics on any input. So a decoded structure determines
  the bytes it came from, and every malformed or short buffer is an error value.\<close>

theorem envelope_decode_exact:
  "(header_decode buf = Ok h \<longleftrightarrow> 32 \<le> length buf \<and> take 32 buf = header_wire h \<and> header_valid h) \<and>
   (chunk_header_decode buf = Ok c \<longleftrightarrow>
      32 \<le> length buf \<and> take 32 buf = chunk_header_wire c \<and> chunk_header_valid c) \<and>
   (hello_decode buf = Ok he \<longleftrightarrow> 44 \<le> length buf \<and> take 44 buf = hello_wire he \<and> hello_valid he) \<and>
   header_decode buf \<noteq> Panic \<and> chunk_header_decode buf \<noteq> Panic \<and> hello_decode buf \<noteq> Panic \<and>
   hello_ack_decode buf \<noteq> Panic"
  using hdr.decode_iff [of buf h] chk.decode_iff [of buf c] hello.decode_iff [of buf he]
    hdr.decode_no_panic chk.decode_no_panic hello.decode_no_panic ack.decode_no_panic
  by (simp add: HEADER_SIZE_def HELLO_SIZE_def)

text \<open>C27: two reserved fields of the handshake are not checked. HELLO is accepted with any value of its
  flags, and HELLO_ACK is accepted, and decodes to the same structure, with any bytes in its padding.\<close>

theorem handshake_reserved_unchecked:
  "hello_decode (hello_wire (sample_hello\<lparr>hello_flags := f\<rparr>)) = Ok (sample_hello\<lparr>hello_flags := f\<rparr>) \<and>
   hello_ack_decode (upd (hello_ack_wire sample_ack) 36 (u32_to_ne p)) = Ok sample_ack"
proof
  show "hello_decode (hello_wire (sample_hello\<lparr>hello_flags := f\<rparr>)) = Ok (sample_hello\<lparr>hello_flags := f\<rparr>)"
    using hello.decode_wire [of "sample_hello\<lparr>hello_flags := f\<rparr>" "[]"]
    by (simp add: hello_valid_def sample_hello_def)
  have "upd (hello_ack_wire sample_ack) 36 (u32_to_ne p) =
      take 36 (hello_ack_wire sample_ack) @ u32_to_ne p @ u64_to_ne 5"
    by (simp add: upd_def hello_ack_wire_def sample_ack_def)
  then show "hello_ack_decode (upd (hello_ack_wire sample_ack) 36 (u32_to_ne p)) = Ok sample_ack"
    by (simp add: hello_ack_decode_def HELLO_ACK_SIZE_def hello_ack_wire_def sample_ack_def wire_reads)
qed

end
