(* ===== verification/Packing.thy ===== *)
theory Packing
  imports Envelope
begin

text \<open>
  Reference layout of a packed area: items laid out one after the other, each at the next 8-byte
  boundary with zero padding between them, and the directory of their offsets and lengths. The
  batch builder and the snapshot and lookup response builders all produce this layout; the lemmas
  here are the reader's side, proved once.
\<close>

section \<open>Alignment without a width\<close>

definition al8 :: "nat \<Rightarrow> nat" where
  "al8 v = (v + 7) div 8 * 8"

lemma align8_al8: "v + 7 \<le> USIZE_MAX \<Longrightarrow> align8 v = al8 v"
  by (simp add: align8_eq al8_def)

lemma al8_mod [simp]: "al8 v mod 8 = 0"
  by (simp add: al8_def)

lemma al8_ge: "v \<le> al8 v"
  by (simp add: al8_def)

lemma al8_le: "al8 v \<le> v + 7"
  by (simp add: al8_def)

lemma al8_id [simp]: "v mod 8 = 0 \<Longrightarrow> al8 v = v"
  by (simp add: al8_def) presburger

lemma al8_mono: "v \<le> w \<Longrightarrow> al8 v \<le> al8 w"
  by (simp add: al8_def div_le_mono)

lemma al8_add: "b mod 8 = 0 \<Longrightarrow> al8 (b + v) = b + al8 v"
  by (simp add: al8_def) presburger

lemma al8_least: "v \<le> w \<Longrightarrow> w mod 8 = 0 \<Longrightarrow> al8 v \<le> w"
  using al8_mono [of v w] by simp

section \<open>Packed items\<close>

type_synonym dir = "(nat \<times> nat) list"

definition pack_step :: "dir \<times> bytes \<Rightarrow> bytes \<Rightarrow> dir \<times> bytes" where
  "pack_step st x = (let off = al8 (length (snd st)) in
     (fst st @ [(off, length x)], snd st @ replicate (off - length (snd st)) 0 @ x))"

definition pack :: "bytes list \<Rightarrow> dir \<times> bytes" where
  "pack xs = foldl pack_step ([], []) xs"

abbreviation pack_dir :: "bytes list \<Rightarrow> dir" where
  "pack_dir xs \<equiv> fst (pack xs)"

abbreviation pack_data :: "bytes list \<Rightarrow> bytes" where
  "pack_data xs \<equiv> snd (pack xs)"

lemma pack_Nil [simp]: "pack [] = ([], [])"
  by (simp add: pack_def)

lemma pack_snoc: "pack (xs @ [x]) = pack_step (pack xs) x"
  by (simp add: pack_def)

lemma pack_dir_snoc [simp]:
  "pack_dir (xs @ [x]) = pack_dir xs @ [(al8 (length (pack_data xs)), length x)]"
  by (simp add: pack_snoc pack_step_def Let_def)

lemma pack_data_snoc [simp]:
  "pack_data (xs @ [x]) =
     pack_data xs @ replicate (al8 (length (pack_data xs)) - length (pack_data xs)) 0 @ x"
  by (simp add: pack_snoc pack_step_def Let_def)

lemma length_pack_dir [simp]: "length (pack_dir xs) = length xs"
  by (induction xs rule: rev_induct) simp_all

lemma length_pack_data_snoc: "length (pack_data (xs @ [x])) = al8 (length (pack_data xs)) + length x"
  using al8_ge [of "length (pack_data xs)"] by simp

lemma pack_read:
  assumes "i < length xs" "pack_dir xs ! i = (off, len)"
  shows "off mod 8 = 0 \<and> len = length (xs ! i) \<and> off + len \<le> length (pack_data xs) \<and>
         sub (pack_data xs) off len = xs ! i"
  using assms
proof (induction xs rule: rev_induct)
  case Nil
  then show ?case by simp
next
  case (snoc x xs)
  show ?case
  proof (cases "i < length xs")
    case True
    with snoc have "off mod 8 = 0 \<and> len = length (xs ! i) \<and> off + len \<le> length (pack_data xs) \<and>
         sub (pack_data xs) off len = xs ! i" by (auto simp: nth_append)
    with True show ?thesis by (auto simp: nth_append sub_append_left)
  next
    case False
    with snoc.prems have "i = length xs" "off = al8 (length (pack_data xs))" "len = length x"
      by (simp_all add: nth_append)
    then show ?thesis
      using al8_ge [of "length (pack_data xs)"] by (simp add: nth_append sub_append_right)
  qed
qed

lemma pack_len: "i < length xs \<Longrightarrow> snd (pack_dir xs ! i) = length (xs ! i)"
  using pack_read [of i xs "fst (pack_dir xs ! i)" "snd (pack_dir xs ! i)"] by simp

text \<open>Entries come in order and never overlap.\<close>

lemma pack_ordered:
  assumes "i < j" "j < length xs"
  shows "fst (pack_dir xs ! i) + snd (pack_dir xs ! i) \<le> fst (pack_dir xs ! j)"
  using assms
proof (induction xs rule: rev_induct)
  case Nil
  then show ?case by simp
next
  case (snoc x xs)
  show ?case
  proof (cases "j < length xs")
    case True
    with snoc show ?thesis by (simp add: nth_append)
  next
    case False
    with snoc.prems have j: "j = length xs" "i < length xs" by auto
    then have "fst (pack_dir xs ! i) + snd (pack_dir xs ! i) \<le> length (pack_data xs)"
      using pack_read [of i xs] by (metis prod.collapse)
    with j show ?thesis by (simp add: nth_append order_trans [OF _ al8_ge])
  qed
qed

lemma pack_prefix:
  assumes "xs = ys @ zs"
  shows "\<exists>d e. pack_dir xs = pack_dir ys @ d \<and> pack_data xs = pack_data ys @ e"
  using assms
proof (induction zs arbitrary: xs rule: rev_induct)
  case Nil
  then show ?case by simp
next
  case (snoc z zs)
  then obtain d e where
    "pack_dir (ys @ zs) = pack_dir ys @ d" "pack_data (ys @ zs) = pack_data ys @ e" by blast
  moreover have "xs = (ys @ zs) @ [z]" using snoc.prems by simp
  ultimately have
    "pack_dir xs = pack_dir ys @ d @ [(al8 (length (pack_data (ys @ zs))), length z)]"
    "\<exists>p. pack_data xs = pack_data ys @ e @ p"
    by (simp_all del: append_assoc, simp_all)
  then show ?case by blast
qed

lemma pack_dir_first: "xs \<noteq> [] \<Longrightarrow> fst (pack_dir xs ! 0) = 0"
  using pack_prefix [of xs "[hd xs]" "tl xs"]
  by (cases xs) (auto simp: pack_def pack_step_def Let_def nth_append al8_def)

section \<open>Directory bytes\<close>

definition entry_wire :: "nat \<times> nat \<Rightarrow> bytes" where
  "entry_wire e = u32_to_ne (word_of_nat (fst e)) @ u32_to_ne (word_of_nat (snd e))"

definition dir_wire :: "dir \<Rightarrow> bytes" where
  "dir_wire d = concat (map entry_wire d)"

lemma length_entry_wire [simp]: "length (entry_wire e) = 8"
  by (simp add: entry_wire_def)

lemma length_dir_wire [simp]: "length (dir_wire d) = length d * 8"
  by (induction d) (simp_all add: dir_wire_def)

lemma dir_wire_append [simp]: "dir_wire (d @ e) = dir_wire d @ dir_wire e"
  by (simp add: dir_wire_def)

lemma dir_wire_single [simp]: "dir_wire [e] = entry_wire e"
  by (simp add: dir_wire_def)

lemma sub_dir_wire: "i < length d \<Longrightarrow> sub (dir_wire d) (i * 8) 8 = entry_wire (d ! i)"
proof (induction d arbitrary: i)
  case Nil
  then show ?case by simp
next
  case (Cons e d)
  have e: "dir_wire (e # d) = entry_wire e @ dir_wire d" by (simp add: dir_wire_def)
  show ?case
  proof (cases i)
    case 0
    then show ?thesis by (simp add: e sub_append_left)
  next
    case (Suc k)
    with Cons show ?thesis by (simp add: e sub_append_right)
  qed
qed

lemma rd32_sub: "off + 4 \<le> n \<Longrightarrow> rd32 (sub buf base n) off = rd32 buf (base + off)"
  by (simp add: rd32_def sub_sub)

text \<open>Reading an entry back from a buffer that carries the directory at \<open>base\<close>.\<close>

lemma dir_wire_read:
  assumes "sub buf base (length d * 8) = dir_wire d" "i < length d"
  shows "rd32 buf (base + i * 8) = word_of_nat (fst (d ! i))"
    and "rd32 buf (base + i * 8 + 4) = word_of_nat (snd (d ! i))"
proof -
  have "sub buf (base + i * 8) 8 = sub (sub buf base (length d * 8)) (i * 8) 8"
    using assms(2) by (simp add: sub_sub)
  also have "\<dots> = entry_wire (d ! i)" by (simp add: assms sub_dir_wire)
  finally have e: "sub buf (base + i * 8) 8 = entry_wire (d ! i)" .
  have "rd32 buf (base + i * 8) = rd32 (sub buf (base + i * 8) 8) 0" by (simp add: rd32_sub)
  then show "rd32 buf (base + i * 8) = word_of_nat (fst (d ! i))"
    by (simp add: e entry_wire_def rd_here)
  have "rd32 buf (base + i * 8 + 4) = rd32 (sub buf (base + i * 8) 8) 4" by (simp add: rd32_sub)
  then show "rd32 buf (base + i * 8 + 4) = word_of_nat (snd (d ! i))"
    by (simp add: e entry_wire_def wire_reads)
qed

text \<open>Appending one entry behind a directory of \<open>n\<close> entries.\<close>

lemma dir_wire_write:
  assumes "sub buf base (n * 8) = dir_wire d" "n = length d" "base + n * 8 + 8 \<le> length buf"
  shows "sub (upd (upd buf (base + n * 8) (u32_to_ne (word_of_nat o1)))
                  (base + n * 8 + 4) (u32_to_ne (word_of_nat l1))) base (n * 8 + 8)
         = dir_wire (d @ [(o1, l1)])"
proof -
  let ?u = "upd (upd buf (base + n * 8) (u32_to_ne (word_of_nat o1)))
                  (base + n * 8 + 4) (u32_to_ne (word_of_nat l1))"
  have "sub ?u base (n * 8 + 8) = sub ?u base (n * 8) @ sub ?u (base + n * 8) 4 @ sub ?u (base + n * 8 + 4) 4"
    by (simp add: sub_join_end)
  also have "sub ?u base (n * 8) = dir_wire d"
    using assms by (simp add: sub_upd_disjoint)
  also have "sub ?u (base + n * 8) 4 = u32_to_ne (word_of_nat o1)"
    using assms by (simp add: sub_upd_disjoint)
  also have "sub ?u (base + n * 8 + 4) 4 = u32_to_ne (word_of_nat l1)"
    using assms by simp
  finally show ?thesis by (simp add: entry_wire_def)
qed

lemma unat_word32 [simp]: "n < 4294967296 \<Longrightarrow> unat (word_of_nat n :: u32) = n"
  by (simp add: unat_of_nat)


lemma dir_wire_update:
  assumes "sub buf base (length d * 8) = dir_wire d" "k < length d" "base + length d * 8 \<le> length buf"
  shows "sub (upd buf (base + k * 8) (u32_to_ne (word_of_nat o1))) base (length d * 8)
         = dir_wire (d[k := (o1, snd (d ! k))])"
proof -
  let ?u = "upd buf (base + k * 8) (u32_to_ne (word_of_nat o1))"
  have d: "d = take k d @ d ! k # drop (Suc k) d" using assms(2) by (simp add: id_take_nth_drop)
  have cons: "dir_wire (e # es) = entry_wire e @ dir_wire es" for e es by (simp add: dir_wire_def)
  have w: "dir_wire d = dir_wire (take k d) @ entry_wire (d ! k) @ dir_wire (drop (Suc k) d)"
    by (subst d) (simp add: cons)
  have "sub buf base (length d * 8) = sub buf base (k * 8) @ sub buf (base + k * 8) 8 @
      sub buf (base + k * 8 + 8) ((length d - Suc k) * 8)" for buf :: bytes
    using assms(2) by (simp add: sub_join_end algebra_simps)
  note split = this
  have b: "sub buf base (k * 8) = dir_wire (take k d)" "sub buf (base + k * 8) 8 = entry_wire (d ! k)"
      "sub buf (base + k * 8 + 8) ((length d - Suc k) * 8) = dir_wire (drop (Suc k) d)"
    using assms w split [of buf] by (auto simp: append_eq_append_conv)
  have "sub ?u (base + k * 8) 8 = sub ?u (base + k * 8) 4 @ sub ?u (base + k * 8 + 4) 4"
    by (simp add: sub_join_end)
  also have "\<dots> = u32_to_ne (word_of_nat o1) @ sub buf (base + k * 8 + 4) 4"
    using assms by (simp add: sub_upd_disjoint)
  also have "sub buf (base + k * 8 + 4) 4 = sub (sub buf (base + k * 8) 8) 4 4"
    by (simp add: sub_sub)
  also have "\<dots> = u32_to_ne (word_of_nat (snd (d ! k)))"
    by (simp add: b entry_wire_def sub_append_right)
  finally have e: "sub ?u (base + k * 8) 8 = entry_wire (o1, snd (d ! k))" by (simp add: entry_wire_def)
  have "sub ?u base (k * 8) = dir_wire (take k d)"
      "sub ?u (base + k * 8 + 8) ((length d - Suc k) * 8) = dir_wire (drop (Suc k) d)"
    using assms b by (simp_all add: sub_upd_disjoint algebra_simps)
  then show ?thesis
    using assms(2) e by (simp add: split [of ?u] upd_conv_take_nth_drop cons)
qed

section \<open>Directories that hold absolute offsets while items are being added\<close>

text \<open>
  The response builders reserve \<open>base - hdr\<close> bytes of directory behind a header of \<open>hdr\<close> bytes and
  store absolute item offsets; \<open>finish\<close> moves the packed data up against the used part of the
  directory and makes the offsets relative.
\<close>

definition dir_shift :: "nat \<Rightarrow> dir \<Rightarrow> dir" where
  "dir_shift b d = map (\<lambda>e. (b + fst e, snd e)) d"

lemma length_dir_shift [simp]: "length (dir_shift b d) = length d"
  by (simp add: dir_shift_def)

lemma nth_dir_shift [simp]: "i < length d \<Longrightarrow> dir_shift b d ! i = (b + fst (d ! i), snd (d ! i))"
  by (simp add: dir_shift_def)

definition packed_at :: "bytes \<Rightarrow> nat \<Rightarrow> nat \<Rightarrow> nat \<Rightarrow> bytes list \<Rightarrow> bool" where
  "packed_at buf hdr base off xs \<longleftrightarrow>
     hdr + length xs * 8 \<le> base \<and> base mod 8 = 0 \<and> off = base + length (pack_data xs) \<and>
     off \<le> length buf \<and> sub buf hdr (length xs * 8) = dir_wire (dir_shift base (pack_dir xs)) \<and>
     sub buf base (length (pack_data xs)) = pack_data xs"

lemma packed_at_Nil: "packed_at buf hdr base base [] \<longleftrightarrow> hdr \<le> base \<and> base mod 8 = 0 \<and> base \<le> length buf"
  by (auto simp: packed_at_def dir_shift_def dir_wire_def)

text \<open>The same area with offsets stored relative to any origin \<open>s\<close>: requests store them relative to the
  packed area at once (\<open>s = 0\<close>), response builders store absolute ones (\<open>s = base\<close>).\<close>

definition packed_gen :: "nat \<Rightarrow> bytes \<Rightarrow> nat \<Rightarrow> nat \<Rightarrow> nat \<Rightarrow> bytes list \<Rightarrow> bool" where
  "packed_gen s buf hdr base off xs \<longleftrightarrow>
     hdr + length xs * 8 \<le> base \<and> base mod 8 = 0 \<and> off = base + length (pack_data xs) \<and>
     off \<le> length buf \<and> sub buf hdr (length xs * 8) = dir_wire (dir_shift s (pack_dir xs)) \<and>
     sub buf base (length (pack_data xs)) = pack_data xs"

lemma packed_at_gen: "packed_at buf hdr base off xs = packed_gen base buf hdr base off xs"
  by (simp add: packed_at_def packed_gen_def)

lemma dir_shift_0 [simp]: "dir_shift 0 d = d"
  by (simp add: dir_shift_def)

lemma packed_gen_append:
  assumes p: "packed_gen s buf hdr base off xs" and room: "hdr + length xs * 8 + 8 \<le> base"
    and o1: "o1 = al8 off" and fit: "o1 + length x \<le> length buf" and ent: "ent + base = s + o1"
    and b2: "buf2 = upd (upd buf off (replicate (o1 - off) 0)) o1 x"
  shows "packed_gen s (upd (upd buf2 (hdr + length xs * 8) (u32_to_ne (word_of_nat ent)))
            (hdr + length xs * 8 + 4) (u32_to_ne (word_of_nat (length x)))) hdr base (o1 + length x) (xs @ [x])"
proof -
  let ?d = "pack_data xs" and ?n = "length xs"
  let ?b3 = "upd (upd buf2 (hdr + ?n * 8) (u32_to_ne (word_of_nat ent)))
            (hdr + ?n * 8 + 4) (u32_to_ne (word_of_nat (length x)))"
  have b: "base mod 8 = 0" "off = base + length ?d" "off \<le> length buf"
    "sub buf hdr (?n * 8) = dir_wire (dir_shift s (pack_dir xs))" "sub buf base (length ?d) = ?d"
    using p by (auto simp: packed_gen_def)
  have oo: "o1 = base + al8 (length ?d)" using o1 b by (simp add: al8_add)
  have en: "ent = s + al8 (length ?d)" using ent oo by simp
  have g: "length ?d \<le> al8 (length ?d)" by (rule al8_ge)
  define q where "q = al8 (length ?d)"
  have l2: "length buf2 = length buf" using b2 fit oo g b by simp
  have "sub buf2 base (q + length x) = sub buf2 base (length ?d) @
      sub buf2 off (q - length ?d) @ sub buf2 o1 (length x)"
    using g oo b(2) by (simp add: sub_join_end q_def)
  also have "\<dots> = ?d @ replicate (q - length ?d) 0 @ x"
    using b fit g oo b2 by (simp add: sub_upd_disjoint q_def)
  finally have data: "sub buf2 base (q + length x) = pack_data (xs @ [x])" by (simp add: q_def)
  have "sub buf2 hdr (?n * 8) = dir_wire (dir_shift s (pack_dir xs))"
    using b fit g oo b2 room by (simp add: sub_upd_disjoint)
  then have "sub ?b3 hdr (?n * 8 + 8) = dir_wire (dir_shift s (pack_dir xs) @ [(ent, length x)])"
    using l2 room b by (intro dir_wire_write) auto
  moreover have "sub ?b3 base (q + length x) = pack_data (xs @ [x])"
    using data l2 room fit oo by (simp add: sub_upd_disjoint q_def)
  moreover have "length ?b3 = length buf" using l2 room b by simp
  ultimately show ?thesis
    using room fit b oo en
    by (simp add: packed_gen_def length_pack_data_snoc q_def dir_shift_def add.commute del: pack_data_snoc)
qed

lemma packed_at_append:
  assumes "packed_at buf hdr base off xs" "hdr + length xs * 8 + 8 \<le> base"
    and "o1 = al8 off" "o1 + length x \<le> length buf"
    and "buf2 = upd (upd buf off (replicate (o1 - off) 0)) o1 x"
  shows "packed_at (upd (upd buf2 (hdr + length xs * 8) (u32_to_ne (word_of_nat o1)))
            (hdr + length xs * 8 + 4) (u32_to_ne (word_of_nat (length x)))) hdr base (o1 + length x) (xs @ [x])"
  using assms unfolding packed_at_gen by (intro packed_gen_append) simp_all


definition packed_final :: "bytes \<Rightarrow> nat \<Rightarrow> bytes list \<Rightarrow> bool" where
  "packed_final buf hdr xs \<longleftrightarrow>
     hdr + length xs * 8 + length (pack_data xs) \<le> length buf \<and>
     sub buf hdr (length xs * 8) = dir_wire (pack_dir xs) \<and>
     sub buf (hdr + length xs * 8) (length (pack_data xs)) = pack_data xs"

lemma packed_shift:
  assumes "packed_at buf hdr base off xs" "start = hdr + length xs * 8"
    and "buf1 = (if start < base then upd buf start (sub buf base (off - base)) else buf)"
  shows "length buf1 = length buf \<and>
     sub buf1 hdr (length xs * 8) = dir_wire (dir_shift base (pack_dir xs)) \<and>
     sub buf1 start (length (pack_data xs)) = pack_data xs"
  using assms by (auto simp: packed_at_def sub_upd_disjoint split: if_splits)

lemma rel_step:
  assumes "sub buf hdr (length d * 8) = dir_wire (take k d @ drop k (dir_shift b d))"
    and "k < length d" "hdr + length d * 8 \<le> length buf"
  shows "rd32 buf (hdr + k * 8) = word_of_nat (b + fst (d ! k))"
    and "sub (upd buf (hdr + k * 8) (u32_to_ne (word_of_nat (fst (d ! k))))) hdr (length d * 8) =
           dir_wire (take (Suc k) d @ drop (Suc k) (dir_shift b d))"
proof -
  let ?m = "take k d @ drop k (dir_shift b d)"
  have k: "?m ! k = (b + fst (d ! k), snd (d ! k))" using assms(2) by (simp add: nth_append)
  have "sub buf hdr (length ?m * 8) = dir_wire ?m" using assms by simp
  note r = dir_wire_read(1) [OF this, of k] dir_wire_update [OF this, of k "fst (d ! k)"]
  show "rd32 buf (hdr + k * 8) = word_of_nat (b + fst (d ! k))"
    using r(1) k assms(2) by simp
  have "?m [k := (fst (d ! k), snd (?m ! k))] = take (Suc k) d @ drop (Suc k) (dir_shift b d)"
    using assms(2) k
    by (simp add: list_update_append take_Suc_conv_app_nth Cons_nth_drop_Suc [symmetric])
  with r(2) assms show "sub (upd buf (hdr + k * 8) (u32_to_ne (word_of_nat (fst (d ! k))))) hdr (length d * 8) =
      dir_wire (take (Suc k) d @ drop (Suc k) (dir_shift b d))" by simp
qed

lemma packed_final_read:
  assumes "packed_final buf hdr xs" "length (pack_data xs) < 2 ^ 32" "i < length xs"
  shows "unat (rd32 buf (hdr + i * 8)) = fst (pack_dir xs ! i)"
    and "unat (rd32 buf (hdr + i * 8 + 4)) = length (xs ! i)"
    and "fst (pack_dir xs ! i) + length (xs ! i) \<le> length (pack_data xs)"
    and "fst (pack_dir xs ! i) mod 8 = 0"
    and "sub buf (hdr + length xs * 8 + fst (pack_dir xs ! i)) (length (xs ! i)) = xs ! i"
proof -
  obtain off len where e: "pack_dir xs ! i = (off, len)" by fastforce
  note r = pack_read [OF assms(3) e]
  have d: "sub buf hdr (length (pack_dir xs) * 8) = dir_wire (pack_dir xs)"
    using assms by (simp add: packed_final_def)
  show "unat (rd32 buf (hdr + i * 8)) = fst (pack_dir xs ! i)"
    "unat (rd32 buf (hdr + i * 8 + 4)) = length (xs ! i)"
    using dir_wire_read [OF d, of i] r e assms by simp_all
  show "fst (pack_dir xs ! i) + length (xs ! i) \<le> length (pack_data xs)" "fst (pack_dir xs ! i) mod 8 = 0"
    using r e by simp_all
  have "sub buf (hdr + length xs * 8 + off) len =
      sub (sub buf (hdr + length xs * 8) (length (pack_data xs))) off len" using r by (simp add: sub_sub)
  also have "\<dots> = xs ! i" using r assms(1) by (auto simp: packed_final_def)
  finally show "sub buf (hdr + length xs * 8 + fst (pack_dir xs ! i)) (length (xs ! i)) = xs ! i"
    using r e by simp
qed

lemma packed_final_take:
  "packed_final buf hdr xs \<Longrightarrow> hdr + length xs * 8 + length (pack_data xs) \<le> k \<Longrightarrow> packed_final (take k buf) hdr xs"
  by (simp add: packed_final_def sub_take)


section \<open>Checked narrowing\<close>

definition checked_u32 :: "usize \<Rightarrow> u32 result" where
  "checked_u32 value = (if value < 2 ^ 32 then Ok (word_of_nat value) else Err Overflow)"

definition checked_u16 :: "usize \<Rightarrow> u16 result" where
  "checked_u16 value = (if value < 2 ^ 16 then Ok (word_of_nat value) else Err Overflow)"

lemma checked_u32_ok [simp]: "value < 4294967296 \<Longrightarrow> checked_u32 value = Ok (word_of_nat value)"
  by (simp add: checked_u32_def)

lemma checked_u16_ok [simp]: "value < 65536 \<Longrightarrow> checked_u16 value = Ok (word_of_nat value)"
  by (simp add: checked_u16_def)

lemma checked_narrow_Ok:
  "checked_u32 value = Ok w \<longleftrightarrow> value < 2 ^ 32 \<and> w = word_of_nat value"
  "checked_u16 value = Ok h \<longleftrightarrow> value < 2 ^ 16 \<and> h = word_of_nat value"
  by (auto simp: checked_u32_def checked_u16_def)

lemma checked_narrow_no_panic [no_panic, simp]:
  "checked_u32 value \<noteq> Panic" "checked_u16 value \<noteq> Panic"
  by (simp_all add: checked_u32_def checked_u16_def)

lemma unat_word16 [simp]: "n < 65536 \<Longrightarrow> unat (word_of_nat n :: u16) = n"
  by (simp add: unat_of_nat)


section \<open>The contract of a builder\<close>

text \<open>
  A builder accumulates items: \<open>inv b es\<close> says that \<open>b\<close> holds exactly the items \<open>es\<close>. As long as an
  item fits behind those already added, \<open>add\<close> accepts it and extends the contents by it; otherwise it
  reports an overflow. The batch builder and the snapshot builder meet this contract.
\<close>

fun add_seq :: "('e \<Rightarrow> 'b \<Rightarrow> 'b result) \<Rightarrow> 'e list \<Rightarrow> 'b \<Rightarrow> 'b result" where
  "add_seq add [] b = Ok b"
| "add_seq add (e # es) b = rbind (add e b) (add_seq add es)"

locale item_builder =
  fixes inv :: "'b \<Rightarrow> 'e list \<Rightarrow> bool"
    and fits :: "'e list \<Rightarrow> 'e \<Rightarrow> bool"
    and add :: "'e \<Rightarrow> 'b \<Rightarrow> 'b result"
  assumes add_ok: "inv b es \<Longrightarrow> fits es e \<Longrightarrow> \<exists>b'. add e b = Ok b' \<and> inv b' (es @ [e])"
    and add_full: "inv b es \<Longrightarrow> \<not> fits es e \<Longrightarrow> add e b = Err Overflow"
begin

lemma add_no_panic: "inv b es \<Longrightarrow> add e b \<noteq> Panic"
  using add_ok [of b es e] add_full [of b es e] by (cases "fits es e") auto

lemma add_step: "inv b es \<Longrightarrow> add e b = Ok b' \<Longrightarrow> inv b' (es @ [e]) \<and> fits es e"
  using add_ok [of b es e] add_full [of b es e] by (cases "fits es e") auto

lemma add_seq_ok:
  assumes "inv b es" "\<And>ys y zs. xs = ys @ y # zs \<Longrightarrow> fits (es @ ys) y"
  shows "\<exists>b'. add_seq add xs b = Ok b' \<and> inv b' (es @ xs)"
  using assms
proof (induction xs arbitrary: b es)
  case Nil
  then show ?case by simp
next
  case (Cons x xs)
  then have "fits es x" using Cons.prems(2) [of "[]" x xs] by simp
  then obtain b1 where b1: "add x b = Ok b1" "inv b1 (es @ [x])" using add_ok Cons.prems(1) by blast
  have "\<exists>b'. add_seq add xs b1 = Ok b' \<and> inv b' ((es @ [x]) @ xs)"
    using b1(2)
  proof (rule Cons.IH)
    fix ys y zs assume "xs = ys @ y # zs"
    then show "fits ((es @ [x]) @ ys) y" using Cons.prems(2) [of "x # ys" y zs] by simp
  qed
  with b1 show ?case by simp
qed

end

lemma pack_data_le: "length (pack_data ys) \<le> length (pack_data (ys @ zs))"
  using pack_prefix [of "ys @ zs" ys zs] by auto

lemma pack_total: "al8 (length (pack_data xs)) = sum_list (map (\<lambda>x. al8 (length x)) xs)"
proof (induction xs rule: rev_induct)
  case Nil
  then show ?case by (simp add: al8_def)
next
  case (snoc x xs)
  have "al8 (length (pack_data (xs @ [x]))) = al8 (length (pack_data xs)) + al8 (length x)"
    by (simp only: length_pack_data_snoc al8_add al8_mod)
  with snoc show ?case by (simp del: pack_data_snoc)
qed

lemma pack_data_step:
  "xs = ys @ y # zs \<Longrightarrow> al8 (length (pack_data ys)) + length y \<le> length (pack_data xs)"
  using pack_data_le [of "ys @ [y]" zs] by (simp add: length_pack_data_snoc del: pack_data_snoc)

end
