(* ===== verification/Batch.thy ===== *)
theory Batch
  imports Packing
begin

text \<open>
  The batch item directory and the batch builder of \<open>protocol/mod.rs\<close>. The builder is related to
  the reference layout of \<open>Packing\<close> by an invariant over the list of items added so far; the
  reader's functions are shown to recover exactly those items.
\<close>

section \<open>Batch item directory\<close>

record batch_entry =
  be_offset :: u32
  be_length :: u32

fun batch_dir_put :: "batch_entry list \<Rightarrow> usize \<Rightarrow> bytes \<Rightarrow> ('e, bytes) outcome" where
  "batch_dir_put [] i buf = Ok buf"
| "batch_dir_put (e # es) i buf =
     rbind (put_u32 buf (i * 8) (be_offset e)) (\<lambda>buf.
     rbind (put_u32 buf (i * 8 + 4) (be_length e)) (\<lambda>buf.
     batch_dir_put es (i + 1) buf))"

definition batch_dir_encode :: "batch_entry list \<Rightarrow> bytes \<Rightarrow> ('e, usize \<times> bytes) outcome" where
  "batch_dir_encode entries buf =
     (let need = length entries * 8 in
      if length buf < need then Ok (0, buf)
      else rbind (batch_dir_put entries 0 buf) (\<lambda>buf. Ok (need, buf)))"

fun batch_dir_decode_loop :: "bytes \<Rightarrow> u32 \<Rightarrow> usize \<Rightarrow> nat \<Rightarrow> batch_entry list result" where
  "batch_dir_decode_loop buf packed_area_len i 0 = Ok []"
| "batch_dir_decode_loop buf packed_area_len i (Suc left) =
     rbind (u32_at buf (i * 8)) (\<lambda>offset.
     rbind (u32_at buf (i * 8 + 4)) (\<lambda>len.
     if unat offset mod ALIGNMENT \<noteq> 0 then Err BadAlignment
     else if unat offset + unat len > unat packed_area_len then Err OutOfBounds
     else rbind (batch_dir_decode_loop buf packed_area_len (i + 1) left) (\<lambda>out.
          Ok (\<lparr>be_offset = offset, be_length = len\<rparr> # out))))"

definition batch_dir_decode :: "bytes \<Rightarrow> u32 \<Rightarrow> u32 \<Rightarrow> batch_entry list result" where
  "batch_dir_decode buf item_count packed_area_len =
     rbind (ok_or (checked_mul (unat item_count) 8) BadLayout) (\<lambda>dir_size.
     if length buf < dir_size then Err Truncated
     else batch_dir_decode_loop buf packed_area_len 0 (unat item_count))"

fun batch_dir_validate_loop :: "bytes \<Rightarrow> u32 \<Rightarrow> usize \<Rightarrow> nat \<Rightarrow> unit result" where
  "batch_dir_validate_loop buf packed_area_len i 0 = Ok ()"
| "batch_dir_validate_loop buf packed_area_len i (Suc left) =
     rbind (u32_at buf (i * 8)) (\<lambda>offset.
     rbind (u32_at buf (i * 8 + 4)) (\<lambda>len.
     if unat offset mod ALIGNMENT \<noteq> 0 then Err BadAlignment
     else if unat offset + unat len > unat packed_area_len then Err OutOfBounds
     else batch_dir_validate_loop buf packed_area_len (i + 1) left))"

definition batch_dir_validate :: "bytes \<Rightarrow> u32 \<Rightarrow> u32 \<Rightarrow> unit result" where
  "batch_dir_validate buf item_count packed_area_len =
     rbind (ok_or (checked_mul (unat item_count) 8) BadLayout) (\<lambda>dir_size.
     if length buf < dir_size then Err Truncated
     else batch_dir_validate_loop buf packed_area_len 0 (unat item_count))"

definition batch_item_get :: "bytes \<Rightarrow> u32 \<Rightarrow> u32 \<Rightarrow> (bytes \<times> u32) result" where
  "batch_item_get payload item_count idx =
     (if idx \<ge> item_count then Err OutOfBounds
      else
        rbind (ok_or (checked_mul (unat item_count) 8) BadLayout) (\<lambda>dir_size.
        let dir_aligned = align8 dir_size in
        if length payload < dir_aligned then Err Truncated
        else
          let base = unat idx * 8 in
          rbind (u32_at payload base) (\<lambda>off.
          rbind (u32_at payload (base + 4)) (\<lambda>len.
          let packed_area_start = dir_aligned;
              packed_area_len = length payload - packed_area_start in
          if unat off mod ALIGNMENT \<noteq> 0 then Err BadAlignment
          else if unat off + unat len > packed_area_len then Err OutOfBounds
          else
            let start = packed_area_start + unat off; fin = start + unat len in
            rbind (slice_rng payload start fin) (\<lambda>item. Ok (item, len))))))"

section \<open>Batch builder\<close>

record batch_builder =
  bb_buf :: bytes
  bb_item_count :: u32
  bb_max_items :: u32
  bb_dir_end :: usize
  bb_data_offset :: usize

definition batch_new :: "bytes \<Rightarrow> u32 \<Rightarrow> batch_builder" where
  "batch_new buf max_items =
     \<lparr>bb_buf = buf, bb_item_count = 0, bb_max_items = max_items,
      bb_dir_end = align8 (unat max_items * 8), bb_data_offset = 0\<rparr>"

definition batch_add :: "bytes \<Rightarrow> batch_builder \<Rightarrow> batch_builder result" where
  "batch_add item b =
     (if bb_item_count b \<ge> bb_max_items b then Err Overflow
      else
        let aligned_off = align8 (bb_data_offset b);
            abs_pos = bb_dir_end b + aligned_off in
        if abs_pos + length item > length (bb_buf b) then Err Overflow
        else
          rbind (if aligned_off > bb_data_offset b
                 then fill (bb_buf b) (bb_dir_end b + bb_data_offset b) (bb_dir_end b + aligned_off) 0
                 else Ok (bb_buf b)) (\<lambda>buf.
          rbind (copy_from_slice buf abs_pos (abs_pos + length item) item) (\<lambda>buf.
          let dir_base = unat (bb_item_count b) * 8 in
          rbind (put_u32 buf dir_base (word_of_nat aligned_off)) (\<lambda>buf.
          rbind (put_u32 buf (dir_base + 4) (word_of_nat (length item))) (\<lambda>buf.
          Ok (b\<lparr>bb_buf := buf, bb_data_offset := aligned_off + length item,
                bb_item_count := bb_item_count b + 1\<rparr>))))))"

definition batch_finish :: "batch_builder \<Rightarrow> ('e, (usize \<times> u32) \<times> bytes) outcome" where
  "batch_finish b =
     (let count = bb_item_count b;
          final_dir_aligned = align8 (unat count * 8) in
      rbind (if final_dir_aligned < bb_dir_end b \<and> bb_data_offset b > 0
             then copy_within (bb_buf b) (bb_dir_end b) (bb_dir_end b + bb_data_offset b) final_dir_aligned
             else Ok (bb_buf b)) (\<lambda>buf.
      let total = final_dir_aligned + align8 (bb_data_offset b) in
      rbind (if total < length buf
             then let pad_start = final_dir_aligned + bb_data_offset b in
                  if pad_start < total then fill buf pad_start total 0 else Ok buf
             else Ok buf) (\<lambda>buf.
      Ok ((total, count), buf))))"

section \<open>Directory lemmas\<close>

lemma align8_dir [simp]: "align8 (unat (n :: u32) * 8) = unat n * 8"
  using u32_lt [of n] by (simp add: align8_al8 USIZE_MAX_def)

definition batch_entry_ok :: "u32 \<Rightarrow> batch_entry \<Rightarrow> bool" where
  "batch_entry_ok packed e \<longleftrightarrow>
     unat (be_offset e) mod ALIGNMENT = 0 \<and> unat (be_offset e) + unat (be_length e) \<le> unat packed"

definition batch_entry_at :: "bytes \<Rightarrow> nat \<Rightarrow> batch_entry" where
  "batch_entry_at buf i = \<lparr>be_offset = rd32 buf (i * 8), be_length = rd32 buf (i * 8 + 4)\<rparr>"

lemma batch_dir_decode_loop_ok:
  "(i + n) * 8 \<le> length buf \<Longrightarrow>
   batch_dir_decode_loop buf p i n = Ok es \<longleftrightarrow>
     es = map (batch_entry_at buf) [i..<i + n] \<and> (\<forall>e\<in>set es. batch_entry_ok p e)"
proof (induction n arbitrary: i es)
  case 0
  then show ?case by auto
next
  case (Suc n)
  have "[i..<i + Suc n] = i # [Suc i..<Suc i + n]" by (simp add: upt_conv_Cons del: upt_Suc)
  with Suc.prems Suc.IH [of "Suc i"] show ?case
    by (auto simp: rbind_eq_Ok batch_entry_at_def batch_entry_ok_def not_less)
qed

lemma batch_dir_validate_loop_decode:
  "batch_dir_validate_loop buf p i n = rbind (batch_dir_decode_loop buf p i n) (\<lambda>_. Ok ())"
proof (induction n arbitrary: i)
  case 0
  then show ?case by simp
next
  case (Suc n)
  have "rbind (rbind m (\<lambda>es. Ok (e # es))) (\<lambda>_. Ok ()) = rbind m (\<lambda>_. Ok ())"
    for m :: "batch_entry list result" and e by (cases m) auto
  with Suc show ?case
    by (cases "u32_at buf (i * 8) :: u32 result"; cases "u32_at buf (i * 8 + 4) :: u32 result") auto
qed

lemma batch_dir_decode_loop_no_panic [no_panic]:
  "(i + n) * 8 \<le> length buf \<Longrightarrow> batch_dir_decode_loop buf p i n \<noteq> Panic"
proof (induction n arbitrary: i)
  case 0
  then show ?case by simp
next
  case (Suc n)
  then have "batch_dir_decode_loop buf p (i + 1) n \<noteq> Panic" by simp
  with Suc.prems show ?case by (auto simp: rbind_eq_Panic)
qed

lemma batch_dir_decode_no_panic [no_panic]: "batch_dir_decode buf n p \<noteq> Panic"
  by (simp add: batch_dir_decode_def batch_dir_decode_loop_no_panic)

lemma batch_dir_decode_ok:
  "batch_dir_decode buf n p = Ok es \<longleftrightarrow>
     unat n * 8 \<le> length buf \<and> es = map (batch_entry_at buf) [0..<unat n] \<and>
     (\<forall>e\<in>set es. batch_entry_ok p e)"
  by (auto simp: batch_dir_decode_def batch_dir_decode_loop_ok)

lemma batch_dir_validate_decode:
  "batch_dir_validate buf n p = rbind (batch_dir_decode buf n p) (\<lambda>_. Ok ())"
  by (simp add: batch_dir_validate_def batch_dir_decode_def batch_dir_validate_loop_decode)

lemma batch_dir_validate_ok:
  "batch_dir_validate buf n p = Ok () \<longleftrightarrow>
     unat n * 8 \<le> length buf \<and> (\<forall>i<unat n. batch_entry_ok p (batch_entry_at buf i))"
  by (auto simp: batch_dir_validate_decode rbind_eq_Ok batch_dir_decode_ok)

lemma idx_lt: "(idx :: u32) < n \<Longrightarrow> unat idx < unat n"
  by (simp add: word_less_nat_alt)

lemma all_idx: "(\<forall>i < unat (n :: u32). P i) \<longleftrightarrow> (\<forall>i < n. P (unat i))"
proof
  assume a: "\<forall>i < n. P (unat i)"
  show "\<forall>i < unat n. P i"
  proof (intro allI impI)
    fix i assume i: "i < unat n"
    then have u: "unat (word_of_nat i :: u32) = i" using u32_lt [of n] by simp
    with i have "(word_of_nat i :: u32) < n" by (simp add: word_less_nat_alt)
    with a have "P (unat (word_of_nat i :: u32))" by blast
    with u show "P i" by simp
  qed
qed (simp add: idx_lt)

lemma batch_item_get_eq:
  "batch_item_get payload n idx =
     (if n \<le> idx then Err OutOfBounds
      else if length payload < unat n * 8 then Err Truncated
      else let e = batch_entry_at payload (unat idx) in
        if unat (be_offset e) mod ALIGNMENT \<noteq> 0 then Err BadAlignment
        else if unat (be_offset e) + unat (be_length e) > length payload - unat n * 8 then Err OutOfBounds
        else Ok (sub payload (unat n * 8 + unat (be_offset e)) (unat (be_length e)), be_length e))"
  using idx_lt [of idx n]
  by (auto simp: batch_item_get_def batch_entry_at_def Let_def slice_rng_ok not_le not_less)

lemma batch_item_get_no_panic [no_panic]: "batch_item_get payload n idx \<noteq> Panic"
  by (simp add: batch_item_get_eq Let_def)


section \<open>The builder against the reference layout\<close>

definition batch_inv :: "batch_builder \<Rightarrow> bytes list \<Rightarrow> bool" where
  "batch_inv b xs \<longleftrightarrow>
     bb_item_count b = word_of_nat (length xs) \<and> length xs \<le> unat (bb_max_items b) \<and>
     bb_dir_end b = unat (bb_max_items b) * 8 \<and> bb_data_offset b = length (pack_data xs) \<and>
     (xs \<noteq> [] \<longrightarrow> bb_dir_end b + bb_data_offset b \<le> length (bb_buf b)) \<and>
     sub (bb_buf b) 0 (length xs * 8) = dir_wire (pack_dir xs) \<and>
     sub (bb_buf b) (bb_dir_end b) (bb_data_offset b) = pack_data xs"

definition batch_fits :: "nat \<Rightarrow> nat \<Rightarrow> bytes list \<Rightarrow> bytes \<Rightarrow> bool" where
  "batch_fits cap m xs x \<longleftrightarrow>
     length xs < m \<and> m * 8 + al8 (length (pack_data xs)) + length x \<le> cap"

definition batch_state :: "nat \<Rightarrow> nat \<Rightarrow> batch_builder \<Rightarrow> bytes list \<Rightarrow> bool" where
  "batch_state cap m b xs \<longleftrightarrow> batch_inv b xs \<and> length (bb_buf b) = cap \<and> unat (bb_max_items b) = m \<and>
     cap \<le> ISIZE_MAX"

lemma batch_inv_new: "batch_inv (batch_new buf m) []"
  by (simp add: batch_inv_def batch_new_def dir_wire_def)

lemma batch_inv_count:
  "batch_inv b xs \<Longrightarrow> unat (bb_item_count b) = length xs"
  using u32_lt [of "bb_max_items b"] by (simp add: batch_inv_def unat_of_nat)

lemma batch_inv_offset:
  assumes "batch_inv b xs" "length (bb_buf b) \<le> ISIZE_MAX"
  shows "align8 (bb_data_offset b) = al8 (length (pack_data xs))"
proof -
  have "length (pack_data xs) \<le> length (bb_buf b)"
    using assms(1) by (cases "xs = []") (auto simp: batch_inv_def)
  with assms show ?thesis by (intro trans [OF align8_al8]) (auto simp: batch_inv_def usize_bounds)
qed

text \<open>Writing the padding and the item behind the packed data.\<close>

lemma pack_write:
  assumes "sub buf base (length d) = d" "length d \<le> o1" "base + o1 + length x \<le> length buf"
    and "buf1 = upd buf (base + length d) (replicate (o1 - length d) 0)"
    and "buf2 = upd buf1 (base + o1) x"
  shows "length buf2 = length buf"
    and "sub buf2 base (o1 + length x) = d @ replicate (o1 - length d) 0 @ x"
    and "o' + n \<le> base \<Longrightarrow> sub buf2 o' n = sub buf o' n"
proof -
  have l1: "length buf1 = length buf" using assms by simp
  show l2: "length buf2 = length buf" using assms l1 by simp
  show "sub buf2 o' n = sub buf o' n" if "o' + n \<le> base"
    using assms that l1 by (simp add: sub_upd_disjoint)
  have "sub buf2 base (length d) = d" "sub buf2 (base + length d) (o1 - length d) = replicate (o1 - length d) 0"
    using assms l1 by (simp_all add: sub_upd_disjoint)
  moreover have "sub buf2 (base + o1) (length x) = x" using assms l1 by simp
  moreover have "sub buf2 base (o1 + length x) = sub buf2 base (length d) @
      sub buf2 (base + length d) (o1 - length d) @ sub buf2 (base + o1) (length x)"
    using assms(2) by (simp add: sub_join_end)
  ultimately show "sub buf2 base (o1 + length x) = d @ replicate (o1 - length d) 0 @ x" by simp
qed

lemma batch_add_eval:
  assumes "unat (bb_item_count b) = n" "bb_data_offset b = dl" "align8 dl = o1" "dl \<le> o1"
    and "n < unat (bb_max_items b)" "n * 8 + 8 \<le> bb_dir_end b"
    and "bb_dir_end b + o1 + length x \<le> length (bb_buf b)"
  shows "batch_add x b = Ok (b\<lparr>
     bb_buf := upd (upd (upd (upd (bb_buf b) (bb_dir_end b + dl) (replicate (o1 - dl) 0)) (bb_dir_end b + o1) x)
                 (n * 8) (u32_to_ne (word_of_nat o1))) (n * 8 + 4) (u32_to_ne (word_of_nat (length x))),
     bb_data_offset := o1 + length x, bb_item_count := bb_item_count b + 1\<rparr>)"
proof (cases "dl < o1")
  case True
  with assms show ?thesis
    by (simp add: batch_add_def word_le_nat_alt copy_from_slice_ok fill_ok Let_def)
next
  case False
  with assms have "o1 = dl" by simp
  with assms show ?thesis
    by (simp add: batch_add_def word_le_nat_alt copy_from_slice_ok Let_def)
qed

lemma batch_add_ok:
  assumes inv: "batch_inv b xs" and len: "length (bb_buf b) \<le> ISIZE_MAX" and fits: "batch_fits (length (bb_buf b)) (unat (bb_max_items b)) xs x"
  shows "\<exists>b'. batch_add x b = Ok b' \<and> batch_inv b' (xs @ [x]) \<and>
           bb_max_items b' = bb_max_items b \<and> length (bb_buf b') = length (bb_buf b)"
proof -
  let ?d = "pack_data xs" and ?o = "al8 (length (pack_data xs))"
  let ?n = "length xs" and ?m = "unat (bb_max_items b)"
  let ?b1 = "upd (bb_buf b) (bb_dir_end b + length ?d) (replicate (?o - length ?d) 0)"
  let ?b2 = "upd ?b1 (bb_dir_end b + ?o) x"
  let ?b3 = "upd (upd ?b2 (?n * 8) (u32_to_ne (word_of_nat ?o))) (?n * 8 + 4) (u32_to_ne (word_of_nat (length x)))"
  note I = inv [unfolded batch_inv_def]
  from fits have n: "?n < ?m" and f: "?m * 8 + ?o + length x \<le> length (bb_buf b)"
    using I by (auto simp: batch_fits_def)
  have o: "length ?d \<le> ?o" by (rule al8_ge)
  have d: "bb_dir_end b = ?m * 8" "bb_data_offset b = length ?d" using I by auto
  note w = pack_write [of "bb_buf b" "bb_dir_end b" ?d ?o x, OF _ o _ refl refl]
  have w1: "length ?b2 = length (bb_buf b)" "sub ?b2 (bb_dir_end b) (?o + length x) = pack_data (xs @ [x])"
    and w2: "\<And>o' n. o' + n \<le> bb_dir_end b \<Longrightarrow> sub ?b2 o' n = sub (bb_buf b) o' n"
    using I f d w by auto
  have add: "batch_add x b = Ok (b\<lparr>bb_buf := ?b3, bb_data_offset := ?o + length x,
      bb_item_count := bb_item_count b + 1\<rparr>)"
    using batch_inv_count [OF inv] batch_inv_offset [OF inv len] n f d o
    by (intro trans [OF batch_add_eval [of b ?n "length ?d" ?o x]]) auto
  have e: "sub ?b2 0 (?n * 8) = dir_wire (pack_dir xs)"
  proof -
    have "sub ?b2 0 (?n * 8) = sub (bb_buf b) 0 (?n * 8)" by (rule w2) (use n d in simp)
    also have "\<dots> = dir_wire (pack_dir xs)" using I by blast
    finally show ?thesis .
  qed
  have l: "?n * 8 + 8 \<le> length ?b2" using w1(1) n f by linarith
  have "sub ?b3 0 (?n * 8 + 8) = dir_wire (pack_dir (xs @ [x]))"
    using dir_wire_write [OF e length_pack_dir [symmetric], of ?o "length x"] l
    by (simp only: pack_dir_snoc add_0)
  moreover have "sub ?b3 (bb_dir_end b) (?o + length x) = pack_data (xs @ [x])"
    using w1 n f d by (simp add: sub_upd_disjoint)
  moreover have "length ?b3 = length (bb_buf b)" using w1 n f d by simp
  ultimately obtain b3 where b3: "sub b3 0 (?n * 8 + 8) = dir_wire (pack_dir (xs @ [x]))"
      "sub b3 (bb_dir_end b) (?o + length x) = pack_data (xs @ [x])" "length b3 = length (bb_buf b)"
      "batch_add x b = Ok (b\<lparr>bb_buf := b3, bb_data_offset := ?o + length x,
         bb_item_count := bb_item_count b + 1\<rparr>)"
    using add by blast
  have "bb_item_count b + 1 = word_of_nat (length (xs @ [x]))" using I by simp
  with b3 n f d show ?thesis
    by (simp add: batch_inv_def length_pack_data_snoc add.commute del: pack_data_snoc pack_dir_snoc)
qed

lemma batch_add_overflow:
  assumes inv: "batch_inv b xs" and len: "length (bb_buf b) \<le> ISIZE_MAX" and nf: "\<not> batch_fits (length (bb_buf b)) (unat (bb_max_items b)) xs x"
  shows "batch_add x b = Err Overflow"
  using nf inv batch_inv_count [OF inv] batch_inv_offset [OF inv len]
  by (auto simp: batch_add_def batch_fits_def batch_inv_def word_le_nat_alt Let_def not_less not_le)


interpretation bb: item_builder "batch_state cap m" "batch_fits cap m" batch_add for cap m
proof (unfold_locales, goal_cases)
  case (1 b es e)
  then show ?case using batch_add_ok [of b es e] by (fastforce simp: batch_state_def)
next
  case (2 b es e)
  then show ?case by (auto simp: batch_state_def intro: batch_add_overflow)
qed

definition batch_image :: "bytes list \<Rightarrow> bytes" where
  "batch_image xs = dir_wire (pack_dir xs) @ pack_data xs"

lemma batch_shift:
  assumes "batch_inv b xs" "n = length xs"
    and "buf' = (if n * 8 < bb_dir_end b \<and> 0 < bb_data_offset b
                 then upd (bb_buf b) (n * 8) (sub (bb_buf b) (bb_dir_end b) (bb_data_offset b)) else bb_buf b)"
  shows "length buf' = length (bb_buf b) \<and> take (n * 8 + bb_data_offset b) buf' = batch_image xs"
proof -
  note I = assms(1) [unfolded batch_inv_def]
  have d: "sub (bb_buf b) 0 (n * 8) = dir_wire (pack_dir xs)"
    "sub (bb_buf b) (bb_dir_end b) (bb_data_offset b) = pack_data xs" using I assms(2) by auto
  have n: "n * 8 \<le> bb_dir_end b" using I assms(2) by simp
  have j: "take (n * 8 + m) u = sub u 0 (n * 8) @ sub u (n * 8) m" for m and u :: bytes
    using sub_join [of u 0 "n * 8" m] by (simp add: sub_front)
  have xs: "0 < bb_data_offset b \<Longrightarrow> xs \<noteq> []" using I by auto
  show ?thesis
  proof (cases "n * 8 < bb_dir_end b \<and> 0 < bb_data_offset b")
    case True
    with xs I have "bb_dir_end b + bb_data_offset b \<le> length (bb_buf b)" by simp
    with True assms(3) d show ?thesis
      by (simp add: j batch_image_def sub_upd_disjoint I)
  next
    case False
    with n have "n * 8 = bb_dir_end b \<or> bb_data_offset b = 0" by auto
    with assms(3) False d I show ?thesis by (auto simp: j batch_image_def)
  qed
qed

lemma batch_finish_ok:
  assumes inv: "batch_inv b xs" and len: "length (bb_buf b) \<le> ISIZE_MAX"
    and t: "t = length xs * 8 + al8 (length (pack_data xs))"
  shows "\<exists>buf'. (batch_finish b :: ('e, _) outcome) = Ok ((t, bb_item_count b), buf') \<and> length buf' = length (bb_buf b) \<and>
     take (length (batch_image xs)) buf' = batch_image xs \<and>
     (t < length (bb_buf b) \<longrightarrow>
        take t buf' = batch_image xs @ replicate (t - length (batch_image xs)) 0)"
proof -
  let ?n = "length xs" and ?dl = "bb_data_offset b"
  define p where "p = length xs * 8 + bb_data_offset b"
  define buf1 where "buf1 = (if ?n * 8 < bb_dir_end b \<and> 0 < ?dl
    then upd (bb_buf b) (?n * 8) (sub (bb_buf b) (bb_dir_end b) ?dl) else bb_buf b)"
  note c = batch_inv_count [OF inv] and al = batch_inv_offset [OF inv len]
  have al8_dir: "align8 (length xs * 8) = length xs * 8" using align8_dir [of "bb_item_count b"] c by simp
  have s: "length buf1 = length (bb_buf b)" "take p buf1 = batch_image xs"
    using batch_shift [OF inv refl buf1_def] by (auto simp: p_def)
  have dl: "?dl = length (pack_data xs)" using inv by (simp add: batch_inv_def)
  have pl: "p = length (batch_image xs)" by (simp add: batch_image_def p_def dl)
  have le: "p \<le> t" using al8_ge by (simp add: p_def t dl)
  have cw: "(if ?n * 8 < bb_dir_end b \<and> 0 < ?dl
      then copy_within (bb_buf b) (bb_dir_end b) (bb_dir_end b + ?dl) (?n * 8) else Ok (bb_buf b))
    = (Ok buf1 :: ('e, bytes) outcome)"
    using inv by (auto simp: buf1_def batch_inv_def copy_within_ok)
  have fin: "(batch_finish b :: ('e, _) outcome) = rbind (if t < length buf1 then if p < t then fill buf1 p t 0 else Ok buf1
      else Ok buf1) (\<lambda>buf. Ok ((t, bb_item_count b), buf))"
    using cw by (simp only: batch_finish_def Let_def al8_dir c al rbind.simps t p_def)
  show ?thesis
  proof (cases "t < length buf1 \<and> p < t")
    case True
    have "take t (upd buf1 p (replicate (t - p) 0)) = take p buf1 @ replicate (t - p) 0"
      using True by (simp add: upd_def)
    with True fin s pl le show ?thesis by (simp add: fill_ok take_upd_left)
  next
    case False
    with fin s pl le show ?thesis by auto
  qed
qed


section \<open>Reading a finished batch\<close>

lemma batch_image_entry:
  assumes "take (length (batch_image xs)) p = batch_image xs" "i < length xs"
    and "length (pack_data xs) < 2 ^ 32"
  shows "unat (be_offset (batch_entry_at p i)) = fst (pack_dir xs ! i)"
    and "unat (be_length (batch_entry_at p i)) = length (xs ! i)"
    and "be_length (batch_entry_at p i) = word_of_nat (length (xs ! i))"
proof -
  have "sub p 0 (length (pack_dir xs) * 8) = take (length (pack_dir xs) * 8) (take (length (batch_image xs)) p)"
    by (simp add: sub_def batch_image_def)
  then have d: "sub p 0 (length (pack_dir xs) * 8) = dir_wire (pack_dir xs)"
    by (simp add: assms(1)) (simp add: batch_image_def)
  obtain off len where e: "pack_dir xs ! i = (off, len)" by fastforce
  then have "off < 2 ^ 32" "len < 2 ^ 32" "len = length (xs ! i)"
    using pack_read [OF assms(2) e] assms(3) by auto
  then show "unat (be_offset (batch_entry_at p i)) = fst (pack_dir xs ! i)"
    and "unat (be_length (batch_entry_at p i)) = length (xs ! i)"
    and "be_length (batch_entry_at p i) = word_of_nat (length (xs ! i))"
    using dir_wire_read [OF d, of i] assms(2) by (simp_all add: batch_entry_at_def e)
qed

lemma batch_image_window:
  assumes "take (length (batch_image xs)) p = batch_image xs" "i < length xs"
  shows "sub p (length xs * 8 + fst (pack_dir xs ! i)) (length (xs ! i)) = xs ! i"
proof -
  obtain off len where e: "pack_dir xs ! i = (off, len)" by fastforce
  note r = pack_read [OF assms(2) e]
  have "sub p (length xs * 8 + off) len = sub (batch_image xs) (length xs * 8 + off) len"
    using r assms(1) sub_take [of "length xs * 8 + off" len "length (batch_image xs)" p]
    by (simp add: batch_image_def)
  also have "\<dots> = xs ! i" using r by (auto simp: batch_image_def sub_append_right)
  finally show ?thesis using r e by simp
qed

lemma batch_image_get:
  assumes "take (length (batch_image xs)) p = batch_image xs" "length (batch_image xs) \<le> length p"
    and "length (pack_data xs) < 2 ^ 32" "length xs < 2 ^ 32" "i < length xs"
  shows "batch_item_get p (word_of_nat (length xs)) (word_of_nat i) =
           Ok (xs ! i, word_of_nat (length (xs ! i)))"
proof -
  obtain off len where e: "pack_dir xs ! i = (off, len)" by fastforce
  note r = pack_read [OF assms(5) e]
  note be = batch_image_entry [OF assms(1,5,3)]
  have le: "length xs * 8 + length (pack_data xs) \<le> length p" using assms(2) by (simp add: batch_image_def)
  have lt: "\<not> (word_of_nat (length xs) :: u32) \<le> word_of_nat i"
    using assms by (simp add: word_le_nat_alt)
  have un: "unat (word_of_nat (length xs) :: u32) = length xs" "unat (word_of_nat i :: u32) = i"
    using assms by simp_all
  have "off + len \<le> length p - length xs * 8" using r le by linarith
  then show ?thesis
    using r be e le batch_image_window [OF assms(1,5)]
    by (simp add: batch_item_get_eq lt un Let_def ALIGNMENT_def)
qed

lemma batch_image_validate:
  assumes "take (length (batch_image xs)) p = batch_image xs" "length (batch_image xs) \<le> length p"
    and "length (pack_data xs) \<le> unat packed" "length xs < 2 ^ 32"
  shows "batch_dir_validate (take (length xs * 8) p) (word_of_nat (length xs)) packed = Ok ()"
proof -
  have le: "length xs * 8 \<le> length p" using assms(2) by (simp add: batch_image_def)
  have "batch_entry_ok packed (batch_entry_at (take (length xs * 8) p) i)" if i: "i < length xs" for i
  proof -
    obtain off len where e: "pack_dir xs ! i = (off, len)" by fastforce
    note r = pack_read [OF i e]
    have "batch_entry_at (take (length xs * 8) p) i = batch_entry_at p i"
      using i by (simp add: batch_entry_at_def rd_take)
    then show ?thesis
      using r e assms(3) u32_lt [of packed] batch_image_entry [OF assms(1) i]
      by (simp add: batch_entry_ok_def ALIGNMENT_def)
  qed
  with le assms(4) show ?thesis by (simp add: batch_dir_validate_ok)
qed


lemma batch_build:
  assumes "length buf \<le> ISIZE_MAX" "length xs \<le> unat m"
    and "unat m * 8 + length (pack_data xs) \<le> length buf"
    and "t = length xs * 8 + al8 (length (pack_data xs))"
  shows "\<exists>b buf'. add_seq batch_add xs (batch_new buf m) = Ok b \<and>
     (batch_finish b :: ('e, _) outcome) = Ok ((t, word_of_nat (length xs)), buf') \<and>
     length buf' = length buf \<and> take (length (batch_image xs)) buf' = batch_image xs \<and>
     (t < length buf \<longrightarrow> take t buf' = batch_image xs @ replicate (t - length (batch_image xs)) 0)"
proof -
  have "batch_state (length buf) (unat m) (batch_new buf m) []"
    using batch_inv_new [of buf m] assms(1) by (simp add: batch_state_def batch_new_def)
  moreover have "batch_fits (length buf) (unat m) ([] @ ys) y" if "xs = ys @ y # zs" for ys y zs
    using pack_data_step [OF that] that assms(2,3) by (simp add: batch_fits_def)
  ultimately obtain b where b: "add_seq batch_add xs (batch_new buf m) = Ok b" "batch_inv b xs"
      "length (bb_buf b) = length buf"
    using bb.add_seq_ok [of "length buf" "unat m" "batch_new buf m" "[]" xs] by (auto simp: batch_state_def)
  have "bb_item_count b = word_of_nat (length xs)" using b by (simp add: batch_inv_def)
  then show ?thesis using b batch_finish_ok [OF b(2) _ assms(4), where 'e = 'e] assms(1) by auto
qed

text \<open>C1: a batch built by \<open>new\<close>, one \<open>add\<close> per item and \<open>finish\<close> reads back item by item. For
  every list of items that fits the capacity the builder was created with, every \<open>add\<close> succeeds, the
  returned size lies inside the buffer, the directory passes \<open>batch_dir_validate\<close>, and
  \<open>batch_item_get\<close> on the finished payload returns exactly the i-th item and its length.\<close>

theorem batch_roundtrip:
  assumes "length buf < 2 ^ 32" "length xs \<le> unat m"
    and "unat m * 8 + sum_list (map (\<lambda>x. al8 (length x)) xs) \<le> length buf"
  shows "\<exists>b buf' total. add_seq batch_add xs (batch_new buf m) = Ok b \<and>
     (batch_finish b :: (nipc_error, _) outcome) = Ok ((total, word_of_nat (length xs)), buf') \<and>
     total \<le> length buf \<and> length buf' = length buf \<and>
     batch_dir_validate (take (length xs * 8) buf') (word_of_nat (length xs))
       (word_of_nat (total - length xs * 8)) = Ok () \<and>
     (\<forall>i < length xs. batch_item_get (take total buf') (word_of_nat (length xs)) (word_of_nat i) =
        Ok (xs ! i, word_of_nat (length (xs ! i))))"
proof -
  define t where "t = length xs * 8 + al8 (length (pack_data xs))"
  have c: "unat m * 8 + al8 (length (pack_data xs)) \<le> length buf" using assms(3) by (simp add: pack_total)
  have g: "length (pack_data xs) \<le> al8 (length (pack_data xs))" by (rule al8_ge)
  have n: "length xs < 2 ^ 32" using assms u32_lt [of m] by simp
  obtain b buf' where b: "add_seq batch_add xs (batch_new buf m) = Ok b"
      "(batch_finish b :: (nipc_error, _) outcome) = Ok ((t, word_of_nat (length xs)), buf')"
      "length buf' = length buf" "take (length (batch_image xs)) buf' = batch_image xs"
    using batch_build [of buf xs m t, where 'e = nipc_error] assms c g t_def by (auto simp: ISIZE_MAX_def)
  have le: "length (batch_image xs) \<le> t" "t \<le> length buf"
    using assms(2) c g by (auto simp: batch_image_def t_def)
  have "batch_dir_validate (take (length xs * 8) buf') (word_of_nat (length xs))
       (word_of_nat (t - length xs * 8)) = Ok ()"
    using b le n c g assms(1) by (intro batch_image_validate) (auto simp: t_def)
  moreover have "\<forall>i < length xs. batch_item_get (take t buf') (word_of_nat (length xs)) (word_of_nat i) =
        Ok (xs ! i, word_of_nat (length (xs ! i)))"
    using b le n c g assms(1) by (intro allI impI batch_image_get) (auto simp: min_def)
  ultimately show ?thesis using b le by blast
qed

theorem batch_roundtrip_witness:
  "\<exists>b buf' total. add_seq batch_add [[1, 2, 3], [], [4]] (batch_new (replicate 64 255) 4) = Ok b \<and>
     (batch_finish b :: (nipc_error, _) outcome) = Ok ((total, 3), buf') \<and>
     total \<le> 64 \<and> length buf' = 64 \<and>
     batch_dir_validate (take 24 buf') 3 (word_of_nat (total - 24)) = Ok () \<and>
     batch_item_get (take total buf') 3 2 = Ok ([4], 1)"
proof -
  let ?xs = "[[1, 2, 3], [], [4]] :: bytes list"
  have "\<exists>b buf' total. add_seq batch_add ?xs (batch_new (replicate 64 255) 4) = Ok b \<and>
     (batch_finish b :: (nipc_error, _) outcome) = Ok ((total, word_of_nat (length ?xs)), buf') \<and>
     total \<le> length (replicate 64 255 :: bytes) \<and> length buf' = length (replicate 64 255 :: bytes) \<and>
     batch_dir_validate (take (length ?xs * 8) buf') (word_of_nat (length ?xs))
       (word_of_nat (total - length ?xs * 8)) = Ok () \<and>
     (\<forall>i < length ?xs. batch_item_get (take total buf') (word_of_nat (length ?xs)) (word_of_nat i) =
        Ok (?xs ! i, word_of_nat (length (?xs ! i))))"
    by (rule batch_roundtrip) (simp_all add: al8_def)
  then obtain b buf' total where o: "add_seq batch_add ?xs (batch_new (replicate 64 255) 4) = Ok b"
     "(batch_finish b :: (nipc_error, _) outcome) = Ok ((total, word_of_nat (length ?xs)), buf')"
     "total \<le> length (replicate 64 255 :: bytes)" "length buf' = length (replicate 64 255 :: bytes)"
     "batch_dir_validate (take (length ?xs * 8) buf') (word_of_nat (length ?xs))
       (word_of_nat (total - length ?xs * 8)) = Ok ()"
     "\<forall>i < length ?xs. batch_item_get (take total buf') (word_of_nat (length ?xs)) (word_of_nat i) =
        Ok (?xs ! i, word_of_nat (length (?xs ! i)))" by blast
  have "batch_item_get (take total buf') 3 2 = Ok ([4], 1)" using o(6) [rule_format, of 2] by simp
  with o(1-5) show ?thesis by (intro exI [of _ b] exI [of _ buf'] exI [of _ total]) simp
qed

text \<open>C24: the finished payload is a function of the items alone. Whatever the buffer held before,
  and however many directory slots were reserved, the bytes up to the returned size are the
  reference image of the items followed by zeros, so no stale buffer contents leave the process.
  This needs the returned size to lie strictly below the end of the buffer.\<close>

theorem batch_finish_deterministic:
  assumes "length buf \<le> ISIZE_MAX" "length xs \<le> unat m"
    and "unat m * 8 + sum_list (map (\<lambda>x. al8 (length x)) xs) < length buf"
    and "sz = length xs * 8 + sum_list (map (\<lambda>x. al8 (length x)) xs)"
  shows "\<exists>b buf'. add_seq batch_add xs (batch_new buf m) = Ok b \<and>
     (batch_finish b :: (nipc_error, _) outcome) = Ok ((sz, word_of_nat (length xs)), buf') \<and>
     take sz buf' = batch_image xs @ replicate (sz - length (batch_image xs)) 0"
proof -
  note g = al8_ge [of "length (pack_data xs)"]
  have t: "sz = length xs * 8 + al8 (length (pack_data xs))" using assms(4) by (simp only: pack_total)
  have f: "unat m * 8 + al8 (length (pack_data xs)) < length buf" using assms(3) by (simp only: pack_total)
  have "unat m * 8 + length (pack_data xs) \<le> length buf" using f g by linarith
  moreover have "sz < length buf" using f t assms(2) by linarith
  ultimately show ?thesis
    using batch_build [OF assms(1,2) _ t, where 'e = nipc_error] by blast
qed

theorem batch_finish_deterministic_witness:
  "\<exists>b buf'. add_seq batch_add [[1, 2, 3]] (batch_new (replicate 40 255) 2) = Ok b \<and>
     (batch_finish b :: (nipc_error, _) outcome) = Ok ((16, word_of_nat (length [[1 :: u8, 2, 3]])), buf') \<and>
     take 16 buf' = batch_image [[1, 2, 3]] @ replicate (16 - length (batch_image [[1, 2, 3]])) 0"
  by (rule batch_finish_deterministic) (simp_all add: al8_def ISIZE_MAX_def)

text \<open>Adding items leaves the bytes behind the packed data as they were.\<close>

lemma batch_add_tail:
  assumes st: "batch_state cap m b xs" and add: "batch_add x b = Ok b'"
    and k: "m * 8 + length (pack_data (xs @ [x])) \<le> k"
  shows "drop k (bb_buf b') = drop k (bb_buf b)"
proof -
  let ?dl = "length (pack_data xs)" and ?o = "al8 (length (pack_data xs))" and ?n = "length xs"
  have inv: "batch_inv b xs" and len: "length (bb_buf b) \<le> ISIZE_MAX" and cap: "length (bb_buf b) = cap"
    and m: "unat (bb_max_items b) = m" using st by (auto simp: batch_state_def)
  have fits: "?n < m" "m * 8 + ?o + length x \<le> cap" using bb.add_step [OF st add] by (auto simp: batch_fits_def)
  have o: "?dl \<le> ?o" by (rule al8_ge)
  have d: "bb_dir_end b = m * 8" "bb_data_offset b = ?dl" using inv m by (auto simp: batch_inv_def)
  have k': "m * 8 + (?o + length x) \<le> k" using k by (simp add: length_pack_data_snoc)
  let ?b1 = "upd (bb_buf b) (m * 8 + ?dl) (replicate (?o - ?dl) 0)"
  let ?b2 = "upd ?b1 (m * 8 + ?o) x"
  have "b' = b\<lparr>bb_buf := upd (upd ?b2 (?n * 8) (u32_to_ne (word_of_nat ?o))) (?n * 8 + 4) (u32_to_ne (word_of_nat (length x))),
     bb_data_offset := ?o + length x, bb_item_count := bb_item_count b + 1\<rparr>"
    using batch_add_eval [of b ?n ?dl ?o x] batch_inv_count [OF inv] batch_inv_offset [OF inv len] fits d o m cap add by simp
  moreover have "drop k (upd (upd ?b2 (?n * 8) (u32_to_ne (word_of_nat ?o))) (?n * 8 + 4) (u32_to_ne (word_of_nat (length x)))) =
      drop k (bb_buf b)"
    using fits o k' cap by (simp add: drop_upd_right)
  ultimately show ?thesis by simp
qed

lemma batch_add_seq_tail:
  assumes "add_seq batch_add ys b = Ok b'" "batch_state cap m b xs" "m * 8 + length (pack_data (xs @ ys)) \<le> k"
  shows "drop k (bb_buf b') = drop k (bb_buf b)"
  using assms
proof (induction ys arbitrary: b xs)
  case (Cons y ys)
  then obtain b1 where b1: "batch_add y b = Ok b1" "add_seq batch_add ys b1 = Ok b'" by (auto simp: rbind_eq_Ok)
  have "batch_state cap m b1 (xs @ [y])" using bb.add_step [OF Cons.prems(2) b1(1)] by blast
  then have "drop k (bb_buf b') = drop k (bb_buf b1)" using Cons.IH [OF b1(2)] Cons.prems(3) by simp
  moreover have "m * 8 + length (pack_data (xs @ [y])) \<le> k"
    using Cons.prems(3) pack_data_le [of "xs @ [y]" ys] by simp
  ultimately show ?case using batch_add_tail [OF Cons.prems(2) b1(1)] by simp
qed simp

lemma batch_finish_full:
  assumes inv: "batch_inv b xs" and len: "length (bb_buf b) \<le> ISIZE_MAX" and full: "length xs = unat (bb_max_items b)"
    and t: "t = length xs * 8 + al8 (length (pack_data xs))" and end_of: "length (bb_buf b) \<le> t"
  shows "(batch_finish b :: ('e, _) outcome) = Ok ((t, bb_item_count b), bb_buf b)"
proof -
  have "bb_dir_end b = length xs * 8" using inv full by (simp add: batch_inv_def)
  then show ?thesis
    using batch_inv_count [OF inv] batch_inv_offset [OF inv len] align8_dir [of "bb_item_count b"] end_of
    by (simp add: batch_finish_def Let_def t)
qed

text \<open>C26: when the packed data ends in the last word of the buffer, \<open>finish\<close> does not behave that way. For
  every list of items that the builder accepts and whose padded size reaches or passes the end of the buffer,
  \<open>finish\<close> returns the padded size but pads nothing: the bytes behind the last item keep what the
  buffer held before, and where the padded size passes the end, slicing the payload out of the buffer, as the
  managed server does before it sends, panics.\<close>

theorem batch_finish_last_word:
  assumes "length buf \<le> ISIZE_MAX" "length xs \<le> unat m"
    and "unat m * 8 + length (pack_data xs) \<le> length buf"
    and "sz = length xs * 8 + sum_list (map (\<lambda>x. al8 (length x)) xs)" "length buf \<le> sz"
  shows "\<exists>b buf'. add_seq batch_add xs (batch_new buf m) = Ok b \<and>
     (batch_finish b :: (nipc_error, _) outcome) = Ok ((sz, word_of_nat (length xs)), buf') \<and>
     buf' = batch_image xs @ drop (length (batch_image xs)) buf \<and>
     (length buf < sz \<longrightarrow> (slice_rng buf' 0 sz :: (nipc_error, _) outcome) = Panic)"
proof -
  have t: "sz = length xs * 8 + al8 (length (pack_data xs))" using assms(4) by (simp only: pack_total)
  have "al8 (length (pack_data xs)) < length (pack_data xs) + 8" by (simp add: al8_def)
  then have m: "length xs = unat m" using t assms(2,3,5) by linarith
  obtain b buf' where b: "add_seq batch_add xs (batch_new buf m) = Ok b"
     "(batch_finish b :: (nipc_error, _) outcome) = Ok ((sz, word_of_nat (length xs)), buf')"
     "length buf' = length buf" "take (length (batch_image xs)) buf' = batch_image xs"
    using batch_build [OF assms(1-3) t, where 'e = nipc_error] by blast
  have st: "batch_state (length buf) (unat m) (batch_new buf m) []"
    using batch_inv_new [of buf m] assms(1) by (simp add: batch_state_def batch_new_def)
  have "batch_state (length buf) (unat m) b xs"
    using bb.add_seq_ok [OF st, of xs] b(1) pack_data_step assms(2,3) by (fastforce simp: batch_fits_def)
  then have "(batch_finish b :: (nipc_error, _) outcome) = Ok ((sz, bb_item_count b), bb_buf b)"
    using m t assms(5) by (intro batch_finish_full) (auto simp: batch_state_def)
  then have buf': "buf' = bb_buf b" using b(2) by simp
  have l: "length (batch_image xs) = unat m * 8 + length (pack_data xs)" using m by (simp add: batch_image_def)
  then have "drop (length (batch_image xs)) buf' = drop (length (batch_image xs)) buf"
    using batch_add_seq_tail [OF b(1) st, of "length (batch_image xs)"] buf' by (simp add: batch_new_def)
  then have "buf' = batch_image xs @ drop (length (batch_image xs)) buf"
    using b(4) append_take_drop_id by metis
  moreover have "length buf < sz \<Longrightarrow> (slice_rng buf' 0 sz :: (nipc_error, _) outcome) = Panic"
    using b(3) by (simp add: slice_rng_def)
  ultimately show ?thesis using b(1,2) by blast
qed

theorem batch_finish_last_word_witness:
  "(\<exists>b buf'. add_seq batch_add [[1, 2, 3]] (batch_new (replicate 16 255) 1) = Ok b \<and>
      (batch_finish b :: (nipc_error, _) outcome) = Ok ((16, 1), buf') \<and>
      buf' = [0, 0, 0, 0, 3, 0, 0, 0, 1, 2, 3, 255, 255, 255, 255, 255]) \<and>
   (\<exists>b buf'. add_seq batch_add [[1, 2, 3]] (batch_new (replicate 11 0) 1) = Ok b \<and>
      (batch_finish b :: (nipc_error, _) outcome) = Ok ((16, 1), buf') \<and>
      (slice_rng buf' 0 16 :: (nipc_error, _) outcome) = Panic)"
proof -
  have e: "entry_wire (0, 3) = [0, 0, 0, 0, 3, 0, 0, 0]" by (simp add: entry_wire_def evals)
  have p: "pack_data [[1, 2, 3 :: u8]] = [1, 2, 3]" "pack_dir [[1, 2, 3 :: u8]] = [(0, 3)]"
    by (simp_all add: pack_def pack_step_def al8_def)
  have i: "batch_image [[1, 2, 3]] = [0, 0, 0, 0, 3, 0, 0, 0, 1, 2, 3]" by (simp add: batch_image_def p dir_wire_def e)
  have d: "drop 11 (replicate 16 255) = [255, 255, 255, 255, 255 :: u8]" by code_simp
  have l: "length [0, 0, 0, 0, 3, 0, 0, 0, 1, 2, 3 :: u8] = 11" by simp
  have "\<exists>b buf'. add_seq batch_add [[1, 2, 3]] (batch_new (replicate 16 255) 1) = Ok b \<and>
      (batch_finish b :: (nipc_error, _) outcome) = Ok ((16, word_of_nat (length [[1 :: u8, 2, 3]])), buf') \<and>
      buf' = batch_image [[1, 2, 3]] @ drop (length (batch_image [[1, 2, 3]])) (replicate 16 255) \<and>
      (length (replicate 16 (255 :: u8)) < 16 \<longrightarrow> (slice_rng buf' 0 16 :: (nipc_error, _) outcome) = Panic)"
    by (rule batch_finish_last_word) (simp_all add: p al8_def ISIZE_MAX_def)
  moreover have "\<exists>b buf'. add_seq batch_add [[1, 2, 3]] (batch_new (replicate 11 0) 1) = Ok b \<and>
      (batch_finish b :: (nipc_error, _) outcome) = Ok ((16, word_of_nat (length [[1 :: u8, 2, 3]])), buf') \<and>
      buf' = batch_image [[1, 2, 3]] @ drop (length (batch_image [[1, 2, 3]])) (replicate 11 0) \<and>
      (length (replicate 11 (0 :: u8)) < 16 \<longrightarrow> (slice_rng buf' 0 16 :: (nipc_error, _) outcome) = Panic)"
    by (rule batch_finish_last_word) (simp_all add: p al8_def ISIZE_MAX_def)
  ultimately show ?thesis unfolding i l d by simp blast
qed

text \<open>C22: \<open>batch_dir_validate\<close> accepts a directory exactly when \<open>batch_dir_decode\<close> does, and fails
  with the same error; neither panics on any input. A payload whose directory was accepted is safe
  to read: every index below the count yields a window that lies behind the directory and inside
  the payload.\<close>

theorem batch_validate_sound:
  assumes "unat n * 8 \<le> length payload" "length payload - unat n * 8 = unat packed"
  shows "batch_dir_validate (take (unat n * 8) payload) n packed =
           rbind (batch_dir_decode (take (unat n * 8) payload) n packed) (\<lambda>_. Ok ()) \<and>
         batch_dir_validate (take (unat n * 8) payload) n packed \<noteq> Panic \<and>
         (batch_dir_validate (take (unat n * 8) payload) n packed = Ok () \<longleftrightarrow>
          (\<forall>i < n. \<exists>off len. unat n * 8 \<le> off \<and> off mod 8 = 0 \<and> off + unat len \<le> length payload \<and>
             batch_item_get payload n i = Ok (sub payload off (unat len), len)))"
proof -
  let ?t = "take (unat n * 8) payload"
  have at: "batch_entry_at ?t (unat i) = batch_entry_at payload (unat i)" if "i < n" for i
    using idx_lt [OF that] by (simp add: batch_entry_at_def rd_take)
  have get: "batch_entry_ok packed (batch_entry_at payload (unat i)) \<longleftrightarrow>
     (\<exists>off len. unat n * 8 \<le> off \<and> off mod 8 = 0 \<and> off + unat len \<le> length payload \<and>
        batch_item_get payload n i = Ok (sub payload off (unat len), len))" if i: "i < n" for i
  proof -
    let ?e = "batch_entry_at payload (unat i)"
    have "\<exists>off len. unat n * 8 \<le> off \<and> off mod 8 = 0 \<and> off + unat len \<le> length payload \<and>
        batch_item_get payload n i = Ok (sub payload off (unat len), len)"
      if "batch_entry_ok packed ?e"
      using that i assms
      by (intro exI [of _ "unat n * 8 + unat (be_offset ?e)"] exI [of _ "be_length ?e"])
         (auto simp: batch_item_get_eq batch_entry_ok_def Let_def ALIGNMENT_def mod_add_left_eq not_le)
    moreover have "batch_entry_ok packed ?e" if "batch_item_get payload n i = Ok r" for r
      using that i assms
      by (auto simp: batch_item_get_eq batch_entry_ok_def Let_def ALIGNMENT_def split: if_splits)
    ultimately show ?thesis by blast
  qed
  have "batch_dir_validate ?t n packed \<noteq> Panic"
    using batch_dir_decode_no_panic by (auto simp: batch_dir_validate_decode rbind_eq_Panic)
  then show ?thesis
    using assms(1) at get by (simp add: batch_dir_validate_decode [symmetric] batch_dir_validate_ok all_idx)
qed

theorem batch_validate_sound_witness:
  "batch_dir_validate (take (unat (1 :: u32) * 8) [0, 0, 0, 0, 2, 0, 0, 0, 9, 9]) 1 2 \<noteq> Panic \<and>
   (batch_dir_validate (take (unat (1 :: u32) * 8) [0, 0, 0, 0, 2, 0, 0, 0, 9, 9]) 1 2 = Ok () \<longleftrightarrow>
    (\<forall>i < 1. \<exists>off len. unat (1 :: u32) * 8 \<le> off \<and> off mod 8 = 0 \<and>
       off + unat len \<le> length [0 :: u8, 0, 0, 0, 2, 0, 0, 0, 9, 9] \<and>
       batch_item_get [0, 0, 0, 0, 2, 0, 0, 0, 9, 9] 1 i =
         Ok (sub [0, 0, 0, 0, 2, 0, 0, 0, 9, 9] off (unat len), len)))"
proof -
  have "unat (1 :: u32) * 8 \<le> length [0 :: u8, 0, 0, 0, 2, 0, 0, 0, 9, 9]"
    "length [0 :: u8, 0, 0, 0, 2, 0, 0, 0, 9, 9] - unat (1 :: u32) * 8 = unat (2 :: u32)" by simp_all
  from batch_validate_sound [OF this] show ?thesis by blast
qed

end
