(* ===== verification/Methods.thy ===== *)
theory Methods
  imports Packing
begin

text \<open>
  The two scalar method codecs: INCREMENT (\<open>protocol/increment.rs\<close>) and STRING_REVERSE
  (\<open>protocol/string_reverse.rs\<close>), with their dispatch functions. A dispatch handler is a parameter:
  it stands for the closure the embedding program supplies.
\<close>

section \<open>INCREMENT\<close>

definition INCREMENT_PAYLOAD_SIZE :: usize where
  "INCREMENT_PAYLOAD_SIZE = 8"

definition increment_encode :: "u64 \<Rightarrow> bytes \<Rightarrow> ('e, usize \<times> bytes) outcome" where
  "increment_encode value buf =
     (if length buf < INCREMENT_PAYLOAD_SIZE then Ok (0, buf)
      else rbind (put_u64 buf 0 value) (\<lambda>buf. Ok (INCREMENT_PAYLOAD_SIZE, buf)))"

definition increment_decode :: "bytes \<Rightarrow> u64 result" where
  "increment_decode buf =
     (if length buf < INCREMENT_PAYLOAD_SIZE then Err Truncated
      else rbind (u64_at buf 0) (\<lambda>value. Ok value))"

definition dispatch_increment ::
  "bytes \<Rightarrow> bytes \<Rightarrow> (u64 \<Rightarrow> u64 option) \<Rightarrow> (usize option \<times> bytes) result" where
  "dispatch_increment req resp handler =
     (case increment_decode req of
        Panic \<Rightarrow> Panic
      | Err _ \<Rightarrow> Ok (None, resp)
      | Ok value \<Rightarrow>
         (case handler value of
            None \<Rightarrow> Ok (None, resp)
          | Some r \<Rightarrow>
              rbind (increment_encode r resp) (\<lambda>(n, resp).
              if n = 0 then Ok (None, resp) else Ok (Some n, resp))))"

interpretation inc: canonical_codec INCREMENT_PAYLOAD_SIZE u64_to_ne "\<lambda>_. True" increment_encode increment_decode
proof (unfold_locales, goal_cases)
  case (2 buf m)
  then show ?case by (simp add: increment_encode_def INCREMENT_PAYLOAD_SIZE_def upd_0)
next
  case (8 buf m)
  then show ?case
    by (auto simp: increment_decode_def INCREMENT_PAYLOAD_SIZE_def to_ne_rd sub_front not_less
        split: if_splits)
qed (auto simp: increment_encode_def increment_decode_def INCREMENT_PAYLOAD_SIZE_def wire_reads)

section \<open>STRING_REVERSE\<close>

definition STRING_REVERSE_HDR_SIZE :: usize where
  "STRING_REVERSE_HDR_SIZE = 8"

record string_reverse_view =
  srv_str_data :: bytes
  srv_str_len :: u32

definition string_reverse_encode :: "bytes \<Rightarrow> bytes \<Rightarrow> ('e, usize \<times> bytes) outcome" where
  "string_reverse_encode s buf =
     (if length s > 4294967295 then Ok (0, buf)
      else
        let total = STRING_REVERSE_HDR_SIZE + length s + 1 in
        if length buf < total then Ok (0, buf)
        else
          let offset = word_of_nat STRING_REVERSE_HDR_SIZE :: u32;
              len = word_of_nat (length s) :: u32 in
          rbind (put_u32 buf 0 offset) (\<lambda>buf.
          rbind (put_u32 buf 4 len) (\<lambda>buf.
          rbind (if s \<noteq> [] then copy_from_slice buf 8 (8 + length s) s else Ok buf) (\<lambda>buf.
          rbind (index_set buf (8 + length s) 0) (\<lambda>buf.
          Ok (total, buf))))))"

definition string_reverse_decode :: "bytes \<Rightarrow> string_reverse_view result" where
  "string_reverse_decode buf =
     (if length buf < STRING_REVERSE_HDR_SIZE then Err Truncated
      else
        rbind (u32_at buf 0) (\<lambda>off32.
        let str_offset = unat off32 in
        if str_offset < STRING_REVERSE_HDR_SIZE then Err BadLayout
        else
          rbind (u32_at buf 4) (\<lambda>len32.
          let str_length = unat len32 in
          rbind (ok_or (Option.bind (checked_add str_offset str_length) (\<lambda>v. checked_add v 1)) OutOfBounds) (\<lambda>fin.
          if fin > length buf then Err OutOfBounds
          else
            rbind (index buf (str_offset + str_length)) (\<lambda>nul.
            if nul \<noteq> 0 then Err MissingNul
            else
              rbind (slice_rng buf str_offset (str_offset + str_length)) (\<lambda>str_data.
              Ok \<lparr>srv_str_data = str_data, srv_str_len = word_of_nat str_length\<rparr>))))))"

definition dispatch_string_reverse ::
  "bytes \<Rightarrow> bytes \<Rightarrow> (bytes \<Rightarrow> bytes option) \<Rightarrow> (usize option \<times> bytes) result" where
  "dispatch_string_reverse req resp handler =
     (case string_reverse_decode req of
        Panic \<Rightarrow> Panic
      | Err _ \<Rightarrow> Ok (None, resp)
      | Ok view \<Rightarrow>
         (case handler (srv_str_data view) of
            None \<Rightarrow> Ok (None, resp)
          | Some r \<Rightarrow>
              rbind (string_reverse_encode r resp) (\<lambda>(n, resp).
              if n = 0 then Ok (None, resp) else Ok (Some n, resp))))"

definition string_reverse_wire :: "bytes \<Rightarrow> bytes" where
  "string_reverse_wire s = u32_to_ne 8 @ u32_to_ne (word_of_nat (length s)) @ s @ [0]"

lemma length_string_reverse_wire [simp]: "length (string_reverse_wire s) = length s + 9"
  by (simp add: string_reverse_wire_def)

lemma string_reverse_encode_ok:
  assumes "length s < 2 ^ 32" "length s + 9 \<le> length buf"
  shows "string_reverse_encode s buf =
           Ok (length s + 9, string_reverse_wire s @ drop (length s + 9) buf)"
proof (cases "s = []")
  case True
  with assms show ?thesis
    by (simp add: string_reverse_encode_def STRING_REVERSE_HDR_SIZE_def string_reverse_wire_def Let_def
        index_set_ok append_windows)
next
  case False
  with assms show ?thesis
    by (simp add: string_reverse_encode_def STRING_REVERSE_HDR_SIZE_def string_reverse_wire_def Let_def
        copy_from_slice_ok index_set_ok append_windows add.commute)
qed

lemma string_reverse_encode_short:
  "\<not> (length s < 2 ^ 32 \<and> length s + 9 \<le> length buf) \<Longrightarrow> string_reverse_encode s buf = Ok (0, buf)"
  by (auto simp: string_reverse_encode_def STRING_REVERSE_HDR_SIZE_def Let_def)

lemma string_reverse_decode_eq:
  "string_reverse_decode buf =
     (let off = unat (rd32 buf 0); len = unat (rd32 buf 4) in
      if length buf < 8 then Err Truncated
      else if off < 8 then Err BadLayout
      else if length buf < off + len + 1 then Err OutOfBounds
      else if buf ! (off + len) \<noteq> 0 then Err MissingNul
      else Ok \<lparr>srv_str_data = sub buf off len, srv_str_len = rd32 buf 4\<rparr>)"
  using u32_lt [of "rd32 buf 0"] u32_lt [of "rd32 buf 4"]
  by (simp add: string_reverse_decode_def STRING_REVERSE_HDR_SIZE_def Let_def checked_ok USIZE_MAX_def
      index_ok slice_rng_ok not_less)

lemma string_reverse_decode_no_panic [no_panic]: "string_reverse_decode buf \<noteq> Panic"
  by (simp add: string_reverse_decode_eq Let_def)

lemma string_reverse_decode_wire:
  assumes "length s < 2 ^ 32"
  shows "string_reverse_decode (string_reverse_wire s @ rest) =
           Ok \<lparr>srv_str_data = s, srv_str_len = word_of_nat (length s)\<rparr>"
proof -
  let ?b = "string_reverse_wire s @ rest"
  have r: "rd32 ?b 0 = 8" "rd32 ?b 4 = word_of_nat (length s)"
    by (simp_all add: string_reverse_wire_def wire_reads)
  have n: "?b ! (8 + length s) = 0" "sub ?b 8 (length s) = s"
    by (simp_all add: string_reverse_wire_def nth_append append_windows)
  show ?thesis using assms r n by (simp add: string_reverse_decode_eq Let_def)
qed

text \<open>C25: INCREMENT and STRING_REVERSE values survive the wire. Encoding into any buffer of at
  least the needed size writes only that many bytes, and decoding the written prefix gives the
  value back; a buffer that is too small is left untouched and 0 is returned.\<close>

theorem method_roundtrip:
  "(8 \<le> length buf \<longrightarrow> (\<exists>buf'. increment_encode v buf = (Ok (8, buf') :: (nipc_error, _) outcome) \<and>
      drop 8 buf' = drop 8 buf \<and> increment_decode (take 8 buf') = Ok v)) \<and>
   (length buf < 8 \<longrightarrow> increment_encode v buf = (Ok (0, buf) :: (nipc_error, _) outcome)) \<and>
   (if length s < 2 ^ 32 \<and> length s + 9 \<le> length buf
    then \<exists>buf'. string_reverse_encode s buf = (Ok (length s + 9, buf') :: (nipc_error, _) outcome) \<and>
           drop (length s + 9) buf' = drop (length s + 9) buf \<and>
           string_reverse_decode (take (length s + 9) buf') =
             Ok \<lparr>srv_str_data = s, srv_str_len = word_of_nat (length s)\<rparr>
    else string_reverse_encode s buf = (Ok (0, buf) :: (nipc_error, _) outcome))"
  using inc.encode_ok [of buf v] inc.decode_wire [of v "[]"] inc.encode_short [of buf v]
    string_reverse_encode_ok [of s buf] string_reverse_encode_short [of s buf]
    string_reverse_decode_wire [of s "[]"]
  by (auto simp: INCREMENT_PAYLOAD_SIZE_def)

theorem method_roundtrip_witness:
  "\<exists>buf'. increment_encode 77 (replicate 9 1) = (Ok (8, buf') :: (nipc_error, _) outcome) \<and>
      drop 8 buf' = [1] \<and> increment_decode (take 8 buf') = Ok 77"
  using method_roundtrip [of "replicate 9 1" 77 "[]"] by simp

end
