(* ===== verification/Snapshot.thy ===== *)
theory Snapshot
  imports Packing
begin

text \<open>
  The CGROUPS_SNAPSHOT codec of \<open>protocol/cgroups_snapshot.rs\<close>: the request, the response view that
  a client reads, the builder that a server fills, and the dispatch function. The builder is tied to
  the reference layout of \<open>Packing\<close> by an invariant that every operation of its interface preserves.
\<close>

section \<open>Request\<close>

definition CGROUPS_REQ_SIZE :: usize where "CGROUPS_REQ_SIZE = 4"
definition CGROUPS_RESP_HDR_SIZE :: usize where "CGROUPS_RESP_HDR_SIZE = 24"
definition CGROUPS_DIR_ENTRY_SIZE :: usize where "CGROUPS_DIR_ENTRY_SIZE = 8"
definition CGROUPS_ITEM_HDR_SIZE :: usize where "CGROUPS_ITEM_HDR_SIZE = 32"

lemmas cgroups_sizes = CGROUPS_REQ_SIZE_def CGROUPS_RESP_HDR_SIZE_def CGROUPS_DIR_ENTRY_SIZE_def
  CGROUPS_ITEM_HDR_SIZE_def ALIGNMENT_def

record cgroups_request =
  creq_layout_version :: u16
  creq_flags :: u16

definition cgroups_request_encode :: "cgroups_request \<Rightarrow> bytes \<Rightarrow> ('e, usize \<times> bytes) outcome" where
  "cgroups_request_encode r buf =
     (if length buf < CGROUPS_REQ_SIZE then Ok (0, buf)
      else
        rbind (put_u16 buf 0 (creq_layout_version r)) (\<lambda>buf.
        rbind (put_u16 buf 2 (creq_flags r)) (\<lambda>buf.
        Ok (CGROUPS_REQ_SIZE, buf))))"

definition cgroups_request_decode :: "bytes \<Rightarrow> cgroups_request result" where
  "cgroups_request_decode buf =
     (if length buf < CGROUPS_REQ_SIZE then Err Truncated
      else
        rbind (u16_at buf 0) (\<lambda>layout_version.
        rbind (u16_at buf 2) (\<lambda>flags.
        if layout_version \<noteq> 1 then Err BadLayout
        else if flags \<noteq> 0 then Err BadLayout
        else Ok \<lparr>creq_layout_version = layout_version, creq_flags = flags\<rparr>)))"

definition cgroups_request_wire :: "cgroups_request \<Rightarrow> bytes" where
  "cgroups_request_wire r = u16_to_ne (creq_layout_version r) @ u16_to_ne (creq_flags r)"

definition cgroups_request_valid :: "cgroups_request \<Rightarrow> bool" where
  "cgroups_request_valid r \<longleftrightarrow> creq_layout_version r = 1 \<and> creq_flags r = 0"

lemma cgroups_request_decode_read:
  "cgroups_request_decode buf = Ok m \<Longrightarrow>
     m = \<lparr>creq_layout_version = rd16 buf 0, creq_flags = rd16 buf 2\<rparr> \<and> CGROUPS_REQ_SIZE \<le> length buf"
  by (auto simp: cgroups_request_decode_def CGROUPS_REQ_SIZE_def not_less split: if_splits)

interpretation creq: canonical_codec CGROUPS_REQ_SIZE cgroups_request_wire cgroups_request_valid
  cgroups_request_encode cgroups_request_decode
proof (unfold_locales, goal_cases)
  case (2 buf m)
  then show ?case
    by (simp add: cgroups_request_encode_def cgroups_request_wire_def CGROUPS_REQ_SIZE_def append_windows)
next
  case (6 buf m)
  then show ?case
    by (auto simp: cgroups_request_decode_def CGROUPS_REQ_SIZE_def cgroups_request_valid_def not_less
        split: if_splits)
next
  case (8 buf m)
  then have "m = \<lparr>creq_layout_version = rd16 buf 0, creq_flags = rd16 buf 2\<rparr>" "CGROUPS_REQ_SIZE \<le> length buf"
    using cgroups_request_decode_read by auto
  then show ?case by (simp add: cgroups_request_wire_def CGROUPS_REQ_SIZE_def wire_back)
qed (simp_all add: cgroups_request_encode_def cgroups_request_decode_def cgroups_request_wire_def
      cgroups_request_valid_def CGROUPS_REQ_SIZE_def wire_reads)

section \<open>Response view\<close>

record str_view =
  sv_bytes :: bytes
  sv_len :: u32

definition str_view_as_bytes :: "str_view \<Rightarrow> ('e, bytes) outcome" where
  "str_view_as_bytes v = slice_rng (sv_bytes v) 0 (unat (sv_len v))"

record cgroups_item_view =
  civ_layout_version :: u16
  civ_flags :: u16
  civ_hash :: u32
  civ_options :: u32
  civ_enabled :: u32
  civ_name :: str_view
  civ_path :: str_view

record cgroups_response_view =
  crv_layout_version :: u16
  crv_flags :: u16
  crv_item_count :: u32
  crv_systemd_enabled :: u32
  crv_generation :: u64
  crv_payload :: bytes

fun cgroups_dir_check :: "bytes \<Rightarrow> usize \<Rightarrow> usize \<Rightarrow> nat \<Rightarrow> unit result" where
  "cgroups_dir_check buf packed_area_len i 0 = Ok ()"
| "cgroups_dir_check buf packed_area_len i (Suc left) =
     (let base = CGROUPS_RESP_HDR_SIZE + i * 8 in
      rbind (u32_at buf base) (\<lambda>off.
      rbind (u32_at buf (base + 4)) (\<lambda>len.
      if unat off mod ALIGNMENT \<noteq> 0 then Err BadAlignment
      else if unat off + unat len > packed_area_len then Err OutOfBounds
      else if unat len < CGROUPS_ITEM_HDR_SIZE then Err Truncated
      else cgroups_dir_check buf packed_area_len (i + 1) left)))"

definition cgroups_response_decode :: "bytes \<Rightarrow> cgroups_response_view result" where
  "cgroups_response_decode buf =
     (if length buf < CGROUPS_RESP_HDR_SIZE then Err Truncated
      else
        rbind (u16_at buf 0) (\<lambda>layout_version.
        rbind (u16_at buf 2) (\<lambda>flags.
        rbind (u32_at buf 4) (\<lambda>item_count.
        rbind (u32_at buf 8) (\<lambda>systemd_enabled.
        rbind (u32_at buf 12) (\<lambda>reserved.
        rbind (u64_at buf 16) (\<lambda>generation.
        if layout_version \<noteq> 1 then Err BadLayout
        else if flags \<noteq> 0 then Err BadLayout
        else if reserved \<noteq> 0 then Err BadLayout
        else
          rbind (ok_or (checked_mul (unat item_count) CGROUPS_DIR_ENTRY_SIZE) BadLayout) (\<lambda>dir_size.
          rbind (ok_or (checked_add CGROUPS_RESP_HDR_SIZE dir_size) BadLayout) (\<lambda>dir_end.
          if dir_end > length buf then Err Truncated
          else
            let packed_area_len = length buf - dir_end in
            rbind (cgroups_dir_check buf packed_area_len 0 (unat item_count)) (\<lambda>_.
            Ok \<lparr>crv_layout_version = layout_version, crv_flags = flags, crv_item_count = item_count,
                crv_systemd_enabled = systemd_enabled, crv_generation = generation,
                crv_payload = buf\<rparr>))))))))))"

text \<open>The body of \<open>item\<close> behind the directory lookup: header fields, strings and their overlap.\<close>

definition cgroups_item_parse :: "bytes \<Rightarrow> u32 \<Rightarrow> cgroups_item_view result" where
  "cgroups_item_parse item item_len =
     rbind (u16_at item 0) (\<lambda>layout_version.
     rbind (u16_at item 2) (\<lambda>flags.
     rbind (u32_at item 4) (\<lambda>hash.
     rbind (u32_at item 8) (\<lambda>options.
     rbind (u32_at item 12) (\<lambda>enabled.
     rbind (u32_at item 16) (\<lambda>name_off.
     rbind (u32_at item 20) (\<lambda>name_len.
     rbind (u32_at item 24) (\<lambda>path_off.
     rbind (u32_at item 28) (\<lambda>path_len.
     if layout_version \<noteq> 1 then Err BadLayout
     else if flags \<noteq> 0 then Err BadLayout
     else if unat name_off < CGROUPS_ITEM_HDR_SIZE then Err OutOfBounds
     else if unat name_off + unat name_len + 1 > unat item_len then Err OutOfBounds
     else
       rbind (index item (unat name_off + unat name_len)) (\<lambda>nul.
       if nul \<noteq> 0 then Err MissingNul
       else if unat path_off < CGROUPS_ITEM_HDR_SIZE then Err OutOfBounds
       else if unat path_off + unat path_len + 1 > unat item_len then Err OutOfBounds
       else
         rbind (index item (unat path_off + unat path_len)) (\<lambda>nul.
         if nul \<noteq> 0 then Err MissingNul
         else
           let name_start = unat name_off; name_end = name_start + unat name_len + 1;
               path_start = unat path_off; path_end = path_start + unat path_len + 1 in
           if name_start < path_end \<and> path_start < name_end then Err BadLayout
           else
             rbind (slice_rng item (unat name_off) (unat name_off + unat name_len + 1)) (\<lambda>name.
             rbind (slice_rng item (unat path_off) (unat path_off + unat path_len + 1)) (\<lambda>path.
             Ok \<lparr>civ_layout_version = layout_version, civ_flags = flags, civ_hash = hash,
                 civ_options = options, civ_enabled = enabled,
                 civ_name = \<lparr>sv_bytes = name, sv_len = name_len\<rparr>,
                 civ_path = \<lparr>sv_bytes = path, sv_len = path_len\<rparr>\<rparr>)))))))))))))"

definition cgroups_response_item :: "cgroups_response_view \<Rightarrow> u32 \<Rightarrow> cgroups_item_view result" where
  "cgroups_response_item v idx =
     (if idx \<ge> crv_item_count v then Err OutOfBounds
      else
        let dir_start = CGROUPS_RESP_HDR_SIZE;
            dir_size = unat (crv_item_count v) * CGROUPS_DIR_ENTRY_SIZE;
            packed_area_start = dir_start + dir_size;
            dir_base = dir_start + unat idx * 8 in
        rbind (u32_at (crv_payload v) dir_base) (\<lambda>item_off.
        rbind (u32_at (crv_payload v) (dir_base + 4)) (\<lambda>item_len.
        let item_start = packed_area_start + unat item_off in
        rbind (slice_rng (crv_payload v) item_start (item_start + unat item_len)) (\<lambda>item.
        cgroups_item_parse item item_len))))"

section \<open>Response builder\<close>

record cgroups_builder =
  cb_buf :: bytes
  cb_systemd_enabled :: u32
  cb_generation :: u64
  cb_item_count :: u32
  cb_max_items :: u32
  cb_data_offset :: usize

definition cgroups_builder_new :: "bytes \<Rightarrow> u32 \<Rightarrow> u32 \<Rightarrow> u64 \<Rightarrow> ('e, cgroups_builder) outcome" where
  "cgroups_builder_new buf max_items systemd_enabled generation =
     (let dir_size = saturating_mul (unat max_items) CGROUPS_DIR_ENTRY_SIZE;
          min_required = saturating_add CGROUPS_RESP_HDR_SIZE dir_size in
      if \<not> length buf \<ge> min_required then Panic
      else Ok \<lparr>cb_buf = buf, cb_systemd_enabled = systemd_enabled, cb_generation = generation,
               cb_item_count = 0, cb_max_items = max_items, cb_data_offset = min_required\<rparr>)"

definition cgroups_set_header :: "u32 \<Rightarrow> u64 \<Rightarrow> cgroups_builder \<Rightarrow> cgroups_builder" where
  "cgroups_set_header systemd_enabled generation b =
     b\<lparr>cb_systemd_enabled := systemd_enabled, cb_generation := generation\<rparr>"

definition cgroups_write_item ::
  "bytes \<Rightarrow> usize \<Rightarrow> u32 \<Rightarrow> u32 \<Rightarrow> u32 \<Rightarrow> u32 \<Rightarrow> u32 \<Rightarrow> u32 \<Rightarrow> u32 \<Rightarrow> bytes \<Rightarrow> bytes \<Rightarrow> bytes result" where
  "cgroups_write_item buf p hash options enabled name_offset name_len path_offset path_len name path =
     rbind (put_u16 buf p 1) (\<lambda>buf.
     rbind (put_u16 buf (p + 2) 0) (\<lambda>buf.
     rbind (put_u32 buf (p + 4) hash) (\<lambda>buf.
     rbind (put_u32 buf (p + 8) options) (\<lambda>buf.
     rbind (put_u32 buf (p + 12) enabled) (\<lambda>buf.
     rbind (put_u32 buf (p + 16) name_offset) (\<lambda>buf.
     rbind (put_u32 buf (p + 20) name_len) (\<lambda>buf.
     rbind (put_u32 buf (p + 24) path_offset) (\<lambda>buf.
     rbind (put_u32 buf (p + 28) path_len) (\<lambda>buf.
     let name_start = p + unat name_offset in
     rbind (copy_from_slice buf name_start (name_start + length name) name) (\<lambda>buf.
     rbind (index_set buf (name_start + length name) 0) (\<lambda>buf.
     let path_start = p + unat path_offset in
     rbind (copy_from_slice buf path_start (path_start + length path) path) (\<lambda>buf.
     index_set buf (path_start + length path) 0))))))))))))"

definition cgroups_add ::
  "u32 \<Rightarrow> u32 \<Rightarrow> u32 \<Rightarrow> bytes \<Rightarrow> bytes \<Rightarrow> cgroups_builder \<Rightarrow> cgroups_builder result" where
  "cgroups_add hash options enabled name path b =
     (if cb_item_count b \<ge> cb_max_items b then Err Overflow
      else
        let item_start = align8 (cb_data_offset b) in
        rbind (ok_or (Option.bind (Option.bind (Option.bind (checked_add CGROUPS_ITEM_HDR_SIZE (length name))
                 (\<lambda>v. checked_add v 1)) (\<lambda>v. checked_add v (length path))) (\<lambda>v. checked_add v 1)) Overflow) (\<lambda>item_size.
        rbind (ok_or (checked_add item_start item_size) Overflow) (\<lambda>item_end.
        if item_end > length (cb_buf b) then Err Overflow
        else
          rbind (checked_u32 item_start) (\<lambda>item_start.
          rbind (checked_u32 item_size) (\<lambda>item_size.
          rbind (checked_u32 CGROUPS_ITEM_HDR_SIZE) (\<lambda>name_offset.
          rbind (checked_u32 (length name)) (\<lambda>name_len.
          rbind (ok_or (Option.bind (checked_add CGROUPS_ITEM_HDR_SIZE (length name))
                 (\<lambda>v. checked_add v 1)) Overflow) (\<lambda>path_offset.
          rbind (checked_u32 path_offset) (\<lambda>path_offset.
          rbind (checked_u32 (length path)) (\<lambda>path_len.
          rbind (if unat item_start > cb_data_offset b
                 then fill (cb_buf b) (cb_data_offset b) (unat item_start) 0 else Ok (cb_buf b)) (\<lambda>buf.
          let p = unat item_start in
          rbind (cgroups_write_item buf p hash options enabled name_offset name_len path_offset path_len
                   name path) (\<lambda>buf.
          let dir_entry = CGROUPS_RESP_HDR_SIZE + unat (cb_item_count b) * CGROUPS_DIR_ENTRY_SIZE in
          rbind (put_u32 buf dir_entry item_start) (\<lambda>buf.
          rbind (put_u32 buf (dir_entry + 4) item_size) (\<lambda>buf.
          Ok (b\<lparr>cb_buf := buf, cb_data_offset := p + unat item_size,
                cb_item_count := cb_item_count b + 1\<rparr>)))))))))))))))"

fun cgroups_relativize :: "bytes \<Rightarrow> u32 \<Rightarrow> usize \<Rightarrow> nat \<Rightarrow> ('e, bytes) outcome" where
  "cgroups_relativize p first_item_abs i 0 = Ok p"
| "cgroups_relativize p first_item_abs i (Suc left) =
     (let entry = CGROUPS_RESP_HDR_SIZE + i * CGROUPS_DIR_ENTRY_SIZE in
      rbind (u32_at p entry) (\<lambda>abs_off.
      rbind (put_u32 p entry (abs_off - first_item_abs)) (\<lambda>p.
      cgroups_relativize p first_item_abs (i + 1) left)))"

definition cgroups_write_header :: "bytes \<Rightarrow> u32 \<Rightarrow> u32 \<Rightarrow> u64 \<Rightarrow> ('e, bytes) outcome" where
  "cgroups_write_header p item_count systemd_enabled generation =
     rbind (put_u16 p 0 1) (\<lambda>p.
     rbind (put_u16 p 2 0) (\<lambda>p.
     rbind (put_u32 p 4 item_count) (\<lambda>p.
     rbind (put_u32 p 8 systemd_enabled) (\<lambda>p.
     rbind (put_u32 p 12 0) (\<lambda>p.
     put_u64 p 16 generation)))))"

definition cgroups_finish :: "cgroups_builder \<Rightarrow> ('e, usize \<times> bytes) outcome" where
  "cgroups_finish b =
     (let p = cb_buf b in
      if cb_item_count b = 0 then
        rbind (cgroups_write_header p 0 (cb_systemd_enabled b) (cb_generation b)) (\<lambda>p.
        Ok (CGROUPS_RESP_HDR_SIZE, p))
      else
        let final_packed_start = CGROUPS_RESP_HDR_SIZE + unat (cb_item_count b) * CGROUPS_DIR_ENTRY_SIZE in
        rbind (u32_at p CGROUPS_RESP_HDR_SIZE) (\<lambda>first.
        let first_item_abs = unat first;
            packed_data_len = usize_sub (cb_data_offset b) first_item_abs in
        rbind (if final_packed_start < first_item_abs
               then copy_within p first_item_abs (first_item_abs + packed_data_len) final_packed_start
               else Ok p) (\<lambda>p.
        rbind (cgroups_relativize p first 0 (unat (cb_item_count b))) (\<lambda>p.
        rbind (cgroups_write_header p (cb_item_count b) (cb_systemd_enabled b) (cb_generation b)) (\<lambda>p.
        Ok (final_packed_start + packed_data_len, p))))))"

definition estimate_cgroups_max_items :: "usize \<Rightarrow> u32" where
  "estimate_cgroups_max_items buf_size =
     (if buf_size \<le> CGROUPS_RESP_HDR_SIZE then 0
      else let min_aligned_item = align8 (CGROUPS_ITEM_HDR_SIZE + 2) in
        word_of_nat ((buf_size - CGROUPS_RESP_HDR_SIZE) div (CGROUPS_DIR_ENTRY_SIZE + min_aligned_item)))"

text \<open>The handler is the closure the service supplies: it gets the request and the builder and
  returns whether it succeeded, with the builder as it left it.\<close>

definition dispatch_cgroups_snapshot ::
  "bytes \<Rightarrow> bytes \<Rightarrow> u32 \<Rightarrow> (cgroups_request \<Rightarrow> cgroups_builder \<Rightarrow> bool \<times> cgroups_builder) \<Rightarrow>
   (usize option \<times> bytes) result" where
  "dispatch_cgroups_snapshot req resp max_items handler =
     (case cgroups_request_decode req of
        Panic \<Rightarrow> Panic
      | Err _ \<Rightarrow> Ok (None, resp)
      | Ok request \<Rightarrow>
         (case Option.bind (checked_mul (unat max_items) CGROUPS_DIR_ENTRY_SIZE)
                 (\<lambda>d. checked_add d CGROUPS_RESP_HDR_SIZE) of
            None \<Rightarrow> Ok (None, resp)
          | Some min_required \<Rightarrow>
              if length resp < min_required then Ok (None, resp)
              else
                rbind (cgroups_builder_new resp max_items 0 0) (\<lambda>builder.
                case handler request builder of (ok, builder) \<Rightarrow>
                  if \<not> ok then Ok (None, cb_buf builder)
                  else rbind (cgroups_finish builder) (\<lambda>(n, buf). Ok (Some n, buf)))))"


section \<open>Items on the wire\<close>

record snapshot_entry =
  se_hash :: u32
  se_options :: u32
  se_enabled :: u32
  se_name :: bytes
  se_path :: bytes

definition entry_item :: "snapshot_entry \<Rightarrow> bytes" where
  "entry_item e =
     u16_to_ne 1 @ u16_to_ne 0 @ u32_to_ne (se_hash e) @ u32_to_ne (se_options e) @
     u32_to_ne (se_enabled e) @ u32_to_ne 32 @ u32_to_ne (word_of_nat (length (se_name e))) @
     u32_to_ne (word_of_nat (length (se_name e) + 33)) @ u32_to_ne (word_of_nat (length (se_path e))) @
     se_name e @ [0] @ se_path e @ [0]"

definition entry_view :: "snapshot_entry \<Rightarrow> cgroups_item_view" where
  "entry_view e =
     \<lparr>civ_layout_version = 1, civ_flags = 0, civ_hash = se_hash e, civ_options = se_options e,
      civ_enabled = se_enabled e,
      civ_name = \<lparr>sv_bytes = se_name e @ [0], sv_len = word_of_nat (length (se_name e))\<rparr>,
      civ_path = \<lparr>sv_bytes = se_path e @ [0], sv_len = word_of_nat (length (se_path e))\<rparr>\<rparr>"

lemma length_entry_item [simp]: "length (entry_item e) = length (se_name e) + length (se_path e) + 34"
  by (simp add: entry_item_def)

lemma cgroups_write_item_ok:
  assumes "p + length (entry_item e) \<le> length buf" "length (entry_item e) < 2 ^ 32"
  shows "cgroups_write_item buf p (se_hash e) (se_options e) (se_enabled e) 32
     (word_of_nat (length (se_name e))) (word_of_nat (length (se_name e) + 33))
     (word_of_nat (length (se_path e))) (se_name e) (se_path e) = Ok (upd buf p (entry_item e))"
proof -
  have u: "unat (word_of_nat (length (se_name e) + 33) :: u32) = length (se_name e) + 33"
    using assms(2) by (simp del: of_nat_add)
  show ?thesis
    using assms
    by (simp add: cgroups_write_item_def u Let_def upd_upd_append copy_from_slice_ok index_set_ok
        entry_item_def del: of_nat_add)
qed

lemma cgroups_item_parse_no_panic [no_panic]:
  assumes "32 \<le> length item" "length item = unat item_len"
  shows "cgroups_item_parse item item_len \<noteq> Panic"
  using assms by (simp add: cgroups_item_parse_def index_ok slice_rng_ok Let_def)

lemma cgroups_item_parse_wire:
  assumes "length (entry_item e) < 2 ^ 32" "n = word_of_nat (length (entry_item e))"
  shows "cgroups_item_parse (entry_item e) n = Ok (entry_view e)"
proof -
  let ?i = "entry_item e" and ?nl = "length (se_name e)" and ?pl = "length (se_path e)"
  have r: "rd16 ?i 0 = 1" "rd16 ?i 2 = 0" "rd32 ?i 4 = se_hash e" "rd32 ?i 8 = se_options e"
    "rd32 ?i 12 = se_enabled e" "rd32 ?i 16 = 32" "rd32 ?i 20 = word_of_nat ?nl"
    "rd32 ?i 24 = word_of_nat (?nl + 33)" "rd32 ?i 28 = word_of_nat ?pl"
    by (simp_all add: entry_item_def wire_reads del: of_nat_add)
  have u: "unat (word_of_nat (?nl + 33) :: u32) = ?nl + 33" "unat (word_of_nat ?nl :: u32) = ?nl"
    "unat (word_of_nat ?pl :: u32) = ?pl" "unat n = ?nl + ?pl + 34"
    using assms by (simp_all del: of_nat_add)
  have z: "?i ! (32 + ?nl) = 0" "?i ! (?nl + 33 + ?pl) = 0"
    by (simp_all add: entry_item_def nth_append)
  have s: "sub ?i 32 (Suc ?nl) = se_name e @ [0]" "sub ?i (?nl + 33) (Suc ?pl) = se_path e @ [0]"
    by (simp_all add: entry_item_def append_windows) (simp_all add: sub_def)
  show ?thesis
    using assms(1)
    by (simp add: cgroups_item_parse_def r u z s index_ok slice_rng_ok entry_view_def Let_def
        CGROUPS_ITEM_HDR_SIZE_def del: of_nat_add)
qed

section \<open>Builder invariant\<close>

definition cgroups_inv :: "cgroups_builder \<Rightarrow> snapshot_entry list \<Rightarrow> bool" where
  "cgroups_inv b es \<longleftrightarrow>
     cb_item_count b = word_of_nat (length es) \<and> length es \<le> unat (cb_max_items b) \<and>
     packed_at (cb_buf b) 24 (24 + unat (cb_max_items b) * 8) (cb_data_offset b) (map entry_item es)"

definition cgroups_fits :: "nat \<Rightarrow> nat \<Rightarrow> snapshot_entry list \<Rightarrow> snapshot_entry \<Rightarrow> bool" where
  "cgroups_fits cap m es e \<longleftrightarrow> length es < m \<and>
     24 + m * 8 + al8 (length (pack_data (map entry_item es))) + length (entry_item e) \<le> cap"

definition cgroups_state :: "nat \<Rightarrow> nat \<Rightarrow> cgroups_builder \<Rightarrow> snapshot_entry list \<Rightarrow> bool" where
  "cgroups_state cap m b es \<longleftrightarrow> cgroups_inv b es \<and> length (cb_buf b) = cap \<and> unat (cb_max_items b) = m \<and>
     cap < 2 ^ 32"

definition snapshot_add :: "snapshot_entry \<Rightarrow> cgroups_builder \<Rightarrow> cgroups_builder result" where
  "snapshot_add e = cgroups_add (se_hash e) (se_options e) (se_enabled e) (se_name e) (se_path e)"

lemma cgroups_inv_aligned:
  "cgroups_inv b es \<Longrightarrow>
   al8 (cb_data_offset b) = 24 + unat (cb_max_items b) * 8 + al8 (length (pack_data (map entry_item es)))"
  using al8_add [of "24 + unat (cb_max_items b) * 8" "length (pack_data (map entry_item es))"]
  by (simp add: cgroups_inv_def packed_at_def)

lemma cgroups_inv_count: "cgroups_inv b es \<Longrightarrow> unat (cb_item_count b) = length es"
  using u32_lt [of "cb_max_items b"] by (simp add: cgroups_inv_def unat_of_nat)

lemma cgroups_inv_offset: "cgroups_inv b es \<Longrightarrow> cb_data_offset b \<le> length (cb_buf b)"
  by (simp add: cgroups_inv_def packed_at_def)

lemma cgroups_builder_new_eq:
  "cgroups_builder_new buf m s g =
     (if 24 + unat m * 8 \<le> length buf
      then Ok \<lparr>cb_buf = buf, cb_systemd_enabled = s, cb_generation = g, cb_item_count = 0,
               cb_max_items = m, cb_data_offset = 24 + unat m * 8\<rparr>
      else Panic)"
  using u32_lt [of m]
  by (simp add: cgroups_builder_new_def saturating_mul_def saturating_add_def cgroups_sizes USIZE_MAX_def
      Let_def)

lemma cgroups_inv_new: "cgroups_builder_new buf m s g = Ok b \<Longrightarrow> cgroups_inv b []"
  by (auto simp: cgroups_builder_new_eq cgroups_inv_def packed_at_Nil split: if_splits)

lemma cgroups_inv_set_header: "cgroups_inv b es \<Longrightarrow> cgroups_inv (cgroups_set_header s g b) es"
  by (simp add: cgroups_inv_def cgroups_set_header_def)

lemma cgroups_add_eval:
  assumes "unat (cb_item_count b) = n" "cb_data_offset b = off" "o1 = al8 off" "off \<le> length (cb_buf b)"
    and "n < unat (cb_max_items b)" "24 + n * 8 + 8 \<le> off"
    and "o1 + length (entry_item e) \<le> length (cb_buf b)" "length (cb_buf b) < 2 ^ 32"
  shows "cgroups_add (se_hash e) (se_options e) (se_enabled e) (se_name e) (se_path e) b = Ok (b\<lparr>
     cb_buf := upd (upd (upd (upd (cb_buf b) off (replicate (o1 - off) 0)) o1 (entry_item e))
                 (24 + n * 8) (u32_to_ne (word_of_nat o1))) (24 + n * 8 + 4)
                 (u32_to_ne (word_of_nat (length (entry_item e)))),
     cb_data_offset := o1 + length (entry_item e), cb_item_count := cb_item_count b + 1\<rparr>)"
proof -
  have o: "off \<le> o1" using assms(3) al8_ge by simp
  have al: "align8 off = o1" using assms by (simp add: align8_al8 USIZE_MAX_def)
  have lt: "o1 < 2 ^ 32" "length (entry_item e) < 2 ^ 32" using assms by simp_all
  have c: "Option.bind (Option.bind (Some (length (se_name e) + 33)) (\<lambda>v. checked_add v (length (se_path e))))
       (\<lambda>v. checked_add v 1) = Some (length (entry_item e))"
    "Option.bind (checked_add CGROUPS_ITEM_HDR_SIZE (length (se_name e))) (\<lambda>v. checked_add v 1)
       = Some (length (se_name e) + 33)"
    "checked_add o1 (length (entry_item e)) = Some (o1 + length (entry_item e))"
    using lt by (simp_all add: checked_ok USIZE_MAX_def CGROUPS_ITEM_HDR_SIZE_def)
  have f: "(if off < o1 then fill (cb_buf b) off o1 0 else Ok (cb_buf b)) =
      (Ok (upd (cb_buf b) off (replicate (o1 - off) 0)) :: bytes result)"
    using o assms(4,7) by (auto simp: fill_ok not_less)
  have w: "cgroups_write_item (upd (cb_buf b) off (replicate (o1 - off) 0)) o1 (se_hash e) (se_options e)
     (se_enabled e) 32 (word_of_nat (length (se_name e))) (word_of_nat (length (se_name e) + 33))
     (word_of_nat (length (se_path e))) (se_name e) (se_path e) =
     Ok (upd (upd (cb_buf b) off (replicate (o1 - off) 0)) o1 (entry_item e))"
    using assms o lt by (intro cgroups_write_item_ok) auto
  have nar: "checked_u32 o1 = Ok (word_of_nat o1)"
    "checked_u32 (length (entry_item e)) = Ok (word_of_nat (length (entry_item e)))"
    "checked_u32 (length (se_name e)) = Ok (word_of_nat (length (se_name e)))"
    "checked_u32 (length (se_path e)) = Ok (word_of_nat (length (se_path e)))"
    "checked_u32 (length (se_name e) + 33) = Ok (word_of_nat (length (se_name e) + 33))"
    "checked_u32 CGROUPS_ITEM_HDR_SIZE = Ok 32"
    using lt by (simp_all add: CGROUPS_ITEM_HDR_SIZE_def del: of_nat_add)
  have un: "unat (word_of_nat o1 :: u32) = o1"
    "unat (word_of_nat (length (entry_item e)) :: u32) = length (entry_item e)"
    using lt by (simp_all del: length_entry_item)
  have ncnt: "\<not> cb_max_items b \<le> cb_item_count b" using assms by (simp add: word_le_nat_alt)
  have fit: "\<not> length (cb_buf b) < o1 + length (entry_item e)" using assms(7) by simp
  show ?thesis
    unfolding cgroups_add_def assms(1,2) al Let_def c ok_or.simps rbind.simps nar un f w
      if_not_P [OF ncnt] if_not_P [OF fit]
    using assms o by (simp add: cgroups_sizes)
qed


lemma cgroups_add_ok:
  assumes st: "cgroups_state cap m b es" and fits: "cgroups_fits cap m es e"
  shows "\<exists>b'. snapshot_add e b = Ok b' \<and> cgroups_state cap m b' (es @ [e])"
proof -
  let ?off = "cb_data_offset b" and ?base = "24 + unat (cb_max_items b) * 8"
  have inv: "cgroups_inv b es" and len: "length (cb_buf b) < 2 ^ 32" using st by (auto simp: cgroups_state_def)
  have n: "length es < unat (cb_max_items b)" and f: "al8 ?off + length (entry_item e) \<le> length (cb_buf b)"
    using fits st cgroups_inv_aligned [OF inv] by (auto simp: cgroups_fits_def cgroups_state_def)
  have p: "packed_at (cb_buf b) 24 ?base ?off (map entry_item es)" using inv by (simp add: cgroups_inv_def)
  then have o: "?base \<le> ?off" by (simp add: packed_at_def)
  have g: "?off \<le> al8 ?off" by (rule al8_ge)
  note add = cgroups_add_eval [OF cgroups_inv_count [OF inv] refl refl cgroups_inv_offset [OF inv] n _ f len]
  note pk = packed_at_append [OF p _ refl f refl]
  have cnt: "cb_item_count b + 1 = word_of_nat (length (es @ [e]))" using inv by (simp add: cgroups_inv_def)
  show ?thesis
    using st add pk n o f g cnt by (simp add: cgroups_inv_def cgroups_state_def snapshot_add_def)
qed

lemma cgroups_add_overflow:
  assumes st: "cgroups_state cap m b es" and fits: "\<not> cgroups_fits cap m es e"
  shows "snapshot_add e b = Err Overflow"
proof -
  have inv: "cgroups_inv b es" and len: "length (cb_buf b) < 2 ^ 32" using st by (auto simp: cgroups_state_def)
  show ?thesis
  proof (cases "length es < unat (cb_max_items b)")
    case False
    then show ?thesis
      using cgroups_inv_count [OF inv] by (simp add: snapshot_add_def cgroups_add_def word_le_nat_alt)
  next
    case True
    then have f: "length (cb_buf b) < al8 (cb_data_offset b) + length (entry_item e)"
      using fits st cgroups_inv_aligned [OF inv] by (auto simp: cgroups_fits_def cgroups_state_def)
    have al: "align8 (cb_data_offset b) = al8 (cb_data_offset b)"
      using cgroups_inv_offset [OF inv] len by (intro align8_al8) (simp add: USIZE_MAX_def)
    show ?thesis
      using f by (auto simp: snapshot_add_def cgroups_add_def al Let_def checked_add_def CGROUPS_ITEM_HDR_SIZE_def)
  qed
qed

interpretation cb: item_builder "cgroups_state cap m" "cgroups_fits cap m" snapshot_add for cap m
  using cgroups_add_ok cgroups_add_overflow by unfold_locales auto

section \<open>Finishing\<close>

lemma cgroups_relativize_ok:
  assumes "sub buf 24 (length d * 8) = dir_wire (take k d @ drop k (dir_shift b d))"
    and "k + left = length d" "24 + length d * 8 \<le> length buf"
  shows "\<exists>buf'. cgroups_relativize buf (word_of_nat b) k left = (Ok buf' :: ('e, bytes) outcome) \<and> length buf' = length buf \<and>
     sub buf' 24 (length d * 8) = dir_wire d \<and>
     (\<forall>o' m. 24 + length d * 8 \<le> o' \<longrightarrow> o' + m \<le> length buf \<longrightarrow> sub buf' o' m = sub buf o' m)"
  using assms
proof (induction left arbitrary: k buf)
  case 0
  then show ?case by simp
next
  case (Suc left)
  have k: "k < length d" using Suc.prems by simp
  note r = rel_step [OF Suc.prems(1) k Suc.prems(3)]
  let ?buf = "upd buf (24 + k * 8) (u32_to_ne (word_of_nat (fst (d ! k))))"
  have l: "length ?buf = length buf" using k Suc.prems by simp
  obtain buf' where b: "cgroups_relativize ?buf (word_of_nat b) (Suc k) left = (Ok buf' :: ('e, bytes) outcome)"
      "length buf' = length buf"
      "sub buf' 24 (length d * 8) = dir_wire d"
      "\<forall>o' m. 24 + length d * 8 \<le> o' \<longrightarrow> o' + m \<le> length buf \<longrightarrow> sub buf' o' m = sub ?buf o' m"
    using Suc.IH [OF r(2)] Suc.prems l by auto
  have "\<forall>o' m. 24 + length d * 8 \<le> o' \<longrightarrow> o' + m \<le> length buf \<longrightarrow> sub ?buf o' m = sub buf o' m"
    using k Suc.prems by (auto intro!: sub_upd_disjoint)
  then show ?case
    using b r(1) k Suc.prems by (auto simp: cgroups_sizes Let_def)
qed

definition cgroups_hdr_wire :: "u32 \<Rightarrow> u32 \<Rightarrow> u64 \<Rightarrow> bytes" where
  "cgroups_hdr_wire n s g =
     u16_to_ne 1 @ u16_to_ne 0 @ u32_to_ne n @ u32_to_ne s @ u32_to_ne 0 @ u64_to_ne g"

lemma length_cgroups_hdr_wire [simp]: "length (cgroups_hdr_wire n s g) = 24"
  by (simp add: cgroups_hdr_wire_def)

lemma cgroups_write_header_ok:
  "24 \<le> length p \<Longrightarrow> cgroups_write_header p n s g = Ok (upd p 0 (cgroups_hdr_wire n s g))"
  by (simp add: cgroups_write_header_def cgroups_hdr_wire_def upd_upd_append)

lemma cgroups_finish_ok:
  assumes inv: "cgroups_inv b es" and len: "length (cb_buf b) < 2 ^ 32"
    and xs: "xs = map entry_item es" and t: "t = 24 + length es * 8 + length (pack_data xs)"
  shows "\<exists>buf'. (cgroups_finish b :: ('e, _) outcome) = Ok (t, buf') \<and> length buf' = length (cb_buf b) \<and>
     take 24 buf' = cgroups_hdr_wire (cb_item_count b) (cb_systemd_enabled b) (cb_generation b) \<and>
     packed_final buf' 24 xs"
proof -
  let ?base = "24 + unat (cb_max_items b) * 8"
  define h where "h = cgroups_hdr_wire (cb_item_count b) (cb_systemd_enabled b) (cb_generation b)"
  have lh: "length h = 24" by (simp add: h_def)
  have p: "packed_at (cb_buf b) 24 ?base (cb_data_offset b) xs" using inv xs by (simp add: cgroups_inv_def)
  then have o: "cb_data_offset b = ?base + length (pack_data xs)" "cb_data_offset b \<le> length (cb_buf b)"
      "24 + length xs * 8 \<le> ?base" by (auto simp: packed_at_def)
  note c = cgroups_inv_count [OF inv]
  show ?thesis
  proof (cases "es = []")
    case True
    then have "cb_item_count b = 0" using inv by (simp add: cgroups_inv_def)
    then show ?thesis
      using True xs t o
      by (simp add: cgroups_finish_def cgroups_write_header_ok cgroups_sizes packed_final_def dir_wire_def upd_0)
  next
    case False
    then have ne: "cb_item_count b \<noteq> 0" using c by auto
    define buf1 where "buf1 = (if 24 + length xs * 8 < ?base
      then upd (cb_buf b) (24 + length xs * 8) (sub (cb_buf b) ?base (cb_data_offset b - ?base)) else cb_buf b)"
    have s: "length buf1 = length (cb_buf b)"
        "sub buf1 24 (length xs * 8) = dir_wire (dir_shift ?base (pack_dir xs))"
        "sub buf1 (24 + length xs * 8) (length (pack_data xs)) = pack_data xs"
      using packed_shift [OF p refl buf1_def] by auto
    have nx: "xs \<noteq> []" "length xs = length es" using False xs by auto
    have d: "sub (cb_buf b) 24 (length (dir_shift ?base (pack_dir xs)) * 8) = dir_wire (dir_shift ?base (pack_dir xs))"
      using p by (simp add: packed_at_def)
    have first: "rd32 (cb_buf b) 24 = word_of_nat ?base"
      using dir_wire_read(1) [OF d, of 0] nx False pack_dir_first [OF nx(1)] by simp
    have ub: "unat (word_of_nat ?base :: u32) = ?base" using o len by (intro unat_word32) simp
    have cw: "(if 24 + length es * 8 < ?base then copy_within (cb_buf b) ?base (?base + length (pack_data xs))
        (24 + length es * 8) else Ok (cb_buf b)) = (Ok buf1 :: ('e, bytes) outcome)"
      using o nx by (auto simp: buf1_def copy_within_ok)
    obtain buf2 where b2: "cgroups_relativize buf1 (word_of_nat ?base) 0 (length es) = (Ok buf2 :: ('e, bytes) outcome)"
        "length buf2 = length (cb_buf b)" "sub buf2 24 (length xs * 8) = dir_wire (pack_dir xs)"
        "sub buf2 (24 + length xs * 8) (length (pack_data xs)) = pack_data xs"
      using cgroups_relativize_ok [of buf1 "pack_dir xs" 0 ?base "length es", where 'e = 'e] s o nx by auto
    have l28: "28 \<le> length (cb_buf b)" using o nx False by (cases es) auto
    then have r: "u32_at (cb_buf b) 24 = (Ok (word_of_nat ?base) :: ('e, u32) outcome)" using first by simp
    have ps: "usize_sub (cb_data_offset b) ?base = length (pack_data xs)" using o by simp
    have fin: "(cgroups_finish b :: ('e, _) outcome) = Ok (t, upd buf2 0 h)"
      unfolding cgroups_finish_def Let_def if_not_P [OF ne] c cgroups_sizes r rbind.simps ub ps cw b2(1)
      using l28 b2(2) by (simp add: cgroups_write_header_ok t h_def)
    have "packed_final (upd buf2 0 h) 24 xs"
      using b2 o nx lh by (auto simp: packed_final_def sub_upd_disjoint)
    with fin b2 lh o show ?thesis by (simp add: upd_0 h_def [symmetric])
  qed
qed


section \<open>Reading a response\<close>

definition cgroups_entry_ok :: "bytes \<Rightarrow> nat \<Rightarrow> nat \<Rightarrow> bool" where
  "cgroups_entry_ok buf packed i \<longleftrightarrow>
     unat (rd32 buf (24 + i * 8)) mod 8 = 0 \<and>
     unat (rd32 buf (24 + i * 8)) + unat (rd32 buf (24 + i * 8 + 4)) \<le> packed \<and>
     32 \<le> unat (rd32 buf (24 + i * 8 + 4))"

lemma cgroups_dir_check_ok:
  "24 + (i + n) * 8 \<le> length buf \<Longrightarrow>
   cgroups_dir_check buf packed i n \<noteq> Panic \<and>
   (cgroups_dir_check buf packed i n = Ok () \<longleftrightarrow> (\<forall>j. i \<le> j \<and> j < i + n \<longrightarrow> cgroups_entry_ok buf packed j))"
proof (induction n arbitrary: i)
  case 0
  then show ?case by auto
next
  case (Suc n)
  from Suc.IH [of "Suc i"] Suc.prems show ?case
    unfolding all_range_Suc
    by (auto simp: cgroups_entry_ok_def cgroups_sizes Let_def not_less)
qed

definition cgroups_view_of :: "bytes \<Rightarrow> cgroups_response_view" where
  "cgroups_view_of buf =
     \<lparr>crv_layout_version = rd16 buf 0, crv_flags = rd16 buf 2, crv_item_count = rd32 buf 4,
      crv_systemd_enabled = rd32 buf 8, crv_generation = rd64 buf 16, crv_payload = buf\<rparr>"

lemma cgroups_response_decode_no_panic [no_panic]: "cgroups_response_decode buf \<noteq> Panic"
  using cgroups_dir_check_ok [of 0 "unat (rd32 buf 4)" buf] u32_lt [of "rd32 buf 4"]
  by (auto simp: cgroups_response_decode_def cgroups_sizes Let_def checked_ok USIZE_MAX_def rbind_eq_Panic)

lemma cgroups_response_decode_ok:
  "cgroups_response_decode buf = Ok v \<longleftrightarrow>
     24 + unat (rd32 buf 4) * 8 \<le> length buf \<and> rd16 buf 0 = 1 \<and> rd16 buf 2 = 0 \<and> rd32 buf 12 = 0 \<and>
     (\<forall>j < unat (rd32 buf 4). cgroups_entry_ok buf (length buf - (24 + unat (rd32 buf 4) * 8)) j) \<and>
     v = cgroups_view_of buf"
proof (cases "length buf < 24")
  case True
  then show ?thesis by (simp add: cgroups_response_decode_def cgroups_sizes)
next
  case False
  let ?n = "unat (rd32 buf 4)"
  have c: "checked_add 24 (?n * 8) = Some (24 + ?n * 8)"
    using u32_lt [of "rd32 buf 4"] by (simp add: checked_ok USIZE_MAX_def)
  show ?thesis
    using False cgroups_dir_check_ok [of 0 ?n buf "length buf - (24 + ?n * 8)"]
    by (auto simp: cgroups_response_decode_def cgroups_sizes c cgroups_view_of_def rbind_eq_Ok Let_def not_less)
qed

lemma cgroups_response_item_eq:
  assumes "cgroups_response_decode buf = Ok v" "i < crv_item_count v"
    and "off = unat (rd32 buf (24 + unat i * 8))" "len = rd32 buf (24 + unat i * 8 + 4)"
  shows "cgroups_response_item v i =
           cgroups_item_parse (sub buf (24 + unat (crv_item_count v) * 8 + off) (unat len)) len"
    and "24 + unat (crv_item_count v) * 8 + off + unat len \<le> length buf" "32 \<le> unat len"
proof -
  have i: "unat i < unat (crv_item_count v)" using assms(2) by (simp add: word_less_nat_alt)
  have v: "v = cgroups_view_of buf" and le: "24 + unat (rd32 buf 4) * 8 \<le> length buf"
    and e: "cgroups_entry_ok buf (length buf - (24 + unat (rd32 buf 4) * 8)) (unat i)"
    using assms(1) i by (auto simp: cgroups_response_decode_ok cgroups_view_of_def)
  show b: "24 + unat (crv_item_count v) * 8 + off + unat len \<le> length buf" "32 \<le> unat len"
    using e le v assms(3,4) by (auto simp: cgroups_entry_ok_def cgroups_view_of_def)
  have p: "crv_payload v = buf" using v by (simp add: cgroups_view_of_def)
  have ni: "\<not> crv_item_count v \<le> i" using assms(2) by simp
  have "24 + unat i * 8 + 8 \<le> length buf" using i b by linarith
  then show "cgroups_response_item v i =
      cgroups_item_parse (sub buf (24 + unat (crv_item_count v) * 8 + off) (unat len)) len"
    using assms b by (simp add: cgroups_response_item_def cgroups_sizes p Let_def slice_rng_ok ni)
qed

lemma cgroups_final_decode:
  assumes hdr: "take 24 buf = cgroups_hdr_wire (word_of_nat (length es)) s g"
    and fin: "packed_final buf 24 (map entry_item es)" and len: "length buf < 2 ^ 32"
    and v: "v = \<lparr>crv_layout_version = 1, crv_flags = 0, crv_item_count = word_of_nat (length es),
         crv_systemd_enabled = s, crv_generation = g, crv_payload = buf\<rparr>"
  shows "cgroups_response_decode buf = Ok v"
    and "i < length es \<Longrightarrow> cgroups_response_item v (word_of_nat i) = Ok (entry_view (es ! i))"
proof -
  let ?xs = "map entry_item es" and ?n = "length es"
  obtain rest where bw: "buf = cgroups_hdr_wire (word_of_nat ?n) s g @ rest"
    using hdr append_take_drop_id [of 24 buf] by metis
  have r: "rd16 buf 0 = 1" "rd16 buf 2 = 0" "rd32 buf 4 = word_of_nat ?n" "rd32 buf 8 = s" "rd32 buf 12 = 0"
      "rd64 buf 16 = g"
    by (simp_all add: bw cgroups_hdr_wire_def wire_reads)
  have le: "24 + ?n * 8 + length (pack_data ?xs) \<le> length buf" using fin by (simp add: packed_final_def)
  have un: "unat (word_of_nat ?n :: u32) = ?n" using le len by simp
  have dl: "length (pack_data ?xs) < 2 ^ 32" using le len by simp
  note rd = packed_final_read [OF fin dl]
  have "cgroups_entry_ok buf (length buf - (24 + ?n * 8)) j" if "j < ?n" for j
    using rd(1-4) [of j] that le by (simp add: cgroups_entry_ok_def)
  then show d: "cgroups_response_decode buf = Ok v"
    using le r un v by (simp add: cgroups_response_decode_ok cgroups_view_of_def)
  show "cgroups_response_item v (word_of_nat i) = Ok (entry_view (es ! i))" if i: "i < ?n"
  proof -
    have ui: "unat (word_of_nat i :: u32) = i" using i le len by simp
    have lt: "word_of_nat i < crv_item_count v" using i un ui v by (simp add: word_less_nat_alt)
    have rl: "rd32 buf (24 + i * 8 + 4) = word_of_nat (length (entry_item (es ! i)))"
      using arg_cong [OF rd(2) [of i], of "word_of_nat :: nat \<Rightarrow> u32"] i by (simp del: length_entry_item)
    have w: "cgroups_item_parse (entry_item (es ! i)) (word_of_nat (length (entry_item (es ! i)))) = Ok (entry_view (es ! i))"
      using rd(3) [of i] i dl by (intro cgroups_item_parse_wire refl) (simp del: length_entry_item)
    show ?thesis
      using cgroups_response_item_eq(1) [OF d lt refl refl] rd(1,2,5) [of i] i w rl un ui v
      by (simp del: length_entry_item)
  qed
qed


section \<open>Properties\<close>

lemma cgroups_new_state:
  "24 + unat m * 8 \<le> length buf \<Longrightarrow> length buf < 2 ^ 32 \<Longrightarrow>
   \<exists>b. cgroups_builder_new buf m s g = Ok b \<and> cgroups_state (length buf) (unat m) b [] \<and>
       cb_systemd_enabled b = s \<and> cb_generation b = g"
  using cgroups_inv_new [of buf m s g] by (auto simp: cgroups_builder_new_eq cgroups_state_def)

lemma snapshot_add_header: "snapshot_add e b = Ok b' \<Longrightarrow>
    cb_systemd_enabled b' = cb_systemd_enabled b \<and> cb_generation b' = cb_generation b"
  by (auto simp: snapshot_add_def cgroups_add_def Let_def rbind_eq_Ok split: if_splits)

lemma add_seq_header: "add_seq snapshot_add es b = Ok b' \<Longrightarrow>
    cb_systemd_enabled b' = cb_systemd_enabled b \<and> cb_generation b' = cb_generation b"
  by (induction es arbitrary: b) (auto simp: rbind_eq_Ok dest: snapshot_add_header)

lemma cgroups_state_finishes: "cgroups_state cap m b es \<Longrightarrow> \<exists>n buf'. cgroups_finish b = Ok (n, buf')"
  using cgroups_finish_ok [OF _ _ refl refl, of b es] by (auto simp: cgroups_state_def)

lemma cgroups_state_finish:
  assumes st: "cgroups_state cap m b es"
    and v: "v = \<lparr>crv_layout_version = 1, crv_flags = 0, crv_item_count = word_of_nat (length es),
       crv_systemd_enabled = cb_systemd_enabled b, crv_generation = cb_generation b, crv_payload = take n buf'\<rparr>"
    and n: "n = 24 + length es * 8 + length (pack_data (map entry_item es))"
    and fin: "(cgroups_finish b :: ('e, _) outcome) = Ok (n', buf')"
  shows "n' = n" "n \<le> cap" "length buf' = cap" "length es < 2 ^ 32"
    and "cgroups_response_decode (take n buf') = Ok v"
    and "i < length es \<Longrightarrow> cgroups_response_item v (word_of_nat i) = Ok (entry_view (es ! i))"
proof -
  have inv: "cgroups_inv b es" and len: "length (cb_buf b) < 2 ^ 32" using st by (auto simp: cgroups_state_def)
  obtain buf2 where f: "(cgroups_finish b :: ('e, _) outcome) = Ok (n, buf2)" "length buf2 = cap"
      "take 24 buf2 = cgroups_hdr_wire (cb_item_count b) (cb_systemd_enabled b) (cb_generation b)"
      "packed_final buf2 24 (map entry_item es)"
    using cgroups_finish_ok [OF inv len refl n, where 'e = 'e] st by (auto simp: cgroups_state_def)
  with fin show "n' = n" "length buf' = cap" by auto
  have b: "buf2 = buf'" using f fin by simp
  show le: "n \<le> cap" using f(2,4) n by (simp add: packed_final_def)
  have cap: "cap < 2 ^ 32" using st by (simp add: cgroups_state_def)
  then show "length es < 2 ^ 32" using le n by simp
  have h: "take 24 (take n buf') = cgroups_hdr_wire (word_of_nat (length es)) (cb_systemd_enabled b) (cb_generation b)"
    using f(3) n inv b by (simp add: cgroups_inv_def)
  have p: "packed_final (take n buf') 24 (map entry_item es)"
    using f(4) b n by (intro packed_final_take) simp_all
  have l: "length (take n buf') < 2 ^ 32" using cap f(2) b by simp
  note d = cgroups_final_decode [OF h p l v]
  show "cgroups_response_decode (take n buf') = Ok v" by (rule d(1))
  show "cgroups_response_item v (word_of_nat i) = Ok (entry_view (es ! i))" if "i < length es"
    using d(2) [of i] that by simp
qed

text \<open>C2: a snapshot response built from a list of entries decodes to exactly those entries. For
  every list that fits the reserved directory and the buffer, \<open>new\<close>, one \<open>add\<close> per entry and \<open>finish\<close>
  all succeed, the payload decodes with the same count, systemd flag and generation, and \<open>item(i)\<close>
  returns the hash, options, enabled flag, name and path of the i-th entry.\<close>

theorem snapshot_roundtrip:
  assumes "length buf < 2 ^ 32" "length es \<le> unat m"
    and "24 + unat m * 8 + sum_list (map (\<lambda>e. al8 (length (se_name e) + length (se_path e) + 34)) es) \<le> length buf"
  shows "\<exists>b n buf' v.
     rbind (cgroups_builder_new buf m s g) (add_seq snapshot_add es) = Ok b \<and>
     (cgroups_finish b :: (nipc_error, _) outcome) = Ok (n, buf') \<and> n \<le> length buf \<and>
     cgroups_response_decode (take n buf') = Ok v \<and>
     crv_item_count v = word_of_nat (length es) \<and> crv_systemd_enabled v = s \<and> crv_generation v = g \<and>
     (\<forall>i < length es. cgroups_response_item v (word_of_nat i) = Ok (entry_view (es ! i)))"
proof -
  let ?xs = "map entry_item es"
  have sz: "24 + unat m * 8 + al8 (length (pack_data ?xs)) \<le> length buf"
    using assms(3) by (simp add: pack_total comp_def)
  obtain b0 where b0: "cgroups_builder_new buf m s g = (Ok b0 :: cgroups_builder result)"
      "cgroups_state (length buf) (unat m) b0 []" "cb_systemd_enabled b0 = s" "cb_generation b0 = g"
    using cgroups_new_state [of m buf s g] sz assms(1) by auto
  have "cgroups_fits (length buf) (unat m) ([] @ ys) y" if "es = ys @ y # zs" for ys y zs
    using pack_data_step [of ?xs "map entry_item ys" "entry_item y" "map entry_item zs"] that assms(2) sz
      al8_ge [of "length (pack_data ?xs)"] by (simp add: cgroups_fits_def)
  then obtain b where b: "add_seq snapshot_add es b0 = Ok b" "cgroups_state (length buf) (unat m) b es"
    using cb.add_seq_ok [OF b0(2), of es] by auto
  then have hb: "cb_systemd_enabled b = s" "cb_generation b = g" using b0 add_seq_header by auto
  obtain n buf' where f: "(cgroups_finish b :: (nipc_error, _) outcome) = Ok (n, buf')"
    using cgroups_state_finishes [OF b(2)] by blast
  note r = cgroups_state_finish [OF b(2) refl refl f]
  show ?thesis
    using b0(1) b(1) f r hb by (intro exI [of _ b] exI [of _ n] exI [of _ buf'] exI) auto
qed


theorem snapshot_roundtrip_witness:
  "\<exists>b n buf' v.
     rbind (cgroups_builder_new (replicate 200 170) 3 1 42) (add_seq snapshot_add
       [\<lparr>se_hash = 7, se_options = 1, se_enabled = 1, se_name = [97, 98], se_path = [47]\<rparr>,
        \<lparr>se_hash = 8, se_options = 0, se_enabled = 0, se_name = [], se_path = [47, 98]\<rparr>]) = Ok b \<and>
     (cgroups_finish b :: (nipc_error, _) outcome) = Ok (n, buf') \<and>
     cgroups_response_decode (take n buf') = Ok v \<and> crv_item_count v = 2 \<and> crv_generation v = 42 \<and>
     cgroups_response_item v 1 = Ok (entry_view \<lparr>se_hash = 8, se_options = 0, se_enabled = 0, se_name = [], se_path = [47, 98]\<rparr>)"
proof -
  let ?es = "[\<lparr>se_hash = 7, se_options = 1, se_enabled = 1, se_name = [97, 98], se_path = [47]\<rparr>, \<lparr>se_hash = 8, se_options = 0, se_enabled = 0, se_name = [], se_path = [47, 98]\<rparr>] :: snapshot_entry list"
  obtain b n buf' v where r: "rbind (cgroups_builder_new (replicate 200 170) 3 1 42) (add_seq snapshot_add ?es) = Ok b"
     "(cgroups_finish b :: (nipc_error, _) outcome) = Ok (n, buf')"
     "cgroups_response_decode (take n buf') = Ok v" "crv_item_count v = word_of_nat (length ?es)"
     "crv_generation v = 42"
     "\<forall>i < length ?es. cgroups_response_item v (word_of_nat i) = Ok (entry_view (?es ! i))"
    using snapshot_roundtrip [of "replicate 200 170" ?es 3 1 42] by (auto simp: al8_def)
  have "cgroups_response_item v 1 = Ok (entry_view (?es ! 1))" using r(6) [rule_format, of 1] by simp
  with r(1-5) show ?thesis by (intro exI [of _ b] exI [of _ n] exI [of _ buf'] exI [of _ v]) simp
qed

definition str_view_ok :: "str_view \<Rightarrow> bool" where
  "str_view_ok v \<longleftrightarrow> length (sv_bytes v) = unat (sv_len v) + 1 \<and> last (sv_bytes v) = 0"

lemma str_view_window:
  assumes "off + unat len < length item" "item ! (off + unat len) = 0"
  shows "str_view_ok \<lparr>sv_bytes = sub item off (Suc (unat len)), sv_len = len\<rparr>"
proof -
  have l: "length (sub item off (Suc (unat len))) = Suc (unat len)" using assms by simp
  then have "last (sub item off (Suc (unat len))) = sub item off (Suc (unat len)) ! unat len"
    by (subst last_conv_nth) (auto simp: length_greater_0_conv [symmetric] simp del: length_greater_0_conv length_sub)
  also have "\<dots> = item ! (off + unat len)" using assms by (simp add: nth_sub)
  finally show ?thesis using assms l by (simp add: str_view_ok_def)
qed

lemma cgroups_item_parse_views:
  assumes "32 \<le> length item" "length item = unat item_len" "cgroups_item_parse item item_len = Ok iv"
  shows "str_view_ok (civ_name iv)" "str_view_ok (civ_path iv)"
  using assms
  by (auto simp: cgroups_item_parse_def index_ok slice_rng_ok Let_def not_less Suc_le_eq
      intro!: str_view_window split: if_splits)

lemma str_view_ok_as_bytes: "str_view_ok w \<Longrightarrow> str_view_as_bytes w = (Ok (butlast (sv_bytes w)) :: ('e, bytes) outcome)"
  by (simp add: str_view_as_bytes_def slice_rng_ok str_view_ok_def butlast_conv_take sub_def)

lemma cgroups_response_item_views:
  assumes d: "cgroups_response_decode buf = Ok v"
  shows "cgroups_response_item v i \<noteq> Panic"
    "cgroups_response_item v i = Ok iv \<Longrightarrow> str_view_ok (civ_name iv) \<and> str_view_ok (civ_path iv)"
proof -
  consider "crv_item_count v \<le> i" | "i < crv_item_count v" by fastforce
  then have "cgroups_response_item v i \<noteq> Panic \<and>
      (\<forall>iv. cgroups_response_item v i = Ok iv \<longrightarrow> str_view_ok (civ_name iv) \<and> str_view_ok (civ_path iv))"
  proof cases
    case 1
    then show ?thesis by (simp add: cgroups_response_item_def)
  next
    case 2
    note e = cgroups_response_item_eq [OF d 2 refl refl]
    let ?it = "sub buf (24 + unat (crv_item_count v) * 8 + unat (rd32 buf (24 + unat i * 8)))
      (unat (rd32 buf (24 + unat i * 8 + 4)))"
    have l: "length ?it = unat (rd32 buf (24 + unat i * 8 + 4))" using e(2) by simp
    with e(3) have g: "32 \<le> length ?it" by simp
    show ?thesis unfolding e(1)
      using cgroups_item_parse_no_panic [OF g l] cgroups_item_parse_views [OF g l] by blast
  qed
  then show "cgroups_response_item v i \<noteq> Panic"
    "cgroups_response_item v i = Ok iv \<Longrightarrow> str_view_ok (civ_name iv) \<and> str_view_ok (civ_path iv)" by blast+
qed

text \<open>C23: reading a snapshot response never panics, whatever bytes the peer sent. If \<open>decode\<close> accepts
  the payload, \<open>item\<close> returns a value or an error for every index; a returned item has non-overlapping
  NUL-terminated name and path windows of the announced lengths, so \<open>as_bytes\<close> on them succeeds.\<close>

theorem snapshot_item_safe:
  "cgroups_response_decode buf \<noteq> Panic \<and>
   (\<forall>v. cgroups_response_decode buf = Ok v \<longrightarrow>
      cgroups_response_item v i \<noteq> Panic \<and>
      (\<forall>iv. cgroups_response_item v i = Ok iv \<longrightarrow>
         str_view_ok (civ_name iv) \<and> str_view_ok (civ_path iv) \<and>
         str_view_as_bytes (civ_name iv) = (Ok (butlast (sv_bytes (civ_name iv))) :: bytes result) \<and>
         str_view_as_bytes (civ_path iv) = (Ok (butlast (sv_bytes (civ_path iv))) :: bytes result)))"
  by (auto simp: cgroups_response_decode_no_panic cgroups_response_item_views str_view_ok_as_bytes
      dest: cgroups_response_item_views(2))


definition sample_entry :: snapshot_entry where
  "sample_entry = \<lparr>se_hash = 7, se_options = 1, se_enabled = 1, se_name = [97, 98], se_path = [47]\<rparr>"

definition sample_snapshot :: bytes where
  "sample_snapshot = cgroups_hdr_wire 1 0 5 @ dir_wire (pack_dir [entry_item sample_entry]) @ entry_item sample_entry"

lemma sample_snapshot_decodes:
  "\<exists>v. cgroups_response_decode sample_snapshot = Ok v \<and>
       cgroups_response_item v 0 = Ok (entry_view sample_entry)"
proof -
  have p: "pack_data [entry_item sample_entry] = entry_item sample_entry"
    by (simp add: pack_def pack_step_def al8_def)
  have "take 24 sample_snapshot = cgroups_hdr_wire (word_of_nat (length [sample_entry])) 0 5"
    by (simp add: sample_snapshot_def)
  moreover have "packed_final sample_snapshot 24 (map entry_item [sample_entry])"
    by (simp add: packed_final_def sample_snapshot_def p append_windows)
  moreover have "length sample_snapshot < 2 ^ 32"
    by (simp add: sample_snapshot_def sample_entry_def)
  ultimately show ?thesis
    using cgroups_final_decode [OF _ _ _ refl, of sample_snapshot "[sample_entry]" 0 5] by force
qed

theorem snapshot_item_safe_witness:
  "\<exists>v iv. cgroups_response_decode sample_snapshot = Ok v \<and> cgroups_response_item v 0 = Ok iv \<and>
     str_view_as_bytes (civ_name iv) = (Ok (butlast (sv_bytes (civ_name iv))) :: bytes result)"
  using sample_snapshot_decodes snapshot_item_safe [of sample_snapshot 0] by metis

text \<open>What a handler can do with the builder it is lent: the fields are private, so it can only call
  \<open>add\<close> and \<open>set_header\<close>. A failed \<open>add\<close> leaves the builder as it was.\<close>

inductive snapshot_steps :: "cgroups_builder \<Rightarrow> cgroups_builder \<Rightarrow> bool" where
  steps_none: "snapshot_steps b b"
| steps_add: "snapshot_steps b b1 \<Longrightarrow> cgroups_add h opts en name path b1 = Ok b2 \<Longrightarrow> snapshot_steps b b2"
| steps_header: "snapshot_steps b b1 \<Longrightarrow> snapshot_steps b (cgroups_set_header sys gen b1)"

lemma snapshot_steps_state:
  "snapshot_steps b b' \<Longrightarrow> cgroups_state cap m b es \<Longrightarrow> \<exists>fs. cgroups_state cap m b' (es @ fs)"
proof (induction rule: snapshot_steps.induct)
  case (steps_none b)
  then have "cgroups_state cap m b (es @ [])" by simp
  then show ?case by blast
next
  case (steps_add b b1 h opts en name path b2)
  then obtain fs where "cgroups_state cap m b1 (es @ fs)" by blast
  moreover have "snapshot_add \<lparr>se_hash = h, se_options = opts, se_enabled = en, se_name = name, se_path = path\<rparr> b1 = Ok b2"
    using steps_add by (simp add: snapshot_add_def)
  ultimately have "cgroups_state cap m b2
      ((es @ fs) @ [\<lparr>se_hash = h, se_options = opts, se_enabled = en, se_name = name, se_path = path\<rparr>])"
    using cb.add_step by blast
  then show ?case by auto
next
  case (steps_header b b1 sys gen)
  then show ?case
    using cgroups_inv_set_header by (fastforce simp: cgroups_state_def cgroups_set_header_def)
qed

lemma estimate_fits:
  assumes "buf_size < 2 ^ 32" "24 \<le> buf_size"
  shows "24 + unat (estimate_cgroups_max_items buf_size) * 8 \<le> buf_size"
proof (cases "buf_size \<le> 24")
  case True
  with assms show ?thesis by (simp add: estimate_cgroups_max_items_def cgroups_sizes)
next
  case False
  let ?q = "(buf_size - 24) div 48"
  have "estimate_cgroups_max_items buf_size = word_of_nat ?q"
    using False by (simp add: estimate_cgroups_max_items_def cgroups_sizes align8_def usize_wrap_def USIZE_MAX_def)
  moreover have "?q * 48 \<le> buf_size - 24" by (simp add: div_times_less_eq_dividend)
  ultimately show ?thesis using assms False by (simp add: unat_of_nat take_bit_nat_eq_self)
qed

text \<open>C3: a dispatched snapshot returns a response that decodes completely, whatever the handler
  adds and however many directory slots are reserved. For any handler that works through the builder interface
  and any response buffer below 4 GiB, dispatch does not panic; when it returns a size, the payload
  of that size decodes and every item of it decodes, and a malformed request or a failing handler
  gives no response.\<close>

theorem snapshot_dispatch_decodes:
  assumes "length resp < 2 ^ 32" and "\<And>r b. snapshot_steps b (snd (handler r b))"
  shows "\<exists>r resp'. dispatch_cgroups_snapshot req resp max_items handler = Ok (r, resp') \<and>
     (case r of
        None \<Rightarrow> True
      | Some n \<Rightarrow> n \<le> length resp \<and> cgroups_request_decode req = Ok \<lparr>creq_layout_version = 1, creq_flags = 0\<rparr> \<and>
          (\<exists>v. cgroups_response_decode (take n resp') = Ok v \<and>
             (\<forall>i < unat (crv_item_count v). \<exists>iv. cgroups_response_item v (word_of_nat i) = Ok iv)))"
proof (cases "cgroups_request_decode req")
  case (Ok request)
  have rq: "request = \<lparr>creq_layout_version = 1, creq_flags = 0\<rparr>"
    using creq.decode_valid [OF Ok] by (simp add: cgroups_request_valid_def)
  have c: "Option.bind (checked_mul (unat max_items) CGROUPS_DIR_ENTRY_SIZE)
      (\<lambda>d. checked_add d CGROUPS_RESP_HDR_SIZE) = Some (24 + unat max_items * 8)"
    using u32_lt [of max_items] by (simp add: cgroups_sizes checked_ok USIZE_MAX_def)
  show ?thesis
  proof (cases "length resp < 24 + unat max_items * 8")
    case True
    then show ?thesis using Ok c by (simp add: dispatch_cgroups_snapshot_def)
  next
    case False
    then obtain b where b: "cgroups_builder_new resp max_items 0 0 = (Ok b :: cgroups_builder result)"
        "cgroups_state (length resp) (unat max_items) b []"
      using cgroups_new_state [of max_items resp 0 0] assms(1) by auto
    obtain ok b1 where h: "handler request b = (ok, b1)" by fastforce
    then have "snapshot_steps b b1" using assms(2) [of b request] by simp
    then obtain es where st: "cgroups_state (length resp) (unat max_items) b1 es"
      using snapshot_steps_state b(2) by fastforce
    obtain n buf' where f: "(cgroups_finish b1 :: (nipc_error, _) outcome) = Ok (n, buf')"
      using cgroups_state_finishes [OF st] by blast
    note r = cgroups_state_finish [OF st refl refl f]
    show ?thesis
    proof (cases ok)
      case True
      then have "dispatch_cgroups_snapshot req resp max_items handler = Ok (Some n, buf')"
        using Ok c False b(1) h f by (simp add: dispatch_cgroups_snapshot_def)
      then show ?thesis using r Ok rq by auto
    next
      case no: False
      then show ?thesis using Ok c False b(1) h by (simp add: dispatch_cgroups_snapshot_def)
    qed
  qed
next
  case (Err e)
  then show ?thesis by (simp add: dispatch_cgroups_snapshot_def)
next
  case Panic
  then show ?thesis using creq.decode_no_panic by blast
qed

definition sample_handler :: "cgroups_request \<Rightarrow> cgroups_builder \<Rightarrow> bool \<times> cgroups_builder" where
  "sample_handler r b = (case cgroups_add 1 2 3 [97] [47] b of Ok b' \<Rightarrow> (True, b') | _ \<Rightarrow> (False, b))"

lemma sample_handler_steps: "snapshot_steps b (snd (sample_handler r b))"
  by (auto simp: sample_handler_def split: outcome.splits
      intro: snapshot_steps.intros snapshot_steps.steps_add [OF snapshot_steps.steps_none])

theorem snapshot_dispatch_decodes_witness:
  "\<exists>r resp'. dispatch_cgroups_snapshot [1, 0, 0, 0] (replicate 100 9)
       (estimate_cgroups_max_items (length (replicate 100 (9 :: u8)))) sample_handler = Ok (r, resp') \<and>
     (case r of
        None \<Rightarrow> True
      | Some n \<Rightarrow> n \<le> length (replicate 100 (9 :: u8)) \<and>
          cgroups_request_decode [1, 0, 0, 0] = Ok \<lparr>creq_layout_version = 1, creq_flags = 0\<rparr> \<and>
          (\<exists>v. cgroups_response_decode (take n resp') = Ok v \<and>
             (\<forall>i < unat (crv_item_count v). \<exists>iv. cgroups_response_item v (word_of_nat i) = Ok iv)))"
  by (rule snapshot_dispatch_decodes) (simp_all add: sample_handler_steps)

end
