(* ===== verification/Lookup_Common.thy ===== *)
theory Lookup_Common
  imports Snapshot
begin

text \<open>
  The helpers shared by the two lookup codecs (\<open>protocol/lookup/common.rs\<close>): the item directory of
  requests and responses, NUL-terminated strings and label tables inside an item, the reservation of
  room for PAYLOAD_EXCEEDED answers, and the assembly of a response.

  A function that fails after it has written to a buffer that its caller goes on using carries the
  buffer in its error (\<open>fail_with\<close>); where the error ends the call the partial output is dropped.
\<close>

section \<open>Constants and small helpers\<close>

definition LOOKUP_DIR_ENTRY_SIZE :: usize where "LOOKUP_DIR_ENTRY_SIZE = 8"
definition LOOKUP_LABEL_ENTRY_SIZE :: usize where "LOOKUP_LABEL_ENTRY_SIZE = 16"

definition ORCHESTRATOR_UNKNOWN :: u16 where "ORCHESTRATOR_UNKNOWN = 0"
definition ORCHESTRATOR_SYSTEMD :: u16 where "ORCHESTRATOR_SYSTEMD = 1"
definition ORCHESTRATOR_DOCKER :: u16 where "ORCHESTRATOR_DOCKER = 2"
definition ORCHESTRATOR_K8S :: u16 where "ORCHESTRATOR_K8S = 3"
definition ORCHESTRATOR_KVM :: u16 where "ORCHESTRATOR_KVM = 4"
definition ORCHESTRATOR_LXC :: u16 where "ORCHESTRATOR_LXC = 5"
definition ORCHESTRATOR_PODMAN :: u16 where "ORCHESTRATOR_PODMAN = 6"
definition ORCHESTRATOR_NSPAWN :: u16 where "ORCHESTRATOR_NSPAWN = 7"

lemmas lookup_sizes = LOOKUP_DIR_ENTRY_SIZE_def LOOKUP_LABEL_ENTRY_SIZE_def ALIGNMENT_def

type_synonym label = "bytes \<times> bytes"

record lookup_label_view =
  llv_key :: str_view
  llv_value :: str_view

definition fail_with :: "'s \<Rightarrow> 'a result \<Rightarrow> (nipc_error \<times> 's, 'a) outcome" where
  "fail_with s m = map_err (\<lambda>e. (e, s)) m"

lemma fail_with_simps [simp]:
  "fail_with s (Ok x) = Ok x" "fail_with s (Err e) = Err (e, s)" "fail_with s Panic = Panic"
  by (simp_all add: fail_with_def)

lemma fail_with_eq_Ok [simp]: "fail_with s m = Ok x \<longleftrightarrow> m = Ok x"
  by (simp add: fail_with_def)

definition source_string_invalid :: "bytes \<Rightarrow> bool \<Rightarrow> bool" where
  "source_string_invalid bs require_non_empty \<longleftrightarrow> (require_non_empty \<and> bs = []) \<or> 0 \<in> set bs"

section \<open>Item directory\<close>

fun validate_lookup_dir_loop ::
  "bytes \<Rightarrow> usize \<Rightarrow> usize \<Rightarrow> usize \<Rightarrow> usize option \<Rightarrow> usize \<Rightarrow> usize \<Rightarrow> nat \<Rightarrow> unit result" where
  "validate_lookup_dir_loop buf dir_start packed_area_len min_len exact_len prev_end i 0 = Ok ()"
| "validate_lookup_dir_loop buf dir_start packed_area_len min_len exact_len prev_end i (Suc left) =
     (let base = dir_start + i * LOOKUP_DIR_ENTRY_SIZE in
      rbind (u32_at buf base) (\<lambda>off32.
      rbind (u32_at buf (base + 4)) (\<lambda>len32.
      let off = unat off32; len = unat len32 in
      if off mod ALIGNMENT \<noteq> 0 then Err BadAlignment
      else if (case exact_len of Some exact \<Rightarrow> len \<noteq> exact | None \<Rightarrow> len < min_len) then Err BadLayout
      else
        rbind (ok_or (checked_add off len) OutOfBounds) (\<lambda>fin.
        if fin > packed_area_len then Err OutOfBounds
        else if i > 0 \<and> off < prev_end then Err BadLayout
        else validate_lookup_dir_loop buf dir_start packed_area_len min_len exact_len fin (i + 1) left))))"

definition validate_lookup_dir ::
  "bytes \<Rightarrow> usize \<Rightarrow> u32 \<Rightarrow> usize \<Rightarrow> usize \<Rightarrow> usize option \<Rightarrow> unit result" where
  "validate_lookup_dir buf dir_start item_count packed_area_len min_len exact_len =
     rbind (ok_or (checked_mul (unat item_count) LOOKUP_DIR_ENTRY_SIZE) BadItemCount) (\<lambda>dir_size.
     rbind (ok_or (checked_add dir_start dir_size) BadItemCount) (\<lambda>dir_end.
     if dir_end > length buf then Err Truncated
     else validate_lookup_dir_loop buf dir_start packed_area_len min_len exact_len 0 0 (unat item_count)))"

definition lookup_string :: "bytes \<Rightarrow> usize \<Rightarrow> usize \<Rightarrow> usize \<Rightarrow> (str_view \<times> usize) result" where
  "lookup_string item hdr_size offset len =
     (if offset < hdr_size then Err OutOfBounds
      else
        rbind (ok_or (checked_add offset len) OutOfBounds) (\<lambda>nul.
        if nul \<ge> length item then Err OutOfBounds
        else
          rbind (index item nul) (\<lambda>b.
          if b \<noteq> 0 then Err MissingNul
          else
            rbind (slice_rng item offset nul) (\<lambda>body.
            if 0 \<in> set body then Err BadLayout
            else
              rbind (slice_rng item offset (nul + 1)) (\<lambda>view.
              Ok (\<lparr>sv_bytes = view, sv_len = word_of_nat len\<rparr>, nul + 1))))))"

definition overlap :: "usize \<Rightarrow> usize \<Rightarrow> usize \<Rightarrow> usize \<Rightarrow> bool" where
  "overlap a_start a_end b_start b_end \<longleftrightarrow> a_start < b_end \<and> b_start < a_end"

definition checked_subslice :: "bytes \<Rightarrow> usize \<Rightarrow> usize \<Rightarrow> usize \<Rightarrow> bytes result" where
  "checked_subslice buf base offset len =
     rbind (ok_or (checked_add base offset) OutOfBounds) (\<lambda>start.
     rbind (ok_or (checked_add start len) OutOfBounds) (\<lambda>fin.
     if start \<le> fin \<and> fin \<le> length buf then Ok (sub buf start (fin - start)) else Err OutOfBounds))"

definition lookup_data_offset :: "usize \<Rightarrow> u32 \<Rightarrow> usize result" where
  "lookup_data_offset hdr_size item_count =
     ok_or (Option.bind (checked_mul (unat item_count) LOOKUP_DIR_ENTRY_SIZE) (\<lambda>v. checked_add hdr_size v)) BadItemCount"

definition lookup_dir_entry_offset :: "usize \<Rightarrow> u32 \<Rightarrow> usize result" where
  "lookup_dir_entry_offset hdr_size idx =
     ok_or (Option.bind (checked_mul (unat idx) LOOKUP_DIR_ENTRY_SIZE) (\<lambda>v. checked_add hdr_size v)) BadItemCount"

section \<open>Reservation for PAYLOAD_EXCEEDED answers\<close>

definition checked_add_u32 :: "u32 \<Rightarrow> u32 \<Rightarrow> u32 option" where
  "checked_add_u32 a b = (if unat a + unat b < 2 ^ 32 then Some (a + b) else None)"

fun checked_u32_all :: "usize list \<Rightarrow> u32 list result" where
  "checked_u32_all [] = Ok []"
| "checked_u32_all (l # ls) = rbind (checked_u32 l) (\<lambda>w. rbind (checked_u32_all ls) (\<lambda>ws. Ok (w # ws)))"

fun suffix_accumulate :: "u32 list \<Rightarrow> nat \<Rightarrow> u32 list result" where
  "suffix_accumulate suffix_bytes 0 = Ok suffix_bytes"
| "suffix_accumulate suffix_bytes (Suc i) =
     rbind (index suffix_bytes (i + 1)) (\<lambda>nxt.
     rbind (index suffix_bytes i) (\<lambda>cur.
     rbind (ok_or (if nxt > 0 then map_option (\<lambda>v. v AND NOT 7) (checked_add_u32 cur 7) else Some cur) Overflow) (\<lambda>item_cost.
     rbind (ok_or (checked_add_u32 item_cost nxt) Overflow) (\<lambda>s.
     suffix_accumulate (suffix_bytes[i := s]) i))))"

definition payload_exceeded_suffix_bytes_from_lens :: "usize list \<Rightarrow> u32 list result" where
  "payload_exceeded_suffix_bytes_from_lens item_lens =
     rbind (ok_or (checked_add (length item_lens) 1) Overflow) (\<lambda>_.
     rbind (checked_u32_all item_lens) (\<lambda>ws.
     let suffix_bytes = ws @ [0] in
     suffix_accumulate suffix_bytes (length suffix_bytes - 1)))"

definition payload_exceeded_suffix_fits ::
  "usize \<Rightarrow> usize \<Rightarrow> u32 list \<Rightarrow> u32 \<Rightarrow> u32 \<Rightarrow> ('e, bool) outcome" where
  "payload_exceeded_suffix_fits buf_len data_offset suffix_bytes first_index max_items =
     (case checked_add (unat max_items) 1 of
        None \<Rightarrow> Ok True
      | Some expected_len \<Rightarrow>
          if length suffix_bytes \<noteq> expected_len then Ok True
          else if unat first_index > unat max_items then Ok True
          else if data_offset > USIZE_MAX - 7 then Ok False
          else
            let item_start = align8 data_offset in
            if item_start > buf_len then Ok False
            else rbind (index suffix_bytes (unat first_index)) (\<lambda>s. Ok (unat s \<le> buf_len - item_start)))"

definition payload_exceeded_fixed_suffix_fits ::
  "usize \<Rightarrow> usize \<Rightarrow> usize \<Rightarrow> u32 \<Rightarrow> u32 \<Rightarrow> bool" where
  "payload_exceeded_fixed_suffix_fits buf_len data_offset item_len first_index max_items =
     (let max_items = unat max_items; first_index = unat first_index in
      if first_index > max_items then True
      else if data_offset > USIZE_MAX - 7 then False
      else
        let item_start = align8 data_offset in
        if item_start > buf_len then False
        else
          let remaining = max_items - first_index in
          if remaining = 0 then True
          else
            case map_option (\<lambda>v. v div 8 * 8) (checked_add item_len 7) of
              None \<Rightarrow> False
            | Some aligned_item_len \<Rightarrow>
                let tail_items = remaining - 1 in
                case checked_mul tail_items aligned_item_len of
                  None \<Rightarrow> False
                | Some tail_bytes \<Rightarrow>
                    case checked_add item_len tail_bytes of
                      None \<Rightarrow> False
                    | Some needed \<Rightarrow> needed \<le> buf_len - item_start)"

section \<open>Labels\<close>

fun validate_labels_loop :: "bytes \<Rightarrow> usize \<Rightarrow> usize \<Rightarrow> usize \<Rightarrow> usize \<Rightarrow> nat \<Rightarrow> usize result" where
  "validate_labels_loop item hdr_size table_start expected i 0 = Ok expected"
| "validate_labels_loop item hdr_size table_start expected i (Suc left) =
     rbind (ok_or (checked_mul i LOOKUP_LABEL_ENTRY_SIZE) OutOfBounds) (\<lambda>entry_rel.
     rbind (ok_or (checked_add table_start entry_rel) OutOfBounds) (\<lambda>base.
     rbind (u32_at item base) (\<lambda>key_off.
     rbind (u32_at item (base + 4)) (\<lambda>key_len.
     rbind (u32_at item (base + 8)) (\<lambda>value_off.
     rbind (u32_at item (base + 12)) (\<lambda>value_len.
     if unat key_len = 0 \<or> unat key_off \<noteq> expected then Err BadLayout
     else
       rbind (lookup_string item hdr_size (unat key_off) (unat key_len)) (\<lambda>(_, key_end).
       let expected = key_end in
       if unat value_off \<noteq> expected then Err BadLayout
       else
         rbind (lookup_string item hdr_size (unat value_off) (unat value_len)) (\<lambda>(_, value_end).
         validate_labels_loop item hdr_size table_start value_end (i + 1) left))))))))"

definition validate_labels :: "bytes \<Rightarrow> usize \<Rightarrow> u16 \<Rightarrow> usize \<Rightarrow> usize result" where
  "validate_labels item hdr_size label_count fixed_end =
     (if label_count = 0 then
        (if fixed_end \<noteq> length item then Err BadLayout else Ok fixed_end)
      else
        let table_start = align8 fixed_end in
        if table_start > length item then Err OutOfBounds
        else
          rbind (slice_rng item fixed_end table_start) (\<lambda>pad.
          if list_ex (\<lambda>b. b \<noteq> 0) pad then Err BadLayout
          else
            rbind (ok_or (checked_mul (unat label_count) LOOKUP_LABEL_ENTRY_SIZE) OutOfBounds) (\<lambda>table_bytes.
            rbind (ok_or (checked_add table_start table_bytes) OutOfBounds) (\<lambda>expected.
            if expected > length item then Err OutOfBounds
            else
              rbind (validate_labels_loop item hdr_size table_start expected 0 (unat label_count)) (\<lambda>expected.
              if expected \<noteq> length item then Err BadLayout else Ok table_start)))))"

definition label_at :: "bytes \<Rightarrow> usize \<Rightarrow> u16 \<Rightarrow> usize \<Rightarrow> u32 \<Rightarrow> lookup_label_view result" where
  "label_at item hdr_size label_count label_table_offset idx =
     (if unat idx \<ge> unat label_count then Err OutOfBounds
      else
        rbind (ok_or (checked_mul (unat idx) LOOKUP_LABEL_ENTRY_SIZE) OutOfBounds) (\<lambda>entry_offset.
        rbind (ok_or (checked_add label_table_offset entry_offset) OutOfBounds) (\<lambda>base.
        rbind (ok_or (checked_add base LOOKUP_LABEL_ENTRY_SIZE) OutOfBounds) (\<lambda>entry_end.
        if entry_end > length item then Err OutOfBounds
        else
          rbind (u32_at item base) (\<lambda>key_off.
          rbind (u32_at item (base + 4)) (\<lambda>key_len.
          rbind (u32_at item (base + 8)) (\<lambda>value_off.
          rbind (u32_at item (base + 12)) (\<lambda>value_len.
          rbind (lookup_string item hdr_size (unat key_off) (unat key_len)) (\<lambda>(key, _).
          rbind (lookup_string item hdr_size (unat value_off) (unat value_len)) (\<lambda>(val, _).
          Ok \<lparr>llv_key = key, llv_value = val\<rparr>))))))))))"

fun write_lookup_labels_loop ::
  "bytes \<Rightarrow> usize \<Rightarrow> usize \<Rightarrow> usize \<Rightarrow> label list \<Rightarrow> (nipc_error \<times> bytes, usize \<times> bytes) outcome" where
  "write_lookup_labels_loop item table_start nxt i [] = Ok (nxt, item)"
| "write_lookup_labels_loop item table_start nxt i ((key, val) # labels) =
     rbind (fail_with item (ok_or (checked_mul i LOOKUP_LABEL_ENTRY_SIZE) Overflow)) (\<lambda>entry_offset.
     rbind (fail_with item (ok_or (checked_add table_start entry_offset) Overflow)) (\<lambda>entry.
     rbind (fail_with item (ok_or (Option.bind (checked_add nxt (length key)) (\<lambda>v. checked_add v 1)) Overflow)) (\<lambda>value_offset.
     rbind (fail_with item (checked_u32 nxt)) (\<lambda>w. rbind (put_u32 item entry w) (\<lambda>item.
     rbind (fail_with item (checked_u32 (length key))) (\<lambda>w. rbind (put_u32 item (entry + 4) w) (\<lambda>item.
     rbind (fail_with item (checked_u32 value_offset)) (\<lambda>w. rbind (put_u32 item (entry + 8) w) (\<lambda>item.
     rbind (fail_with item (checked_u32 (length val))) (\<lambda>w. rbind (put_u32 item (entry + 12) w) (\<lambda>item.
     rbind (copy_from_slice item nxt (nxt + length key) key) (\<lambda>item.
     rbind (index_set item (nxt + length key) 0) (\<lambda>item.
     let nxt = value_offset in
     rbind (copy_from_slice item nxt (nxt + length val) val) (\<lambda>item.
     rbind (index_set item (nxt + length val) 0) (\<lambda>item.
     rbind (fail_with item (ok_or (Option.bind (checked_add nxt (length val)) (\<lambda>v. checked_add v 1)) Overflow)) (\<lambda>nxt.
     write_lookup_labels_loop item table_start nxt (i + 1) labels))))))))))))))))"

definition write_lookup_labels ::
  "bytes \<Rightarrow> usize \<Rightarrow> usize \<Rightarrow> label list \<Rightarrow> (nipc_error \<times> bytes, usize \<times> bytes) outcome" where
  "write_lookup_labels item table_start table_bytes labels =
     rbind (fail_with item (ok_or (checked_add table_start table_bytes) Overflow)) (\<lambda>nxt.
     write_lookup_labels_loop item table_start nxt 0 labels)"

fun label_layout_loop :: "usize \<Rightarrow> label list \<Rightarrow> usize result" where
  "label_layout_loop item_size [] = Ok item_size"
| "label_layout_loop item_size ((key, val) # labels) =
     (if source_string_invalid key True \<or> source_string_invalid val False then Err BadLayout
      else
        rbind (ok_or (checked_add (length key) 1) Overflow) (\<lambda>key_size.
        rbind (ok_or (checked_add (length val) 1) Overflow) (\<lambda>value_size.
        rbind (ok_or (Option.bind (checked_add item_size key_size) (\<lambda>v. checked_add v value_size)) Overflow) (\<lambda>item_size.
        label_layout_loop item_size labels))))"

definition label_layout :: "usize \<Rightarrow> label list \<Rightarrow> (usize \<times> usize \<times> usize) result" where
  "label_layout fixed_end labels =
     (if labels = [] then Ok (fixed_end, 0, fixed_end)
      else
        let table_start = align8 fixed_end in
        rbind (ok_or (checked_mul (length labels) LOOKUP_LABEL_ENTRY_SIZE) Overflow) (\<lambda>table_bytes.
        rbind (ok_or (checked_add table_start table_bytes) Overflow) (\<lambda>item_size.
        rbind (label_layout_loop item_size labels) (\<lambda>item_size.
        Ok (table_start, table_bytes, item_size)))))"

section \<open>Assembling a response\<close>

fun lookup_relativize :: "bytes \<Rightarrow> usize \<Rightarrow> usize \<Rightarrow> usize \<Rightarrow> nat \<Rightarrow> bytes result" where
  "lookup_relativize buf hdr_size first_item_abs i 0 = Ok buf"
| "lookup_relativize buf hdr_size first_item_abs i (Suc left) =
     rbind (ok_or (checked_mul i LOOKUP_DIR_ENTRY_SIZE) Overflow) (\<lambda>entry_offset.
     rbind (ok_or (checked_add hdr_size entry_offset) Overflow) (\<lambda>entry.
     rbind (u32_at buf entry) (\<lambda>abs_off.
     rbind (ok_or (checked_sub (unat abs_off) first_item_abs) Overflow) (\<lambda>rel.
     rbind (checked_u32 rel) (\<lambda>rel32.
     rbind (put_u32 buf entry rel32) (\<lambda>buf.
     lookup_relativize buf hdr_size first_item_abs (i + 1) left))))))"

definition finish_lookup_response ::
  "bytes \<Rightarrow> usize \<Rightarrow> u32 \<Rightarrow> usize \<Rightarrow> u64 \<Rightarrow> (usize \<times> bytes) result" where
  "finish_lookup_response buf hdr_size item_count data_offset generation =
     rbind (put_u16 buf 0 1) (\<lambda>buf.
     rbind (put_u16 buf 2 0) (\<lambda>buf.
     rbind (put_u32 buf 4 item_count) (\<lambda>buf.
     rbind (put_u64 buf 8 generation) (\<lambda>buf.
     if item_count = 0 then Ok (hdr_size, buf)
     else
       rbind (ok_or (Option.bind (checked_mul (unat item_count) LOOKUP_DIR_ENTRY_SIZE)
                (\<lambda>v. checked_add hdr_size v)) Overflow) (\<lambda>final_packed_start.
       rbind (u32_at buf hdr_size) (\<lambda>first.
       let first_item_abs = unat first in
       rbind (ok_or (checked_sub data_offset first_item_abs) Overflow) (\<lambda>packed_data_len.
       rbind (if final_packed_start < first_item_abs
              then rbind (ok_or (checked_add first_item_abs packed_data_len) Overflow) (\<lambda>copy_end.
                   if copy_end > length buf then Err Overflow
                   else
                     rbind (ok_or (checked_add final_packed_start packed_data_len) Overflow) (\<lambda>dest_end.
                     if dest_end > length buf then Err Overflow
                     else copy_within buf first_item_abs copy_end final_packed_start))
              else Ok buf) (\<lambda>buf.
       rbind (lookup_relativize buf hdr_size first_item_abs 0 (unat item_count)) (\<lambda>buf.
       rbind (ok_or (checked_add final_packed_start packed_data_len) Overflow) (\<lambda>total.
       Ok (total, buf)))))))))))"

definition response_raw_item :: "bytes \<Rightarrow> usize \<Rightarrow> u32 \<Rightarrow> u32 \<Rightarrow> bytes result" where
  "response_raw_item payload hdr_size item_count idx =
     (if idx \<ge> item_count then Err OutOfBounds
      else
        rbind (lookup_data_offset hdr_size item_count) (\<lambda>packed_start.
        rbind (lookup_dir_entry_offset hdr_size idx) (\<lambda>base.
        rbind (u32_at payload base) (\<lambda>off.
        rbind (u32_at payload (base + 4)) (\<lambda>len.
        checked_subslice payload packed_start (unat off) (unat len))))))"

fun encode_raw_items ::
  "bytes \<Rightarrow> usize \<Rightarrow> usize \<Rightarrow> (bytes \<Rightarrow> unit result) \<Rightarrow> usize \<Rightarrow> usize \<Rightarrow> bytes list \<Rightarrow> (usize \<times> bytes) result" where
  "encode_raw_items buf hdr_size min_item_len validate data_offset i [] = Ok (data_offset, buf)"
| "encode_raw_items buf hdr_size min_item_len validate data_offset i (item # items) =
     (if length item < min_item_len then Err BadLayout
      else
        rbind (validate item) (\<lambda>_.
        let item_start = align8 data_offset in
        rbind (ok_or (checked_add item_start (length item)) Overflow) (\<lambda>item_end.
        if item_end > length buf then Err Overflow
        else
          rbind (if item_start > data_offset then fill buf data_offset item_start 0 else Ok buf) (\<lambda>buf.
          rbind (copy_from_slice buf item_start item_end item) (\<lambda>buf.
          rbind (ok_or (checked_mul i LOOKUP_DIR_ENTRY_SIZE) Overflow) (\<lambda>rel.
          rbind (ok_or (checked_add hdr_size rel) Overflow) (\<lambda>dir.
          rbind (checked_u32 item_start) (\<lambda>w. rbind (put_u32 buf dir w) (\<lambda>buf.
          rbind (checked_u32 (length item)) (\<lambda>w. rbind (put_u32 buf (dir + 4) w) (\<lambda>buf.
          encode_raw_items buf hdr_size min_item_len validate item_end (i + 1) items)))))))))))"

definition encode_raw_response ::
  "bytes \<Rightarrow> usize \<Rightarrow> u64 \<Rightarrow> bytes list \<Rightarrow> usize \<Rightarrow> (bytes \<Rightarrow> unit result) \<Rightarrow> (usize \<times> bytes) result" where
  "encode_raw_response buf hdr_size generation items min_item_len validate =
     rbind (checked_u32 (length items)) (\<lambda>item_count.
     rbind (lookup_data_offset hdr_size item_count) (\<lambda>data_offset.
     if length buf < data_offset then Err Overflow
     else
       rbind (encode_raw_items buf hdr_size min_item_len validate data_offset 0 items) (\<lambda>(data_offset, buf).
       finish_lookup_response buf hdr_size item_count data_offset generation)))"


section \<open>Directory lemmas\<close>

definition dir_off :: "bytes \<Rightarrow> nat \<Rightarrow> nat \<Rightarrow> nat" where
  "dir_off buf hdr i = unat (rd32 buf (hdr + i * 8))"

definition dir_len :: "bytes \<Rightarrow> nat \<Rightarrow> nat \<Rightarrow> nat" where
  "dir_len buf hdr i = unat (rd32 buf (hdr + i * 8 + 4))"

definition dir_entry_ok :: "bytes \<Rightarrow> nat \<Rightarrow> nat \<Rightarrow> nat \<Rightarrow> nat option \<Rightarrow> nat \<Rightarrow> bool" where
  "dir_entry_ok buf hdr packed min_len exact i \<longleftrightarrow>
     dir_off buf hdr i mod 8 = 0 \<and> dir_off buf hdr i + dir_len buf hdr i \<le> packed \<and>
     (case exact of Some e \<Rightarrow> dir_len buf hdr i = e | None \<Rightarrow> min_len \<le> dir_len buf hdr i)"

lemma dir_bounds: "dir_off buf hdr i < 2 ^ 32" "dir_len buf hdr i < 2 ^ 32"
  using u32_lt by (simp_all add: dir_off_def dir_len_def)

lemma validate_lookup_dir_loop_ok:
  "hdr + (i + n) * 8 \<le> length buf \<Longrightarrow>
   validate_lookup_dir_loop buf hdr packed min_len exact prev i n \<noteq> Panic \<and>
   (validate_lookup_dir_loop buf hdr packed min_len exact prev i n = Ok () \<longleftrightarrow>
     (\<forall>j. i \<le> j \<and> j < i + n \<longrightarrow> dir_entry_ok buf hdr packed min_len exact j \<and>
        (0 < j \<longrightarrow> (if j = i then prev else dir_off buf hdr (j - 1) + dir_len buf hdr (j - 1)) \<le> dir_off buf hdr j)))"
proof (induction n arbitrary: i prev)
  case 0
  then show ?case by auto
next
  case (Suc n)
  let ?e = "dir_off buf hdr i + dir_len buf hdr i"
  have c: "checked_add (dir_off buf hdr i) (dir_len buf hdr i) = Some ?e"
    using dir_bounds [of buf hdr i] by (simp add: checked_ok USIZE_MAX_def)
  have r: "u32_at buf (hdr + i * 8) = (Ok (rd32 buf (hdr + i * 8)) :: u32 result)"
    "u32_at buf (hdr + i * 8 + 4) = (Ok (rd32 buf (hdr + i * 8 + 4)) :: u32 result)"
    using Suc.prems by simp_all
  have step: "validate_lookup_dir_loop buf hdr packed min_len exact prev i (Suc n) =
      (if dir_off buf hdr i mod 8 \<noteq> 0 then Err BadAlignment
       else if (case exact of Some e \<Rightarrow> dir_len buf hdr i \<noteq> e | None \<Rightarrow> dir_len buf hdr i < min_len) then Err BadLayout
       else if ?e > packed then Err OutOfBounds
       else if 0 < i \<and> dir_off buf hdr i < prev then Err BadLayout
       else validate_lookup_dir_loop buf hdr packed min_len exact ?e (Suc i) n)"
    unfolding validate_lookup_dir_loop.simps lookup_sizes Let_def r rbind.simps
      dir_off_def [symmetric] dir_len_def [symmetric] c ok_or.simps by simp
  have ih: "validate_lookup_dir_loop buf hdr packed min_len exact ?e (Suc i) n \<noteq> Panic"
    "validate_lookup_dir_loop buf hdr packed min_len exact ?e (Suc i) n = Ok () \<longleftrightarrow>
     (\<forall>j. Suc i \<le> j \<and> j < Suc i + n \<longrightarrow> dir_entry_ok buf hdr packed min_len exact j \<and>
        (0 < j \<longrightarrow> (if j = Suc i then ?e else dir_off buf hdr (j - 1) + dir_len buf hdr (j - 1)) \<le> dir_off buf hdr j))"
    using Suc.IH [of "Suc i" ?e] Suc.prems by simp_all
  have eq: "(if j = Suc i then ?e else dir_off buf hdr (j - 1) + dir_len buf hdr (j - 1)) =
      (if j = i then prev else dir_off buf hdr (j - 1) + dir_len buf hdr (j - 1))" if "Suc i \<le> j" for j
    using that by auto
  have ok: "dir_entry_ok buf hdr packed min_len exact i \<longleftrightarrow> dir_off buf hdr i mod 8 = 0 \<and>
      \<not> (case exact of Some e \<Rightarrow> dir_len buf hdr i \<noteq> e | None \<Rightarrow> dir_len buf hdr i < min_len) \<and> \<not> ?e > packed"
    by (auto simp: dir_entry_ok_def split: option.splits)
  define A where "A \<longleftrightarrow> (\<forall>j. Suc i \<le> j \<and> j < Suc i + n \<longrightarrow> dir_entry_ok buf hdr packed min_len exact j \<and>
      (0 < j \<longrightarrow> (if j = i then prev else dir_off buf hdr (j - 1) + dir_len buf hdr (j - 1)) \<le> dir_off buf hdr j))"
  define L where "L = validate_lookup_dir_loop buf hdr packed min_len exact ?e (Suc i) n"
  have "L = Ok () \<longleftrightarrow> A" unfolding L_def A_def ih(2)
    by (intro iff_allI imp_cong refl conj_cong) (simp_all only: eq)
  then show ?case
    unfolding all_range_Suc step ok A_def [symmetric] L_def [symmetric] using ih(1) [folded L_def]
    by (auto simp: not_less)
qed

lemma validate_lookup_dir_ok:
  assumes "hdr \<le> 4096"
  shows "validate_lookup_dir buf hdr n packed min_len exact \<noteq> Panic \<and>
   (validate_lookup_dir buf hdr n packed min_len exact = Ok () \<longleftrightarrow>
     hdr + unat n * 8 \<le> length buf \<and> (\<forall>j < unat n. dir_entry_ok buf hdr packed min_len exact j) \<and>
     (\<forall>j. Suc j < unat n \<longrightarrow> dir_off buf hdr j + dir_len buf hdr j \<le> dir_off buf hdr (Suc j)))"
proof -
  have c: "checked_add hdr (unat n * 8) = Some (hdr + unat n * 8)"
    using u32_lt [of n] assms by (simp add: checked_ok USIZE_MAX_def)
  have a: "(\<forall>j. 0 \<le> j \<and> j < 0 + unat n \<longrightarrow> dir_entry_ok buf hdr packed min_len exact j \<and>
        (0 < j \<longrightarrow> (if j = 0 then 0 else dir_off buf hdr (j - 1) + dir_len buf hdr (j - 1)) \<le> dir_off buf hdr j)) \<longleftrightarrow>
      (\<forall>j < unat n. dir_entry_ok buf hdr packed min_len exact j) \<and>
      (\<forall>j. Suc j < unat n \<longrightarrow> dir_off buf hdr j + dir_len buf hdr j \<le> dir_off buf hdr (Suc j))"
    by (auto, metis Suc_pred)
  show ?thesis
    using validate_lookup_dir_loop_ok [of hdr 0 "unat n" buf packed min_len exact 0] a
    by (auto simp: validate_lookup_dir_def lookup_sizes c)
qed

text \<open>Accepted directory entries never overlap.\<close>

lemma dir_disjoint:
  assumes "\<forall>j. Suc j < n \<longrightarrow> dir_off buf hdr j + dir_len buf hdr j \<le> dir_off buf hdr (Suc j)"
    and "i < j" "j < n"
  shows "dir_off buf hdr i + dir_len buf hdr i \<le> dir_off buf hdr j"
  using assms(2,3)
proof (induction j)
  case 0
  then show ?case by simp
next
  case (Suc j)
  have s: "dir_off buf hdr j + dir_len buf hdr j \<le> dir_off buf hdr (Suc j)" using assms(1) Suc.prems by blast
  show ?case
  proof (cases "i = j")
    case False
    then have "dir_off buf hdr i + dir_len buf hdr i \<le> dir_off buf hdr j" using Suc by simp
    with s show ?thesis by linarith
  qed (use s in simp)
qed

lemma checked_subslice_eq:
  "base + off + len \<le> USIZE_MAX \<Longrightarrow>
   checked_subslice buf base off len =
     (if base + off + len \<le> length buf then Ok (sub buf (base + off) len) else Err OutOfBounds)"
  by (simp add: checked_subslice_def checked_ok)

lemma checked_subslice_no_panic [no_panic, simp]: "checked_subslice buf base off len \<noteq> Panic"
  by (auto simp: checked_subslice_def rbind_eq_Panic)

lemma lookup_offsets_ok [simp]:
  "hdr \<le> 4096 \<Longrightarrow> lookup_data_offset hdr n = Ok (hdr + unat n * 8)"
  "hdr \<le> 4096 \<Longrightarrow> lookup_dir_entry_offset hdr n = Ok (hdr + unat n * 8)"
  using u32_lt [of n]
  by (simp_all add: lookup_data_offset_def lookup_dir_entry_offset_def lookup_sizes checked_ok USIZE_MAX_def)

section \<open>Strings and labels inside an item\<close>

lemma lookup_string_ok:
  assumes "off + len \<le> USIZE_MAX"
  shows "lookup_string item hdr off len =
     (if off < hdr \<or> length item \<le> off + len then Err OutOfBounds
      else if item ! (off + len) \<noteq> 0 then Err MissingNul
      else if 0 \<in> set (sub item off len) then Err BadLayout
      else Ok (\<lparr>sv_bytes = sub item off (len + 1), sv_len = word_of_nat len\<rparr>, off + len + 1))"
  using assms by (simp add: lookup_string_def checked_ok index_ok slice_rng_ok)

lemma lookup_string_no_panic [no_panic, simp]: "lookup_string item hdr off len \<noteq> Panic"
  by (auto simp: lookup_string_def rbind_eq_Panic checked_Some index_ok slice_rng_ok)

lemma lookup_string_Ok:
  "lookup_string item hdr off len = Ok (v, fin) \<longleftrightarrow>
     hdr \<le> off \<and> off + len \<le> USIZE_MAX \<and> off + len < length item \<and> item ! (off + len) = 0 \<and>
     0 \<notin> set (sub item off len) \<and> fin = off + len + 1 \<and>
     v = \<lparr>sv_bytes = sub item off (len + 1), sv_len = word_of_nat len\<rparr>"
  by (cases "off + len \<le> USIZE_MAX") (auto simp: lookup_string_ok, auto simp: lookup_string_def checked_add_def split: if_splits)

lemma lookup_string_wire:
  assumes "hdr \<le> off" "off + len \<le> USIZE_MAX" "sub item off (len + 1) = s @ [0]" "len = length s"
    and "off + len < length item" "0 \<notin> set s"
  shows "lookup_string item hdr off len =
     Ok (\<lparr>sv_bytes = s @ [0], sv_len = word_of_nat len\<rparr>, off + len + 1)"
proof -
  have "item ! (off + len) = sub item off (len + 1) ! len" using assms by (intro nth_sub [symmetric]) simp_all
  also have "\<dots> = 0" using assms by simp
  finally have n: "item ! (off + len) = 0" .
  have "sub item off len = take len (sub item off (len + 1))" by (simp add: sub_def min_def)
  also have "\<dots> = s" using assms by simp
  finally show ?thesis using assms n by (simp add: lookup_string_ok)
qed

fun label_strings :: "label list \<Rightarrow> bytes" where
  "label_strings [] = []"
| "label_strings ((k, v) # ls) = k @ [0] @ v @ [0] @ label_strings ls"

fun label_table :: "nat \<Rightarrow> label list \<Rightarrow> bytes" where
  "label_table nxt [] = []"
| "label_table nxt ((k, v) # ls) =
     u32_to_ne (word_of_nat nxt) @ u32_to_ne (word_of_nat (length k)) @
     u32_to_ne (word_of_nat (nxt + length k + 1)) @ u32_to_ne (word_of_nat (length v)) @
     label_table (nxt + length k + length v + 2) ls"

definition labels_valid :: "label list \<Rightarrow> bool" where
  "labels_valid ls \<longleftrightarrow> (\<forall>(k, v) \<in> set ls. k \<noteq> [] \<and> 0 \<notin> set k \<and> 0 \<notin> set v)"

lemma length_label_table [simp]: "length (label_table nxt ls) = length ls * 16"
  by (induction nxt ls rule: label_table.induct) simp_all

lemma label_strings_append: "label_strings (xs @ ys) = label_strings xs @ label_strings ys"
  by (induction xs rule: label_strings.induct) simp_all

text \<open>The label block of an item whose fixed strings end at \<open>fixed_end\<close>: padding, table, strings.\<close>

definition label_block :: "nat \<Rightarrow> label list \<Rightarrow> bytes" where
  "label_block fixed_end ls =
     (if ls = [] then []
      else replicate (al8 fixed_end - fixed_end) 0 @
           label_table (al8 fixed_end + length ls * 16) ls @ label_strings ls)"

lemma length_label_block:
  "length (label_block fixed_end ls) =
     (if ls = [] then 0 else al8 fixed_end - fixed_end + length ls * 16 + length (label_strings ls))"
  by (simp add: label_block_def)


lemma write_lookup_labels_loop_ok:
  assumes "ts + (i + length ls) * 16 \<le> nxt" "nxt + length (label_strings ls) \<le> length item"
    and "length item < 2 ^ 32"
  shows "write_lookup_labels_loop item ts nxt i ls =
     Ok (nxt + length (label_strings ls), upd (upd item (ts + i * 16) (label_table nxt ls)) nxt (label_strings ls))"
  using assms
proof (induction ls arbitrary: item nxt i)
  case Nil
  then show ?case by simp
next
  case (Cons kv ls)
  obtain k v where kv: "kv = (k, v)" by fastforce
  let ?e = "u32_to_ne (word_of_nat nxt) @ u32_to_ne (word_of_nat (length k)) @
     u32_to_ne (word_of_nat (nxt + length k + 1)) @ u32_to_ne (word_of_nat (length v))"
  let ?s = "k @ [0] @ v @ [0]" and ?a = "ts + i * 16" and ?n = "nxt + length k + length v + 2"
  let ?i1 = "upd item ?a ?e"
  let ?i2 = "upd ?i1 nxt ?s"
  have b: "?a + 16 \<le> nxt" "?n + length (label_strings ls) \<le> length item" "nxt < 2 ^ 32"
      "length k < 2 ^ 32" "length v < 2 ^ 32" "nxt + length k + 1 < 2 ^ 32"
    using Cons.prems kv by (auto simp: algebra_simps)
  have l: "length ?i2 = length item" using b by simp
  have c: "checked_mul i 16 = Some (i * 16)" "checked_add ts (i * 16) = Some ?a"
    "Option.bind (checked_add nxt (length k)) (\<lambda>v. checked_add v 1) = Some (nxt + length k + 1)"
    "Option.bind (checked_add (nxt + length k + 1) (length v)) (\<lambda>v. checked_add v 1) = Some ?n"
    using b by (simp_all add: checked_ok USIZE_MAX_def)
  have step: "write_lookup_labels_loop item ts nxt i (kv # ls) = write_lookup_labels_loop ?i2 ts ?n (Suc i) ls"
    unfolding kv write_lookup_labels_loop.simps lookup_sizes c ok_or.simps fail_with_simps rbind.simps Let_def
    using b by (simp add: c copy_from_slice_ok index_set_ok upd_upd_append del: of_nat_add)
  have ih: "write_lookup_labels_loop ?i2 ts ?n (Suc i) ls =
     Ok (?n + length (label_strings ls), upd (upd ?i2 (?a + 16) (label_table ?n ls)) ?n (label_strings ls))"
    using Cons.IH [of "Suc i" ?n ?i2] Cons.prems(1,3) b l kv by (simp add: add.commute add.left_commute)
  have "upd ?i2 (?a + 16) (label_table ?n ls) = upd (upd ?i1 (?a + 16) (label_table ?n ls)) nxt ?s"
    using Cons.prems b kv by (intro upd_commute [symmetric]) (auto simp: algebra_simps)
  also have "upd ?i1 (?a + 16) (label_table ?n ls) = upd item ?a (?e @ label_table ?n ls)"
    using Cons.prems b kv by (intro upd_upd_append) (auto simp: algebra_simps)
  finally have "upd (upd ?i2 (?a + 16) (label_table ?n ls)) ?n (label_strings ls) =
      upd (upd item ?a (?e @ label_table ?n ls)) nxt (?s @ label_strings ls)"
    using Cons.prems b kv by (simp only:) (intro upd_upd_append, auto simp: algebra_simps)
  then show ?case
    unfolding step ih by (simp add: kv)
qed

lemma write_lookup_labels_ok:
  assumes "ts + length ls * 16 + length (label_strings ls) \<le> length item" "length item < 2 ^ 32"
    and "nxt = ts + length ls * 16"
  shows "write_lookup_labels item ts (length ls * 16) ls =
     Ok (nxt + length (label_strings ls), upd item ts (label_table nxt ls @ label_strings ls))"
proof -
  have "checked_add ts (length ls * 16) = Some nxt" using assms by (simp add: checked_ok USIZE_MAX_def)
  then show ?thesis
    using assms write_lookup_labels_loop_ok [of ts 0 ls nxt item]
    by (simp add: write_lookup_labels_def upd_upd_append)
qed

lemma label_layout_loop_ok:
  assumes "labels_valid ls" "sz + length (label_strings ls) \<le> USIZE_MAX"
  shows "label_layout_loop sz ls = Ok (sz + length (label_strings ls))"
  using assms
proof (induction sz ls rule: label_layout_loop.induct)
  case (2 sz k v ls)
  then show ?case
    by (simp add: labels_valid_def source_string_invalid_def checked_ok)
qed simp

lemma label_layout_ok:
  assumes "labels_valid ls" "fixed_end + length (label_block fixed_end ls) + 7 \<le> USIZE_MAX"
  shows "label_layout fixed_end ls = Ok (if ls = [] then fixed_end else al8 fixed_end, length ls * 16,
           fixed_end + length (label_block fixed_end ls))"
proof (cases "ls = []")
  case True
  then show ?thesis by (simp add: label_layout_def label_block_def)
next
  case False
  have g: "fixed_end \<le> al8 fixed_end" by (rule al8_ge)
  have "align8 fixed_end = al8 fixed_end" using assms by (intro align8_al8) simp
  then show ?thesis
    using False assms g label_layout_loop_ok [OF assms(1), of "al8 fixed_end + length ls * 16"]
    by (simp add: label_layout_def lookup_sizes length_label_block checked_ok Let_def)
qed

lemma label_layout_loop_cases:
  assumes "sz \<le> USIZE_MAX"
  shows "label_layout_loop sz ls \<noteq> Panic"
    and "labels_valid ls \<Longrightarrow> label_layout_loop sz ls =
      (if sz + length (label_strings ls) \<le> USIZE_MAX then Ok (sz + length (label_strings ls)) else Err Overflow)"
    and "label_layout_loop sz ls = Ok r \<Longrightarrow> labels_valid ls"
proof -
  show "label_layout_loop sz ls \<noteq> Panic"
    by (induction sz ls rule: label_layout_loop.induct) (simp_all add: rbind_eq_Panic)
  show "label_layout_loop sz ls = Ok r \<Longrightarrow> labels_valid ls"
    by (induction sz ls rule: label_layout_loop.induct)
       (auto simp: rbind_eq_Ok labels_valid_def source_string_invalid_def split: if_splits)
  show "label_layout_loop sz ls =
      (if sz + length (label_strings ls) \<le> USIZE_MAX then Ok (sz + length (label_strings ls)) else Err Overflow)"
    if "labels_valid ls"
    using assms that
  proof (induction sz ls rule: label_layout_loop.induct)
    case (2 sz k v ls)
    then show ?case
      by (auto simp: labels_valid_def source_string_invalid_def checked_add_def)
  qed simp
qed

lemma label_layout_cases:
  assumes "fixed_end + 7 \<le> USIZE_MAX"
  shows "label_layout fixed_end ls \<noteq> Panic"
    and "labels_valid ls \<Longrightarrow> label_layout fixed_end ls =
      (if fixed_end + length (label_block fixed_end ls) \<le> USIZE_MAX
       then Ok (if ls = [] then fixed_end else al8 fixed_end, length ls * 16,
                fixed_end + length (label_block fixed_end ls))
       else Err Overflow)"
    and "label_layout fixed_end ls = Ok r \<Longrightarrow> labels_valid ls"
proof -
  have al: "align8 fixed_end = al8 fixed_end" using assms by (rule align8_al8)
  have g: "fixed_end \<le> al8 fixed_end" by (rule al8_ge)
  show "label_layout fixed_end ls \<noteq> Panic"
    by (auto simp: label_layout_def Let_def rbind_eq_Panic checked_Some label_layout_loop_cases(1))
  show "label_layout fixed_end ls = Ok r \<Longrightarrow> labels_valid ls"
    by (auto simp: label_layout_def Let_def rbind_eq_Ok checked_Some labels_valid_def [of "[]"]
        dest: label_layout_loop_cases(3) split: if_splits)
  show "label_layout fixed_end ls =
      (if fixed_end + length (label_block fixed_end ls) \<le> USIZE_MAX
       then Ok (if ls = [] then fixed_end else al8 fixed_end, length ls * 16,
                fixed_end + length (label_block fixed_end ls))
       else Err Overflow)" if "labels_valid ls"
  proof (cases "ls = []")
    case True
    then show ?thesis using assms by (simp add: label_layout_def label_block_def)
  next
    case False
    then show ?thesis
      using g label_layout_loop_cases(2) [OF _ that, of "al8 fixed_end + length ls * 16"]
      by (auto simp: label_layout_def lookup_sizes length_label_block checked_add_def checked_mul_def Let_def al)
  qed
qed

definition label_view :: "label \<Rightarrow> lookup_label_view" where
  "label_view l =
     \<lparr>llv_key = \<lparr>sv_bytes = fst l @ [0], sv_len = word_of_nat (length (fst l))\<rparr>,
      llv_value = \<lparr>sv_bytes = snd l @ [0], sv_len = word_of_nat (length (snd l))\<rparr>\<rparr>"

lemma sub_prefix: "sub item off n = a @ b \<Longrightarrow> off + n \<le> length item \<Longrightarrow> sub item off (length a) = a"
  and sub_suffix: "sub item off n = a @ b \<Longrightarrow> off + n \<le> length item \<Longrightarrow> sub item (off + length a) (length b) = b"
proof -
  assume a: "sub item off n = a @ b" and l: "off + n \<le> length item"
  have "length (sub item off n) = length a + length b" unfolding a by simp
  with l have n: "n = length a + length b" by simp
  then have "sub item off (length a) = sub (sub item off n) 0 (length a)"
    "sub item (off + length a) (length b) = sub (sub item off n) (length a) (length b)"
    by (simp_all add: sub_sub)
  with a show "sub item off (length a) = a" "sub item (off + length a) (length b) = b"
    by (simp_all add: append_windows)
qed

text \<open>\<open>labels_at item ts nxt ls\<close>: the entries of \<open>ls\<close> start at \<open>ts\<close> and their strings at \<open>nxt\<close>.\<close>

definition labels_at :: "bytes \<Rightarrow> nat \<Rightarrow> nat \<Rightarrow> label list \<Rightarrow> bool" where
  "labels_at item ts nxt ls \<longleftrightarrow>
     sub item ts (length ls * 16) = label_table nxt ls \<and> ts + length ls * 16 \<le> length item \<and>
     sub item nxt (length (label_strings ls)) = label_strings ls \<and> nxt + length (label_strings ls) \<le> length item"

lemma labels_at_Cons:
  assumes "labels_at item ts nxt ((k, v) # ls)" "length item < 2 ^ 32" "hdr \<le> nxt" "0 \<notin> set k" "0 \<notin> set v"
  shows "unat (rd32 item ts) = nxt" "unat (rd32 item (ts + 4)) = length k"
    "unat (rd32 item (ts + 8)) = nxt + length k + 1" "unat (rd32 item (ts + 12)) = length v"
    "lookup_string item hdr nxt (length k) =
       Ok (\<lparr>sv_bytes = k @ [0], sv_len = word_of_nat (length k)\<rparr>, nxt + length k + 1)"
    "lookup_string item hdr (nxt + length k + 1) (length v) =
       Ok (\<lparr>sv_bytes = v @ [0], sv_len = word_of_nat (length v)\<rparr>, nxt + length k + length v + 2)"
    "labels_at item (ts + 16) (nxt + length k + length v + 2) ls"
proof -
  let ?e = "u32_to_ne (word_of_nat nxt) @ u32_to_ne (word_of_nat (length k)) @
     u32_to_ne (word_of_nat (nxt + length k + 1)) @ u32_to_ne (word_of_nat (length v)) :: bytes"
  let ?n = "nxt + length k + length v + 2"
  have t: "sub item ts (length ((k, v) # ls) * 16) = ?e @ label_table ?n ls"
    and tl: "ts + length ((k, v) # ls) * 16 \<le> length item"
    and s: "sub item nxt (length (label_strings ((k, v) # ls))) = (k @ [0]) @ (v @ [0]) @ label_strings ls"
    and sl: "nxt + length (label_strings ((k, v) # ls)) \<le> length item"
    using assms(1) by (simp_all add: labels_at_def)
  have e: "sub item ts 16 = ?e" using sub_prefix [OF t tl] by simp
  have r: "rd32 item (ts + j) = rd32 ?e j" if "j + 4 \<le> 16" for j
    unfolding e [symmetric] using that by (simp add: rd32_sub)
  have w: "rd32 ?e 0 = word_of_nat nxt" "rd32 ?e 4 = word_of_nat (length k)"
      "rd32 ?e 8 = word_of_nat (nxt + length k + 1)" "rd32 ?e 12 = word_of_nat (length v)"
    by (simp_all add: wire_reads del: of_nat_add)
  show "unat (rd32 item ts) = nxt" "unat (rd32 item (ts + 4)) = length k"
    "unat (rd32 item (ts + 8)) = nxt + length k + 1" "unat (rd32 item (ts + 12)) = length v"
    using r [of 0] r [of 4] r [of 8] r [of 12] w sl assms(2) by (simp_all del: of_nat_add of_nat_Suc)
  have k1: "sub item nxt (length k + 1) = k @ [0]" using sub_prefix [OF s sl] by simp
  have s2: "sub item (nxt + length (k @ [0])) (length ((v @ [0]) @ label_strings ls)) = (v @ [0]) @ label_strings ls"
    by (rule sub_suffix [OF s sl])
  have v1: "sub item (nxt + length k + 1) (length v + 1) = v @ [0]"
    using sub_prefix [OF s2] sl by simp
  have s3: "sub item ?n (length (label_strings ls)) = label_strings ls"
    using sub_suffix [OF s2] sl by simp
  have t2: "sub item (ts + 16) (length ls * 16) = label_table ?n ls"
    using sub_suffix [OF t tl] by simp
  show "lookup_string item hdr nxt (length k) =
       Ok (\<lparr>sv_bytes = k @ [0], sv_len = word_of_nat (length k)\<rparr>, nxt + length k + 1)"
    using k1 sl assms by (intro lookup_string_wire) (auto simp: USIZE_MAX_def)
  show "lookup_string item hdr (nxt + length k + 1) (length v) =
       Ok (\<lparr>sv_bytes = v @ [0], sv_len = word_of_nat (length v)\<rparr>, ?n)"
    using v1 sl assms lookup_string_wire [of hdr "nxt + length k + 1" "length v" item v] by (auto simp: USIZE_MAX_def)
  show "labels_at item (ts + 16) ?n ls"
    using t2 s3 tl sl by (simp add: labels_at_def)
qed

lemma labels_at_drop:
  "labels_at item ts nxt ls \<Longrightarrow> j \<le> length ls \<Longrightarrow> length item < 2 ^ 32 \<Longrightarrow> labels_valid ls \<Longrightarrow>
   labels_at item (ts + j * 16) (nxt + length (label_strings (take j ls))) (drop j ls)"
proof (induction j arbitrary: ts nxt ls)
  case 0
  then show ?case by simp
next
  case (Suc j)
  then obtain k v ms where ls: "ls = (k, v) # ms" by (cases ls) auto
  then have "labels_at item (ts + 16) (nxt + length k + length v + 2) ms"
    using labels_at_Cons(7) [of item ts nxt k v ms 0] Suc.prems by (auto simp: labels_valid_def)
  then show ?case
    using Suc.IH [of "ts + 16" "nxt + length k + length v + 2" ms] Suc.prems ls
    by (simp add: labels_valid_def algebra_simps)
qed

lemma validate_labels_loop_wire:
  assumes "labels_at item (ts + i * 16) nxt ls" "length item < 2 ^ 32" "hdr \<le> nxt" "labels_valid ls"
  shows "validate_labels_loop item hdr ts nxt i (length ls) = Ok (nxt + length (label_strings ls))"
  using assms
proof (induction ls arbitrary: i nxt)
  case Nil
  then show ?case by simp
next
  case (Cons kv ls)
  obtain k v where kv: "kv = (k, v)" by fastforce
  have z: "k \<noteq> []" "0 \<notin> set k" "0 \<notin> set v" and lv: "labels_valid ls"
    using Cons.prems kv by (auto simp: labels_valid_def)
  note r = labels_at_Cons [OF Cons.prems(1) [unfolded kv] Cons.prems(2,3) z(2,3)]
  have b: "ts + i * 16 + 16 \<le> length item" using Cons.prems(1) by (simp add: labels_at_def)
  then have c: "checked_mul i 16 = Some (i * 16)" "checked_add ts (i * 16) = Some (ts + i * 16)"
    using Cons.prems(2) by (simp_all add: checked_ok USIZE_MAX_def)
  have ih: "validate_labels_loop item hdr ts (nxt + length k + length v + 2) (Suc i) (length ls) =
      Ok (nxt + length k + length v + 2 + length (label_strings ls))"
    using r(7) Cons.prems lv by (intro Cons.IH) (simp_all add: add.commute add.left_commute)
  show ?case
    using b z ih r by (simp add: kv lookup_sizes c Let_def)
qed

lemma labels_at_wire:
  assumes "item = pre @ label_block (length pre) ls" "ls \<noteq> []"
  shows "labels_at item (al8 (length pre)) (al8 (length pre) + length ls * 16) ls"
proof -
  let ?p = "pre @ replicate (al8 (length pre) - length pre) 0"
  have l: "length ?p = al8 (length pre)" using al8_ge [of "length pre"] by simp
  have i: "item = ?p @ label_table (al8 (length pre) + length ls * 16) ls @ label_strings ls"
    using assms by (simp add: label_block_def)
  then obtain p where "length p = al8 (length pre)"
      "item = p @ label_table (al8 (length pre) + length ls * 16) ls @ label_strings ls"
    using l by blast
  then show ?thesis by (simp add: labels_at_def append_windows)
qed


lemma validate_labels_wire:
  assumes "item = pre @ label_block (length pre) ls" "length item < 2 ^ 32" "hdr \<le> length pre"
    and "labels_valid ls" "length ls < 2 ^ 16"
  shows "validate_labels item hdr (word_of_nat (length ls)) (length pre) =
     Ok (if ls = [] then length pre else al8 (length pre))"
proof (cases "ls = []")
  case True
  then show ?thesis using assms(1) by (simp add: validate_labels_def label_block_def)
next
  case False
  let ?ts = "al8 (length pre)"
  have g: "length pre \<le> ?ts" by (rule al8_ge)
  have li: "length item = ?ts + length ls * 16 + length (label_strings ls)"
    using assms(1) False g by (simp add: length_label_block)
  have al: "align8 (length pre) = ?ts" using assms(2) li g by (intro align8_al8) (simp add: USIZE_MAX_def)
  have u: "unat (word_of_nat (length ls) :: u16) = length ls" using assms(5) by simp
  have nz: "(word_of_nat (length ls) :: u16) \<noteq> 0" using u False by auto
  have pad: "slice_rng item (length pre) ?ts = (Ok (replicate (?ts - length pre) 0) :: bytes result)"
    using li g assms(1) False by (simp add: slice_rng_ok append_windows label_block_def)
  have loop: "validate_labels_loop item hdr ?ts (?ts + length ls * 16) 0 (length ls) = Ok (length item)"
    using validate_labels_loop_wire [of item ?ts 0 "?ts + length ls * 16" ls hdr] labels_at_wire [OF assms(1) False]
      assms g li by simp
  have c: "checked_mul (length ls) 16 = Some (length ls * 16)"
      "checked_add ?ts (length ls * 16) = Some (?ts + length ls * 16)"
    using li assms(2) by (simp_all add: checked_ok USIZE_MAX_def)
  show ?thesis
    using nz False li by (simp add: validate_labels_def al pad u c loop lookup_sizes Let_def list_ex_iff)
qed

lemma label_at_wire:
  assumes "item = pre @ label_block (length pre) ls" "length item < 2 ^ 32" "hdr \<le> length pre"
    and "labels_valid ls" "length ls < 2 ^ 16" "j < length ls"
  shows "label_at item hdr (word_of_nat (length ls)) (al8 (length pre)) (word_of_nat j) = Ok (label_view (ls ! j))"
proof -
  let ?ts = "al8 (length pre)"
  have ne: "ls \<noteq> []" using assms(6) by auto
  have g: "length pre \<le> ?ts" by (rule al8_ge)
  have "labels_at item (?ts + j * 16) (?ts + length ls * 16 + length (label_strings (take j ls))) (drop j ls)"
    using labels_at_drop [OF labels_at_wire [OF assms(1) ne]] assms by simp
  moreover obtain k v where kv: "ls ! j = (k, v)" by fastforce
  moreover have "drop j ls = ls ! j # drop (Suc j) ls" using assms(6) by (simp add: Cons_nth_drop_Suc)
  ultimately have at: "labels_at item (?ts + j * 16) (?ts + length ls * 16 + length (label_strings (take j ls)))
      ((k, v) # drop (Suc j) ls)" by simp
  have z: "0 \<notin> set k" "0 \<notin> set v" using assms(4,6) kv nth_mem [of j ls] by (auto simp: labels_valid_def)
  have h: "hdr \<le> ?ts + length ls * 16 + length (label_strings (take j ls))" using g assms(3) by simp
  note r = labels_at_Cons [OF at assms(2) h z]
  have b: "?ts + j * 16 + 16 \<le> length item" using at by (simp add: labels_at_def)
  have c: "checked_mul j 16 = Some (j * 16)" "checked_add ?ts (j * 16) = Some (?ts + j * 16)"
      "checked_add (?ts + j * 16) 16 = Some (?ts + j * 16 + 16)"
    using b assms(2) by (simp_all add: checked_ok USIZE_MAX_def)
  have u: "unat (word_of_nat j :: u32) = j" "unat (word_of_nat (length ls) :: u16) = length ls"
    using assms(5,6) by simp_all
  show ?thesis
    using assms(6) b r by (simp add: label_at_def u c lookup_sizes kv label_view_def)
qed

definition label_entry_ok :: "bytes \<Rightarrow> nat \<Rightarrow> nat \<Rightarrow> nat \<Rightarrow> bool" where
  "label_entry_ok item hdr ts j \<longleftrightarrow>
     (\<exists>k. lookup_string item hdr (unat (rd32 item (ts + j * 16))) (unat (rd32 item (ts + j * 16 + 4))) = Ok k) \<and>
     (\<exists>v. lookup_string item hdr (unat (rd32 item (ts + j * 16 + 8))) (unat (rd32 item (ts + j * 16 + 12))) = Ok v)"

lemma validate_labels_loop_sound:
  assumes "ts + (i + n) * 16 \<le> length item" "length item \<le> ISIZE_MAX"
  shows "validate_labels_loop item hdr ts e i n \<noteq> Panic \<and>
     (validate_labels_loop item hdr ts e i n = Ok e' \<longrightarrow> (\<forall>j. i \<le> j \<and> j < i + n \<longrightarrow> label_entry_ok item hdr ts j))"
  using assms
proof (induction n arbitrary: i e)
  case 0
  then show ?case by auto
next
  case (Suc n)
  have c: "checked_mul i 16 = Some (i * 16)" "checked_add ts (i * 16) = Some (ts + i * 16)"
    using Suc.prems by (simp_all add: checked_ok usize_bounds)
  note ih = Suc.IH [of "Suc i"]
  show ?case
    unfolding all_range_Suc using Suc.prems ih
    by (auto simp: c lookup_sizes Let_def rbind_inv rbind_eq_Panic label_entry_ok_def split: prod.splits if_splits)
qed

lemma validate_labels_no_panic [no_panic]:
  assumes "fixed_end \<le> length item" "length item \<le> ISIZE_MAX"
  shows "validate_labels item hdr lc fixed_end \<noteq> Panic"
proof -
  have al: "align8 fixed_end = al8 fixed_end" using assms by (intro align8_al8) (simp add: usize_bounds)
  have g: "fixed_end \<le> al8 fixed_end" by (rule al8_ge)
  have "validate_labels_loop item hdr (al8 fixed_end) (al8 fixed_end + unat lc * 16) 0 (unat lc) \<noteq> Panic"
    if "al8 fixed_end + unat lc * 16 \<le> length item"
    using validate_labels_loop_sound [of "al8 fixed_end" 0 "unat lc"] that assms by simp
  then show ?thesis
    using g by (auto simp: validate_labels_def al Let_def lookup_sizes slice_rng_ok rbind_eq_Panic checked_Some)
qed

lemma label_at_no_panic [no_panic, simp]: "label_at item hdr lc ts i \<noteq> Panic"
  by (auto simp: label_at_def Let_def lookup_sizes rbind_eq_Panic checked_Some)

text \<open>Every label of a validated item can be read.\<close>

lemma validate_labels_readable:
  assumes v: "validate_labels item hdr lc fixed_end = Ok ts" and f: "fixed_end \<le> length item"
    and l: "length item \<le> ISIZE_MAX" and i: "unat i < unat lc"
  shows "\<exists>l. label_at item hdr lc ts i = Ok l"
proof -
  have al: "align8 fixed_end = al8 fixed_end" using f l by (intro align8_al8) (simp add: usize_bounds)
  have nz: "lc \<noteq> 0" using i by auto
  then have ts: "ts = al8 fixed_end" "ts + unat lc * 16 \<le> length item"
    and ok: "\<exists>e e'. validate_labels_loop item hdr ts e 0 (unat lc) = Ok e'"
    using v by (auto simp: validate_labels_def al Let_def lookup_sizes rbind_eq_Ok checked_Some split: if_splits)
  obtain e e' where "validate_labels_loop item hdr ts e 0 (unat lc) = Ok e'" using ok by blast
  then have "label_entry_ok item hdr ts (unat i)"
    using validate_labels_loop_sound [of ts 0 "unat lc" item hdr e e'] ts l i by simp
  moreover have b: "ts + unat i * 16 + 16 \<le> length item" using ts i by linarith
  moreover have "checked_mul (unat i) 16 = Some (unat i * 16)" "checked_add ts (unat i * 16) = Some (ts + unat i * 16)"
      "checked_add (ts + unat i * 16) 16 = Some (ts + unat i * 16 + 16)"
    using b l by (simp_all add: checked_ok usize_bounds)
  ultimately show ?thesis
    using i by (auto simp: label_at_def lookup_sizes label_entry_ok_def)
qed


section \<open>Finishing a response\<close>

lemma lookup_relativize_ok:
  assumes "sub buf hdr (length d * 8) = dir_wire (take k d @ drop k (dir_shift b d))"
    and "k + left = length d" "hdr + length d * 8 \<le> length buf" "length buf < 2 ^ 32"
    and "\<And>j. j < length d \<Longrightarrow> b + fst (d ! j) < 2 ^ 32"
  shows "\<exists>buf'. lookup_relativize buf hdr b k left = Ok buf' \<and> length buf' = length buf \<and>
     sub buf' hdr (length d * 8) = dir_wire d \<and> take hdr buf' = take hdr buf \<and>
     (\<forall>o' m. hdr + length d * 8 \<le> o' \<longrightarrow> o' + m \<le> length buf \<longrightarrow> sub buf' o' m = sub buf o' m)"
  using assms
proof (induction left arbitrary: k buf)
  case 0
  then show ?case by simp
next
  case (Suc left)
  have k: "k < length d" using Suc.prems by simp
  note r = rel_step [OF Suc.prems(1) k Suc.prems(3)]
  let ?buf = "upd buf (hdr + k * 8) (u32_to_ne (word_of_nat (fst (d ! k))))"
  have l: "length ?buf = length buf" using k Suc.prems by simp
  have ub: "unat (rd32 buf (hdr + k * 8)) = b + fst (d ! k)" "fst (d ! k) < 2 ^ 32"
    using r(1) Suc.prems(5) [OF k] by (simp_all del: of_nat_add)
  have c: "checked_mul k 8 = Some (k * 8)" "checked_add hdr (k * 8) = Some (hdr + k * 8)"
    using k Suc.prems by (simp_all add: checked_ok USIZE_MAX_def)
  have step: "lookup_relativize buf hdr b k (Suc left) = lookup_relativize ?buf hdr b (Suc k) left"
    using k Suc.prems ub by (simp add: lookup_sizes c checked_ok)
  obtain buf' where b: "lookup_relativize ?buf hdr b (Suc k) left = Ok buf'" "length buf' = length buf"
      "sub buf' hdr (length d * 8) = dir_wire d" "take hdr buf' = take hdr ?buf"
      "\<forall>o' m. hdr + length d * 8 \<le> o' \<longrightarrow> o' + m \<le> length buf \<longrightarrow> sub buf' o' m = sub ?buf o' m"
    using Suc.IH [OF r(2)] Suc.prems l by auto
  have "\<forall>o' m. hdr + length d * 8 \<le> o' \<longrightarrow> o' + m \<le> length buf \<longrightarrow> sub ?buf o' m = sub buf o' m"
    using k Suc.prems by (auto intro!: sub_upd_disjoint)
  moreover have "take hdr ?buf = take hdr buf" using k Suc.prems by (simp add: take_upd_left)
  ultimately show ?case using b step by auto
qed

definition lookup_hdr_wire :: "u32 \<Rightarrow> u64 \<Rightarrow> bytes" where
  "lookup_hdr_wire n g = u16_to_ne 1 @ u16_to_ne 0 @ u32_to_ne n @ u64_to_ne g"

lemma length_lookup_hdr_wire [simp]: "length (lookup_hdr_wire n g) = 16"
  by (simp add: lookup_hdr_wire_def)

lemma lookup_hdr_reads:
  assumes "take 16 buf = lookup_hdr_wire n g"
  shows "rd16 buf 0 = 1" "rd16 buf 2 = 0" "rd32 buf 4 = n" "rd64 buf 8 = g"
proof -
  obtain rest where "buf = lookup_hdr_wire n g @ rest"
    using assms append_take_drop_id [of 16 buf] by metis
  then show "rd16 buf 0 = 1" "rd16 buf 2 = 0" "rd32 buf 4 = n" "rd64 buf 8 = g"
    by (simp_all add: lookup_hdr_wire_def wire_reads)
qed

lemma finish_lookup_response_ok:
  assumes p: "packed_at buf hdr base off xs" and len: "length buf < 2 ^ 32" and hdr: "hdr = 16"
    and n: "n = word_of_nat (length xs)"
  shows "\<exists>buf'. finish_lookup_response buf hdr n off g =
       Ok (hdr + length xs * 8 + length (pack_data xs), buf') \<and> length buf' = length buf \<and>
     take 16 buf' = lookup_hdr_wire n g \<and> packed_final buf' hdr xs"
proof -
  let ?h = "lookup_hdr_wire n g"
  have o: "off = base + length (pack_data xs)" "off \<le> length buf" "hdr + length xs * 8 \<le> base"
    using p by (auto simp: packed_at_def)
  define buf0 where "buf0 = upd buf 0 ?h"
  have l0: "length buf0 = length buf" "take 16 buf0 = ?h" using o hdr by (simp_all add: buf0_def upd_0)
  have hw: "rbind (put_u16 buf 0 1) (\<lambda>b. rbind (put_u16 b 2 0) (\<lambda>b. rbind (put_u32 b 4 n) (\<lambda>b.
      rbind (put_u64 b 8 g) f))) = f buf0" for f :: "bytes \<Rightarrow> (usize \<times> bytes) result"
    using o hdr by (simp add: buf0_def lookup_hdr_wire_def upd_upd_append)
  have un: "unat n = length xs" using n o len by simp
  show ?thesis
  proof (cases "xs = []")
    case True
    then have "finish_lookup_response buf hdr n off g = Ok (hdr, buf0)"
      unfolding finish_lookup_response_def hw using n by simp
    then show ?thesis using True l0 o by (simp add: packed_final_def dir_wire_def)
  next
    case False
    then have nz: "n \<noteq> 0" using un by auto
    have p0: "packed_at buf0 hdr base off xs"
      using p o hdr l0(1) by (auto simp: packed_at_def buf0_def sub_upd_disjoint)
    define buf1 where "buf1 = (if hdr + length xs * 8 < base
      then upd buf0 (hdr + length xs * 8) (sub buf0 base (off - base)) else buf0)"
    have s: "length buf1 = length buf"
        "sub buf1 hdr (length xs * 8) = dir_wire (dir_shift base (pack_dir xs))"
        "sub buf1 (hdr + length xs * 8) (length (pack_data xs)) = pack_data xs"
      using packed_shift [OF p0 refl buf1_def] l0 by auto
    have h1: "take 16 buf1 = ?h" using l0 hdr o by (simp add: buf1_def take_upd_left)
    have d: "sub buf0 hdr (length (dir_shift base (pack_dir xs)) * 8) = dir_wire (dir_shift base (pack_dir xs))"
      using p0 by (simp add: packed_at_def)
    have l20: "hdr + 8 \<le> length buf0" using o False l0(1) by (cases xs) auto
    then have r: "u32_at buf0 hdr = (Ok (rd32 buf0 hdr) :: u32 result)" by simp
    have first: "unat (rd32 buf0 hdr) = base"
      using dir_wire_read(1) [OF d, of 0] False pack_dir_first [OF False] o len by (simp del: of_nat_add)
    have c: "Option.bind (checked_mul (length xs) 8) (\<lambda>v. checked_add hdr v) = Some (hdr + length xs * 8)"
        "checked_sub off base = Some (length (pack_data xs))"
        "checked_add base (length (pack_data xs)) = Some off"
        "checked_add (hdr + length xs * 8) (length (pack_data xs)) = Some (hdr + length xs * 8 + length (pack_data xs))"
      using o len by (simp_all add: checked_ok USIZE_MAX_def)
    have cw: "(if hdr + length xs * 8 < base
        then if off > length buf0 then Err Overflow
             else if hdr + length xs * 8 + length (pack_data xs) > length buf0 then Err Overflow
                  else copy_within buf0 base off (hdr + length xs * 8)
        else Ok buf0) = (Ok buf1 :: bytes result)"
      using o l0 by (auto simp: buf1_def copy_within_ok)
    have "base + fst (pack_dir xs ! j) < 2 ^ 32" if "j < length xs" for j
      using pack_read [of j xs "fst (pack_dir xs ! j)" "snd (pack_dir xs ! j)"] that o len by simp
    then obtain buf2 where b2: "lookup_relativize buf1 hdr base 0 (length xs) = Ok buf2"
        "length buf2 = length buf" "sub buf2 hdr (length xs * 8) = dir_wire (pack_dir xs)"
        "take hdr buf2 = take hdr buf1"
        "sub buf2 (hdr + length xs * 8) (length (pack_data xs)) = pack_data xs"
      using lookup_relativize_ok [of buf1 hdr "pack_dir xs" 0 base "length xs"] s o len by auto
    have "finish_lookup_response buf hdr n off g = Ok (hdr + length xs * 8 + length (pack_data xs), buf2)"
      unfolding finish_lookup_response_def hw if_not_P [OF nz] un lookup_sizes c ok_or.simps rbind.simps
        r first Let_def cw b2(1) by (rule refl)
    then show ?thesis using b2 h1 hdr o by (simp add: packed_final_def)
  qed
qed


section \<open>The reservation in bytes\<close>

text \<open>Bytes that items of the given lengths take from an aligned position on: every item but the
  last is padded to the next boundary.\<close>

fun suffix_need :: "nat list \<Rightarrow> nat" where
  "suffix_need [] = 0"
| "suffix_need (l # ls) = (if suffix_need ls > 0 then al8 l else l) + suffix_need ls"

lemma suffix_need_drop: "suffix_need (drop j ls) \<le> suffix_need ls"
proof (induction ls arbitrary: j)
  case Nil
  then show ?case by simp
next
  case (Cons l ls)
  show ?case
  proof (cases j)
    case (Suc k)
    then show ?thesis using Cons [of k] by simp
  qed simp
qed

lemma unat_add_u32: "unat a + unat b < 2 ^ 32 \<Longrightarrow> unat (a + b :: u32) = unat a + unat b"
  by (simp add: unat_word_ariths)

lemma suffix_step:
  assumes "unat cur = l" "unat nxt = suffix_need ls"
    and "ok_or (if nxt > 0 then map_option (\<lambda>v. v AND NOT 7) (checked_add_u32 cur 7) else Some cur) Overflow = (Ok c :: u32 result)"
    and "ok_or (checked_add_u32 c nxt) Overflow = (Ok s :: u32 result)"
  shows "unat s = suffix_need (l # ls)"
proof -
  have nz: "nxt > 0 \<longleftrightarrow> suffix_need ls > 0" using assms(2) by (simp add: word_less_nat_alt)
  have c: "unat c = (if suffix_need ls > 0 then al8 l else l)"
  proof (cases "nxt > 0")
    case True
    then have "unat cur + 7 < 2 ^ 32" "c = (cur + 7) AND NOT 7"
      using assms(3) by (auto simp: checked_add_u32_def split: if_splits)
    then have "unat c = al8 l"
      using unat_and_not_7 [of "cur + 7"] unat_add_u32 [of cur 7] assms(1) by (simp add: al8_def)
    then show ?thesis using True nz by simp
  next
    case False
    then show ?thesis using assms(1,3) nz by simp
  qed
  have "unat c + unat nxt < 2 ^ 32" "s = c + nxt"
    using assms(4) by (auto simp: checked_add_u32_def split: if_splits)
  then show ?thesis using c assms(2) unat_add_u32 by simp
qed

lemma suffix_step_exists:
  assumes "unat cur = l" "unat nxt = suffix_need ls" "suffix_need (l # ls) + 7 < 2 ^ 32"
  shows "\<exists>c s. ok_or (if nxt > 0 then map_option (\<lambda>v. v AND NOT 7) (checked_add_u32 cur 7) else Some cur) Overflow = (Ok c :: u32 result) \<and>
     ok_or (checked_add_u32 c nxt) Overflow = (Ok s :: u32 result)"
proof -
  have nz: "nxt > 0 \<longleftrightarrow> suffix_need ls > 0" using assms(2) by (simp add: word_less_nat_alt)
  show ?thesis
  proof (cases "nxt > 0")
    case True
    have "unat cur + unat (7 :: u32) < 2 ^ 32" using assms True nz al8_ge [of l] by simp
    then have c: "checked_add_u32 cur 7 = Some (cur + 7)" "unat (cur + 7) = l + 7"
      using unat_add_u32 [of cur 7] assms(1) by (simp_all add: checked_add_u32_def)
    then have "unat ((cur + 7) AND NOT 7) = al8 l"
      using unat_and_not_7 [of "cur + 7"] by (simp add: al8_def)
    then show ?thesis using True c nz assms by (auto simp: checked_add_u32_def)
  next
    case False
    then show ?thesis using nz assms by (auto simp: checked_add_u32_def)
  qed
qed

lemma suffix_accumulate_ok:
  assumes "length ws = length lens + 1" "i \<le> length lens"
    and "\<And>j. j < i \<Longrightarrow> unat (ws ! j) = lens ! j"
    and "\<And>j. i \<le> j \<Longrightarrow> j \<le> length lens \<Longrightarrow> unat (ws ! j) = suffix_need (drop j lens)"
  shows "suffix_accumulate ws i \<noteq> Panic \<and>
     (\<forall>ws'. suffix_accumulate ws i = Ok ws' \<longrightarrow> length ws' = length lens + 1 \<and>
        (\<forall>j \<le> length lens. unat (ws' ! j) = suffix_need (drop j lens))) \<and>
     (suffix_need lens + 7 < 2 ^ 32 \<longrightarrow> (\<exists>ws'. suffix_accumulate ws i = Ok ws'))"
  using assms
proof (induction i arbitrary: ws)
  case 0
  then show ?case by simp
next
  case (Suc i)
  have ix: "index ws (i + 1) = (Ok (ws ! (i + 1)) :: u32 result)" "index ws i = (Ok (ws ! i) :: u32 result)"
    using Suc.prems by (simp_all add: index_ok)
  have dr: "drop i lens = lens ! i # drop (Suc i) lens" using Suc.prems(2) by (simp add: Cons_nth_drop_Suc)
  have cur: "unat (ws ! i) = lens ! i" and nxt: "unat (ws ! (i + 1)) = suffix_need (drop (Suc i) lens)"
    using Suc.prems(2,3) Suc.prems(4) [of "i + 1"] by auto
  let ?cost = "ok_or (if ws ! (i + 1) > 0 then map_option (\<lambda>v. v AND NOT 7) (checked_add_u32 (ws ! i) 7) else Some (ws ! i)) Overflow :: u32 result"
  have step: "suffix_accumulate ws (Suc i) = rbind ?cost (\<lambda>c.
      rbind (ok_or (checked_add_u32 c (ws ! (i + 1))) Overflow) (\<lambda>s. suffix_accumulate (ws[i := s]) i))"
    by (simp add: ix del: One_nat_def)
  have rest: "suffix_accumulate (ws[i := s]) i \<noteq> Panic \<and>
     (\<forall>ws'. suffix_accumulate (ws[i := s]) i = Ok ws' \<longrightarrow> length ws' = length lens + 1 \<and>
        (\<forall>j \<le> length lens. unat (ws' ! j) = suffix_need (drop j lens))) \<and>
     (suffix_need lens + 7 < 2 ^ 32 \<longrightarrow> (\<exists>ws'. suffix_accumulate (ws[i := s]) i = Ok ws'))"
    if "unat s = suffix_need (drop i lens)" for s
  proof (rule Suc.IH)
    fix j assume "i \<le> j" "j \<le> length lens"
    then show "unat (ws[i := s] ! j) = suffix_need (drop j lens)"
      using that Suc.prems(1,2) Suc.prems(4) [of j] by (cases "j = i") auto
  qed (use Suc.prems in auto)
  have val: "unat s = suffix_need (drop i lens)"
    if "?cost = Ok c" "ok_or (checked_add_u32 c (ws ! (i + 1))) Overflow = (Ok s :: u32 result)" for c s
    using suffix_step [OF cur nxt that] dr by simp
  have succ: "\<exists>c s. ?cost = Ok c \<and> ok_or (checked_add_u32 c (ws ! (i + 1))) Overflow = (Ok s :: u32 result)"
    if big: "suffix_need lens + 7 < 2 ^ 32"
  proof -
    have "suffix_need (lens ! i # drop (Suc i) lens) + 7 < 2 ^ 32"
      using suffix_need_drop [of i lens] big dr by simp
    from suffix_step_exists [OF cur nxt this] show ?thesis .
  qed
  have "rbind ?cost (\<lambda>c. rbind (ok_or (checked_add_u32 c (ws ! (i + 1))) Overflow)
      (\<lambda>s. suffix_accumulate (ws[i := s]) i)) \<noteq> Panic"
    using rest val by (auto simp: rbind_eq_Panic)
  moreover have "\<exists>s. unat s = suffix_need (drop i lens) \<and> suffix_accumulate (ws[i := s]) i = Ok ws'"
    if "suffix_accumulate ws (Suc i) = Ok ws'" for ws'
    using that val unfolding step by (auto simp: rbind_eq_Ok)
  moreover have "\<exists>ws'. suffix_accumulate ws (Suc i) = Ok ws'" if big: "suffix_need lens + 7 < 2 ^ 32"
  proof -
    obtain c s where cs: "?cost = Ok c" "ok_or (checked_add_u32 c (ws ! (i + 1))) Overflow = (Ok s :: u32 result)"
      using succ [OF big] by blast
    then show ?thesis using rest [OF val [OF cs]] big unfolding step by auto
  qed
  ultimately show ?case using rest step by metis
qed


lemma suffix_need_mem: "l \<in> set ls \<Longrightarrow> l \<le> suffix_need ls"
proof (induction ls)
  case (Cons a ls)
  then show ?case using al8_ge [of a] by auto
qed simp

lemma suffix_need_pos: "(\<And>l. l \<in> set ls \<Longrightarrow> 0 < l) \<Longrightarrow> suffix_need ls = 0 \<longleftrightarrow> ls = []"
  using suffix_need_mem [of _ ls] by (cases ls) fastforce+

lemma checked_u32_all_ok:
  "checked_u32_all ls \<noteq> Panic \<and>
   (\<forall>ws. checked_u32_all ls = Ok ws \<longrightarrow> map unat ws = ls) \<and>
   ((\<forall>l \<in> set ls. l < 2 ^ 32) \<longrightarrow> (\<exists>ws. checked_u32_all ls = Ok ws))"
  by (induction ls) (auto simp: rbind_eq_Ok rbind_eq_Panic checked_narrow_Ok)

lemma suffix_bytes_ok:
  "payload_exceeded_suffix_bytes_from_lens lens \<noteq> Panic \<and>
   (\<forall>ws. payload_exceeded_suffix_bytes_from_lens lens = Ok ws \<longrightarrow> length ws = length lens + 1 \<and>
      (\<forall>j \<le> length lens. unat (ws ! j) = suffix_need (drop j lens))) \<and>
   (suffix_need lens + 7 < 2 ^ 32 \<and> length lens < USIZE_MAX \<longrightarrow>
      (\<exists>ws. payload_exceeded_suffix_bytes_from_lens lens = Ok ws))"
proof -
  have acc: "suffix_accumulate (ws @ [0]) (length ws) \<noteq> Panic \<and>
     (\<forall>ws'. suffix_accumulate (ws @ [0]) (length ws) = Ok ws' \<longrightarrow> length ws' = length lens + 1 \<and>
        (\<forall>j \<le> length lens. unat (ws' ! j) = suffix_need (drop j lens))) \<and>
     (suffix_need lens + 7 < 2 ^ 32 \<longrightarrow> (\<exists>ws'. suffix_accumulate (ws @ [0]) (length ws) = Ok ws'))"
    if m: "map unat ws = lens" for ws :: "u32 list"
  proof -
    have l: "length ws = length lens" using m by auto
    show ?thesis
    proof (rule suffix_accumulate_ok)
      fix j assume "j < length ws"
      then show "unat ((ws @ [0]) ! j) = lens ! j" using m by (auto simp: nth_append)
    next
      fix j assume "length ws \<le> j" "j \<le> length lens"
      then show "unat ((ws @ [0]) ! j) = suffix_need (drop j lens)" using l by (simp add: nth_append)
    qed (use l in auto)
  qed
  note all = checked_u32_all_ok [of lens]
  have small: "\<forall>l \<in> set lens. l < 2 ^ 32" if "suffix_need lens + 7 < 2 ^ 32"
    using suffix_need_mem [of _ lens] that by fastforce
  show ?thesis
    using acc all small
    by (auto simp: payload_exceeded_suffix_bytes_from_lens_def rbind_eq_Ok rbind_eq_Panic Let_def checked_Some
        checked_add_def)
qed

text \<open>The check as a predicate: without a reservation table for this builder nothing is reserved.\<close>

definition suffix_reserved :: "nat \<Rightarrow> nat \<Rightarrow> u32 list \<Rightarrow> u32 \<Rightarrow> u32 \<Rightarrow> bool" where
  "suffix_reserved L off ws first m \<longleftrightarrow> (length ws = unat m + 1 \<and> unat first \<le> unat m \<longrightarrow>
     off + 7 \<le> USIZE_MAX \<and> al8 off \<le> L \<and> unat (ws ! unat first) \<le> L - al8 off)"

lemma payload_exceeded_suffix_fits_eq [simp]:
  "payload_exceeded_suffix_fits L off ws first m = Ok (suffix_reserved L off ws first m)"
proof -
  have "checked_add (unat m) 1 = Some (unat m + 1)" using u32_lt [of m] by (simp add: checked_ok USIZE_MAX_def)
  then show ?thesis
    by (auto simp: payload_exceeded_suffix_fits_def suffix_reserved_def align8_al8 index_ok Let_def USIZE_MAX_def)
qed

lemma suffix_need_replicate: "0 < c \<Longrightarrow> suffix_need (replicate (Suc r) c) = c + r * al8 c"
  by (induction r) simp_all

lemma fixed_suffix_fits_eq:
  assumes "0 < c" "c \<le> 4096" "off + 7 \<le> USIZE_MAX"
  shows "payload_exceeded_fixed_suffix_fits L off c first m \<longleftrightarrow>
     unat m < unat first \<or> (al8 off \<le> L \<and> suffix_need (replicate (unat m - unat first) c) \<le> L - al8 off)"
proof (cases "unat m - unat first")
  case 0
  then show ?thesis using assms by (auto simp: payload_exceeded_fixed_suffix_fits_def align8_al8 Let_def)
next
  case (Suc r)
  have r: "r < 2 ^ 32" using Suc u32_lt [of m] by simp
  have al: "al8 c \<le> 8192" using al8_le [of c] assms(2) by linarith
  have "r * al8 c \<le> 2 ^ 32 * 8192" using r al by (intro mult_le_mono) simp_all
  then have c: "checked_mul r (al8 c) = Some (r * al8 c)" "checked_add c (r * al8 c) = Some (c + r * al8 c)"
      "map_option (\<lambda>v. v div 8 * 8) (checked_add c 7) = Some (al8 c)"
    using assms(2) by (simp_all add: checked_ok USIZE_MAX_def al8_def)
  have sn: "suffix_need (replicate (Suc r) c) = c + r * al8 c" using assms(1) by (rule suffix_need_replicate)
  show ?thesis
    unfolding Suc sn
    using Suc assms by (auto simp: payload_exceeded_fixed_suffix_fits_def align8_al8 Let_def c)
qed

text \<open>The reservation is kept by answering the first reserved item with its reserved size.\<close>

lemma reserve_step:
  assumes "al8 off + suffix_need (l # ls) \<le> cap" "\<And>x. x \<in> set ls \<Longrightarrow> 0 < x"
  shows "al8 off + l \<le> cap" "ls \<noteq> [] \<Longrightarrow> al8 (al8 off + l) + suffix_need ls \<le> cap"
proof -
  show "al8 off + l \<le> cap" using assms(1) al8_ge [of l] by (auto split: if_splits)
  show "al8 (al8 off + l) + suffix_need ls \<le> cap" if "ls \<noteq> []"
    using that assms suffix_need_pos [of ls] by (simp add: al8_add)
qed


section \<open>Raw responses\<close>

lemma encode_raw_items_ok:
  assumes "packed_at buf hdr base off xs" "hdr + (length xs + length ys) * 8 \<le> base" "length buf < 2 ^ 32"
    and "base + length (pack_data (xs @ ys)) \<le> length buf"
    and "\<And>y. y \<in> set ys \<Longrightarrow> min_len \<le> length y \<and> validate y = Ok ()"
  shows "\<exists>buf'. encode_raw_items buf hdr min_len validate off (length xs) ys =
       Ok (base + length (pack_data (xs @ ys)), buf') \<and>
     packed_at buf' hdr base (base + length (pack_data (xs @ ys))) (xs @ ys) \<and> length buf' = length buf"
  using assms
proof (induction ys arbitrary: buf off xs)
  case Nil
  then show ?case by (auto simp: packed_at_def)
next
  case (Cons y ys)
  let ?o = "al8 off" and ?n = "length xs"
  have off: "off = base + length (pack_data xs)" "base mod 8 = 0" "off \<le> length buf"
    using Cons.prems(1) by (auto simp: packed_at_def)
  have o: "?o = base + al8 (length (pack_data xs))" using off by (simp add: al8_add)
  have g: "off \<le> ?o" by (rule al8_ge)
  have fit: "?o + length y \<le> length buf"
    using pack_data_step [of "xs @ y # ys" xs y ys] Cons.prems(4) o by simp
  let ?b2 = "upd (upd buf off (replicate (?o - off) 0)) ?o y"
  let ?b3 = "upd (upd ?b2 (hdr + ?n * 8) (u32_to_ne (word_of_nat ?o))) (hdr + ?n * 8 + 4)
      (u32_to_ne (word_of_nat (length y)))"
  have l: "length ?b2 = length buf" using fit g off by simp
  have pk: "packed_at ?b3 hdr base (?o + length y) (xs @ [y])"
    using packed_at_append [OF Cons.prems(1) _ refl fit refl] Cons.prems(2) by simp
  have f: "(if ?o > off then fill buf off ?o 0 else Ok buf) = (Ok (upd buf off (replicate (?o - off) 0)) :: bytes result)"
    using g fit off by (auto simp: fill_ok not_less)
  have al: "align8 off = ?o" using off Cons.prems(3) by (intro align8_al8) (simp add: USIZE_MAX_def)
  have c: "checked_add ?o (length y) = Some (?o + length y)" "checked_mul ?n 8 = Some (?n * 8)"
      "checked_add hdr (?n * 8) = Some (hdr + ?n * 8)" "checked_u32 ?o = Ok (word_of_nat ?o)"
      "checked_u32 (length y) = Ok (word_of_nat (length y))"
    using fit Cons.prems(2,3) off by (simp_all add: checked_ok USIZE_MAX_def)
  have hb: "hdr + ?n * 8 + 8 \<le> off" using Cons.prems(2) off(1) by simp
  have v: "min_len \<le> length y" "validate y = Ok ()" using Cons.prems(5) [of y] by auto
  have step: "encode_raw_items buf hdr min_len validate off ?n (y # ys) =
      encode_raw_items ?b3 hdr min_len validate (?o + length y) (Suc ?n) ys"
    unfolding encode_raw_items.simps Let_def lookup_sizes al v(2) c ok_or.simps rbind.simps f
    using v(1) fit l hb g off(3) by (simp add: copy_from_slice_ok not_less)
  have "\<exists>buf'. encode_raw_items ?b3 hdr min_len validate (?o + length y) (length (xs @ [y])) ys =
       Ok (base + length (pack_data ((xs @ [y]) @ ys)), buf') \<and>
     packed_at buf' hdr base (base + length (pack_data ((xs @ [y]) @ ys))) ((xs @ [y]) @ ys) \<and> length buf' = length ?b3"
    using Cons.prems pk l off by (intro Cons.IH) auto
  moreover have "length ?b3 = length buf" using l Cons.prems(2) off by simp
  ultimately show ?case using step by simp
qed

lemma encode_raw_response_ok:
  assumes "length items < 2 ^ 32" "length buf < 2 ^ 32" "hdr = 16"
    and "hdr + length items * 8 + length (pack_data items) \<le> length buf"
    and "\<And>y. y \<in> set items \<Longrightarrow> min_len \<le> length y \<and> validate y = Ok ()"
  shows "\<exists>buf'. encode_raw_response buf hdr g items min_len validate =
       Ok (hdr + length items * 8 + length (pack_data items), buf') \<and> length buf' = length buf \<and>
     take 16 buf' = lookup_hdr_wire (word_of_nat (length items)) g \<and> packed_final buf' hdr items"
proof -
  let ?base = "hdr + length items * 8"
  have "packed_at buf hdr ?base ?base []" using assms by (simp add: packed_at_Nil)
  then obtain buf1 where b1: "encode_raw_items buf hdr min_len validate ?base 0 items =
      Ok (?base + length (pack_data items), buf1)"
      "packed_at buf1 hdr ?base (?base + length (pack_data items)) items" "length buf1 = length buf"
    using encode_raw_items_ok [of buf hdr ?base ?base "[]" items min_len validate] assms by auto
  obtain buf2 where b2: "finish_lookup_response buf1 hdr (word_of_nat (length items)) (?base + length (pack_data items)) g =
       Ok (hdr + length items * 8 + length (pack_data items), buf2)" "length buf2 = length buf1"
      "take 16 buf2 = lookup_hdr_wire (word_of_nat (length items)) g" "packed_final buf2 hdr items"
    using finish_lookup_response_ok [OF b1(2) _ assms(3) refl, of g] b1(3) assms(2) by auto
  have "encode_raw_response buf hdr g items min_len validate =
      Ok (hdr + length items * 8 + length (pack_data items), buf2)"
    using assms b1(1) b2(1) by (simp add: encode_raw_response_def)
  then show ?thesis using b1(3) b2 by simp
qed

text \<open>What the readers see of a finished directory.\<close>

lemma packed_final_dir:
  assumes "packed_final buf hdr xs" "length buf < 2 ^ 32" "i < length xs"
  shows "dir_off buf hdr i = fst (pack_dir xs ! i)" "dir_len buf hdr i = length (xs ! i)"
    "dir_off buf hdr i mod 8 = 0" "dir_off buf hdr i + dir_len buf hdr i \<le> length (pack_data xs)"
    "sub buf (hdr + length xs * 8 + dir_off buf hdr i) (dir_len buf hdr i) = xs ! i"
proof -
  have "length (pack_data xs) < 2 ^ 32" using assms by (simp add: packed_final_def)
  note r = packed_final_read [OF assms(1) this assms(3)]
  show "dir_off buf hdr i = fst (pack_dir xs ! i)" "dir_len buf hdr i = length (xs ! i)"
    using r by (simp_all add: dir_off_def dir_len_def)
  then show "dir_off buf hdr i mod 8 = 0" "dir_off buf hdr i + dir_len buf hdr i \<le> length (pack_data xs)"
    "sub buf (hdr + length xs * 8 + dir_off buf hdr i) (dir_len buf hdr i) = xs ! i"
    using r by simp_all
qed

lemma packed_final_validates:
  assumes p: "packed_final buf hdr xs" and l: "length buf < 2 ^ 32" and h: "hdr \<le> 4096"
    and m: "\<And>x. x \<in> set xs \<Longrightarrow> (case exact of Some e \<Rightarrow> length x = e | None \<Rightarrow> min_len \<le> length x)"
    and n: "unat n = length xs"
  shows "validate_lookup_dir buf hdr n (length buf - (hdr + length xs * 8)) min_len exact = Ok ()"
proof -
  have le: "hdr + length xs * 8 + length (pack_data xs) \<le> length buf" using p by (simp add: packed_final_def)
  have "dir_entry_ok buf hdr (length buf - (hdr + length xs * 8)) min_len exact j" if "j < length xs" for j
  proof -
    note r = packed_final_dir [OF p l that]
    have "case exact of Some e \<Rightarrow> dir_len buf hdr j = e | None \<Rightarrow> min_len \<le> dir_len buf hdr j"
      using m [of "xs ! j"] that r(2) by (simp split: option.splits)
    then show ?thesis using r(3,4) le by (simp add: dir_entry_ok_def)
  qed
  moreover have "dir_off buf hdr j + dir_len buf hdr j \<le> dir_off buf hdr (Suc j)" if "Suc j < length xs" for j
    using packed_final_dir(1,2) [OF p l, of j] packed_final_dir(1) [OF p l that] that
      pack_ordered [of j "Suc j" xs] pack_len [of j xs] by simp
  ultimately show ?thesis
    using validate_lookup_dir_ok [OF h, of buf n "length buf - (hdr + length xs * 8)" min_len exact] n le by simp
qed

lemma response_raw_item_final:
  assumes "packed_final buf hdr xs" "length buf < 2 ^ 32" "hdr \<le> 4096" "i < length xs"
  shows "response_raw_item buf hdr (word_of_nat (length xs)) (word_of_nat i) = Ok (xs ! i)"
proof -
  note r = packed_final_dir [OF assms(1,2,4)]
  have le: "hdr + length xs * 8 + length (pack_data xs) \<le> length buf" using assms(1) by (simp add: packed_final_def)
  have u: "unat (word_of_nat (length xs) :: u32) = length xs" "unat (word_of_nat i :: u32) = i"
    using le assms(2,4) by simp_all
  have ni: "\<not> (word_of_nat (length xs) :: u32) \<le> word_of_nat i" using u assms(4) by (simp add: word_le_nat_alt)
  have b: "hdr + i * 8 + 8 \<le> length buf" using le assms(4) by linarith
  show ?thesis
    using ni assms(3) b r le assms(2)
    by (simp add: response_raw_item_def u checked_subslice_eq USIZE_MAX_def dir_off_def dir_len_def)
qed


section \<open>Requests\<close>

text \<open>A request stores relative offsets behind a directory of exactly its size.\<close>

lemma packed_gen_final:
  assumes "packed_gen 0 buf hdr base off xs" "base = hdr + length xs * 8"
  shows "packed_final buf hdr xs"
  using assms by (auto simp: packed_gen_def packed_final_def)

lemma packed_gen_header:
  assumes "packed_gen s buf hdr base off xs" "length h \<le> hdr"
  shows "packed_gen s (upd buf 0 h) hdr base off xs"
  using assms by (auto simp: packed_gen_def sub_upd_disjoint)

definition lookup_req_wire :: "u32 \<Rightarrow> bytes" where
  "lookup_req_wire n = u16_to_ne 1 @ u16_to_ne 0 @ u32_to_ne n @ u32_to_ne 0 @ u32_to_ne 0"

lemma length_lookup_req_wire [simp]: "length (lookup_req_wire n) = 16"
  by (simp add: lookup_req_wire_def)

lemma lookup_req_reads:
  assumes "take 16 buf = lookup_req_wire n"
  shows "rd16 buf 0 = 1" "rd16 buf 2 = 0" "rd32 buf 4 = n" "rd32 buf 8 = 0" "rd32 buf 12 = 0"
proof -
  obtain rest where "buf = lookup_req_wire n @ rest"
    using assms append_take_drop_id [of 16 buf] by metis
  then show "rd16 buf 0 = 1" "rd16 buf 2 = 0" "rd32 buf 4 = n" "rd32 buf 8 = 0" "rd32 buf 12 = 0"
    by (simp_all add: lookup_req_wire_def wire_reads)
qed

section \<open>The contract between a response and its item decoder\<close>

text \<open>
  Both lookup responses check every item they announce with the method's item decoder before they
  hand out the view. Given a decoder that does not panic, such a check does not panic either, and it
  succeeds exactly when every announced item decodes.
\<close>

locale lookup_items =
  fixes decode :: "bytes \<Rightarrow> 'v result"
    and check :: "bytes \<Rightarrow> usize \<Rightarrow> usize \<Rightarrow> nat \<Rightarrow> unit result"
  assumes check_0: "check buf dir_end i 0 = Ok ()"
    and check_Suc: "check buf dir_end i (Suc n) =
      rbind (u32_at buf (16 + i * 8)) (\<lambda>off. rbind (u32_at buf (16 + i * 8 + 4)) (\<lambda>len.
      rbind (checked_subslice buf dir_end (unat off) (unat len)) (\<lambda>item.
      rbind (decode item) (\<lambda>_. check buf dir_end (i + 1) n))))"
    and decode_no_panic: "length item \<le> ISIZE_MAX \<Longrightarrow> decode item \<noteq> Panic"
begin

lemma check_iff:
  assumes "16 + (i + n) * 8 \<le> length buf" "length buf \<le> ISIZE_MAX" "dir_end \<le> length buf"
  shows "check buf dir_end i n \<noteq> Panic \<and>
    (check buf dir_end i n = Ok () \<longleftrightarrow>
      (\<forall>j. i \<le> j \<and> j < i + n \<longrightarrow> dir_end + dir_off buf 16 j + dir_len buf 16 j \<le> length buf \<and>
        (\<exists>v. decode (sub buf (dir_end + dir_off buf 16 j) (dir_len buf 16 j)) = Ok v)))"
  using assms
proof (induction n arbitrary: i)
  case 0
  then show ?case by (auto simp: check_0)
next
  case (Suc n)
  let ?o = "dir_off buf 16 i" and ?l = "dir_len buf 16 i"
  have r: "u32_at buf (16 + i * 8) = Ok (rd32 buf (16 + i * 8))"
      "u32_at buf (16 + i * 8 + 4) = Ok (rd32 buf (16 + i * 8 + 4))"
    using Suc.prems(1) by simp_all
  have s: "checked_subslice buf dir_end ?o ?l =
      (if dir_end + ?o + ?l \<le> length buf then Ok (sub buf (dir_end + ?o) ?l) else Err OutOfBounds)"
    using dir_bounds [of buf 16 i] Suc.prems by (intro checked_subslice_eq) (simp add: usize_bounds)
  have step: "check buf dir_end i (Suc n) =
      rbind (checked_subslice buf dir_end ?o ?l) (\<lambda>item. rbind (decode item) (\<lambda>_. check buf dir_end (i + 1) n))"
    unfolding check_Suc r rbind.simps dir_off_def dir_len_def by (rule refl)
  have d: "decode (sub buf (dir_end + ?o) ?l) \<noteq> Panic" using Suc.prems(2) by (intro decode_no_panic) simp
  have IH: "check buf dir_end (i + 1) n \<noteq> Panic \<and>
    (check buf dir_end (i + 1) n = Ok () \<longleftrightarrow>
      (\<forall>j. i + 1 \<le> j \<and> j < i + 1 + n \<longrightarrow> dir_end + dir_off buf 16 j + dir_len buf 16 j \<le> length buf \<and>
        (\<exists>v. decode (sub buf (dir_end + dir_off buf 16 j) (dir_len buf 16 j)) = Ok v)))"
    using Suc.prems by (intro Suc.IH) simp_all
  show ?case
    unfolding all_range_Suc step s
    using IH d by (auto simp: rbind_eq_Ok rbind_eq_Panic)
qed

lemma check_final:
  assumes "packed_final buf 16 xs" "length buf < 2 ^ 32" "\<And>x. x \<in> set xs \<Longrightarrow> \<exists>v. decode x = Ok v"
  shows "check buf (16 + length xs * 8) 0 (length xs) = Ok ()"
proof -
  have l: "16 + length xs * 8 + length (pack_data xs) \<le> length buf" using assms(1) by (simp add: packed_final_def)
  have "16 + length xs * 8 + dir_off buf 16 j + dir_len buf 16 j \<le> length buf \<and>
      (\<exists>v. decode (sub buf (16 + length xs * 8 + dir_off buf 16 j) (dir_len buf 16 j)) = Ok v)"
    if "j < length xs" for j
    using packed_final_dir(4,5) [OF assms(1,2) that] l assms(3) [of "xs ! j"] that by simp
  then show ?thesis
    using check_iff [of 0 "length xs" buf "16 + length xs * 8"] l assms(2) by (simp add: usize_bounds)
qed

end

text \<open>
  A whole response: the header is checked, then the directory, then every item; \<open>item\<close> decodes one item
  again and \<open>raw_item\<close> returns its bytes. Both lookup responses are read this way.
\<close>

locale lookup_response = lookup_items decode check
  for decode :: "bytes \<Rightarrow> 'v result" and check :: "bytes \<Rightarrow> usize \<Rightarrow> usize \<Rightarrow> nat \<Rightarrow> unit result" +
  fixes min_len :: nat
    and view :: "u32 \<Rightarrow> u64 \<Rightarrow> bytes \<Rightarrow> 'r"
    and count :: "'r \<Rightarrow> u32" and gen :: "'r \<Rightarrow> u64" and payload :: "'r \<Rightarrow> bytes"
    and resp_decode :: "bytes \<Rightarrow> 'r result" and item :: "'r \<Rightarrow> u32 \<Rightarrow> 'v result" and raw :: "'r \<Rightarrow> u32 \<Rightarrow> bytes result"
  assumes view_fields: "count (view n g p) = n" "gen (view n g p) = g" "payload (view n g p) = p"
    and resp_decode_eq: "resp_decode buf =
      (if length buf < 16 then Err Truncated
       else rbind (u16_at buf 0) (\<lambda>v. rbind (u16_at buf 2) (\<lambda>f.
         if v \<noteq> 1 \<or> f \<noteq> 0 then Err BadLayout
         else rbind (u32_at buf 4) (\<lambda>item_count.
           rbind (ok_or (checked_mul (unat item_count) 8) BadItemCount) (\<lambda>dir_size.
           rbind (ok_or (checked_add 16 dir_size) BadItemCount) (\<lambda>dir_end.
           if dir_end > length buf then Err Truncated
           else rbind (validate_lookup_dir buf 16 item_count (length buf - dir_end) min_len None) (\<lambda>_.
             rbind (check buf dir_end 0 (unat item_count)) (\<lambda>_.
             rbind (u64_at buf 8) (\<lambda>generation. Ok (view item_count generation buf))))))))))"
    and item_eq: "item v idx =
      (if idx \<ge> count v then Err OutOfBounds
       else rbind (lookup_data_offset 16 (count v)) (\<lambda>packed_start.
         rbind (lookup_dir_entry_offset 16 idx) (\<lambda>base.
         rbind (u32_at (payload v) base) (\<lambda>off.
         rbind (u32_at (payload v) (base + 4)) (\<lambda>len.
         rbind (checked_subslice (payload v) packed_start (unat off) (unat len)) (\<lambda>x. decode x))))))"
    and raw_eq: "raw v idx = response_raw_item (payload v) 16 (count v) idx"
begin

lemma resp_decode_ok:
  assumes l: "length buf \<le> ISIZE_MAX"
  shows "resp_decode buf \<noteq> Panic"
    and "resp_decode buf = Ok v \<longleftrightarrow>
      16 + unat (rd32 buf 4) * 8 \<le> length buf \<and> rd16 buf 0 = 1 \<and> rd16 buf 2 = 0 \<and>
      validate_lookup_dir buf 16 (rd32 buf 4) (length buf - (16 + unat (rd32 buf 4) * 8)) min_len None = Ok () \<and>
      check buf (16 + unat (rd32 buf 4) * 8) 0 (unat (rd32 buf 4)) = Ok () \<and>
      v = view (rd32 buf 4) (rd64 buf 8) buf"
proof -
  let ?n = "unat (rd32 buf 4)"
  have c: "checked_add 16 (?n * 8) = Some (16 + ?n * 8)"
    using u32_lt [of "rd32 buf 4"] by (simp add: checked_ok USIZE_MAX_def)
  have vd: "validate_lookup_dir buf 16 n packed m ex \<noteq> Panic" for n packed m ex
    using validate_lookup_dir_ok [of 16] by simp
  have ck: "check buf (16 + ?n * 8) 0 ?n \<noteq> Panic" if "16 + ?n * 8 \<le> length buf"
    using check_iff [of 0 ?n buf "16 + ?n * 8"] that l by simp
  show "resp_decode buf \<noteq> Panic"
    using vd ck by (auto simp: resp_decode_eq c rbind_eq_Panic)
  show "resp_decode buf = Ok v \<longleftrightarrow>
      16 + ?n * 8 \<le> length buf \<and> rd16 buf 0 = 1 \<and> rd16 buf 2 = 0 \<and>
      validate_lookup_dir buf 16 (rd32 buf 4) (length buf - (16 + ?n * 8)) min_len None = Ok () \<and>
      check buf (16 + ?n * 8) 0 ?n = Ok () \<and> v = view (rd32 buf 4) (rd64 buf 8) buf"
    by (cases "length buf < 16") (auto simp: resp_decode_eq c rbind_eq_Ok not_less)
qed

text \<open>The items of a decoded response, and what \<open>item\<close> and \<open>raw_item\<close> return for them.\<close>

lemma item_facts:
  assumes d: "resp_decode buf = Ok v" and l: "length buf \<le> ISIZE_MAX" and i: "unat i < unat (count v)"
    and x: "x = sub buf (16 + unat (count v) * 8 + dir_off buf 16 (unat i)) (dir_len buf 16 (unat i))"
  shows "item v i = decode x" "\<exists>w. decode x = Ok w"
    "16 + unat (count v) * 8 + dir_off buf 16 (unat i) + dir_len buf 16 (unat i) \<le> length buf"
    "raw v i = Ok x"
proof -
  note r = d [unfolded resp_decode_ok(2) [OF l]]
  have v: "count v = rd32 buf 4" "payload v = buf" using r view_fields by auto
  have le: "16 + unat (count v) * 8 \<le> length buf" using r v by simp
  then have it: "16 + unat (count v) * 8 + dir_off buf 16 (unat i) + dir_len buf 16 (unat i) \<le> length buf \<and>
      (\<exists>w. decode x = Ok w)"
    using check_iff [of 0 "unat (count v)" buf "16 + unat (count v) * 8"] r v i l x by simp
  then show "\<exists>w. decode x = Ok w"
    "16 + unat (count v) * 8 + dir_off buf 16 (unat i) + dir_len buf 16 (unat i) \<le> length buf" by simp_all
  have ni: "\<not> count v \<le> i" using i by (simp add: word_le_nat_alt)
  have b: "16 + unat i * 8 + 8 \<le> length buf" using i le by linarith
  have cs: "checked_subslice buf (16 + unat (count v) * 8) (unat (rd32 buf (16 + unat i * 8)))
      (unat (rd32 buf (16 + unat i * 8 + 4))) = Ok x"
    using it x l by (simp add: checked_subslice_eq dir_off_def dir_len_def usize_bounds)
  show "item v i = decode x" unfolding item_eq if_not_P [OF ni] using cs b v(2) by simp
  show "raw v i = Ok x" unfolding raw_eq response_raw_item_def if_not_P [OF ni] using cs b v(2) by simp
qed

lemma item_out_of_bounds: "\<not> i < count v \<Longrightarrow> item v i = Err OutOfBounds"
  by (simp add: item_eq not_less)

lemma final_decode:
  assumes hdr: "take 16 buf = lookup_hdr_wire (word_of_nat (length xs)) g"
    and fin: "packed_final buf 16 xs" and len: "length buf < 2 ^ 32"
    and ok: "\<And>x. x \<in> set xs \<Longrightarrow> min_len \<le> length x \<and> (\<exists>w. decode x = Ok w)"
    and v: "v = view (word_of_nat (length xs)) g buf"
  shows "resp_decode buf = Ok v"
    and "i < length xs \<Longrightarrow> item v (word_of_nat i) = decode (xs ! i)"
    and "i < length xs \<Longrightarrow> raw v (word_of_nat i) = Ok (xs ! i)"
proof -
  let ?n = "length xs"
  note r = lookup_hdr_reads [OF hdr]
  have le: "16 + ?n * 8 + length (pack_data xs) \<le> length buf" using fin by (simp add: packed_final_def)
  have un: "unat (word_of_nat ?n :: u32) = ?n" using le len by simp
  have li: "length buf \<le> ISIZE_MAX" using len by (simp add: ISIZE_MAX_def)
  have vd: "validate_lookup_dir buf 16 (word_of_nat ?n) (length buf - (16 + ?n * 8)) min_len None = Ok ()"
    using fin len un ok by (intro packed_final_validates) simp_all
  have ck: "check buf (16 + ?n * 8) 0 ?n = Ok ()"
    using fin len ok by (intro check_final) simp_all
  show d: "resp_decode buf = Ok v"
    using le r un v vd ck by (simp add: resp_decode_ok(2) [OF li])
  have "item v (word_of_nat i) = decode (xs ! i) \<and> raw v (word_of_nat i) = Ok (xs ! i)" if i: "i < ?n"
  proof -
    have ui: "unat (word_of_nat i :: u32) = i" using i le len by simp
    have lt: "unat (word_of_nat i :: u32) < unat (count v)" using i un ui v view_fields by simp
    show ?thesis
      using item_facts(1,4) [OF d li lt refl] packed_final_dir(5) [OF fin len i] ui un v view_fields by simp
  qed
  then show "i < ?n \<Longrightarrow> item v (word_of_nat i) = decode (xs ! i)"
    "i < ?n \<Longrightarrow> raw v (word_of_nat i) = Ok (xs ! i)" by blast+
qed

lemma final_undecodable:
  assumes hdr: "take 16 buf = lookup_hdr_wire (word_of_nat (length xs)) g"
    and fin: "packed_final buf 16 xs" and len: "length buf < 2 ^ 32" and x: "x \<in> set xs" "\<And>w. decode x \<noteq> Ok w"
  shows "\<exists>err. resp_decode buf = Err err"
proof -
  let ?n = "length xs"
  have li: "length buf \<le> ISIZE_MAX" using len by (simp add: ISIZE_MAX_def)
  have le: "16 + ?n * 8 \<le> length buf" using fin by (simp add: packed_final_def)
  have n: "unat (rd32 buf 4) = ?n" using lookup_hdr_reads(3) [OF hdr] le len by simp
  obtain i where i: "i < ?n" "xs ! i = x" using x(1) by (metis in_set_conv_nth)
  have "resp_decode buf \<noteq> Ok w" for w
  proof
    assume "resp_decode buf = Ok w"
    then have "check buf (16 + ?n * 8) 0 ?n = Ok ()" using resp_decode_ok(2) [OF li, of w] n by simp
    then have "\<exists>w. decode (sub buf (16 + ?n * 8 + dir_off buf 16 i) (dir_len buf 16 i)) = Ok w"
      using check_iff [of 0 ?n buf "16 + ?n * 8"] le li i(1) by simp
    then show False using packed_final_dir(5) [OF fin len i(1)] i(2) x(2) by simp
  qed
  then show ?thesis using resp_decode_ok(1) [OF li] by (cases "resp_decode buf") auto
qed

lemma raw_roundtrip:
  assumes len: "length buf < 2 ^ 32" and fit: "16 + length items * 8 + length (pack_data items) \<le> length buf"
    and ok: "\<And>x. x \<in> set items \<Longrightarrow> min_len \<le> length x \<and> (\<exists>w. decode x = Ok w)"
    and val: "\<And>x w. decode x = Ok w \<Longrightarrow> validate x = Ok ()"
  shows "\<exists>n buf' v. encode_raw_response buf 16 g items min_len validate = Ok (n, buf') \<and> n \<le> length buf \<and>
    resp_decode (take n buf') = Ok v \<and> count v = word_of_nat (length items) \<and> gen v = g \<and>
    (\<forall>i < length items. raw v (word_of_nat i) = Ok (items ! i))"
proof -
  let ?n = "16 + length items * 8 + length (pack_data items)"
  have v: "min_len \<le> length y \<and> validate y = Ok ()" if "y \<in> set items" for y using ok val that by blast
  obtain buf' where e: "encode_raw_response buf 16 g items min_len validate = Ok (?n, buf')"
      "length buf' = length buf" "take 16 buf' = lookup_hdr_wire (word_of_nat (length items)) g" "packed_final buf' 16 items"
    using encode_raw_response_ok [of items buf 16 min_len validate g] len fit v by auto
  let ?b = "take ?n buf'"
  have h: "take 16 ?b = lookup_hdr_wire (word_of_nat (length items)) g" using e(3) by simp
  have f: "packed_final ?b 16 items" using e(4) by (intro packed_final_take) simp_all
  have l: "length ?b < 2 ^ 32" using e(2) len by simp
  note d = final_decode [OF h f l ok refl]
  show ?thesis
    using e(1) fit d(1,3) view_fields by (intro exI [of _ ?n] exI [of _ buf'] exI) auto
qed

end

text \<open>
  Answering a list of requests in order with a builder that never refuses an answer: every request
  is answered, and each answer is one that the request allows.
\<close>

fun answer_seq :: "('q \<Rightarrow> 'b \<Rightarrow> ('e \<times> 'b, 'b) outcome) \<Rightarrow> 'q list \<Rightarrow> 'b \<Rightarrow> ('e \<times> 'b, 'b) outcome" where
  "answer_seq answer [] b = Ok b"
| "answer_seq answer (q # qs) b = rbind (answer q b) (answer_seq answer qs)"

locale answering_builder =
  fixes ready :: "'b \<Rightarrow> 'a list \<Rightarrow> 'q list \<Rightarrow> bool"
    and answer :: "'q \<Rightarrow> 'b \<Rightarrow> (nipc_error \<times> 'b, 'b) outcome"
    and allowed :: "'q \<Rightarrow> 'a \<Rightarrow> bool"
  assumes step: "ready b es (q # qs) \<Longrightarrow> \<exists>b' e. answer q b = Ok b' \<and> ready b' (es @ [e]) qs \<and> allowed q e"
begin

lemma run: "ready b es qs \<Longrightarrow>
    \<exists>b' fs. answer_seq answer qs b = Ok b' \<and> ready b' (es @ fs) [] \<and> list_all2 allowed qs fs"
proof (induction qs arbitrary: b es)
  case Nil
  then show ?case by (intro exI [of _ b] exI [of _ "[]"]) simp
next
  case (Cons q qs)
  then obtain b1 e where 1: "answer q b = Ok b1" "ready b1 (es @ [e]) qs" "allowed q e" using step by blast
  then obtain b' fs where "answer_seq answer qs b1 = Ok b'" "ready b' ((es @ [e]) @ fs) []" "list_all2 allowed qs fs"
    using Cons.IH by blast
  with 1 show ?case by (intro exI [of _ b'] exI [of _ "e # fs"]) simp
qed

end

section \<open>The state of a response builder\<close>

text \<open>
  Both builders keep \<open>count\<close> items packed behind a directory reserved for \<open>m\<close> of them. Placing one more
  item keeps the state; finishing it gives a response with exactly these items.
\<close>

definition lookup_state :: "nat \<Rightarrow> bytes \<Rightarrow> u32 \<Rightarrow> usize \<Rightarrow> u32 \<Rightarrow> bytes list \<Rightarrow> bool" where
  "lookup_state cap buf m off cnt xs \<longleftrightarrow>
     length buf = cap \<and> cap < 2 ^ 32 \<and> packed_at buf 16 (16 + unat m * 8) off xs \<and>
     cnt = word_of_nat (length xs) \<and> length xs \<le> unat m"

lemma lookup_state_new:
  "16 + unat m * 8 \<le> length buf \<Longrightarrow> length buf < 2 ^ 32 \<Longrightarrow> lookup_state (length buf) buf m (16 + unat m * 8) 0 []"
  by (simp add: lookup_state_def packed_at_Nil)

lemma lookup_state_facts:
  assumes "lookup_state cap buf m off cnt xs"
  shows "unat cnt = length xs" "off \<le> cap" "16 + length xs * 8 \<le> cap" "length xs \<le> unat m"
    "cnt \<ge> m \<longleftrightarrow> length xs = unat m" "align8 off = al8 off" "length buf = cap" "cap < 2 ^ 32"
    "length xs < unat m \<Longrightarrow> unat (cnt + 1) = length xs + 1"
proof -
  note st = assms [unfolded lookup_state_def packed_at_def]
  show o: "off \<le> cap" "16 + length xs * 8 \<le> cap" "length xs \<le> unat m" "length buf = cap" "cap < 2 ^ 32" using st by simp_all
  then show u: "unat cnt = length xs" using st by simp
  show "cnt \<ge> m \<longleftrightarrow> length xs = unat m" using o(3) by (auto simp: word_le_nat_alt u)
  show "align8 off = al8 off" using o by (intro align8_al8) (simp add: USIZE_MAX_def)
  show "unat (cnt + 1) = length xs + 1" if "length xs < unat m"
    using u that u32_lt [of m] by (simp add: unat_word_ariths)
qed

text \<open>One item is placed behind those already in the buffer: padding, the item, its directory entry.\<close>

lemma lookup_place:
  assumes p: "packed_at buf 16 base off xs" and l: "length buf < 2 ^ 32" and room: "16 + length xs * 8 + 8 \<le> base"
    and fit: "al8 off + length x \<le> length buf"
    and buf1: "buf1 = upd buf off (replicate (al8 off - off) 0)" and buf2: "buf2 = upd buf1 (al8 off) x"
    and buf3: "buf3 = upd (upd buf2 (16 + length xs * 8) (u32_to_ne (word_of_nat (al8 off)))) (16 + length xs * 8 + 4)
      (u32_to_ne (word_of_nat (length x)))"
  shows "align8 off = al8 off" "(if al8 off > off then fill buf off (al8 off) 0 else Ok buf) = (Ok buf1 :: ('e, bytes) outcome)"
    "length buf1 = length buf" "length buf2 = length buf" "length buf3 = length buf"
    "(put_u32 buf2 (16 + length xs * 8) (word_of_nat (al8 off)) :: ('f, bytes) outcome) =
       Ok (upd buf2 (16 + length xs * 8) (u32_to_ne (word_of_nat (al8 off))))"
    "(put_u32 (upd buf2 (16 + length xs * 8) (u32_to_ne (word_of_nat (al8 off)))) (16 + length xs * 8 + 4)
       (word_of_nat (length x)) :: ('g, bytes) outcome) = Ok buf3"
    "packed_at buf3 16 base (al8 off + length x) (xs @ [x])"
proof -
  have o: "off = base + length (pack_data xs)" "off \<le> length buf" using p by (auto simp: packed_at_def)
  have g: "off \<le> al8 off" by (rule al8_ge)
  show "align8 off = al8 off" using o l by (intro align8_al8) (simp add: USIZE_MAX_def)
  show "(if al8 off > off then fill buf off (al8 off) 0 else Ok buf) = (Ok buf1 :: ('e, bytes) outcome)"
    using g fit o buf1 by (auto simp: fill_ok not_less)
  show l1: "length buf1 = length buf" using buf1 fit g by simp
  show l2: "length buf2 = length buf" using buf2 l1 fit by simp
  have d: "16 + length xs * 8 + 8 \<le> length buf" using room o by simp
  show "length buf3 = length buf" using buf3 l2 d by simp
  show "(put_u32 buf2 (16 + length xs * 8) (word_of_nat (al8 off)) :: ('f, bytes) outcome) =
       Ok (upd buf2 (16 + length xs * 8) (u32_to_ne (word_of_nat (al8 off))))"
    "(put_u32 (upd buf2 (16 + length xs * 8) (u32_to_ne (word_of_nat (al8 off)))) (16 + length xs * 8 + 4)
       (word_of_nat (length x)) :: ('g, bytes) outcome) = Ok buf3"
    using d l2 buf3 by simp_all
  show "packed_at buf3 16 base (al8 off + length x) (xs @ [x])"
    using packed_at_append [OF p room refl fit refl] buf1 buf2 buf3 by simp
qed

lemma lookup_state_place:
  assumes st: "lookup_state cap buf m off cnt xs" and n: "length xs < unat m" and fit: "al8 off + length x \<le> cap"
    and buf1: "buf1 = upd buf off (replicate (al8 off - off) 0)" and buf2: "buf2 = upd buf1 (al8 off) x"
    and buf3: "buf3 = upd (upd buf2 (16 + length xs * 8) (u32_to_ne (word_of_nat (al8 off)))) (16 + length xs * 8 + 4)
      (u32_to_ne (word_of_nat (length x)))"
  shows "(if al8 off > off then fill buf off (al8 off) 0 else Ok buf) = (Ok buf1 :: ('e, bytes) outcome)"
    "length buf1 = cap"
    "slice_rng buf1 (al8 off) (al8 off + length x) = (Ok (sub buf1 (al8 off) (length x)) :: ('s, bytes) outcome)"
    "length (sub buf1 (al8 off) (length x)) = length x"
    "(put_u32 buf2 (16 + length xs * 8) (word_of_nat (al8 off)) :: ('f, bytes) outcome) =
       Ok (upd buf2 (16 + length xs * 8) (u32_to_ne (word_of_nat (al8 off))))"
    "(put_u32 (upd buf2 (16 + length xs * 8) (u32_to_ne (word_of_nat (al8 off)))) (20 + length xs * 8)
       (word_of_nat (length x)) :: ('g, bytes) outcome) = Ok buf3"
    "lookup_state cap buf3 m (al8 off + length x) (cnt + 1) (xs @ [x])"
    "checked_mul (length xs) 8 = Some (length xs * 8)" "checked_add 16 (length xs * 8) = Some (16 + length xs * 8)"
    "checked_u32 (al8 off) = Ok (word_of_nat (al8 off))" "checked_u32 (length x) = Ok (word_of_nat (length x))"
proof -
  have p: "packed_at buf 16 (16 + unat m * 8) off xs" and l: "length buf = cap" "cap < 2 ^ 32"
    and c: "cnt = word_of_nat (length xs)" using st by (auto simp: lookup_state_def)
  note pl = lookup_place [OF p _ _ _ buf1 buf2 buf3]
  show "(if al8 off > off then fill buf off (al8 off) 0 else Ok buf) = (Ok buf1 :: ('e, bytes) outcome)"
    and l1: "length buf1 = cap"
    and "(put_u32 buf2 (16 + length xs * 8) (word_of_nat (al8 off)) :: ('f, bytes) outcome) =
       Ok (upd buf2 (16 + length xs * 8) (u32_to_ne (word_of_nat (al8 off))))"
    and "(put_u32 (upd buf2 (16 + length xs * 8) (u32_to_ne (word_of_nat (al8 off)))) (20 + length xs * 8)
       (word_of_nat (length x)) :: ('g, bytes) outcome) = Ok buf3"
    using pl(2,3,6,7) l n fit by simp_all
  show "slice_rng buf1 (al8 off) (al8 off + length x) = (Ok (sub buf1 (al8 off) (length x)) :: ('s, bytes) outcome)"
    "length (sub buf1 (al8 off) (length x)) = length x" using l1 fit by (simp_all add: slice_rng_ok)
  show "lookup_state cap buf3 m (al8 off + length x) (cnt + 1) (xs @ [x])"
    using pl(5,8) l n fit c by (simp add: lookup_state_def)
  show "checked_mul (length xs) 8 = Some (length xs * 8)" "checked_add 16 (length xs * 8) = Some (16 + length xs * 8)"
      "checked_u32 (al8 off) = Ok (word_of_nat (al8 off))" "checked_u32 (length x) = Ok (word_of_nat (length x))"
    using fit l lookup_state_facts(3) [OF st] by (simp_all add: checked_ok USIZE_MAX_def)
qed

lemma lookup_state_finish:
  assumes st: "lookup_state cap buf m off cnt xs"
  shows "\<exists>n buf'. finish_lookup_response buf 16 cnt off g = Ok (n, buf') \<and> n \<le> cap \<and> length buf' = cap \<and>
     take 16 (take n buf') = lookup_hdr_wire (word_of_nat (length xs)) g \<and> packed_final (take n buf') 16 xs \<and>
     length (take n buf') < 2 ^ 32"
proof -
  let ?n = "16 + length xs * 8 + length (pack_data xs)"
  have p: "packed_at buf 16 (16 + unat m * 8) off xs" and l: "length buf = cap" "cap < 2 ^ 32"
    and c: "cnt = word_of_nat (length xs)" using st by (auto simp: lookup_state_def)
  obtain buf' where f: "finish_lookup_response buf 16 cnt off g = Ok (?n, buf')" "length buf' = cap"
      "take 16 buf' = lookup_hdr_wire cnt g" "packed_final buf' 16 xs"
    using finish_lookup_response_ok [OF p _ refl c, of g] l by auto
  have "?n \<le> cap" using f(2,4) by (simp add: packed_final_def)
  moreover have "packed_final (take ?n buf') 16 xs" using f(4) by (intro packed_final_take) simp_all
  ultimately show ?thesis using f c l by (intro exI [of _ ?n] exI [of _ buf']) simp
qed

text \<open>Writing the label block of an item whose fixed part is in place.\<close>

lemma write_label_block:
  assumes il: "length item = length (fixed @ label_block (length fixed) ls)" and l: "length item < 2 ^ 32"
    and ts: "ls \<noteq> [] \<longrightarrow> ts = al8 (length fixed)" and sz: "sz = length item"
  shows "rbind (if ls \<noteq> []
            then rbind (fill (upd item 0 fixed) (length fixed) ts 0) (\<lambda>item.
                 map_err g (write_lookup_labels item ts (length ls * 16) ls))
            else Ok (sz, upd item 0 fixed)) k =
     (k (sz, fixed @ label_block (length fixed) ls) :: ('e, 'r) outcome)"
proof (cases "ls = []")
  case True
  then show ?thesis using il by (simp add: label_block_def)
next
  case False
  let ?fe = "length fixed"
  let ?z = "replicate (al8 ?fe - ?fe) 0"
  have g: "?fe \<le> al8 ?fe" by (rule al8_ge)
  have wl: "length item = al8 ?fe + length ls * 16 + length (label_strings ls)"
    using il False g by (simp add: length_label_block)
  have f: "(fill (upd item 0 fixed) ?fe (al8 ?fe) 0 :: ('e, _) outcome) = Ok (upd item 0 (fixed @ ?z))"
    using wl g by (simp add: fill_ok upd_upd_append)
  have lu: "length (upd item 0 (fixed @ ?z)) = length item" using wl g by simp
  have w: "write_lookup_labels (upd item 0 (fixed @ ?z)) (al8 ?fe) (length ls * 16) ls =
      Ok (al8 ?fe + length ls * 16 + length (label_strings ls),
          upd (upd item 0 (fixed @ ?z)) (al8 ?fe) (label_table (al8 ?fe + length ls * 16) ls @ label_strings ls))"
    using lu wl l by (intro write_lookup_labels_ok) simp_all
  have "upd (upd item 0 (fixed @ ?z)) (al8 ?fe) (label_table (al8 ?fe + length ls * 16) ls @ label_strings ls) =
      upd item 0 ((fixed @ ?z) @ label_table (al8 ?fe + length ls * 16) ls @ label_strings ls)"
    using wl g by (intro upd_upd_append) simp_all
  also have "(fixed @ ?z) @ label_table (al8 ?fe + length ls * 16) ls @ label_strings ls = fixed @ label_block ?fe ls"
    using False by (simp add: label_block_def)
  finally show ?thesis using False ts f w wl sz il by simp
qed

end
