(* ===== verification/Cgroups_Lookup.thy ===== *)
theory Cgroups_Lookup
  imports Lookup_Common
begin

text \<open>
  The CGROUPS_LOOKUP codec of \<open>protocol/lookup/cgroups_lookup.rs\<close>: request and response views, the
  response builder with its degradation to PAYLOAD_EXCEEDED and OVERSIZED_ITEM answers, and dispatch.
  A builder operation that fails returns its error together with the builder as it was left behind,
  since a handler may go on using it.
\<close>

section \<open>Constants and views\<close>

definition CGROUP_LOOKUP_KNOWN :: u16 where "CGROUP_LOOKUP_KNOWN = 0"
definition CGROUP_LOOKUP_UNKNOWN_RETRY_LATER :: u16 where "CGROUP_LOOKUP_UNKNOWN_RETRY_LATER = 1"
definition CGROUP_LOOKUP_UNKNOWN_PERMANENT :: u16 where "CGROUP_LOOKUP_UNKNOWN_PERMANENT = 2"
definition CGROUP_LOOKUP_PAYLOAD_EXCEEDED :: u16 where "CGROUP_LOOKUP_PAYLOAD_EXCEEDED = 3"
definition CGROUP_LOOKUP_OVERSIZED_ITEM :: u16 where "CGROUP_LOOKUP_OVERSIZED_ITEM = 4"

definition CGROUPS_LOOKUP_REQ_HDR_SIZE :: usize where "CGROUPS_LOOKUP_REQ_HDR_SIZE = 16"
definition CGROUPS_LOOKUP_RESP_HDR_SIZE :: usize where "CGROUPS_LOOKUP_RESP_HDR_SIZE = 16"
definition CGROUPS_LOOKUP_ITEM_HDR_SIZE :: usize where "CGROUPS_LOOKUP_ITEM_HDR_SIZE = 28"

lemmas cgroup_status_defs = CGROUP_LOOKUP_KNOWN_def CGROUP_LOOKUP_UNKNOWN_RETRY_LATER_def
  CGROUP_LOOKUP_UNKNOWN_PERMANENT_def CGROUP_LOOKUP_PAYLOAD_EXCEEDED_def CGROUP_LOOKUP_OVERSIZED_ITEM_def
lemmas cl_sizes = CGROUPS_LOOKUP_REQ_HDR_SIZE_def CGROUPS_LOOKUP_RESP_HDR_SIZE_def
  CGROUPS_LOOKUP_ITEM_HDR_SIZE_def lookup_sizes

record cgroups_lookup_request_view =
  clq_item_count :: u32
  clq_packed_start :: usize
  clq_payload :: bytes

record cgroups_lookup_response_view =
  clr_layout_version :: u16
  clr_flags :: u16
  clr_item_count :: u32
  clr_generation :: u64
  clr_payload :: bytes

record cgroups_lookup_item_view =
  cli_status :: u16
  cli_orchestrator :: u16
  cli_path :: str_view
  cli_name :: str_view
  cli_label_count :: u16
  cli_item :: bytes
  cli_label_table_offset :: usize

definition validate_cgroups_lookup_semantics :: "u16 \<Rightarrow> u16 \<Rightarrow> nat \<Rightarrow> nat \<Rightarrow> nat \<Rightarrow> unit result" where
  "validate_cgroups_lookup_semantics status orchestrator path_len name_len label_count =
     (if status \<noteq> CGROUP_LOOKUP_KNOWN \<and> status \<noteq> CGROUP_LOOKUP_UNKNOWN_RETRY_LATER \<and>
         status \<noteq> CGROUP_LOOKUP_UNKNOWN_PERMANENT \<and> status \<noteq> CGROUP_LOOKUP_PAYLOAD_EXCEEDED \<and>
         status \<noteq> CGROUP_LOOKUP_OVERSIZED_ITEM then Err BadLayout
      else if path_len = 0 then Err BadLayout
      else if status \<noteq> CGROUP_LOOKUP_KNOWN \<and> (orchestrator \<noteq> 0 \<or> name_len \<noteq> 0 \<or> label_count \<noteq> 0)
      then Err BadLayout
      else Ok ())"

section \<open>Request\<close>

fun encode_cgroups_lookup_paths ::
  "bytes \<Rightarrow> usize \<Rightarrow> usize \<Rightarrow> usize \<Rightarrow> bytes list \<Rightarrow> (usize \<times> bytes) result" where
  "encode_cgroups_lookup_paths buf packed_start data i [] = Ok (data, buf)"
| "encode_cgroups_lookup_paths buf packed_start data i (path # paths) =
     (if source_string_invalid path True then Err BadLayout
      else
        let aligned = align8 data in
        rbind (ok_or (checked_add (length path) 1) Overflow) (\<lambda>key_len.
        rbind (ok_or (checked_add aligned key_len) Overflow) (\<lambda>fin.
        if fin > length buf then Err Overflow
        else
          rbind (if aligned > data then fill buf data aligned 0 else Ok buf) (\<lambda>buf.
          let dir = CGROUPS_LOOKUP_REQ_HDR_SIZE + i * LOOKUP_DIR_ENTRY_SIZE in
          rbind (checked_u32 (usize_sub aligned packed_start)) (\<lambda>w. rbind (put_u32 buf dir w) (\<lambda>buf.
          rbind (checked_u32 key_len) (\<lambda>w. rbind (put_u32 buf (dir + 4) w) (\<lambda>buf.
          rbind (copy_from_slice buf aligned (aligned + length path) path) (\<lambda>buf.
          rbind (index_set buf (aligned + length path) 0) (\<lambda>buf.
          encode_cgroups_lookup_paths buf packed_start fin (i + 1) paths))))))))))"

definition encode_cgroups_lookup_request :: "bytes list \<Rightarrow> bytes \<Rightarrow> (usize \<times> bytes) result" where
  "encode_cgroups_lookup_request paths buf =
     (let count = length paths in
      rbind (ok_or (checked_mul count LOOKUP_DIR_ENTRY_SIZE) Overflow) (\<lambda>dir_size.
      rbind (ok_or (checked_add CGROUPS_LOOKUP_REQ_HDR_SIZE dir_size) Overflow) (\<lambda>packed_start.
      if length buf < packed_start then Err Overflow
      else
        rbind (encode_cgroups_lookup_paths buf packed_start packed_start 0 paths) (\<lambda>(data, buf).
        rbind (put_u16 buf 0 1) (\<lambda>buf.
        rbind (put_u16 buf 2 0) (\<lambda>buf.
        rbind (checked_u32 count) (\<lambda>w. rbind (put_u32 buf 4 w) (\<lambda>buf.
        rbind (put_u32 buf 8 0) (\<lambda>buf.
        rbind (put_u32 buf 12 0) (\<lambda>buf.
        Ok (data, buf)))))))))))"

fun cgroups_lookup_check_keys :: "bytes \<Rightarrow> usize \<Rightarrow> usize \<Rightarrow> nat \<Rightarrow> unit result" where
  "cgroups_lookup_check_keys buf dir_end i 0 = Ok ()"
| "cgroups_lookup_check_keys buf dir_end i (Suc left) =
     (let base = CGROUPS_LOOKUP_REQ_HDR_SIZE + i * LOOKUP_DIR_ENTRY_SIZE in
      rbind (u32_at buf base) (\<lambda>off.
      rbind (u32_at buf (base + 4)) (\<lambda>len.
      rbind (checked_subslice buf dir_end (unat off) (unat len)) (\<lambda>key.
      rbind (index key (usize_sub (unat len) 1)) (\<lambda>b.
      if b \<noteq> 0 then Err MissingNul
      else
        rbind (slice_rng key 0 (usize_sub (unat len) 1)) (\<lambda>body.
        if 0 \<in> set body then Err BadLayout
        else cgroups_lookup_check_keys buf dir_end (i + 1) left))))))"

definition cgroups_lookup_request_decode :: "bytes \<Rightarrow> cgroups_lookup_request_view result" where
  "cgroups_lookup_request_decode buf =
     (if length buf < CGROUPS_LOOKUP_REQ_HDR_SIZE then Err Truncated
      else
        rbind (u16_at buf 0) (\<lambda>v.
        rbind (u16_at buf 2) (\<lambda>f.
        rbind (u32_at buf 8) (\<lambda>r1.
        rbind (u32_at buf 12) (\<lambda>r2.
        if v \<noteq> 1 \<or> f \<noteq> 0 \<or> r1 \<noteq> 0 \<or> r2 \<noteq> 0 then Err BadLayout
        else
          rbind (u32_at buf 4) (\<lambda>item_count.
          rbind (ok_or (checked_mul (unat item_count) LOOKUP_DIR_ENTRY_SIZE) BadItemCount) (\<lambda>dir_size.
          rbind (ok_or (checked_add CGROUPS_LOOKUP_REQ_HDR_SIZE dir_size) BadItemCount) (\<lambda>dir_end.
          if dir_end > length buf then Err Truncated
          else
            let packed_len = length buf - dir_end in
            rbind (validate_lookup_dir buf CGROUPS_LOOKUP_REQ_HDR_SIZE item_count packed_len 2 None) (\<lambda>_.
            rbind (cgroups_lookup_check_keys buf dir_end 0 (unat item_count)) (\<lambda>_.
            Ok \<lparr>clq_item_count = item_count, clq_packed_start = dir_end, clq_payload = buf\<rparr>))))))))))"

definition cgroups_lookup_request_item :: "cgroups_lookup_request_view \<Rightarrow> u32 \<Rightarrow> str_view result" where
  "cgroups_lookup_request_item v idx =
     (if idx \<ge> clq_item_count v then Err OutOfBounds
      else
        rbind (ok_or (checked_mul (unat idx) LOOKUP_DIR_ENTRY_SIZE) BadItemCount) (\<lambda>rel.
        rbind (ok_or (checked_add CGROUPS_LOOKUP_REQ_HDR_SIZE rel) BadItemCount) (\<lambda>base.
        rbind (u32_at (clq_payload v) base) (\<lambda>off.
        rbind (u32_at (clq_payload v) (base + 4)) (\<lambda>len.
        rbind (checked_subslice (clq_payload v) (clq_packed_start v) (unat off) (unat len)) (\<lambda>key.
        Ok \<lparr>sv_bytes = key, sv_len = word_of_nat (usize_sub (unat len) 1)\<rparr>))))))"

definition payload_exceeded_item_len :: "cgroups_lookup_request_view \<Rightarrow> u32 \<Rightarrow> usize result" where
  "payload_exceeded_item_len v idx =
     (if idx \<ge> clq_item_count v then Err OutOfBounds
      else
        rbind (ok_or (checked_mul (unat idx) LOOKUP_DIR_ENTRY_SIZE) BadItemCount) (\<lambda>rel.
        rbind (ok_or (checked_add CGROUPS_LOOKUP_REQ_HDR_SIZE rel) BadItemCount) (\<lambda>base.
        rbind (u32_at (clq_payload v) (base + 4)) (\<lambda>path_wire_len.
        ok_or (Option.bind (checked_add CGROUPS_LOOKUP_ITEM_HDR_SIZE (unat path_wire_len))
          (\<lambda>v. checked_add v 1)) Overflow))))"

section \<open>Response\<close>

definition decode_cgroups_item :: "bytes \<Rightarrow> cgroups_lookup_item_view result" where
  "decode_cgroups_item item =
     (if length item < CGROUPS_LOOKUP_ITEM_HDR_SIZE then Err Truncated
      else
        rbind (u16_at item 2) (\<lambda>status.
        rbind (u16_at item 4) (\<lambda>orchestrator.
        rbind (u32_at item 8) (\<lambda>path_off.
        rbind (u32_at item 12) (\<lambda>path_len.
        rbind (u32_at item 16) (\<lambda>name_off.
        rbind (u32_at item 20) (\<lambda>name_len.
        rbind (u16_at item 24) (\<lambda>label_count.
        rbind (u16_at item 0) (\<lambda>v.
        rbind (u16_at item 6) (\<lambda>r1.
        rbind (u16_at item 26) (\<lambda>r2.
        if v \<noteq> 1 \<or> r1 \<noteq> 0 \<or> r2 \<noteq> 0 then Err BadLayout
        else
          rbind (validate_cgroups_lookup_semantics status orchestrator (unat path_len) (unat name_len)
                   (unat label_count)) (\<lambda>_.
          rbind (lookup_string item CGROUPS_LOOKUP_ITEM_HDR_SIZE (unat path_off) (unat path_len)) (\<lambda>(path, path_end).
          rbind (lookup_string item CGROUPS_LOOKUP_ITEM_HDR_SIZE (unat name_off) (unat name_len)) (\<lambda>(name, name_end).
          if overlap (unat path_off) path_end (unat name_off) name_end then Err BadLayout
          else
            rbind (validate_labels item CGROUPS_LOOKUP_ITEM_HDR_SIZE label_count (max path_end name_end)) (\<lambda>label_table_offset.
            Ok \<lparr>cli_status = status, cli_orchestrator = orchestrator, cli_path = path, cli_name = name,
                cli_label_count = label_count, cli_item = item,
                cli_label_table_offset = label_table_offset\<rparr>)))))))))))))))"

fun cgroups_lookup_check_items :: "bytes \<Rightarrow> usize \<Rightarrow> usize \<Rightarrow> nat \<Rightarrow> unit result" where
  "cgroups_lookup_check_items buf dir_end i 0 = Ok ()"
| "cgroups_lookup_check_items buf dir_end i (Suc left) =
     (let base = CGROUPS_LOOKUP_RESP_HDR_SIZE + i * LOOKUP_DIR_ENTRY_SIZE in
      rbind (u32_at buf base) (\<lambda>off.
      rbind (u32_at buf (base + 4)) (\<lambda>len.
      rbind (checked_subslice buf dir_end (unat off) (unat len)) (\<lambda>item.
      rbind (decode_cgroups_item item) (\<lambda>_.
      cgroups_lookup_check_items buf dir_end (i + 1) left)))))"

definition cgroups_lookup_response_decode :: "bytes \<Rightarrow> cgroups_lookup_response_view result" where
  "cgroups_lookup_response_decode buf =
     (if length buf < CGROUPS_LOOKUP_RESP_HDR_SIZE then Err Truncated
      else
        rbind (u16_at buf 0) (\<lambda>v.
        rbind (u16_at buf 2) (\<lambda>f.
        if v \<noteq> 1 \<or> f \<noteq> 0 then Err BadLayout
        else
          rbind (u32_at buf 4) (\<lambda>item_count.
          rbind (ok_or (checked_mul (unat item_count) LOOKUP_DIR_ENTRY_SIZE) BadItemCount) (\<lambda>dir_size.
          rbind (ok_or (checked_add CGROUPS_LOOKUP_RESP_HDR_SIZE dir_size) BadItemCount) (\<lambda>dir_end.
          if dir_end > length buf then Err Truncated
          else
            rbind (validate_lookup_dir buf CGROUPS_LOOKUP_RESP_HDR_SIZE item_count (length buf - dir_end)
                     CGROUPS_LOOKUP_ITEM_HDR_SIZE None) (\<lambda>_.
            rbind (cgroups_lookup_check_items buf dir_end 0 (unat item_count)) (\<lambda>_.
            rbind (u64_at buf 8) (\<lambda>generation.
            Ok \<lparr>clr_layout_version = 1, clr_flags = 0, clr_item_count = item_count,
                clr_generation = generation, clr_payload = buf\<rparr>)))))))))"

definition cgroups_lookup_response_item :: "cgroups_lookup_response_view \<Rightarrow> u32 \<Rightarrow> cgroups_lookup_item_view result" where
  "cgroups_lookup_response_item v idx =
     (if idx \<ge> clr_item_count v then Err OutOfBounds
      else
        rbind (lookup_data_offset CGROUPS_LOOKUP_RESP_HDR_SIZE (clr_item_count v)) (\<lambda>packed_start.
        rbind (lookup_dir_entry_offset CGROUPS_LOOKUP_RESP_HDR_SIZE idx) (\<lambda>base.
        rbind (u32_at (clr_payload v) base) (\<lambda>off.
        rbind (u32_at (clr_payload v) (base + 4)) (\<lambda>len.
        rbind (checked_subslice (clr_payload v) packed_start (unat off) (unat len)) (\<lambda>item.
        decode_cgroups_item item))))))"

definition cgroups_lookup_raw_item :: "cgroups_lookup_response_view \<Rightarrow> u32 \<Rightarrow> bytes result" where
  "cgroups_lookup_raw_item v idx =
     response_raw_item (clr_payload v) CGROUPS_LOOKUP_RESP_HDR_SIZE (clr_item_count v) idx"

definition validate_cgroups_lookup_raw_item :: "bytes \<Rightarrow> unit result" where
  "validate_cgroups_lookup_raw_item item = rbind (decode_cgroups_item item) (\<lambda>_. Ok ())"

definition encode_cgroups_lookup_raw_response :: "bytes list \<Rightarrow> u64 \<Rightarrow> bytes \<Rightarrow> (usize \<times> bytes) result" where
  "encode_cgroups_lookup_raw_response items generation buf =
     encode_raw_response buf CGROUPS_LOOKUP_RESP_HDR_SIZE generation items CGROUPS_LOOKUP_ITEM_HDR_SIZE
       validate_cgroups_lookup_raw_item"

definition cgroups_lookup_item_label :: "cgroups_lookup_item_view \<Rightarrow> u32 \<Rightarrow> lookup_label_view result" where
  "cgroups_lookup_item_label v idx =
     label_at (cli_item v) CGROUPS_LOOKUP_ITEM_HDR_SIZE (cli_label_count v) (cli_label_table_offset v) idx"

section \<open>Response builder\<close>

record cgroups_lookup_builder =
  clb_buf :: bytes
  clb_generation :: u64
  clb_item_count :: u32
  clb_max_items :: u32
  clb_data_offset :: usize
  clb_error :: "nipc_error option"
  clb_payload_exceeded_suffix :: bool
  clb_payload_exceeded_suffix_bytes :: "u32 list"

type_synonym clb_outcome = "(nipc_error \<times> cgroups_lookup_builder, cgroups_lookup_builder) outcome"

type_synonym clb_outcome_bytes = "(nipc_error \<times> cgroups_lookup_builder, bytes) outcome"

definition cgroups_lookup_builder_new :: "bytes \<Rightarrow> u32 \<Rightarrow> u64 \<Rightarrow> cgroups_lookup_builder result" where
  "cgroups_lookup_builder_new buf max_items generation =
     (case Option.bind (checked_mul (unat max_items) LOOKUP_DIR_ENTRY_SIZE)
             (\<lambda>v. checked_add CGROUPS_LOOKUP_RESP_HDR_SIZE v) of
        None \<Rightarrow> Panic
      | Some data_offset \<Rightarrow>
          if \<not> length buf \<ge> data_offset then Panic
          else Ok \<lparr>clb_buf = buf, clb_generation = generation, clb_item_count = 0, clb_max_items = max_items,
                   clb_data_offset = data_offset, clb_error = None, clb_payload_exceeded_suffix = False,
                   clb_payload_exceeded_suffix_bytes = []\<rparr>)"

definition clb_set_generation :: "u64 \<Rightarrow> cgroups_lookup_builder \<Rightarrow> cgroups_lookup_builder" where
  "clb_set_generation generation b = b\<lparr>clb_generation := generation\<rparr>"

definition clb_set_payload_exceeded_item_lens ::
  "usize list \<Rightarrow> cgroups_lookup_builder \<Rightarrow> cgroups_lookup_builder result" where
  "clb_set_payload_exceeded_item_lens item_lens b =
     (case payload_exceeded_suffix_bytes_from_lens item_lens of
        Ok suffix_bytes \<Rightarrow> Ok (b\<lparr>clb_payload_exceeded_suffix_bytes := suffix_bytes\<rparr>)
      | Err err \<Rightarrow> Ok (b\<lparr>clb_error := Some err\<rparr>)
      | Panic \<Rightarrow> Panic)"

definition clb_fail :: "nipc_error \<Rightarrow> cgroups_lookup_builder \<Rightarrow> clb_outcome" where
  "clb_fail err b = Err (err, b\<lparr>clb_error := Some err\<rparr>)"

definition write_cgroups_item_header ::
  "bytes \<Rightarrow> u16 \<Rightarrow> u16 \<Rightarrow> usize \<Rightarrow> usize \<Rightarrow> usize \<Rightarrow> usize \<Rightarrow> u16 \<Rightarrow> (nipc_error \<times> bytes, bytes) outcome" where
  "write_cgroups_item_header item status orchestrator path_off path_len name_off name_len label_count =
     rbind (put_u16 item 0 1) (\<lambda>item.
     rbind (put_u16 item 2 status) (\<lambda>item.
     rbind (put_u16 item 4 orchestrator) (\<lambda>item.
     rbind (put_u16 item 6 0) (\<lambda>item.
     rbind (fail_with item (checked_u32 path_off)) (\<lambda>w. rbind (put_u32 item 8 w) (\<lambda>item.
     rbind (fail_with item (checked_u32 path_len)) (\<lambda>w. rbind (put_u32 item 12 w) (\<lambda>item.
     rbind (fail_with item (checked_u32 name_off)) (\<lambda>w. rbind (put_u32 item 16 w) (\<lambda>item.
     rbind (fail_with item (checked_u32 name_len)) (\<lambda>w. rbind (put_u32 item 20 w) (\<lambda>item.
     rbind (put_u16 item 24 label_count) (\<lambda>item.
     put_u16 item 26 0)))))))))))))"

definition clb_add_non_known_item :: "u16 \<Rightarrow> bytes \<Rightarrow> cgroups_lookup_builder \<Rightarrow> clb_outcome" where
  "clb_add_non_known_item status path b =
     (if clb_item_count b \<ge> clb_max_items b then clb_fail Overflow b
      else
        let item_start = align8 (clb_data_offset b) in
        case Option.bind (checked_add CGROUPS_LOOKUP_ITEM_HDR_SIZE (length path)) (\<lambda>v. checked_add v 1) of
          None \<Rightarrow> clb_fail Overflow b
        | Some name_offset \<Rightarrow>
        (case checked_add name_offset 1 of
          None \<Rightarrow> clb_fail Overflow b
        | Some item_size \<Rightarrow>
        (case checked_add item_start item_size of
          None \<Rightarrow> clb_fail Overflow b
        | Some item_end \<Rightarrow>
            if item_end > length (clb_buf b) then clb_fail Overflow b
            else
              rbind (if item_start > clb_data_offset b
                     then fill (clb_buf b) (clb_data_offset b) item_start 0 else Ok (clb_buf b)) (\<lambda>buf.
              rbind (slice_rng buf item_start item_end) (\<lambda>item.
              case write_cgroups_item_header item status 0 CGROUPS_LOOKUP_ITEM_HDR_SIZE (length path)
                     name_offset 0 0 of
                Panic \<Rightarrow> Panic
              | Err (err, item) \<Rightarrow> clb_fail err (b\<lparr>clb_buf := upd buf item_start item\<rparr>)
              | Ok item \<Rightarrow>
                  rbind (copy_from_slice item CGROUPS_LOOKUP_ITEM_HDR_SIZE
                           (CGROUPS_LOOKUP_ITEM_HDR_SIZE + length path) path) (\<lambda>item.
                  rbind (index_set item (CGROUPS_LOOKUP_ITEM_HDR_SIZE + length path) 0) (\<lambda>item.
                  rbind (index_set item name_offset 0) (\<lambda>item.
                  let buf = upd buf item_start item; b = b\<lparr>clb_buf := buf\<rparr> in
                  case checked_mul (unat (clb_item_count b)) LOOKUP_DIR_ENTRY_SIZE of
                    None \<Rightarrow> clb_fail Overflow b
                  | Some dir_offset \<Rightarrow>
                  (case checked_add CGROUPS_LOOKUP_RESP_HDR_SIZE dir_offset of
                    None \<Rightarrow> clb_fail Overflow b
                  | Some dir \<Rightarrow>
                  (case checked_u32 item_start of
                    Panic \<Rightarrow> Panic
                  | Err err \<Rightarrow> clb_fail err b
                  | Ok item_start_u32 \<Rightarrow>
                  (case checked_u32 item_size of
                    Panic \<Rightarrow> Panic
                  | Err err \<Rightarrow> clb_fail err b
                  | Ok item_size_u32 \<Rightarrow>
                      rbind (put_u32 buf dir item_start_u32) (\<lambda>buf.
                      rbind (put_u32 buf (dir + 4) item_size_u32) (\<lambda>buf.
                      Ok (b\<lparr>clb_buf := buf, clb_data_offset := item_end,
                            clb_item_count := clb_item_count b + 1, clb_error := None\<rparr>))))))))))))))"

definition clb_note_item_overflow :: "bytes \<Rightarrow> cgroups_lookup_builder \<Rightarrow> clb_outcome" where
  "clb_note_item_overflow path b =
     (if clb_item_count b = 0 then clb_add_non_known_item CGROUP_LOOKUP_OVERSIZED_ITEM path b
      else clb_add_non_known_item CGROUP_LOOKUP_PAYLOAD_EXCEEDED path (b\<lparr>clb_payload_exceeded_suffix := True\<rparr>))"

text \<open>The part of \<open>add_with_path\<close> that writes a KNOWN item once its size is settled.\<close>

definition clb_write_known_item ::
  "u16 \<Rightarrow> u16 \<Rightarrow> bytes \<Rightarrow> bytes \<Rightarrow> label list \<Rightarrow> u16 \<Rightarrow> usize \<Rightarrow> usize \<Rightarrow> usize \<Rightarrow> usize \<Rightarrow> usize \<Rightarrow> usize \<Rightarrow> usize \<Rightarrow>
   cgroups_lookup_builder \<Rightarrow> clb_outcome" where
  "clb_write_known_item status orchestrator path name labels label_count item_start item_end name_offset
     fixed_end table_start table_bytes item_size b =
     (let path_offset = CGROUPS_LOOKUP_ITEM_HDR_SIZE in
      rbind (if item_start > clb_data_offset b
             then fill (clb_buf b) (clb_data_offset b) item_start 0 else Ok (clb_buf b)) (\<lambda>buf.
      rbind (slice_rng buf item_start item_end) (\<lambda>item.
      case write_cgroups_item_header item status orchestrator path_offset (length path) name_offset
             (length name) label_count of
        Panic \<Rightarrow> Panic
      | Err (err, item) \<Rightarrow> clb_fail err (b\<lparr>clb_buf := upd buf item_start item\<rparr>)
      | Ok item \<Rightarrow>
          rbind (copy_from_slice item path_offset (path_offset + length path) path) (\<lambda>item.
          rbind (index_set item (path_offset + length path) 0) (\<lambda>item.
          rbind (copy_from_slice item name_offset (name_offset + length name) name) (\<lambda>item.
          rbind (index_set item (name_offset + length name) 0) (\<lambda>item.
          rbind (if labels \<noteq> []
                 then rbind (fill item fixed_end table_start 0) (\<lambda>item.
                      map_err (\<lambda>(err, item). (err, b\<lparr>clb_buf := upd buf item_start item\<rparr>))
                        (write_lookup_labels item table_start table_bytes labels))
                 else Ok (item_size, item)) (\<lambda>(item_size, item).
          let buf = upd buf item_start item; b = b\<lparr>clb_buf := buf\<rparr> in
          rbind (fail_with b (ok_or (checked_mul (unat (clb_item_count b)) LOOKUP_DIR_ENTRY_SIZE) Overflow)) (\<lambda>dir_offset.
          rbind (fail_with b (ok_or (checked_add CGROUPS_LOOKUP_RESP_HDR_SIZE dir_offset) Overflow)) (\<lambda>dir.
          rbind (fail_with b (checked_u32 item_start)) (\<lambda>w. rbind (put_u32 buf dir w) (\<lambda>buf.
          rbind (fail_with (b\<lparr>clb_buf := buf\<rparr>) (checked_u32 item_size)) (\<lambda>w. rbind (put_u32 buf (dir + 4) w) (\<lambda>buf.
          Ok (b\<lparr>clb_buf := buf, clb_data_offset := item_end, clb_item_count := clb_item_count b + 1,
                clb_error := None\<rparr>)))))))))))))))"

definition clb_add_with_path ::
  "u16 \<Rightarrow> u16 \<Rightarrow> bytes \<Rightarrow> bytes \<Rightarrow> label list \<Rightarrow> bool \<Rightarrow> cgroups_lookup_builder \<Rightarrow> clb_outcome" where
  "clb_add_with_path status orchestrator path name labels path_validated b =
     (if clb_payload_exceeded_suffix b then clb_add_non_known_item CGROUP_LOOKUP_PAYLOAD_EXCEEDED path b
      else if clb_item_count b \<ge> clb_max_items b then clb_fail Overflow b
      else
        case validate_cgroups_lookup_semantics status orchestrator (length path) (length name) (length labels) of
          Panic \<Rightarrow> Panic
        | Err err \<Rightarrow> clb_fail err b
        | Ok _ \<Rightarrow>
        if (\<not> path_validated \<and> source_string_invalid path True) \<or> source_string_invalid name False
        then clb_fail BadLayout b
        else if status \<noteq> CGROUP_LOOKUP_KNOWN then
          (case clb_add_non_known_item status path b of
             Err (Overflow, b) \<Rightarrow> clb_note_item_overflow path b
           | other \<Rightarrow> other)
        else
        (case checked_u16 (length labels) of
           Panic \<Rightarrow> Panic
         | Err err \<Rightarrow> if err = Overflow then clb_note_item_overflow path b else clb_fail err b
         | Ok label_count \<Rightarrow>
         let item_start = align8 (clb_data_offset b); path_offset = CGROUPS_LOOKUP_ITEM_HDR_SIZE in
         (case Option.bind (checked_add path_offset (length path)) (\<lambda>v. checked_add v 1) of
            None \<Rightarrow> clb_note_item_overflow path b
          | Some name_offset \<Rightarrow>
         (case Option.bind (checked_add name_offset (length name)) (\<lambda>v. checked_add v 1) of
            None \<Rightarrow> clb_note_item_overflow path b
          | Some fixed_end \<Rightarrow>
         (case label_layout fixed_end labels of
            Panic \<Rightarrow> Panic
          | Err err \<Rightarrow> if err = Overflow then clb_note_item_overflow path b else clb_fail err b
          | Ok (table_start, table_bytes, item_size) \<Rightarrow>
         (case checked_add item_start item_size of
            None \<Rightarrow> clb_note_item_overflow path b
          | Some item_end \<Rightarrow>
             if \<not> item_end \<le> length (clb_buf b) then clb_note_item_overflow path b
             else
               rbind (payload_exceeded_suffix_fits (length (clb_buf b)) item_end
                        (clb_payload_exceeded_suffix_bytes b) (clb_item_count b + 1) (clb_max_items b)) (\<lambda>fits.
               if \<not> fits then clb_note_item_overflow path b
               else clb_write_known_item status orchestrator path name labels label_count item_start item_end
                      name_offset fixed_end table_start table_bytes item_size b)))))))"

definition clb_add ::
  "u16 \<Rightarrow> u16 \<Rightarrow> bytes \<Rightarrow> bytes \<Rightarrow> label list \<Rightarrow> cgroups_lookup_builder \<Rightarrow> clb_outcome" where
  "clb_add status orchestrator path name labels b =
     clb_add_with_path status orchestrator path name labels False b"

definition clb_add_request_item ::
  "cgroups_lookup_request_view \<Rightarrow> u32 \<Rightarrow> u16 \<Rightarrow> u16 \<Rightarrow> bytes \<Rightarrow> label list \<Rightarrow> cgroups_lookup_builder \<Rightarrow> clb_outcome" where
  "clb_add_request_item request idx status orchestrator name labels b =
     rbind (fail_with b (cgroups_lookup_request_item request idx)) (\<lambda>path.
     rbind (str_view_as_bytes path) (\<lambda>path.
     clb_add_with_path status orchestrator path name labels True b))"

definition clb_finish :: "cgroups_lookup_builder \<Rightarrow> (usize \<times> bytes) result" where
  "clb_finish b = finish_lookup_response (clb_buf b) CGROUPS_LOOKUP_RESP_HDR_SIZE (clb_item_count b)
     (clb_data_offset b) (clb_generation b)"

section \<open>Dispatch\<close>

fun payload_exceeded_lens :: "cgroups_lookup_request_view \<Rightarrow> nat \<Rightarrow> nat \<Rightarrow> usize list result" where
  "payload_exceeded_lens request i 0 = Ok []"
| "payload_exceeded_lens request i (Suc left) =
     rbind (payload_exceeded_item_len request (word_of_nat i)) (\<lambda>l.
     rbind (payload_exceeded_lens request (i + 1) left) (\<lambda>ls. Ok (l # ls)))"

definition clb_prepare :: "cgroups_lookup_request_view \<Rightarrow> cgroups_lookup_builder \<Rightarrow> cgroups_lookup_builder result" where
  "clb_prepare request builder =
     (if clq_item_count request > 0 then
        rbind (ok_or (checked_add (unat (clq_item_count request)) 1) Overflow) (\<lambda>_.
        rbind (payload_exceeded_lens request 0 (unat (clq_item_count request))) (\<lambda>lens.
        rbind (clb_set_payload_exceeded_item_lens lens builder) (\<lambda>builder.
        case clb_error builder of Some err \<Rightarrow> Err err | None \<Rightarrow> Ok builder)))
      else Ok builder)"

definition dispatch_cgroups_lookup ::
  "bytes \<Rightarrow> bytes \<Rightarrow> (cgroups_lookup_request_view \<Rightarrow> cgroups_lookup_builder \<Rightarrow> bool \<times> cgroups_lookup_builder) \<Rightarrow>
   (usize \<times> bytes) result" where
  "dispatch_cgroups_lookup req resp handler =
     rbind (cgroups_lookup_request_decode req) (\<lambda>request.
     rbind (map_err (\<lambda>_. Overflow) (lookup_data_offset CGROUPS_LOOKUP_RESP_HDR_SIZE (clq_item_count request))) (\<lambda>min_required.
     if length resp < min_required then Err Overflow
     else
       rbind (cgroups_lookup_builder_new resp (clq_item_count request) 0) (\<lambda>builder.
       rbind (clb_prepare request builder) (\<lambda>builder.
       case handler request builder of (ok, builder) \<Rightarrow>
         if \<not> ok then Err (case clb_error builder of Some err \<Rightarrow> err | None \<Rightarrow> HandlerFailed)
         else
           case clb_error builder of
             Some err \<Rightarrow> Err err
           | None \<Rightarrow>
               if clb_item_count builder \<noteq> clq_item_count request then Err BadItemCount
               else clb_finish builder))))"


section \<open>Items on the wire\<close>

record cl_entry =
  ce_status :: u16
  ce_orchestrator :: u16
  ce_path :: bytes
  ce_name :: bytes
  ce_labels :: "label list"

definition cl_header :: "u16 \<Rightarrow> u16 \<Rightarrow> nat \<Rightarrow> nat \<Rightarrow> nat \<Rightarrow> bytes" where
  "cl_header status orchestrator path_len name_len label_count =
     u16_to_ne 1 @ u16_to_ne status @ u16_to_ne orchestrator @ u16_to_ne 0 @
     u32_to_ne 28 @ u32_to_ne (word_of_nat path_len) @
     u32_to_ne (word_of_nat (29 + path_len)) @ u32_to_ne (word_of_nat name_len) @
     u16_to_ne (word_of_nat label_count) @ u16_to_ne 0"

definition cl_fixed :: "cl_entry \<Rightarrow> bytes" where
  "cl_fixed e = cl_header (ce_status e) (ce_orchestrator e) (length (ce_path e)) (length (ce_name e))
     (length (ce_labels e)) @ ce_path e @ [0] @ ce_name e @ [0]"

definition cl_wire :: "cl_entry \<Rightarrow> bytes" where
  "cl_wire e = cl_fixed e @ label_block (length (cl_fixed e)) (ce_labels e)"

definition cl_entry_ok :: "cl_entry \<Rightarrow> bool" where
  "cl_entry_ok e \<longleftrightarrow>
     validate_cgroups_lookup_semantics (ce_status e) (ce_orchestrator e) (length (ce_path e)) (length (ce_name e))
       (length (ce_labels e)) = Ok () \<and>
     0 \<notin> set (ce_path e) \<and> 0 \<notin> set (ce_name e) \<and> labels_valid (ce_labels e) \<and>
     length (ce_labels e) < 2 ^ 16 \<and> length (cl_wire e) < 2 ^ 32"

definition cl_view :: "cl_entry \<Rightarrow> cgroups_lookup_item_view" where
  "cl_view e = \<lparr>cli_status = ce_status e, cli_orchestrator = ce_orchestrator e,
     cli_path = \<lparr>sv_bytes = ce_path e @ [0], sv_len = word_of_nat (length (ce_path e))\<rparr>,
     cli_name = \<lparr>sv_bytes = ce_name e @ [0], sv_len = word_of_nat (length (ce_name e))\<rparr>,
     cli_label_count = word_of_nat (length (ce_labels e)), cli_item = cl_wire e,
     cli_label_table_offset = (if ce_labels e = [] then length (cl_fixed e) else al8 (length (cl_fixed e)))\<rparr>"

lemma length_cl_header [simp]: "length (cl_header s orch p n c) = 28"
  by (simp add: cl_header_def)

lemma length_cl_fixed [simp]: "length (cl_fixed e) = 30 + length (ce_path e) + length (ce_name e)"
  by (simp add: cl_fixed_def)

lemma length_cl_wire: "length (cl_wire e) =
    30 + length (ce_path e) + length (ce_name e) + length (label_block (length (cl_fixed e)) (ce_labels e))"
  by (simp add: cl_wire_def)

lemma cl_wire_reads:
  assumes "item = cl_wire e"
  shows "rd16 item 0 = 1" "rd16 item 2 = ce_status e" "rd16 item 4 = ce_orchestrator e" "rd16 item 6 = 0"
    "rd32 item 8 = 28" "rd32 item 12 = word_of_nat (length (ce_path e))"
    "rd32 item 16 = word_of_nat (29 + length (ce_path e))" "rd32 item 20 = word_of_nat (length (ce_name e))"
    "rd16 item 24 = word_of_nat (length (ce_labels e))" "rd16 item 26 = 0"
  unfolding assms cl_wire_def cl_fixed_def cl_header_def append_assoc
  by (simp_all add: wire_reads del: of_nat_add)

lemma cl_wire_strings:
  assumes "item = cl_wire e"
  shows "sub item 28 (length (ce_path e) + 1) = ce_path e @ [0]"
    "sub item (29 + length (ce_path e)) (length (ce_name e) + 1) = ce_name e @ [0]"
proof -
  let ?h = "cl_header (ce_status e) (ce_orchestrator e) (length (ce_path e)) (length (ce_name e)) (length (ce_labels e))"
  have i: "item = ?h @ (ce_path e @ [0]) @ (ce_name e @ [0]) @ label_block (length (cl_fixed e)) (ce_labels e)"
    using assms by (simp add: cl_wire_def cl_fixed_def)
  have "sub (?h @ (ce_path e @ [0]) @ r) 28 (length (ce_path e) + 1) = ce_path e @ [0]" for r
    by (simp add: append_windows sub_def)
  then show "sub item 28 (length (ce_path e) + 1) = ce_path e @ [0]" unfolding i .
  have "sub (?h @ (ce_path e @ [0]) @ (ce_name e @ [0]) @ r) (29 + length (ce_path e)) (length (ce_name e) + 1) =
      ce_name e @ [0]" for r
    by (simp add: append_windows sub_def)
  then show "sub item (29 + length (ce_path e)) (length (ce_name e) + 1) = ce_name e @ [0]" unfolding i .
qed

lemma decode_cgroups_item_wire:
  assumes "cl_entry_ok e"
  shows "decode_cgroups_item (cl_wire e) = Ok (cl_view e)"
proof -
  let ?i = "cl_wire e" and ?p = "length (ce_path e)" and ?n = "length (ce_name e)"
  note ok = assms [unfolded cl_entry_ok_def]
  have l: "length ?i < 2 ^ 32" using ok by simp
  have ge: "30 + ?p + ?n \<le> length ?i" by (simp add: length_cl_wire)
  have u: "unat (word_of_nat ?p :: u32) = ?p" "unat (word_of_nat ?n :: u32) = ?n"
      "unat (word_of_nat (29 + ?p) :: u32) = 29 + ?p" "unat (28 :: u32) = 28"
      "unat (word_of_nat (length (ce_labels e)) :: u16) = length (ce_labels e)"
    using l ge ok by (simp_all del: of_nat_add)
  have at: "u16_at ?i k = Ok (rd16 ?i k)" if "k \<le> 26" for k using ge that by simp
  have at4: "u32_at ?i k = Ok (rd32 ?i k)" if "k \<le> 24" for k using ge that by simp
  have s: "lookup_string ?i 28 28 ?p = Ok (\<lparr>sv_bytes = ce_path e @ [0], sv_len = word_of_nat ?p\<rparr>, 28 + ?p + 1)"
      "lookup_string ?i 28 (29 + ?p) ?n = Ok (\<lparr>sv_bytes = ce_name e @ [0], sv_len = word_of_nat ?n\<rparr>, 29 + ?p + ?n + 1)"
    using ok ge l cl_wire_strings [OF refl, of e] by (intro lookup_string_wire; simp add: USIZE_MAX_def)+
  define ts where "ts = (if ce_labels e = [] then length (cl_fixed e) else al8 (length (cl_fixed e)))"
  have fx: "30 + (?p + ?n) = length (cl_fixed e)" by simp
  have lb: "validate_labels ?i 28 (word_of_nat (length (ce_labels e))) (30 + (?p + ?n)) = Ok ts"
    unfolding fx ts_def using ok by (intro validate_labels_wire cl_wire_def) simp_all
  have ov: "\<not> overlap 28 (28 + ?p + 1) (29 + ?p) (29 + ?p + ?n + 1)" by (simp add: overlap_def)
  have sem: "validate_cgroups_lookup_semantics (ce_status e) (ce_orchestrator e) ?p ?n (length (ce_labels e)) = Ok ()"
    using ok by simp
  show ?thesis
    unfolding decode_cgroups_item_def cl_sizes
    using ge ov
    by (simp add: at at4 cl_wire_reads [OF refl] u s lb sem cl_view_def ts_def [symmetric] del: length_cl_fixed of_nat_add)
qed

lemma cl_view_label:
  assumes "cl_entry_ok e" "j < length (ce_labels e)"
  shows "cgroups_lookup_item_label (cl_view e) (word_of_nat j) = Ok (label_view (ce_labels e ! j))"
  using assms label_at_wire [of "cl_wire e" "cl_fixed e" "ce_labels e" 28 j]
  by (auto simp: cgroups_lookup_item_label_def cl_view_def cl_sizes cl_entry_ok_def cl_wire_def)


section \<open>The builder keeps a packed area of items\<close>

definition cl_degraded :: "u16 \<Rightarrow> bytes \<Rightarrow> cl_entry" where
  "cl_degraded status path =
     \<lparr>ce_status = status, ce_orchestrator = 0, ce_path = path, ce_name = [], ce_labels = []\<rparr>"

definition clb_state :: "nat \<Rightarrow> cgroups_lookup_builder \<Rightarrow> cl_entry list \<Rightarrow> bool" where
  "clb_state cap b es \<longleftrightarrow>
     lookup_state cap (clb_buf b) (clb_max_items b) (clb_data_offset b) (clb_item_count b) (map cl_wire es)"

text \<open>What an operation leaves alone: everything but the buffer, the position, the count and the error.\<close>

definition clb_frame :: "cgroups_lookup_builder \<Rightarrow> cgroups_lookup_builder \<Rightarrow> bool" where
  "clb_frame b b' \<longleftrightarrow> clb_generation b' = clb_generation b \<and> clb_max_items b' = clb_max_items b \<and>
     clb_payload_exceeded_suffix b' = clb_payload_exceeded_suffix b \<and>
     clb_payload_exceeded_suffix_bytes b' = clb_payload_exceeded_suffix_bytes b"

lemma clb_state_facts:
  assumes "clb_state cap b es"
  shows "unat (clb_item_count b) = length es" "clb_data_offset b \<le> cap" "length es \<le> unat (clb_max_items b)"
    "clb_item_count b \<ge> clb_max_items b \<longleftrightarrow> length es = unat (clb_max_items b)"
    "align8 (clb_data_offset b) = al8 (clb_data_offset b)" "length (clb_buf b) = cap" "cap < 2 ^ 32"
    "length es < unat (clb_max_items b) \<Longrightarrow> unat (clb_item_count b + 1) = length es + 1"
  using lookup_state_facts [OF assms [unfolded clb_state_def]] by simp_all

lemma write_cgroups_item_header_ok:
  assumes "28 \<le> length item" "29 + p < 2 ^ 32" "n < 2 ^ 32"
  shows "write_cgroups_item_header item status orch 28 p (29 + p) n (word_of_nat c) =
     Ok (upd item 0 (cl_header status orch p n c))"
  using assms
  by (simp add: write_cgroups_item_header_def cl_header_def upd_upd_append del: of_nat_add)

lemma clb_add_non_known_item_ok:
  assumes st: "clb_state cap b es" and n: "length es < unat (clb_max_items b)"
    and fit: "al8 (clb_data_offset b) + (30 + length path) \<le> cap"
  shows "\<exists>b'. clb_add_non_known_item status path b = Ok b' \<and> clb_state cap b' (es @ [cl_degraded status path]) \<and>
     clb_frame b b' \<and> clb_error b' = None \<and> clb_data_offset b' = al8 (clb_data_offset b) + (30 + length path)"
proof -
  let ?e = "cl_degraded status path" and ?o = "al8 (clb_data_offset b)"
  let ?hdr = "cl_header status 0 (length path) 0 0"
  have w: "cl_wire ?e = ?hdr @ path @ [0] @ [0]"
    by (simp add: cl_wire_def cl_fixed_def cl_degraded_def label_block_def)
  have wl: "length (cl_wire ?e) = 30 + length path" by (simp add: w)
  note ls = st [unfolded clb_state_def]
  define buf1 where "buf1 = upd (clb_buf b) (clb_data_offset b) (replicate (?o - clb_data_offset b) 0)"
  define buf2 where "buf2 = upd buf1 ?o (cl_wire ?e)"
  define buf3 where "buf3 = upd (upd buf2 (16 + length (map cl_wire es) * 8) (u32_to_ne (word_of_nat ?o)))
      (16 + length (map cl_wire es) * 8 + 4) (u32_to_ne (word_of_nat (length (cl_wire ?e))))"
  note f = clb_state_facts [OF st]
  note pl = lookup_state_place [OF ls _ _ buf1_def buf2_def buf3_def, unfolded length_map wl, OF n fit]
  have nc: "\<not> clb_max_items b \<le> clb_item_count b" using f(4) n by simp
  have c: "Option.bind (checked_add 28 (length path)) (\<lambda>v. checked_add v 1) = Some (29 + length path)"
      "checked_add (29 + length path) 1 = Some (30 + length path)" "checked_add ?o (30 + length path) = Some (?o + (30 + length path))"
    using fit f(7) by (simp_all add: checked_ok USIZE_MAX_def)
  have wr: "write_cgroups_item_header (sub buf1 ?o (30 + length path)) status 0 28 (length path) (29 + length path) 0 0 =
      Ok (upd (sub buf1 ?o (30 + length path)) 0 ?hdr)"
    using write_cgroups_item_header_ok [of "sub buf1 ?o (30 + length path)" "length path" 0 status 0 0] pl(4) fit f(7) by simp
  let ?item = "sub buf1 ?o (30 + length path)"
  have it: "(copy_from_slice (upd ?item 0 ?hdr) 28 (28 + length path) path :: clb_outcome_bytes) = Ok (upd ?item 0 (?hdr @ path))"
      "(index_set (upd ?item 0 (?hdr @ path)) (28 + length path) 0 :: clb_outcome_bytes) = Ok (upd ?item 0 (?hdr @ path @ [0]))"
      "(index_set (upd ?item 0 (?hdr @ path @ [0])) (29 + length path) 0 :: clb_outcome_bytes) = Ok (cl_wire ?e)"
    using pl(4) by (simp_all add: copy_from_slice_ok index_set_ok upd_upd_append w del: length_sub)
  have fits: "\<not> ?o + (30 + length path) > length (clb_buf b)" using fit f(6) by simp
  let ?b = "b\<lparr>clb_buf := buf3, clb_data_offset := ?o + (30 + length path),
      clb_item_count := clb_item_count b + 1, clb_error := None\<rparr>"
  have "clb_add_non_known_item status path b = Ok ?b"
    unfolding clb_add_non_known_item_def cl_sizes Let_def if_not_P [OF nc] f(5) pl(1) c option.case if_not_P [OF fits]
      rbind.simps pl(3) wr outcome.case it
    by (simp add: pl(8-11) f(1) buf2_def [symmetric] pl(5,6) del: of_nat_add)
  moreover have "clb_state cap ?b (es @ [?e])" using pl(7) by (simp add: clb_state_def)
  ultimately show ?thesis by (simp add: clb_frame_def)
qed

lemma clb_add_non_known_item_full:
  assumes st: "clb_state cap b es"
    and "\<not> (length es < unat (clb_max_items b) \<and> al8 (clb_data_offset b) + (30 + length path) \<le> cap)"
  shows "clb_add_non_known_item status path b = clb_fail Overflow b"
proof (cases "clb_item_count b \<ge> clb_max_items b")
  case True
  then show ?thesis by (simp add: clb_add_non_known_item_def)
next
  case False
  have l: "length (clb_buf b) = cap" "cap < 2 ^ 32" and o: "align8 (clb_data_offset b) = al8 (clb_data_offset b)"
    using clb_state_facts [OF st] by simp_all
  have "cap < al8 (clb_data_offset b) + (30 + length path)"
    using assms(2) False clb_state_facts(3,4) [OF st] by auto
  then show ?thesis
    using False o l by (auto simp: clb_add_non_known_item_def cl_sizes Let_def checked_add_def)
qed


text \<open>Writing a KNOWN item of settled size.\<close>

lemma clb_known_item:
  assumes il: "length item = length (cl_wire e)" and l: "length item < 2 ^ 32"
    and hdr: "hdr = cl_header (ce_status e) (ce_orchestrator e) (length (ce_path e)) (length (ce_name e)) (length (ce_labels e))"
    and fe: "fixed_end = 30 + length (ce_path e) + length (ce_name e)"
    and ts: "ce_labels e \<noteq> [] \<longrightarrow> table_start = al8 fixed_end" and sz: "sz = length (cl_wire e)"
  shows "rbind (copy_from_slice (upd item 0 hdr) 28 (28 + length (ce_path e)) (ce_path e)) (\<lambda>item.
     rbind (index_set item (28 + length (ce_path e)) 0) (\<lambda>item.
     rbind (copy_from_slice item (29 + length (ce_path e)) (29 + length (ce_path e) + length (ce_name e)) (ce_name e)) (\<lambda>item.
     rbind (index_set item (29 + length (ce_path e) + length (ce_name e)) 0) (\<lambda>item.
     rbind (if ce_labels e \<noteq> []
            then rbind (fill item fixed_end table_start 0) (\<lambda>item.
                 map_err g (write_lookup_labels item table_start (length (ce_labels e) * 16) (ce_labels e)))
            else Ok (sz, item)) k)))) =
     (k (length (cl_wire e), cl_wire e) :: ('e, 'r) outcome)"
proof -
  let ?p = "ce_path e" and ?n = "ce_name e" and ?ls = "ce_labels e"
  have ge: "30 + length ?p + length ?n \<le> length item" using il by (simp add: length_cl_wire)
  have 1: "(copy_from_slice (upd item 0 hdr) 28 (28 + length ?p) ?p :: ('e, _) outcome) = Ok (upd item 0 (hdr @ ?p))"
      "(index_set (upd item 0 (hdr @ ?p)) (28 + length ?p) 0 :: ('e, _) outcome) = Ok (upd item 0 (hdr @ ?p @ [0]))"
      "(copy_from_slice (upd item 0 (hdr @ ?p @ [0])) (29 + length ?p) (29 + length ?p + length ?n) ?n :: ('e, _) outcome) =
         Ok (upd item 0 (hdr @ ?p @ 0 # ?n))"
      "(index_set (upd item 0 (hdr @ ?p @ 0 # ?n)) (29 + length ?p + length ?n) 0 :: ('e, _) outcome) = Ok (upd item 0 (cl_fixed e))"
    using ge by (simp_all add: hdr copy_from_slice_ok index_set_ok upd_upd_append cl_fixed_def)
  have fl: "length (cl_fixed e) = fixed_end" using fe by simp
  note lb = write_label_block [of item "cl_fixed e" ?ls table_start sz g k, folded cl_wire_def, unfolded fl, OF il l ts]
  show ?thesis unfolding 1 rbind.simps using lb il sz by simp
qed

lemma clb_write_known_item_ok:
  assumes st: "clb_state cap b es" and n: "length es < unat (clb_max_items b)"
    and fit: "al8 (clb_data_offset b) + length (cl_wire e) \<le> cap"
    and fe: "fixed_end = 30 + length (ce_path e) + length (ce_name e)"
    and ts: "ce_labels e \<noteq> [] \<longrightarrow> table_start = al8 fixed_end"
    and sz: "item_size = length (cl_wire e)"
  shows "\<exists>b'. clb_write_known_item (ce_status e) (ce_orchestrator e) (ce_path e) (ce_name e) (ce_labels e)
       (word_of_nat (length (ce_labels e))) (al8 (clb_data_offset b)) (al8 (clb_data_offset b) + item_size)
       (29 + length (ce_path e)) fixed_end table_start (length (ce_labels e) * 16) item_size b = Ok b' \<and>
     clb_state cap b' (es @ [e]) \<and> clb_frame b b' \<and> clb_error b' = None \<and>
     clb_data_offset b' = al8 (clb_data_offset b) + length (cl_wire e)"
proof -
  let ?o = "al8 (clb_data_offset b)" and ?w = "cl_wire e"
  let ?hdr = "cl_header (ce_status e) (ce_orchestrator e) (length (ce_path e)) (length (ce_name e)) (length (ce_labels e))"
  note ls = st [unfolded clb_state_def]
  define buf1 where "buf1 = upd (clb_buf b) (clb_data_offset b) (replicate (?o - clb_data_offset b) 0)"
  define buf2 where "buf2 = upd buf1 ?o ?w"
  define buf3 where "buf3 = upd (upd buf2 (16 + length (map cl_wire es) * 8) (u32_to_ne (word_of_nat ?o)))
      (16 + length (map cl_wire es) * 8 + 4) (u32_to_ne (word_of_nat (length ?w)))"
  note f = clb_state_facts [OF st]
  note pl = lookup_state_place [OF ls _ _ buf1_def buf2_def buf3_def, unfolded length_map, OF n fit]
  let ?item = "sub buf1 ?o (length ?w)"
  have ge: "30 + length (ce_path e) + length (ce_name e) \<le> length ?w" by (simp add: length_cl_wire)
  have wr: "write_cgroups_item_header ?item (ce_status e) (ce_orchestrator e) 28 (length (ce_path e))
      (29 + length (ce_path e)) (length (ce_name e)) (word_of_nat (length (ce_labels e))) = Ok (upd ?item 0 ?hdr)"
    using ge pl(4) fit f(7) by (intro write_cgroups_item_header_ok) linarith+
  have lw: "length ?item < 2 ^ 32" using pl(4) fit f(7) by simp
  note kn = clb_known_item [OF pl(4) lw refl fe ts refl]
  let ?b = "b\<lparr>clb_buf := buf3, clb_data_offset := ?o + length ?w, clb_item_count := clb_item_count b + 1, clb_error := None\<rparr>"
  have "clb_write_known_item (ce_status e) (ce_orchestrator e) (ce_path e) (ce_name e) (ce_labels e)
       (word_of_nat (length (ce_labels e))) ?o (?o + item_size)
       (29 + length (ce_path e)) fixed_end table_start (length (ce_labels e) * 16) item_size b = Ok ?b"
    unfolding clb_write_known_item_def cl_sizes Let_def pl(1) rbind.simps sz pl(3) wr outcome.case kn
    by (simp add: pl(8-11) f(1) buf2_def [symmetric] pl(5,6))
  moreover have "clb_state cap ?b (es @ [e])" using pl(7) by (simp add: clb_state_def)
  ultimately show ?thesis by (simp add: clb_frame_def)
qed


section \<open>Outcomes of \<open>add\<close>\<close>

text \<open>
  \<open>clb_post\<close>: what every add leaves behind. On success one more item for the given path, which decodes;
  on failure the items as they were and the error recorded. \<open>clb_kept\<close>: the fields no add touches.
\<close>

definition clb_kept :: "cgroups_lookup_builder \<Rightarrow> cgroups_lookup_builder \<Rightarrow> bool" where
  "clb_kept b b' \<longleftrightarrow> clb_generation b' = clb_generation b \<and> clb_max_items b' = clb_max_items b \<and>
     clb_payload_exceeded_suffix_bytes b' = clb_payload_exceeded_suffix_bytes b"

fun clb_post :: "nat \<Rightarrow> cl_entry list \<Rightarrow> (cl_entry \<Rightarrow> bool) \<Rightarrow> cgroups_lookup_builder \<Rightarrow> clb_outcome \<Rightarrow> bool" where
  "clb_post cap es P b Panic = False"
| "clb_post cap es P b (Err (err, b')) = (clb_state cap b' es \<and> clb_error b' = Some err \<and> clb_kept b b')"
| "clb_post cap es P b (Ok b') =
     (\<exists>e. clb_state cap b' (es @ [e]) \<and> P e \<and> cl_entry_ok e \<and> clb_error b' = None \<and> clb_kept b b')"

lemma clb_frame_kept: "clb_frame b b' \<Longrightarrow> clb_kept b b'"
  by (simp add: clb_frame_def clb_kept_def)

lemma clb_kept_refl [simp]: "clb_kept b b" "clb_kept b (b\<lparr>clb_error := err\<rparr>)"
    "clb_kept b (b\<lparr>clb_payload_exceeded_suffix := flag\<rparr>)"
  by (simp_all add: clb_kept_def)

lemma clb_kept_trans: "clb_kept a b \<Longrightarrow> clb_kept b c \<Longrightarrow> clb_kept a c"
  by (simp add: clb_kept_def)

lemma clb_post_kept: "clb_post cap es P b' r \<Longrightarrow> clb_kept b b' \<Longrightarrow> clb_post cap es P b r"
  by (induction cap es P b' r rule: clb_post.induct) (auto intro: clb_kept_trans)

lemma clb_state_update [simp]:
  "clb_state cap (b\<lparr>clb_error := err\<rparr>) es = clb_state cap b es"
  "clb_state cap (b\<lparr>clb_payload_exceeded_suffix := flag\<rparr>) es = clb_state cap b es"
  "clb_state cap (b\<lparr>clb_generation := g\<rparr>) es = clb_state cap b es"
  "clb_state cap (b\<lparr>clb_payload_exceeded_suffix_bytes := ws\<rparr>) es = clb_state cap b es"
  by (simp_all add: clb_state_def)

lemma clb_post_fail: "clb_state cap b es \<Longrightarrow> clb_post cap es P b (clb_fail err b)"
  by (simp add: clb_fail_def)

definition cl_path_ok :: "bytes \<Rightarrow> bool" where
  "cl_path_ok path \<longleftrightarrow> path \<noteq> [] \<and> 0 \<notin> set path"

lemma cl_degraded_ok:
  "cl_path_ok path \<Longrightarrow> status \<in> {1, 2, 3, 4} \<Longrightarrow> 30 + length path < 2 ^ 32 \<Longrightarrow> cl_entry_ok (cl_degraded status path)"
  by (auto simp: cl_entry_ok_def cl_path_ok_def cl_degraded_def validate_cgroups_lookup_semantics_def
      cgroup_status_defs labels_valid_def length_cl_wire label_block_def)

lemma length_cl_degraded [simp]: "length (cl_wire (cl_degraded status path)) = 30 + length path"
  by (simp add: length_cl_wire cl_degraded_def label_block_def)

lemma clb_post_non_known:
  assumes st: "clb_state cap b es" and "cl_path_ok path" "status \<in> {1, 2, 3, 4}" "P (cl_degraded status path)"
  shows "clb_post cap es P b (clb_add_non_known_item status path b)"
proof (cases "length es < unat (clb_max_items b) \<and> al8 (clb_data_offset b) + (30 + length path) \<le> cap")
  case True
  then obtain b' where "clb_add_non_known_item status path b = Ok b'" "clb_state cap b' (es @ [cl_degraded status path])"
      "clb_frame b b'" "clb_error b' = None"
    using clb_add_non_known_item_ok [OF st, of path status] by auto
  moreover have "cl_entry_ok (cl_degraded status path)"
    using True clb_state_facts(7) [OF st] assms by (intro cl_degraded_ok) auto
  ultimately show ?thesis using assms by (auto intro!: exI [of _ "cl_degraded status path"] clb_frame_kept)
next
  case False
  then show ?thesis using st by (simp add: clb_add_non_known_item_full clb_post_fail)
qed

lemma clb_post_note:
  assumes st: "clb_state cap b es" and "cl_path_ok path"
    and "P (cl_degraded CGROUP_LOOKUP_OVERSIZED_ITEM path)" "P (cl_degraded CGROUP_LOOKUP_PAYLOAD_EXCEEDED path)"
  shows "clb_post cap es P b (clb_note_item_overflow path b)"
proof -
  have "clb_post cap es P (b\<lparr>clb_payload_exceeded_suffix := True\<rparr>)
      (clb_add_non_known_item CGROUP_LOOKUP_PAYLOAD_EXCEEDED path (b\<lparr>clb_payload_exceeded_suffix := True\<rparr>))"
    using assms by (intro clb_post_non_known) (simp_all add: cgroup_status_defs)
  then have "clb_post cap es P b
      (clb_add_non_known_item CGROUP_LOOKUP_PAYLOAD_EXCEEDED path (b\<lparr>clb_payload_exceeded_suffix := True\<rparr>))"
    by (rule clb_post_kept) simp
  then show ?thesis
    using assms clb_post_non_known [OF st, of path CGROUP_LOOKUP_OVERSIZED_ITEM P]
    by (simp add: clb_note_item_overflow_def cgroup_status_defs)
qed

text \<open>What an answer for \<open>e\<close> may turn into.\<close>

definition cl_graceful :: "cl_entry \<Rightarrow> cl_entry \<Rightarrow> bool" where
  "cl_graceful e e' \<longleftrightarrow> e' = e \<or>
     e' = cl_degraded CGROUP_LOOKUP_OVERSIZED_ITEM (ce_path e) \<or> e' = cl_degraded CGROUP_LOOKUP_PAYLOAD_EXCEEDED (ce_path e)"

lemma cl_entry_degraded:
  assumes "validate_cgroups_lookup_semantics (ce_status e) (ce_orchestrator e) (length (ce_path e)) (length (ce_name e))
       (length (ce_labels e)) = Ok ()" "ce_status e \<noteq> CGROUP_LOOKUP_KNOWN"
  shows "e = cl_degraded (ce_status e) (ce_path e)" "ce_status e \<in> {1, 2, 3, 4}"
  using assms by (cases e; auto simp: validate_cgroups_lookup_semantics_def cl_degraded_def cgroup_status_defs split: if_splits)+

abbreviation clb_add_entry :: "cl_entry \<Rightarrow> bool \<Rightarrow> cgroups_lookup_builder \<Rightarrow> clb_outcome" where
  "clb_add_entry e pv b \<equiv>
     clb_add_with_path (ce_status e) (ce_orchestrator e) (ce_path e) (ce_name e) (ce_labels e) pv b"

lemma clb_post_known:
  assumes st: "clb_state cap b es" and n: "length es < unat (clb_max_items b)" and p: "cl_path_ok (ce_path e)"
    and small: "length (ce_path e) + length (ce_name e) < 2 ^ 63"
    and sem: "validate_cgroups_lookup_semantics (ce_status e) (ce_orchestrator e) (length (ce_path e)) (length (ce_name e))
       (length (ce_labels e)) = Ok ()"
    and name: "0 \<notin> set (ce_name e)" and lc: "length (ce_labels e) < 2 ^ 16"
    and lay: "label_layout (30 + length (ce_path e) + length (ce_name e)) (ce_labels e) = Ok (ts, tb, sz)"
    and fit: "al8 (clb_data_offset b) + sz \<le> cap"
  shows "\<exists>b'. clb_write_known_item (ce_status e) (ce_orchestrator e) (ce_path e) (ce_name e) (ce_labels e)
       (word_of_nat (length (ce_labels e))) (al8 (clb_data_offset b)) (al8 (clb_data_offset b) + sz)
       (29 + length (ce_path e)) (30 + length (ce_path e) + length (ce_name e)) ts tb sz b = Ok b' \<and>
     clb_state cap b' (es @ [e]) \<and> cl_entry_ok e \<and> clb_frame b b' \<and> clb_error b' = None \<and>
     clb_data_offset b' = al8 (clb_data_offset b) + length (cl_wire e)"
proof -
  let ?fe = "30 + length (ce_path e) + length (ce_name e)"
  have s: "?fe + 7 \<le> USIZE_MAX" using small by (simp add: USIZE_MAX_def)
  have v: "labels_valid (ce_labels e)" using label_layout_cases(3) [OF s lay] .
  have r: "ts = (if ce_labels e = [] then ?fe else al8 ?fe)" "tb = length (ce_labels e) * 16" "sz = length (cl_wire e)"
    using lay label_layout_cases(2) [OF s v] by (auto simp: length_cl_wire split: if_splits)
  have "cl_entry_ok e"
    using p sem name lc v fit clb_state_facts(7) [OF st] r(3) by (simp add: cl_entry_ok_def cl_path_ok_def)
  then show ?thesis
    using clb_write_known_item_ok [OF st n _ refl, of e ts sz] fit r by simp
qed


text \<open>A KNOWN item is written only if the reserved suffix still fits behind it.\<close>

definition clb_suffix_fits :: "cgroups_lookup_builder \<Rightarrow> usize \<Rightarrow> bool" where
  "clb_suffix_fits b item_end \<longleftrightarrow> suffix_reserved (length (clb_buf b)) item_end
     (clb_payload_exceeded_suffix_bytes b) (clb_item_count b + 1) (clb_max_items b)"

definition clb_known_fits :: "cgroups_lookup_builder \<Rightarrow> cl_entry \<Rightarrow> bool" where
  "clb_known_fits b e \<longleftrightarrow> length (ce_labels e) < 2 ^ 16 \<and>
     al8 (clb_data_offset b) + length (cl_wire e) \<le> length (clb_buf b) \<and>
     clb_suffix_fits b (al8 (clb_data_offset b) + length (cl_wire e))"

lemma clb_add_entry_eq:
  assumes st: "clb_state cap b es" and n: "length es < unat (clb_max_items b)" and ns: "\<not> clb_payload_exceeded_suffix b"
    and small: "length (ce_path e) + length (ce_name e) < 2 ^ 63"
    and sem: "validate_cgroups_lookup_semantics (ce_status e) (ce_orchestrator e) (length (ce_path e)) (length (ce_name e))
       (length (ce_labels e)) = Ok ()"
    and str: "pv \<or> 0 \<notin> set (ce_path e)" "0 \<notin> set (ce_name e)" and kn: "ce_status e = CGROUP_LOOKUP_KNOWN"
  shows "clb_add_entry e pv b =
     (if \<not> length (ce_labels e) < 2 ^ 16 then clb_note_item_overflow (ce_path e) b
      else case label_layout (30 + length (ce_path e) + length (ce_name e)) (ce_labels e) of
        Panic \<Rightarrow> Panic
      | Err err \<Rightarrow> if err = Overflow then clb_note_item_overflow (ce_path e) b else clb_fail err b
      | Ok (ts, tb, sz) \<Rightarrow>
          if al8 (clb_data_offset b) + sz \<le> cap \<and> clb_suffix_fits b (al8 (clb_data_offset b) + sz)
          then clb_write_known_item (ce_status e) (ce_orchestrator e) (ce_path e) (ce_name e) (ce_labels e)
            (word_of_nat (length (ce_labels e))) (al8 (clb_data_offset b)) (al8 (clb_data_offset b) + sz)
            (29 + length (ce_path e)) (30 + length (ce_path e) + length (ce_name e)) ts tb sz b
          else clb_note_item_overflow (ce_path e) b)"
proof -
  let ?p = "length (ce_path e)" and ?n = "length (ce_name e)"
  note l = clb_state_facts(6,7) [OF st]
  have nc: "\<not> clb_max_items b \<le> clb_item_count b" using clb_state_facts(4) [OF st] n by auto
  have pe: "ce_path e \<noteq> []" using sem by (auto simp: validate_cgroups_lookup_semantics_def split: if_splits)
  have o: "align8 (clb_data_offset b) = al8 (clb_data_offset b)"
    using clb_state_facts(2) [OF st] l by (intro align8_al8) (simp add: USIZE_MAX_def)
  have c: "Option.bind (checked_add 28 ?p) (\<lambda>v. checked_add v 1) = Some (29 + ?p)"
      "Option.bind (checked_add (29 + ?p) ?n) (\<lambda>v. checked_add v 1) = Some (30 + ?p + ?n)"
    using small by (simp_all add: checked_ok USIZE_MAX_def)
  have str': "\<not> (\<not> pv \<and> source_string_invalid (ce_path e) True \<or> source_string_invalid (ce_name e) False)"
    using str pe by (auto simp: source_string_invalid_def)
  have u16: "checked_u16 (length (ce_labels e)) =
      (if length (ce_labels e) < 2 ^ 16 then Ok (word_of_nat (length (ce_labels e))) else Err Overflow)"
    by (simp add: checked_u16_def)
  have fits: "(case checked_add (al8 (clb_data_offset b)) sz of
      None \<Rightarrow> N
    | Some item_end \<Rightarrow> if \<not> item_end \<le> length (clb_buf b) then N
        else rbind (payload_exceeded_suffix_fits (length (clb_buf b)) item_end
                        (clb_payload_exceeded_suffix_bytes b) (clb_item_count b + 1) (clb_max_items b)) (\<lambda>fits.
               if \<not> fits then N else W item_end)) =
    (if al8 (clb_data_offset b) + sz \<le> cap \<and> clb_suffix_fits b (al8 (clb_data_offset b) + sz)
     then W (al8 (clb_data_offset b) + sz) else N)" for sz N and W :: "nat \<Rightarrow> clb_outcome"
  proof (cases "al8 (clb_data_offset b) + sz \<le> cap")
    case True
    then have "checked_add (al8 (clb_data_offset b)) sz = Some (al8 (clb_data_offset b) + sz)"
      using l by (simp add: checked_ok USIZE_MAX_def)
    then show ?thesis
      using True l by (simp add: clb_suffix_fits_def)
  qed (use l in \<open>auto simp: checked_add_def\<close>)
  show ?thesis
    unfolding clb_add_with_path_def cl_sizes if_not_P [OF ns] if_not_P [OF nc] sem outcome.case if_not_P [OF str'] Let_def o u16 fits c option.case
    using kn by (auto split: outcome.splits)
qed


lemma semantics_no_panic [no_panic, simp]: "validate_cgroups_lookup_semantics st orch p n c \<noteq> Panic"
  by (simp add: validate_cgroups_lookup_semantics_def)

text \<open>An answer that is not KNOWN and does not fit is tried once more as a degraded item.\<close>

lemma clb_add_entry_unknown:
  assumes "\<not> clb_payload_exceeded_suffix b" "\<not> clb_max_items b \<le> clb_item_count b"
    and "validate_cgroups_lookup_semantics (ce_status e) (ce_orchestrator e) (length (ce_path e)) (length (ce_name e))
       (length (ce_labels e)) = Ok ()" "pv \<or> 0 \<notin> set (ce_path e)" "ce_status e \<noteq> CGROUP_LOOKUP_KNOWN"
  shows "clb_add_entry e pv b =
     (case clb_add_non_known_item (ce_status e) (ce_path e) b of
        Err (Overflow, b) \<Rightarrow> clb_note_item_overflow (ce_path e) b | other \<Rightarrow> other)"
proof -
  have "ce_path e \<noteq> []" "ce_name e = []"
    using assms(3,5) by (auto simp: validate_cgroups_lookup_semantics_def split: if_splits)
  then have "\<not> (\<not> pv \<and> source_string_invalid (ce_path e) True \<or> source_string_invalid (ce_name e) False)"
    using assms(4) by (auto simp: source_string_invalid_def)
  then show ?thesis
    unfolding clb_add_with_path_def if_not_P [OF assms(1)] if_not_P [OF assms(2)] assms(3) outcome.case
    using assms(5) by (auto simp del: outcome.case nipc_error.case)
qed

lemma clb_post_unknown:
  assumes st: "clb_state cap b es" and p: "cl_path_ok path" "s \<in> {1, 2, 3, 4}"
    and P: "P (cl_degraded s path)" "P (cl_degraded CGROUP_LOOKUP_OVERSIZED_ITEM path)"
      "P (cl_degraded CGROUP_LOOKUP_PAYLOAD_EXCEEDED path)"
  shows "clb_post cap es P b
     (case clb_add_non_known_item s path b of Err (Overflow, b) \<Rightarrow> clb_note_item_overflow path b | other \<Rightarrow> other)"
proof (cases "length es < unat (clb_max_items b) \<and> al8 (clb_data_offset b) + (30 + length path) \<le> cap")
  case True
  then obtain b' where "clb_add_non_known_item s path b = Ok b'"
    using clb_add_non_known_item_ok [OF st, of path s] by auto
  then show ?thesis using clb_post_non_known [of cap b es path s P] st p P by simp
next
  case False
  let ?b = "b\<lparr>clb_error := Some Overflow\<rparr>"
  have "clb_post cap es P ?b (clb_note_item_overflow path ?b)" using st p P by (intro clb_post_note) simp_all
  then have "clb_post cap es P b (clb_note_item_overflow path ?b)" by (rule clb_post_kept) simp
  then show ?thesis using clb_add_non_known_item_full [OF st False, of s] by (simp add: clb_fail_def)
qed

lemma clb_post_add_known:
  assumes st: "clb_state cap b es" and p: "cl_path_ok (ce_path e)"
    and small: "length (ce_path e) + length (ce_name e) < 2 ^ 63"
    and known: "\<not> clb_payload_exceeded_suffix b" "\<not> clb_max_items b \<le> clb_item_count b"
      "validate_cgroups_lookup_semantics (ce_status e) (ce_orchestrator e) (length (ce_path e)) (length (ce_name e))
         (length (ce_labels e)) = Ok ()" "0 \<notin> set (ce_name e)" "ce_status e = CGROUP_LOOKUP_KNOWN"
  shows "clb_post cap es (cl_graceful e) b (clb_add_entry e pv b)"
proof -
  have note_ok: "clb_post cap es (cl_graceful e) b (clb_note_item_overflow (ce_path e) b)"
    using st p by (intro clb_post_note) (simp_all add: cl_graceful_def)
  have fail_ok: "clb_post cap es (cl_graceful e) b (clb_fail err b)" for err using st by (rule clb_post_fail)
  have g: "cl_graceful e e" by (simp add: cl_graceful_def)
  have nul: "0 \<notin> set (ce_path e)" using p by (simp add: cl_path_ok_def)
  have n: "length es < unat (clb_max_items b)" using known(2) clb_state_facts(3,4) [OF st] by auto
  have fe: "30 + length (ce_path e) + length (ce_name e) + 7 \<le> USIZE_MAX" using small by (simp add: USIZE_MAX_def)
  note eq = clb_add_entry_eq [OF st n known(1) small known(3) _ known(4,5), of pv]
  show ?thesis
  proof (cases "length (ce_labels e) < 2 ^ 16")
    case False
    then show ?thesis using eq nul note_ok by simp
  next
    case lc: True
    show ?thesis
    proof (cases "label_layout (30 + length (ce_path e) + length (ce_name e)) (ce_labels e)")
      case (Ok r)
      obtain ts tb sz where r: "r = (ts, tb, sz)" by (cases r)
      note w = clb_post_known [OF st n p small known(3,4) lc Ok [unfolded r]]
      show ?thesis
      proof (cases "al8 (clb_data_offset b) + sz \<le> cap \<and> clb_suffix_fits b (al8 (clb_data_offset b) + sz)")
        case True
        then obtain b' where "clb_add_entry e pv b = Ok b'" "clb_state cap b' (es @ [e])" "cl_entry_ok e" "clb_frame b b'"
            "clb_error b' = None"
          using w eq nul lc Ok r by auto
        then show ?thesis using g clb_frame_kept by auto
      next
        case False
        then show ?thesis using eq nul lc Ok r note_ok by auto
      qed
    next
      case (Err err)
      then show ?thesis using eq nul lc note_ok fail_ok by simp
    next
      case Panic
      then show ?thesis using label_layout_cases(1) [OF fe] by blast
    qed
  qed
qed

lemma clb_post_add:
  assumes st: "clb_state cap b es" and p: "cl_path_ok (ce_path e)"
    and small: "length (ce_path e) + length (ce_name e) < 2 ^ 63"
  shows "clb_post cap es (cl_graceful e) b (clb_add_entry e pv b)"
proof -
  let ?sem = "validate_cgroups_lookup_semantics (ce_status e) (ce_orchestrator e) (length (ce_path e)) (length (ce_name e))
       (length (ce_labels e))"
  have g: "cl_graceful e e" "cl_graceful e (cl_degraded CGROUP_LOOKUP_OVERSIZED_ITEM (ce_path e))"
      "cl_graceful e (cl_degraded CGROUP_LOOKUP_PAYLOAD_EXCEEDED (ce_path e))" by (simp_all add: cl_graceful_def)
  have fail_ok: "clb_post cap es (cl_graceful e) b (clb_fail err b)" for err using st by (rule clb_post_fail)
  have nul: "0 \<notin> set (ce_path e)" "\<not> source_string_invalid (ce_path e) True"
    using p by (auto simp: cl_path_ok_def source_string_invalid_def)
  have cs: "(\<exists>err. ?sem = Err err) \<or> ?sem = Ok ()" by (cases ?sem) auto
  consider (suffix) "clb_payload_exceeded_suffix b" | (full) "\<not> clb_payload_exceeded_suffix b" "clb_max_items b \<le> clb_item_count b"
    | (sem) err where "\<not> clb_payload_exceeded_suffix b" "\<not> clb_max_items b \<le> clb_item_count b" "?sem = Err err"
    | (name) "\<not> clb_payload_exceeded_suffix b" "\<not> clb_max_items b \<le> clb_item_count b" "?sem = Ok ()" "0 \<in> set (ce_name e)"
    | (unknown) "\<not> clb_payload_exceeded_suffix b" "\<not> clb_max_items b \<le> clb_item_count b" "?sem = Ok ()" "ce_status e \<noteq> CGROUP_LOOKUP_KNOWN"
    | (known) "\<not> clb_payload_exceeded_suffix b" "\<not> clb_max_items b \<le> clb_item_count b" "?sem = Ok ()" "0 \<notin> set (ce_name e)"
        "ce_status e = CGROUP_LOOKUP_KNOWN"
    using cs by blast
  then show ?thesis
  proof cases
    case suffix
    then show ?thesis
      using st p g by (simp add: clb_add_with_path_def clb_post_non_known cgroup_status_defs)
  next
    case full
    then show ?thesis using fail_ok by (simp add: clb_add_with_path_def)
  next
    case sem
    then show ?thesis using fail_ok by (simp add: clb_add_with_path_def)
  next
    case name
    then show ?thesis using fail_ok by (simp add: clb_add_with_path_def source_string_invalid_def)
  next
    case unknown
    have d: "cl_degraded (ce_status e) (ce_path e) = e" "ce_status e \<in> {1, 2, 3, 4}"
      using cl_entry_degraded [of e] unknown by auto
    have "clb_post cap es (cl_graceful e) b
       (case clb_add_non_known_item (ce_status e) (ce_path e) b of
          Err (Overflow, b) \<Rightarrow> clb_note_item_overflow (ce_path e) b | other \<Rightarrow> other)"
      using st p g d by (intro clb_post_unknown) simp_all
    then show ?thesis using clb_add_entry_unknown [of b e pv] unknown nul by simp
  next
    case known
    then show ?thesis using clb_post_add_known [OF st p small] by blast
  qed
qed


section \<open>Reading a response\<close>

lemma decode_cgroups_item_facts:
  assumes "decode_cgroups_item item = Ok v"
  shows "28 \<le> length item" "cli_item v = item"
    "validate_cgroups_lookup_semantics (cli_status v) (cli_orchestrator v) (unat (rd32 item 12)) (unat (rd32 item 20))
       (unat (cli_label_count v)) = Ok ()"
    "\<exists>fp fn. lookup_string item 28 (unat (rd32 item 8)) (unat (rd32 item 12)) = Ok (cli_path v, fp) \<and>
       lookup_string item 28 (unat (rd32 item 16)) (unat (rd32 item 20)) = Ok (cli_name v, fn) \<and>
       \<not> overlap (unat (rd32 item 8)) fp (unat (rd32 item 16)) fn \<and>
       validate_labels item 28 (cli_label_count v) (max fp fn) = Ok (cli_label_table_offset v)"
proof -
  show l: "28 \<le> length item" using assms by (simp add: decode_cgroups_item_def cl_sizes not_less split: if_splits)
  have at: "u16_at item k = Ok (rd16 item k)" if "k \<le> 26" for k using l that by simp
  have at4: "u32_at item k = Ok (rd32 item k)" if "k \<le> 24" for k using l that by simp
  note d = assms [unfolded decode_cgroups_item_def cl_sizes]
  show "cli_item v = item" "validate_cgroups_lookup_semantics (cli_status v) (cli_orchestrator v) (unat (rd32 item 12))
      (unat (rd32 item 20)) (unat (cli_label_count v)) = Ok ()"
    using d l by (auto simp: at at4 rbind_eq_Ok split: if_splits)
  show "\<exists>fp fn. lookup_string item 28 (unat (rd32 item 8)) (unat (rd32 item 12)) = Ok (cli_path v, fp) \<and>
       lookup_string item 28 (unat (rd32 item 16)) (unat (rd32 item 20)) = Ok (cli_name v, fn) \<and>
       \<not> overlap (unat (rd32 item 8)) fp (unat (rd32 item 16)) fn \<and>
       validate_labels item 28 (cli_label_count v) (max fp fn) = Ok (cli_label_table_offset v)"
    using d l by (auto simp: at at4 rbind_eq_Ok split: if_splits)
qed

lemma decode_cgroups_item_no_panic [no_panic]:
  assumes "length item \<le> ISIZE_MAX"
  shows "decode_cgroups_item item \<noteq> Panic"
proof -
  have lb: "validate_labels item 28 lc (max fp fn) \<noteq> Panic"
    if "lookup_string item 28 a b = Ok (p, fp)" "lookup_string item 28 c d = Ok (q, fn)" for lc fp fn a b p c d q
    using that assms by (intro validate_labels_no_panic) (auto simp: lookup_string_Ok)
  show ?thesis
    unfolding decode_cgroups_item_def cl_sizes
    by (auto simp: rbind_eq_Panic dest: lb)
qed

lemma decode_cgroups_item_readable:
  assumes "decode_cgroups_item item = Ok v" "length item \<le> ISIZE_MAX"
  shows "str_view_ok (cli_path v)" "str_view_ok (cli_name v)" "0 < unat (sv_len (cli_path v))"
    "unat i < unat (cli_label_count v) \<Longrightarrow> \<exists>l. cgroups_lookup_item_label v i = Ok l"
proof -
  note f = decode_cgroups_item_facts [OF assms(1)]
  obtain fp fn where s: "lookup_string item 28 (unat (rd32 item 8)) (unat (rd32 item 12)) = Ok (cli_path v, fp)"
      "lookup_string item 28 (unat (rd32 item 16)) (unat (rd32 item 20)) = Ok (cli_name v, fn)"
    and vl: "validate_labels item 28 (cli_label_count v) (max fp fn) = Ok (cli_label_table_offset v)"
    using f(4) by blast
  show "str_view_ok (cli_path v)" "str_view_ok (cli_name v)"
    using s by (auto simp: lookup_string_Ok intro!: str_view_window)
  show "0 < unat (sv_len (cli_path v))"
    using s(1) f(3) by (auto simp: lookup_string_Ok validate_cgroups_lookup_semantics_def split: if_splits)
  have m: "max fp fn \<le> length item" using s by (auto simp: lookup_string_Ok)
  show "\<exists>l. cgroups_lookup_item_label v i = Ok l" if "unat i < unat (cli_label_count v)"
    using validate_labels_readable [OF vl m assms(2) that] f(2) by (simp add: cgroups_lookup_item_label_def cl_sizes)
qed

interpretation clresp: lookup_response decode_cgroups_item cgroups_lookup_check_items 28
  "\<lambda>n g p. \<lparr>clr_layout_version = 1, clr_flags = 0, clr_item_count = n, clr_generation = g, clr_payload = p\<rparr>"
  clr_item_count clr_generation clr_payload cgroups_lookup_response_decode cgroups_lookup_response_item cgroups_lookup_raw_item
proof (unfold_locales, goal_cases)
  case (2 buf dir_end i n)
  show ?case unfolding cgroups_lookup_check_items.simps cl_sizes Let_def ..
next
  case (3 item)
  then show ?case by (rule decode_cgroups_item_no_panic)
next
  case (7 buf)
  show ?case unfolding cgroups_lookup_response_decode_def cl_sizes ..
next
  case (8 v idx)
  show ?case unfolding cgroups_lookup_response_item_def cl_sizes ..
next
  case (9 v idx)
  show ?case unfolding cgroups_lookup_raw_item_def cl_sizes ..
qed simp_all

lemma clb_finish_decodes:
  assumes st: "clb_state cap b es" and ok: "\<And>e. e \<in> set es \<Longrightarrow> cl_entry_ok e"
  shows "\<exists>n buf' v. clb_finish b = Ok (n, buf') \<and> n \<le> cap \<and> length buf' = cap \<and>
     cgroups_lookup_response_decode (take n buf') = Ok v \<and>
     unat (clr_item_count v) = length es \<and> clr_item_count v = clb_item_count b \<and> clr_generation v = clb_generation b \<and>
     (\<forall>i < length es. cgroups_lookup_response_item v (word_of_nat i) = Ok (cl_view (es ! i)))"
proof -
  let ?xs = "map cl_wire es" and ?g = "clb_generation b"
  obtain n buf' where f: "finish_lookup_response (clb_buf b) 16 (clb_item_count b) (clb_data_offset b) ?g = Ok (n, buf')"
      "n \<le> cap" "length buf' = cap" "take 16 (take n buf') = lookup_hdr_wire (word_of_nat (length ?xs)) ?g"
      "packed_final (take n buf') 16 ?xs" "length (take n buf') < 2 ^ 32"
    using lookup_state_finish [OF st [unfolded clb_state_def], of ?g] by blast
  have items: "28 \<le> length x \<and> (\<exists>w. decode_cgroups_item x = Ok w)" if "x \<in> set ?xs" for x
    using that ok decode_cgroups_item_wire by (auto simp: length_cl_wire)
  note d = clresp.final_decode [OF f(4-6) items refl]
  have c: "clb_item_count b = word_of_nat (length es)" using st by (simp add: clb_state_def lookup_state_def)
  have "cgroups_lookup_response_item \<lparr>clr_layout_version = 1, clr_flags = 0, clr_item_count = word_of_nat (length ?xs),
      clr_generation = ?g, clr_payload = take n buf'\<rparr> (word_of_nat i) = Ok (cl_view (es ! i))" if "i < length es" for i
    using d(2) [of i] that ok decode_cgroups_item_wire [of "es ! i"] by simp
  then show ?thesis
    using f(1-3) d(1) c clb_state_facts(1) [OF st]
    by (intro exI [of _ n] exI [of _ buf'] exI) (auto simp: clb_finish_def cl_sizes)
qed

section \<open>Reading a request\<close>

lemma cgroups_lookup_check_keys_ok:
  assumes "16 + (i + n) * 8 \<le> length buf" "length buf \<le> ISIZE_MAX" "dir_end \<le> length buf"
    and "\<And>j. i \<le> j \<Longrightarrow> j < i + n \<Longrightarrow> 1 \<le> dir_len buf 16 j"
  shows "cgroups_lookup_check_keys buf dir_end i n \<noteq> Panic \<and>
    (cgroups_lookup_check_keys buf dir_end i n = Ok () \<longleftrightarrow>
      (\<forall>j. i \<le> j \<and> j < i + n \<longrightarrow> dir_end + dir_off buf 16 j + dir_len buf 16 j \<le> length buf \<and>
        (\<exists>path. 0 \<notin> set path \<and> sub buf (dir_end + dir_off buf 16 j) (dir_len buf 16 j) = path @ [0])))"
  using assms
proof (induction n arbitrary: i)
  case 0
  then show ?case by auto
next
  case (Suc n)
  let ?o = "dir_off buf 16 i" and ?l = "dir_len buf 16 i"
  let ?key = "sub buf (dir_end + ?o) ?l"
  have s: "checked_subslice buf dir_end ?o ?l =
      (if dir_end + ?o + ?l \<le> length buf then Ok ?key else Err OutOfBounds)"
    using dir_bounds [of buf 16 i] Suc.prems by (intro checked_subslice_eq) (simp add: usize_bounds)
  have pos: "1 \<le> ?l" using Suc.prems(4) [of i] by simp
  have r: "u32_at buf (16 + i * 8) = Ok (rd32 buf (16 + i * 8))"
      "u32_at buf (16 + i * 8 + 4) = Ok (rd32 buf (16 + i * 8 + 4))" using Suc.prems(1) by simp_all
  have step: "cgroups_lookup_check_keys buf dir_end i (Suc n) =
      rbind (checked_subslice buf dir_end ?o ?l) (\<lambda>key. rbind (index key (usize_sub ?l 1)) (\<lambda>b.
      if b \<noteq> 0 then Err MissingNul else rbind (slice_rng key 0 (usize_sub ?l 1)) (\<lambda>body.
      if 0 \<in> set body then Err BadLayout else cgroups_lookup_check_keys buf dir_end (i + 1) n)))"
    unfolding cgroups_lookup_check_keys.simps cl_sizes Let_def r rbind.simps dir_off_def dir_len_def by (rule refl)
  have IH: "cgroups_lookup_check_keys buf dir_end (i + 1) n \<noteq> Panic \<and>
    (cgroups_lookup_check_keys buf dir_end (i + 1) n = Ok () \<longleftrightarrow>
      (\<forall>j. i + 1 \<le> j \<and> j < i + 1 + n \<longrightarrow> dir_end + dir_off buf 16 j + dir_len buf 16 j \<le> length buf \<and>
        (\<exists>path. 0 \<notin> set path \<and> sub buf (dir_end + dir_off buf 16 j) (dir_len buf 16 j) = path @ [0])))"
    using Suc.prems by (intro Suc.IH) simp_all
  show ?case
  proof (cases "dir_end + ?o + ?l \<le> length buf")
    case False
    then show ?thesis unfolding all_range_Suc step s by simp
  next
    case True
    have kl: "length ?key = ?l" using True by simp
    have e: "(\<exists>path. 0 \<notin> set path \<and> ?key = path @ [0]) \<longleftrightarrow> ?key ! (?l - 1) = 0 \<and> 0 \<notin> set (sub ?key 0 (?l - 1))"
    proof -
      have k: "?key = take (?l - 1) ?key @ [?key ! (?l - 1)]"
        using kl pos take_Suc_conv_app_nth [of "?l - 1" ?key] by simp
      then show ?thesis by (metis append1_eq_conv drop_0 sub_def)
    qed
    have "index ?key (?l - 1) = (Ok (?key ! (?l - 1)) :: u8 result)"
      "slice_rng ?key 0 (?l - 1) = (Ok (sub ?key 0 (?l - 1)) :: bytes result)"
      using kl pos by (simp_all add: index_ok slice_rng_ok del: length_sub)
    then show ?thesis unfolding all_range_Suc step s using True pos IH e by auto
  qed
qed


definition clq_path :: "cgroups_lookup_request_view \<Rightarrow> nat \<Rightarrow> bytes" where
  "clq_path v i = butlast (sub (clq_payload v) (clq_packed_start v + dir_off (clq_payload v) 16 i) (dir_len (clq_payload v) 16 i))"

definition clq_paths :: "cgroups_lookup_request_view \<Rightarrow> bytes list" where
  "clq_paths v = map (clq_path v) [0..<unat (clq_item_count v)]"

definition clq_view_of :: "bytes \<Rightarrow> cgroups_lookup_request_view" where
  "clq_view_of buf = \<lparr>clq_item_count = rd32 buf 4, clq_packed_start = 16 + unat (rd32 buf 4) * 8, clq_payload = buf\<rparr>"

lemma cgroups_lookup_request_decode_ok:
  assumes l: "length buf \<le> ISIZE_MAX"
  shows "cgroups_lookup_request_decode buf \<noteq> Panic"
    and "cgroups_lookup_request_decode buf = Ok v \<longleftrightarrow>
      16 + unat (rd32 buf 4) * 8 \<le> length buf \<and> rd16 buf 0 = 1 \<and> rd16 buf 2 = 0 \<and> rd32 buf 8 = 0 \<and> rd32 buf 12 = 0 \<and>
      validate_lookup_dir buf 16 (rd32 buf 4) (length buf - (16 + unat (rd32 buf 4) * 8)) 2 None = Ok () \<and>
      cgroups_lookup_check_keys buf (16 + unat (rd32 buf 4) * 8) 0 (unat (rd32 buf 4)) = Ok () \<and> v = clq_view_of buf"
proof -
  let ?n = "unat (rd32 buf 4)"
  have c: "checked_add 16 (?n * 8) = Some (16 + ?n * 8)"
    using u32_lt [of "rd32 buf 4"] by (simp add: checked_ok USIZE_MAX_def)
  note vd = validate_lookup_dir_ok [of 16 buf "rd32 buf 4" "length buf - (16 + ?n * 8)" 2 None]
  have ck: "cgroups_lookup_check_keys buf (16 + ?n * 8) 0 ?n \<noteq> Panic"
    if "16 + ?n * 8 \<le> length buf" "validate_lookup_dir buf 16 (rd32 buf 4) (length buf - (16 + ?n * 8)) 2 None = Ok ()"
  proof -
    have "1 \<le> dir_len buf 16 j" if "j < ?n" for j
      using vd that \<open>validate_lookup_dir buf 16 _ _ _ _ = Ok ()\<close> by (force simp: dir_entry_ok_def)
    then show ?thesis using cgroups_lookup_check_keys_ok [of 0 ?n buf "16 + ?n * 8"] that(1) l by simp
  qed
  show "cgroups_lookup_request_decode buf \<noteq> Panic"
    using vd ck by (auto simp: cgroups_lookup_request_decode_def cl_sizes c rbind_eq_Panic Let_def)
  show "cgroups_lookup_request_decode buf = Ok v \<longleftrightarrow>
      16 + ?n * 8 \<le> length buf \<and> rd16 buf 0 = 1 \<and> rd16 buf 2 = 0 \<and> rd32 buf 8 = 0 \<and> rd32 buf 12 = 0 \<and>
      validate_lookup_dir buf 16 (rd32 buf 4) (length buf - (16 + ?n * 8)) 2 None = Ok () \<and>
      cgroups_lookup_check_keys buf (16 + ?n * 8) 0 ?n = Ok () \<and> v = clq_view_of buf"
    by (cases "length buf < 16")
       (auto simp: cgroups_lookup_request_decode_def cl_sizes c rbind_eq_Ok clq_view_of_def not_less Let_def)
qed

lemma cgroups_lookup_request_path:
  assumes d: "cgroups_lookup_request_decode buf = Ok v" and l: "length buf \<le> ISIZE_MAX"
    and i: "unat i < unat (clq_item_count v)" and path: "path = clq_path v (unat i)"
  shows "cgroups_lookup_request_item v i = Ok \<lparr>sv_bytes = path @ [0], sv_len = word_of_nat (length path)\<rparr>"
    "payload_exceeded_item_len v i = Ok (30 + length path)" "cl_path_ok path" "length path + 1 < 2 ^ 32"
    "16 + unat (clq_item_count v) * 8 + dir_off buf 16 (unat i) + (length path + 1) \<le> length buf"
proof -
  let ?n = "unat (clq_item_count v)" and ?o = "dir_off buf 16 (unat i)" and ?l = "dir_len buf 16 (unat i)"
  note r = d [unfolded cgroups_lookup_request_decode_ok(2) [OF l]]
  have v: "clq_item_count v = rd32 buf 4" "clq_payload v = buf" "clq_packed_start v = 16 + ?n * 8"
    using r by (auto simp: clq_view_of_def)
  have le: "16 + ?n * 8 \<le> length buf" using r v by simp
  have ok: "dir_entry_ok buf 16 (length buf - (16 + ?n * 8)) 2 None j" if "j < ?n" for j
    using validate_lookup_dir_ok [of 16 buf "rd32 buf 4" "length buf - (16 + ?n * 8)" 2 None] r v that by simp
  have "1 \<le> dir_len buf 16 j" if "j < ?n" for j using ok [OF that] by (simp add: dir_entry_ok_def)
  then have k: "16 + ?n * 8 + ?o + ?l \<le> length buf \<and> (\<exists>p. 0 \<notin> set p \<and> sub buf (16 + ?n * 8 + ?o) ?l = p @ [0])"
    using cgroups_lookup_check_keys_ok [of 0 ?n buf "16 + ?n * 8"] le l r v i by simp
  then obtain p where p: "0 \<notin> set p" "sub buf (16 + ?n * 8 + ?o) ?l = p @ [0]" by blast
  then have pp: "p = path" using path v by (simp add: clq_path_def)
  have ll: "?l = length path + 1" using arg_cong [OF p(2), of length] k pp by (simp add: min_def split: if_splits)
  then show "16 + ?n * 8 + ?o + (length path + 1) \<le> length buf" using k by simp
  show "length path + 1 < 2 ^ 32" using dir_bounds(2) [of buf 16 "unat i"] ll by simp
  show "cl_path_ok path" using ok [OF i] p ll pp by (auto simp: cl_path_ok_def dir_entry_ok_def)
  have ni: "\<not> clq_item_count v \<le> i" using i by (simp add: word_le_nat_alt)
  have b: "16 + unat i * 8 + 8 \<le> length buf" using i le by linarith
  have u: "unat (rd32 buf (16 + unat i * 8 + 4)) = length path + 1" "unat (rd32 buf (16 + unat i * 8)) = ?o"
    using ll by (simp_all add: dir_len_def dir_off_def)
  have c: "checked_add 16 (unat i * 8) = Some (16 + unat i * 8)"
    using u32_lt [of i] by (simp add: checked_ok USIZE_MAX_def)
  have cs: "checked_subslice buf (16 + ?n * 8) ?o (length path + 1) = Ok (path @ [0])"
    using k ll l p(2) pp by (simp add: checked_subslice_eq usize_bounds)
  show "cgroups_lookup_request_item v i = Ok \<lparr>sv_bytes = path @ [0], sv_len = word_of_nat (length path)\<rparr>"
    unfolding cgroups_lookup_request_item_def if_not_P [OF ni] cl_sizes v(2,3)
    using b cs u(1) by (simp add: c u(2))
  show "payload_exceeded_item_len v i = Ok (30 + length path)"
    unfolding payload_exceeded_item_len_def if_not_P [OF ni] cl_sizes v(2)
    using b u(1) \<open>length path + 1 < 2 ^ 32\<close> by (simp add: c checked_ok USIZE_MAX_def)
qed


text \<open>The encoder lays the keys out as a packed area with relative offsets.\<close>

abbreviation cl_key :: "bytes \<Rightarrow> bytes" where
  "cl_key path \<equiv> path @ [0]"

lemma encode_cgroups_lookup_paths_ok:
  assumes "packed_gen 0 buf 16 base off (map cl_key done)" "16 + (length done + length paths) * 8 \<le> base" "length buf < 2 ^ 32"
    and "base + length (pack_data (map cl_key (done @ paths))) \<le> length buf" "\<And>p. p \<in> set paths \<Longrightarrow> cl_path_ok p"
  shows "\<exists>buf'. encode_cgroups_lookup_paths buf base off (length done) paths =
       Ok (base + length (pack_data (map cl_key (done @ paths))), buf') \<and>
     packed_gen 0 buf' 16 base (base + length (pack_data (map cl_key (done @ paths)))) (map cl_key (done @ paths)) \<and>
     length buf' = length buf"
  using assms
proof (induction paths arbitrary: buf off "done")
  case Nil
  then show ?case by (auto simp: packed_gen_def)
next
  case (Cons p paths)
  let ?o = "al8 off" and ?n = "length done" and ?x = "cl_key p"
  have off: "off = base + length (pack_data (map cl_key done))" "base mod 8 = 0" "off \<le> length buf"
    using Cons.prems(1) by (auto simp: packed_gen_def)
  have o: "?o = base + al8 (length (pack_data (map cl_key done)))" using off by (simp add: al8_add)
  have g: "off \<le> ?o" by (rule al8_ge)
  have fit: "?o + length ?x \<le> length buf"
    using pack_data_step [of "map cl_key (done @ p # paths)" "map cl_key done" ?x "map cl_key paths"] Cons.prems(4) o by simp
  let ?b1 = "upd buf off (replicate (?o - off) 0)"
  let ?b2 = "upd ?b1 ?o ?x"
  let ?d1 = "upd ?b1 (16 + ?n * 8) (u32_to_ne (word_of_nat (?o - base)))"
  let ?d2 = "upd ?d1 (16 + ?n * 8 + 4) (u32_to_ne (word_of_nat (length ?x)))"
  let ?b3 = "upd (upd ?b2 (16 + ?n * 8) (u32_to_ne (word_of_nat (?o - base)))) (16 + ?n * 8 + 4)
      (u32_to_ne (word_of_nat (length ?x)))"
  have l: "length ?b1 = length buf" "length ?b2 = length buf" using fit g off by simp_all
  have pk: "packed_gen 0 ?b3 16 base (?o + length ?x) (map cl_key (done @ [p]))"
    using packed_gen_append [OF Cons.prems(1) _ refl fit _ refl, of "?o - base"] Cons.prems(2) o by simp
  have al: "align8 off = ?o" using off Cons.prems(3) by (intro align8_al8) (simp add: USIZE_MAX_def)
  have c: "checked_add (length p) 1 = Some (length ?x)" "checked_add ?o (length ?x) = Some (?o + length ?x)"
      "checked_u32 (?o - base) = Ok (word_of_nat (?o - base))" "checked_u32 (length ?x) = Ok (word_of_nat (length ?x))"
      "usize_sub ?o base = ?o - base"
    using fit Cons.prems(3) off o by (simp_all add: checked_ok USIZE_MAX_def)
  have hb: "16 + ?n * 8 + 8 \<le> off" using Cons.prems(2) off(1) by simp
  have f: "(if ?o > off then fill buf off ?o 0 else Ok buf) = (Ok ?b1 :: bytes result)"
    using g fit off by (auto simp: fill_ok not_less)
  have nv: "\<not> source_string_invalid p True" using Cons.prems(5) [of p] by (simp add: source_string_invalid_def cl_path_ok_def)
  have nf: "\<not> ?o + length ?x > length buf" using fit by simp
  have w: "put_u32 ?b1 (16 + ?n * 8) (word_of_nat (?o - base)) = (Ok ?d1 :: bytes result)"
      "put_u32 ?d1 (16 + ?n * 8 + 4) (word_of_nat (length ?x)) = (Ok ?d2 :: bytes result)"
      "copy_from_slice ?d2 ?o (?o + length p) p = (Ok (upd ?d2 ?o p) :: bytes result)"
      "index_set (upd ?d2 ?o p) (?o + length p) 0 = (Ok (upd ?d2 ?o ?x) :: bytes result)"
    using l hb fit off(3) by (simp_all add: copy_from_slice_ok index_set_ok upd_upd_append)
  have com: "upd ?d2 ?o ?x = ?b3"
  proof -
    have "upd ?d2 ?o ?x = upd (upd ?d1 ?o ?x) (16 + ?n * 8 + 4) (u32_to_ne (word_of_nat (length ?x)))"
      using hb g fit l by (intro upd_commute) simp_all
    also have "upd ?d1 ?o ?x = upd ?b2 (16 + ?n * 8) (u32_to_ne (word_of_nat (?o - base)))"
      using hb g fit l by (intro upd_commute) simp_all
    finally show ?thesis .
  qed
  have step: "encode_cgroups_lookup_paths buf base off ?n (p # paths) =
      encode_cgroups_lookup_paths ?b3 base (?o + length ?x) (?n + 1) paths"
    unfolding encode_cgroups_lookup_paths.simps if_not_P [OF nv] Let_def al c(1,2) ok_or.simps rbind.simps if_not_P [OF nf] f
      cl_sizes c(3,4,5) w com ..
  have "\<exists>buf'. encode_cgroups_lookup_paths ?b3 base (?o + length ?x) (length (done @ [p])) paths =
       Ok (base + length (pack_data (map cl_key ((done @ [p]) @ paths))), buf') \<and>
     packed_gen 0 buf' 16 base (base + length (pack_data (map cl_key ((done @ [p]) @ paths)))) (map cl_key ((done @ [p]) @ paths)) \<and>
     length buf' = length ?b3"
    using Cons.prems pk l off hb by (intro Cons.IH) auto
  moreover have "length ?b3 = length buf" using l hb off by simp
  ultimately show ?case using step by simp
qed

lemma encode_cgroups_lookup_request_ok:
  assumes "16 + length paths * 8 + length (pack_data (map cl_key paths)) \<le> length buf" "length buf < 2 ^ 32"
    and "\<And>p. p \<in> set paths \<Longrightarrow> cl_path_ok p"
  shows "\<exists>buf'. encode_cgroups_lookup_request paths buf = Ok (16 + length paths * 8 + length (pack_data (map cl_key paths)), buf') \<and>
     length buf' = length buf \<and> take 16 buf' = lookup_req_wire (word_of_nat (length paths)) \<and>
     packed_final buf' 16 (map cl_key paths)"
proof -
  let ?base = "16 + length paths * 8" and ?h = "lookup_req_wire (word_of_nat (length paths))"
  let ?t = "?base + length (pack_data (map cl_key paths))"
  have "packed_gen 0 buf 16 ?base ?base (map cl_key [])"
    using assms(1) by (simp add: packed_gen_def dir_wire_def)
  then obtain buf1 where b1: "encode_cgroups_lookup_paths buf ?base ?base 0 paths = Ok (?t, buf1)"
      "packed_gen 0 buf1 16 ?base ?t (map cl_key paths)" "length buf1 = length buf"
    using encode_cgroups_lookup_paths_ok [of buf ?base ?base "[]" paths] assms by auto
  let ?b = "upd buf1 0 ?h"
  have c: "checked_mul (length paths) 8 = Some (length paths * 8)" "checked_add 16 (length paths * 8) = Some ?base"
      "checked_u32 (length paths) = Ok (word_of_nat (length paths))"
    using assms(1,2) by (simp_all add: checked_ok USIZE_MAX_def)
  have nl: "\<not> length buf < ?base" using assms(1) by simp
  have "rbind (put_u16 buf1 0 1) (\<lambda>buf. rbind (put_u16 buf 2 0) (\<lambda>buf. rbind (put_u32 buf 4 (word_of_nat (length paths))) (\<lambda>buf.
      rbind (put_u32 buf 8 0) (\<lambda>buf. rbind (put_u32 buf 12 0) (\<lambda>buf. Ok (?t, buf)))))) = (Ok (?t, ?b) :: (nat \<times> bytes) result)"
    using b1(3) assms(1) by (simp add: lookup_req_wire_def upd_upd_append)
  then have "encode_cgroups_lookup_request paths buf = Ok (?t, ?b)"
    unfolding encode_cgroups_lookup_request_def cl_sizes Let_def c ok_or.simps rbind.simps if_not_P [OF nl] b1(1) by simp
  moreover have "packed_final ?b 16 (map cl_key paths)"
    using packed_gen_header [OF b1(2), of ?h] by (intro packed_gen_final) simp_all
  moreover have "take 16 ?b = ?h" "length ?b = length buf" using b1(3) assms(1) by (simp_all add: upd_def)
  ultimately show ?thesis by blast
qed


section \<open>The reservation: every request can be answered\<close>

definition cl_answer_ok :: "cl_entry \<Rightarrow> bool" where
  "cl_answer_ok e \<longleftrightarrow>
     validate_cgroups_lookup_semantics (ce_status e) (ce_orchestrator e) (length (ce_path e)) (length (ce_name e))
       (length (ce_labels e)) = Ok () \<and>
     cl_path_ok (ce_path e) \<and> 0 \<notin> set (ce_name e) \<and> labels_valid (ce_labels e) \<and>
     length (ce_path e) + length (ce_name e) < 2 ^ 63"

definition cl_need :: "cl_entry \<Rightarrow> nat" where
  "cl_need e = 30 + length (ce_path e)"

definition clb_ready :: "nat \<Rightarrow> cgroups_lookup_builder \<Rightarrow> cl_entry list \<Rightarrow> cl_entry list \<Rightarrow> bool" where
  "clb_ready cap b es qs \<longleftrightarrow>
     clb_state cap b es \<and> (\<forall>e \<in> set es. cl_entry_ok e) \<and> clb_error b = None \<and> (\<forall>q \<in> set qs. cl_answer_ok q) \<and>
     length es + length qs = unat (clb_max_items b) \<and>
     length (clb_payload_exceeded_suffix_bytes b) = unat (clb_max_items b) + 1 \<and>
     (\<forall>j \<le> length qs. unat (clb_payload_exceeded_suffix_bytes b ! (length es + j)) = suffix_need (drop j (map cl_need qs))) \<and>
     (qs \<noteq> [] \<longrightarrow> al8 (clb_data_offset b) + suffix_need (map cl_need qs) \<le> cap)"

lemma clb_ready_next:
  assumes r: "clb_ready cap b es (q # qs)" and "clb_state cap b' (es @ [e])" "cl_entry_ok e" "clb_error b' = None" "clb_kept b b'"
    and "qs \<noteq> [] \<Longrightarrow> al8 (clb_data_offset b') + suffix_need (map cl_need qs) \<le> cap"
  shows "clb_ready cap b' (es @ [e]) qs"
proof -
  have "unat (clb_payload_exceeded_suffix_bytes b ! (length es + Suc j)) = suffix_need (drop j (map cl_need qs))"
    if "j \<le> length qs" for j
  proof -
    have "\<forall>j \<le> length (q # qs). unat (clb_payload_exceeded_suffix_bytes b ! (length es + j)) =
        suffix_need (drop j (map cl_need (q # qs)))" using r by (simp add: clb_ready_def)
    from this [rule_format, of "Suc j"] that show ?thesis by simp
  qed
  then show ?thesis using assms by (auto simp: clb_ready_def clb_kept_def)
qed

lemma clb_ready_room:
  assumes "clb_ready cap b es (q # qs)"
  shows "length es < unat (clb_max_items b)" "al8 (clb_data_offset b) + cl_need q \<le> cap"
    "qs \<noteq> [] \<Longrightarrow> al8 (al8 (clb_data_offset b) + cl_need q) + suffix_need (map cl_need qs) \<le> cap"
proof -
  have res: "al8 (clb_data_offset b) + suffix_need (cl_need q # map cl_need qs) \<le> cap"
    and len: "length es + length (q # qs) = unat (clb_max_items b)" using assms by (simp_all add: clb_ready_def)
  have "0 < x" if "x \<in> set (map cl_need qs)" for x using that by (auto simp: cl_need_def)
  note r = reserve_step [OF res this]
  show "length es < unat (clb_max_items b)" using len by simp
  show "al8 (clb_data_offset b) + cl_need q \<le> cap" by (rule r(1))
  show "qs \<noteq> [] \<Longrightarrow> al8 (al8 (clb_data_offset b) + cl_need q) + suffix_need (map cl_need qs) \<le> cap" using r(2) by simp
qed

lemma clb_ready_degrade:
  assumes r: "clb_ready cap b es (q # qs)" and st: "clb_state cap b1 es" and k: "clb_kept b b1"
    and o: "clb_data_offset b1 = clb_data_offset b" and s: "s \<in> {1, 2, 3, 4}"
  shows "\<exists>b'. clb_add_non_known_item s (ce_path q) b1 = Ok b' \<and> clb_ready cap b' (es @ [cl_degraded s (ce_path q)]) qs"
proof -
  note room = clb_ready_room [OF r]
  have m: "clb_max_items b1 = clb_max_items b" using k by (simp add: clb_kept_def)
  obtain b' where b': "clb_add_non_known_item s (ce_path q) b1 = Ok b'" "clb_state cap b' (es @ [cl_degraded s (ce_path q)])"
      "clb_frame b1 b'" "clb_error b' = None" "clb_data_offset b' = al8 (clb_data_offset b1) + (30 + length (ce_path q))"
    using clb_add_non_known_item_ok [OF st, of "ce_path q" s] room m o by (auto simp: cl_need_def)
  have "cl_entry_ok (cl_degraded s (ce_path q))"
    using r s room(2) clb_state_facts(7) [OF st]
    by (intro cl_degraded_ok) (auto simp: clb_ready_def cl_answer_ok_def cl_need_def)
  moreover have "clb_kept b b'" using k b'(3) clb_frame_kept clb_kept_trans by blast
  ultimately have "clb_ready cap b' (es @ [cl_degraded s (ce_path q)]) qs"
    using room(3) b' o by (intro clb_ready_next [OF r]) (simp_all add: cl_need_def)
  with b'(1) show ?thesis by blast
qed

lemma clb_ready_note:
  assumes r: "clb_ready cap b es (q # qs)" and b1: "b1 = b \<or> b1 = b\<lparr>clb_error := err\<rparr>"
  shows "\<exists>b' e. clb_note_item_overflow (ce_path q) b1 = Ok b' \<and> clb_ready cap b' (es @ [e]) qs \<and> cl_graceful q e"
proof -
  have st: "clb_state cap b es" using r by (simp add: clb_ready_def)
  have "\<exists>b'. clb_add_non_known_item CGROUP_LOOKUP_OVERSIZED_ITEM (ce_path q) b1 = Ok b' \<and>
      clb_ready cap b' (es @ [cl_degraded CGROUP_LOOKUP_OVERSIZED_ITEM (ce_path q)]) qs"
    using b1 st by (intro clb_ready_degrade [OF r]) (auto simp: cgroup_status_defs)
  moreover have "\<exists>b'. clb_add_non_known_item CGROUP_LOOKUP_PAYLOAD_EXCEEDED (ce_path q) (b1\<lparr>clb_payload_exceeded_suffix := True\<rparr>) = Ok b' \<and>
      clb_ready cap b' (es @ [cl_degraded CGROUP_LOOKUP_PAYLOAD_EXCEEDED (ce_path q)]) qs"
    using b1 st by (intro clb_ready_degrade [OF r]) (auto simp: cgroup_status_defs clb_kept_def)
  ultimately show ?thesis by (auto simp: clb_note_item_overflow_def cl_graceful_def)
qed

lemma clb_ready_known:
  assumes r: "clb_ready cap b es (q # qs)" and ns: "\<not> clb_payload_exceeded_suffix b" and kn: "ce_status q = CGROUP_LOOKUP_KNOWN"
  shows "\<exists>b' e. clb_add_entry q pv b = Ok b' \<and> clb_ready cap b' (es @ [e]) qs \<and> cl_graceful q e \<and>
    (clb_known_fits b q \<longrightarrow> e = q \<and> clb_payload_exceeded_suffix b' = clb_payload_exceeded_suffix b \<and>
       clb_data_offset b' = al8 (clb_data_offset b) + length (cl_wire q))"
proof -
  let ?fe = "30 + length (ce_path q) + length (ce_name q)"
  have st: "clb_state cap b es" and q: "cl_answer_ok q" using r by (auto simp: clb_ready_def)
  note qq = q [unfolded cl_answer_ok_def]
  note room = clb_ready_room [OF r]
  note l = clb_state_facts(6,7) [OF st]
  have fe: "?fe + 7 \<le> USIZE_MAX" using qq by (simp add: USIZE_MAX_def)
  have lay: "label_layout ?fe (ce_labels q) =
      (if length (cl_wire q) \<le> USIZE_MAX
       then Ok (if ce_labels q = [] then ?fe else al8 ?fe, length (ce_labels q) * 16, length (cl_wire q)) else Err Overflow)"
    using label_layout_cases(2) [OF fe] qq by (simp add: length_cl_wire)
  have eq: "clb_add_entry q pv b = (if clb_known_fits b q then
      clb_write_known_item (ce_status q) (ce_orchestrator q) (ce_path q) (ce_name q) (ce_labels q)
            (word_of_nat (length (ce_labels q))) (al8 (clb_data_offset b)) (al8 (clb_data_offset b) + length (cl_wire q))
            (29 + length (ce_path q)) ?fe (if ce_labels q = [] then ?fe else al8 ?fe) (length (ce_labels q) * 16) (length (cl_wire q)) b
      else clb_note_item_overflow (ce_path q) b)"
    using clb_add_entry_eq [OF st room(1) ns, of q pv] qq kn lay l
    by (auto simp: clb_known_fits_def cl_path_ok_def USIZE_MAX_def)
  show ?thesis
  proof (cases "clb_known_fits b q")
    case False
    then show ?thesis using eq clb_ready_note [OF r] by auto
  next
    case True
    then have f: "length (ce_labels q) < 2 ^ 16" "al8 (clb_data_offset b) + length (cl_wire q) \<le> cap"
        "clb_suffix_fits b (al8 (clb_data_offset b) + length (cl_wire q))" using l by (auto simp: clb_known_fits_def)
    have lay': "label_layout ?fe (ce_labels q) =
       Ok (if ce_labels q = [] then ?fe else al8 ?fe, length (ce_labels q) * 16, length (cl_wire q))"
      using lay f(2) l by (simp add: USIZE_MAX_def)
    obtain b' where b': "clb_add_entry q pv b = Ok b'" "clb_state cap b' (es @ [q])" "cl_entry_ok q" "clb_frame b b'"
        "clb_error b' = None" "clb_data_offset b' = al8 (clb_data_offset b) + length (cl_wire q)"
      using clb_post_known [OF st room(1) _ _ _ _ f(1) lay' f(2)] qq eq True by auto
    have cnt: "unat (clb_item_count b + 1) = length es + 1"
      using clb_state_facts(1) [OF st] room(1) u32_lt [of "clb_max_items b"] by (simp add: unat_word_ariths)
    have wr: "unat (clb_payload_exceeded_suffix_bytes b ! (length es + 1)) = suffix_need (map cl_need qs)"
    proof -
      have "\<forall>j \<le> length (q # qs). unat (clb_payload_exceeded_suffix_bytes b ! (length es + j)) =
          suffix_need (drop j (map cl_need (q # qs)))" using r by (simp add: clb_ready_def)
      from this [rule_format, of 1] show ?thesis by simp
    qed
    have "al8 (clb_data_offset b') + suffix_need (map cl_need qs) \<le> cap"
      using f(3) r cnt wr l room(1) b'(6) by (auto simp: clb_suffix_fits_def suffix_reserved_def clb_ready_def)
    then have "clb_ready cap b' (es @ [q]) qs"
      using b' clb_frame_kept by (intro clb_ready_next [OF r]) simp_all
    then show ?thesis using b' by (auto simp: cl_graceful_def clb_frame_def)
  qed
qed


lemma clb_ready_unknown:
  assumes r: "clb_ready cap b es (q # qs)" and ns: "\<not> clb_payload_exceeded_suffix b" and kn: "ce_status q \<noteq> CGROUP_LOOKUP_KNOWN"
  shows "\<exists>b'. clb_add_entry q pv b = Ok b' \<and> clb_ready cap b' (es @ [q]) qs \<and>
    clb_payload_exceeded_suffix b' = clb_payload_exceeded_suffix b \<and>
    clb_data_offset b' = al8 (clb_data_offset b) + length (cl_wire q)"
proof -
  have st: "clb_state cap b es" and q: "cl_answer_ok q" using r by (auto simp: clb_ready_def)
  note room = clb_ready_room [OF r]
  have d: "cl_degraded (ce_status q) (ce_path q) = q" "ce_status q \<in> {1, 2, 3, 4}"
    using cl_entry_degraded [of q] q kn by (auto simp: cl_answer_ok_def)
  obtain b' where b': "clb_add_non_known_item (ce_status q) (ce_path q) b = Ok b'" "clb_ready cap b' (es @ [q]) qs"
    using clb_ready_degrade [OF r st _ refl d(2)] d(1) by auto
  moreover obtain b2 where "clb_add_non_known_item (ce_status q) (ce_path q) b = Ok b2" "clb_frame b b2"
      "clb_data_offset b2 = al8 (clb_data_offset b) + (30 + length (ce_path q))"
    using clb_add_non_known_item_ok [OF st room(1), of "ce_path q" "ce_status q"] room(2) by (auto simp: cl_need_def)
  moreover have "length (cl_wire q) = 30 + length (ce_path q)"
    using length_cl_degraded [of "ce_status q" "ce_path q"] d(1) by simp
  moreover have "clb_add_entry q pv b = Ok b'"
    using clb_add_entry_unknown [OF ns, of q pv] b'(1) q kn clb_state_facts(4) [OF st] room(1)
    by (auto simp: cl_answer_ok_def cl_path_ok_def)
  ultimately show ?thesis by (auto simp: clb_frame_def)
qed

lemma clb_ready_step:
  assumes r: "clb_ready cap b es (q # qs)"
  shows "\<exists>b' e. clb_add_entry q pv b = Ok b' \<and> clb_ready cap b' (es @ [e]) qs \<and> cl_graceful q e"
proof -
  have st: "clb_state cap b es" using r by (simp add: clb_ready_def)
  consider "clb_payload_exceeded_suffix b" | "\<not> clb_payload_exceeded_suffix b" "ce_status q = CGROUP_LOOKUP_KNOWN"
    | "\<not> clb_payload_exceeded_suffix b" "ce_status q \<noteq> CGROUP_LOOKUP_KNOWN" by blast
  then show ?thesis
  proof cases
    case 1
    then show ?thesis
      using clb_ready_degrade [OF r st _ refl, of CGROUP_LOOKUP_PAYLOAD_EXCEEDED]
      by (auto simp: clb_add_with_path_def cl_graceful_def cgroup_status_defs)
  next
    case 2
    then show ?thesis using clb_ready_known [OF r] by blast
  next
    case 3
    then show ?thesis using clb_ready_unknown [OF r, of pv] cl_graceful_def by blast
  qed
qed

interpretation clans: answering_builder "clb_ready cap" "\<lambda>q. clb_add_entry q pv" cl_graceful for cap pv
  by unfold_locales (rule clb_ready_step)

text \<open>With room for all items in full no answer is degraded.\<close>

definition clb_roomy :: "nat \<Rightarrow> cgroups_lookup_builder \<Rightarrow> cl_entry list \<Rightarrow> cl_entry list \<Rightarrow> bool" where
  "clb_roomy cap b es qs \<longleftrightarrow> clb_ready cap b es qs \<and> \<not> clb_payload_exceeded_suffix b \<and>
     (\<forall>q \<in> set qs. length (ce_labels q) < 2 ^ 16) \<and>
     al8 (clb_data_offset b) + sum_list (map (\<lambda>q. al8 (length (cl_wire q))) qs) \<le> cap"

lemma suffix_need_sum: "list_all2 (\<le>) ls ms \<Longrightarrow> suffix_need ls \<le> sum_list (map al8 ms)"
proof (induction rule: list_all2_induct)
  case (Cons l ls m ms)
  then show ?case using al8_ge [of l] al8_mono [of l m] by auto
qed simp

lemma cl_need_le_wire: "cl_need q \<le> length (cl_wire q)"
  by (simp add: cl_need_def length_cl_wire)

lemma clb_roomy_step:
  assumes r: "clb_roomy cap b es (q # qs)"
  shows "\<exists>b' e. clb_add_entry q pv b = Ok b' \<and> clb_roomy cap b' (es @ [e]) qs \<and> e = q"
proof -
  let ?stop = "al8 (clb_data_offset b) + length (cl_wire q)"
  have rd: "clb_ready cap b es (q # qs)" and ns: "\<not> clb_payload_exceeded_suffix b" and lc: "length (ce_labels q) < 2 ^ 16"
    and sm: "al8 (clb_data_offset b) + al8 (length (cl_wire q)) + sum_list (map (\<lambda>q. al8 (length (cl_wire q))) qs) \<le> cap"
    using r by (auto simp: clb_roomy_def)
  have st: "clb_state cap b es" using rd by (simp add: clb_ready_def)
  note l = clb_state_facts(6,7) [OF st]
  have al: "al8 ?stop = al8 (clb_data_offset b) + al8 (length (cl_wire q))" by (simp add: al8_add)
  have ge: "length (cl_wire q) \<le> al8 (length (cl_wire q))" by (rule al8_ge)
  have "suffix_need (map cl_need qs) \<le> sum_list (map al8 (map (\<lambda>q. length (cl_wire q)) qs))"
    by (rule suffix_need_sum) (simp add: list_all2_conv_all_nth cl_need_le_wire)
  then have need: "suffix_need (map cl_need qs) \<le> sum_list (map (\<lambda>q. al8 (length (cl_wire q))) qs)" by (simp add: comp_def)
  have "clb_known_fits b q"
  proof -
    have cnt: "unat (clb_item_count b + 1) = length es + 1"
      using clb_state_facts(1) [OF st] clb_ready_room(1) [OF rd] u32_lt [of "clb_max_items b"] by (simp add: unat_word_ariths)
    have "\<forall>j \<le> length (q # qs). unat (clb_payload_exceeded_suffix_bytes b ! (length es + j)) =
        suffix_need (drop j (map cl_need (q # qs)))" using rd by (simp add: clb_ready_def)
    from this [rule_format, of 1] have "unat (clb_payload_exceeded_suffix_bytes b ! (length es + 1)) = suffix_need (map cl_need qs)"
      by simp
    moreover have "suffix_need (map cl_need qs) \<le> cap - al8 ?stop" using sm al need by linarith
    ultimately show ?thesis
      using lc l sm al cnt ge by (simp add: clb_known_fits_def clb_suffix_fits_def suffix_reserved_def USIZE_MAX_def)
  qed
  then obtain b' where "clb_add_entry q pv b = Ok b'" "clb_ready cap b' (es @ [q]) qs" "\<not> clb_payload_exceeded_suffix b'"
      "clb_data_offset b' = ?stop"
    using clb_ready_known [OF rd ns, of pv] clb_ready_unknown [OF rd ns, of pv] ns by (cases "ce_status q = CGROUP_LOOKUP_KNOWN") auto
  then show ?thesis using r sm al by (auto simp: clb_roomy_def)
qed

interpretation clroom: answering_builder "clb_roomy cap" "\<lambda>q. clb_add_entry q pv" "\<lambda>q e. e = q" for cap pv
  by unfold_locales (rule clb_roomy_step)


section \<open>Dispatch\<close>

lemma cgroups_lookup_builder_new_ok:
  assumes "16 + unat m * 8 \<le> length buf" "length buf < 2 ^ 32"
  shows "\<exists>b. cgroups_lookup_builder_new buf m g = Ok b \<and> clb_state (length buf) b [] \<and> clb_error b = None \<and>
     clb_max_items b = m \<and> \<not> clb_payload_exceeded_suffix b \<and> clb_data_offset b = 16 + unat m * 8 \<and> clb_generation b = g"
proof -
  have "checked_add 16 (unat m * 8) = Some (16 + unat m * 8)" using u32_lt [of m] by (simp add: checked_ok USIZE_MAX_def)
  then show ?thesis using assms lookup_state_new [OF assms] by (simp add: cgroups_lookup_builder_new_def cl_sizes clb_state_def)
qed

lemma payload_exceeded_lens_ok:
  assumes d: "cgroups_lookup_request_decode buf = Ok v" and l: "length buf \<le> ISIZE_MAX"
    and "i + n = unat (clq_item_count v)"
  shows "payload_exceeded_lens v i n = Ok (map (\<lambda>j. 30 + length (clq_path v j)) [i..<i + n])"
  using assms(3)
proof (induction n arbitrary: i)
  case 0
  then show ?case by simp
next
  case (Suc n)
  have "unat (word_of_nat i :: u32) = i" using Suc.prems u32_lt [of "clq_item_count v"] by simp
  then have "payload_exceeded_item_len v (word_of_nat i) = Ok (30 + length (clq_path v i))"
    using cgroups_lookup_request_path(2) [OF d l, of "word_of_nat i"] Suc.prems by simp
  moreover have "[i..<i + Suc n] = i # [i + 1..<(i + 1) + n]" by (simp add: upt_conv_Cons del: upt_Suc)
  moreover have "payload_exceeded_lens v (i + 1) n = Ok (map (\<lambda>j. 30 + length (clq_path v j)) [i + 1..<(i + 1) + n])"
    using Suc.prems by (intro Suc.IH) simp
  ultimately show ?case by (simp del: upt_Suc)
qed

lemma clb_prepare_ok:
  assumes d: "cgroups_lookup_request_decode buf = Ok v" and l: "length buf \<le> ISIZE_MAX"
    and b: "clb_error b = None" and lens: "lens = map (\<lambda>p. 30 + length p) (clq_paths v)"
  shows "clb_prepare v b \<noteq> Panic"
    and "clb_prepare v b = Ok b' \<Longrightarrow> \<exists>ws. b' = b\<lparr>clb_payload_exceeded_suffix_bytes := ws\<rparr>"
    and "0 < clq_item_count v \<Longrightarrow> suffix_need lens + 7 < 2 ^ 32 \<Longrightarrow> \<exists>ws. clb_prepare v b = Ok (b\<lparr>clb_payload_exceeded_suffix_bytes := ws\<rparr>) \<and>
       length ws = length lens + 1 \<and> (\<forall>j \<le> length lens. unat (ws ! j) = suffix_need (drop j lens))"
proof -
  have pl: "payload_exceeded_lens v 0 (unat (clq_item_count v)) = Ok lens"
    using payload_exceeded_lens_ok [OF d l, of 0] lens by (simp add: clq_paths_def comp_def)
  have c: "checked_add (unat (clq_item_count v)) 1 = Some (unat (clq_item_count v) + 1)"
    using u32_lt [of "clq_item_count v"] by (simp add: checked_ok USIZE_MAX_def)
  have ll: "length lens = unat (clq_item_count v)" using lens by (simp add: clq_paths_def)
  note sb = suffix_bytes_ok [of lens]
  have pe: "clb_prepare v b = (if 0 < clq_item_count v then
      rbind (clb_set_payload_exceeded_item_lens lens b) (\<lambda>b. case clb_error b of Some err \<Rightarrow> Err err | None \<Rightarrow> Ok b) else Ok b)"
    unfolding clb_prepare_def c ok_or.simps rbind.simps pl by (rule refl)
  show "clb_prepare v b \<noteq> Panic"
    using sb by (auto simp: pe clb_set_payload_exceeded_item_lens_def split: outcome.splits option.splits)
  show "\<exists>ws. b' = b\<lparr>clb_payload_exceeded_suffix_bytes := ws\<rparr>" if p: "clb_prepare v b = Ok b'"
  proof (cases "0 < clq_item_count v")
    case True
    then show ?thesis
      using p by (auto simp: pe clb_set_payload_exceeded_item_lens_def split: outcome.splits option.splits)
  next
    case False
    then have "b' = b\<lparr>clb_payload_exceeded_suffix_bytes := clb_payload_exceeded_suffix_bytes b\<rparr>" using p by (simp add: pe)
    then show ?thesis by blast
  qed
  show "\<exists>ws. clb_prepare v b = Ok (b\<lparr>clb_payload_exceeded_suffix_bytes := ws\<rparr>) \<and>
       length ws = length lens + 1 \<and> (\<forall>j \<le> length lens. unat (ws ! j) = suffix_need (drop j lens))"
    if pos: "0 < clq_item_count v" and need: "suffix_need lens + 7 < 2 ^ 32"
  proof -
    have "length lens < USIZE_MAX" using ll u32_lt [of "clq_item_count v"] by (simp add: USIZE_MAX_def)
    then obtain ws where ws: "payload_exceeded_suffix_bytes_from_lens lens = Ok ws" using sb need by auto
    then have "clb_prepare v b = Ok (b\<lparr>clb_payload_exceeded_suffix_bytes := ws\<rparr>)"
      using pos b by (simp add: pe clb_set_payload_exceeded_item_lens_def)
    then show ?thesis using sb ws by auto
  qed
qed


definition cl_respond :: "cgroups_lookup_request_view \<Rightarrow> nat \<times> cl_entry \<Rightarrow> cgroups_lookup_builder \<Rightarrow> clb_outcome" where
  "cl_respond v ia b = clb_add_request_item v (word_of_nat (fst ia)) (ce_status (snd ia)) (ce_orchestrator (snd ia))
     (ce_name (snd ia)) (ce_labels (snd ia)) b"

lemma add_request_item_eq:
  assumes d: "cgroups_lookup_request_decode buf = Ok v" and l: "length buf \<le> ISIZE_MAX"
    and i: "unat i < unat (clq_item_count v)"
  shows "clb_add_request_item v i st orch name labels b = clb_add_with_path st orch (clq_path v (unat i)) name labels True b"
proof -
  note r = cgroups_lookup_request_path [OF d l i refl]
  have "(str_view_as_bytes \<lparr>sv_bytes = clq_path v (unat i) @ [0], sv_len = word_of_nat (length (clq_path v (unat i)))\<rparr> ::
      (nipc_error \<times> cgroups_lookup_builder, bytes) outcome) = Ok (clq_path v (unat i))"
    using r(4) by (simp add: str_view_as_bytes_def slice_rng_ok sub_def)
  then show ?thesis by (simp add: clb_add_request_item_def r(1))
qed

lemma answer_seq_respond:
  assumes d: "cgroups_lookup_request_decode buf = Ok v" and l: "length buf \<le> ISIZE_MAX"
    and "map ce_path qs = map (clq_path v) [k..<unat (clq_item_count v)]" "k \<le> unat (clq_item_count v)"
  shows "answer_seq (cl_respond v) (enumerate k qs) b = answer_seq (\<lambda>q. clb_add_entry q True) qs b"
  using assms(3,4)
proof (induction qs arbitrary: k b)
  case Nil
  then show ?case by simp
next
  case (Cons q qs)
  have k: "k < unat (clq_item_count v)"
  proof (rule ccontr)
    assume "\<not> ?thesis"
    then have "[k..<unat (clq_item_count v)] = []" by simp
    with Cons.prems(1) show False by simp
  qed
  have u: "unat (word_of_nat k :: u32) = k" using k u32_lt [of "clq_item_count v"] by simp
  have e: "ce_path q = clq_path v k" "map ce_path qs = map (clq_path v) [Suc k..<unat (clq_item_count v)]"
    using Cons.prems(1) k by (auto simp: upt_conv_Cons)
  have "cl_respond v (k, q) b = clb_add_entry q True b"
    using add_request_item_eq [OF d l, of "word_of_nat k"] u k e by (simp add: cl_respond_def)
  moreover have "answer_seq (cl_respond v) (enumerate (Suc k) qs) b' = answer_seq (\<lambda>q. clb_add_entry q True) qs b'" for b'
    using Cons.IH [OF e(2)] k by simp
  ultimately show ?case by (cases "clb_add_entry q True b") simp_all
qed

lemma clb_prepare_ready:
  assumes d: "cgroups_lookup_request_decode req = Ok v" and l: "length req \<le> ISIZE_MAX"
    and new: "clb_state cap b []" "clb_error b = None" "clb_max_items b = clq_item_count v" "clb_data_offset b = 16 + length qs * 8"
    and qs: "map ce_path qs = clq_paths v" "\<And>q. q \<in> set qs \<Longrightarrow> cl_answer_ok q" and ne: "qs \<noteq> []"
    and fit: "16 + length qs * 8 + suffix_need (map cl_need qs) \<le> cap"
  shows "\<exists>ws. clb_prepare v b = Ok (b\<lparr>clb_payload_exceeded_suffix_bytes := ws\<rparr>) \<and>
     clb_ready cap (b\<lparr>clb_payload_exceeded_suffix_bytes := ws\<rparr>) [] qs"
proof -
  let ?lens = "map (\<lambda>p. 30 + length p) (clq_paths v)"
  have n: "length qs = unat (clq_item_count v)" using arg_cong [OF qs(1), of length] by (simp add: clq_paths_def)
  have lens: "?lens = map cl_need qs" unfolding qs(1) [symmetric] by (simp add: comp_def cl_need_def)
  note cap = clb_state_facts(7) [OF new(1)]
  have pos: "0 < clq_item_count v" using ne by (simp add: word_less_nat_alt n [symmetric])
  have need: "suffix_need ?lens + 7 < 2 ^ 32" using fit cap ne lens by (cases qs) auto
  obtain ws where ws: "clb_prepare v b = Ok (b\<lparr>clb_payload_exceeded_suffix_bytes := ws\<rparr>)"
      "length ws = length ?lens + 1" "\<forall>j \<le> length ?lens. unat (ws ! j) = suffix_need (drop j ?lens)"
    using clb_prepare_ok(3) [OF d l new(2) refl pos need] by blast
  have al: "al8 (16 + length qs * 8) = 16 + length qs * 8" by (simp add: mod_simps)
  have "clb_ready cap (b\<lparr>clb_payload_exceeded_suffix_bytes := ws\<rparr>) [] qs"
    using new ws(2,3) lens n qs(2) fit al by (auto simp: clb_ready_def)
  with ws(1) show ?thesis by blast
qed


definition clb_full_room :: "nat \<Rightarrow> cl_entry list \<Rightarrow> bool" where
  "clb_full_room cap qs \<longleftrightarrow> (\<forall>q \<in> set qs. length (ce_labels q) < 2 ^ 16) \<and>
     16 + length qs * 8 + sum_list (map (\<lambda>q. al8 (length (cl_wire q))) qs) \<le> cap"

lemma clb_ready_run:
  assumes r: "clb_ready cap b [] qs" and b: "\<not> clb_payload_exceeded_suffix b" "clb_data_offset b = 16 + length qs * 8"
  shows "\<exists>b2 es. answer_seq (\<lambda>q. clb_add_entry q pv) qs b = Ok b2 \<and> clb_ready cap b2 es [] \<and>
     list_all2 cl_graceful qs es \<and> (clb_full_room cap qs \<longrightarrow> es = qs)"
proof (cases "clb_full_room cap qs")
  case True
  then have "clb_roomy cap b [] qs" using r b by (simp add: clb_roomy_def clb_full_room_def mod_simps)
  then obtain b3 fs where f: "answer_seq (\<lambda>q. clb_add_entry q pv) qs b = Ok b3" "clb_roomy cap b3 fs []"
      "list_all2 (\<lambda>q e. e = q) qs fs"
    using clroom.run [of cap b "[]" qs pv] by auto
  moreover have "fs = qs" using f(3) by (auto simp: list_all2_conv_all_nth intro: nth_equalityI)
  moreover have "list_all2 cl_graceful qs qs" by (simp add: list_all2_same cl_graceful_def)
  ultimately show ?thesis by (auto simp: clb_roomy_def)
next
  case False
  then show ?thesis using clans.run [OF r, of pv] by auto
qed

lemma clb_prepare_run:
  assumes d: "cgroups_lookup_request_decode req = Ok v" and l: "length req \<le> ISIZE_MAX"
    and new: "clb_state cap b []" "clb_error b = None" "clb_max_items b = clq_item_count v"
      "\<not> clb_payload_exceeded_suffix b" "clb_data_offset b = 16 + length qs * 8"
    and qs: "map ce_path qs = clq_paths v" "\<And>q. q \<in> set qs \<Longrightarrow> cl_answer_ok q"
    and fit: "16 + length qs * 8 + suffix_need (map cl_need qs) \<le> cap"
  shows "\<exists>b1 b2 es. clb_prepare v b = Ok b1 \<and> answer_seq (\<lambda>q. clb_add_entry q pv) qs b1 = Ok b2 \<and>
     clb_state cap b2 es \<and> (\<forall>e \<in> set es. cl_entry_ok e) \<and> clb_error b2 = None \<and> list_all2 cl_graceful qs es \<and>
     (clb_full_room cap qs \<longrightarrow> es = qs)"
proof (cases "qs = []")
  case True
  then have "clq_item_count v = 0" using arg_cong [OF qs(1), of length] by (simp add: clq_paths_def unat_eq_0)
  then have "clb_prepare v b = Ok b" by (simp add: clb_prepare_def)
  then show ?thesis using True new by simp
next
  case False
  obtain ws where ws: "clb_prepare v b = Ok (b\<lparr>clb_payload_exceeded_suffix_bytes := ws\<rparr>)"
      "clb_ready cap (b\<lparr>clb_payload_exceeded_suffix_bytes := ws\<rparr>) [] qs"
    using clb_prepare_ready [OF d l new(1-3,5) qs False fit] by blast
  then show ?thesis using clb_ready_run [OF ws(2), of pv] new(4,5) by (auto simp: clb_ready_def)
qed

lemma dispatch_cgroups_lookup_eq:
  assumes "cgroups_lookup_request_decode req = Ok v" "16 + unat (clq_item_count v) * 8 \<le> length resp"
    and "cgroups_lookup_builder_new resp (clq_item_count v) 0 = Ok b"
  shows "dispatch_cgroups_lookup req resp handler = rbind (clb_prepare v b) (\<lambda>b. case handler v b of (ok, b) \<Rightarrow>
     if \<not> ok then Err (case clb_error b of Some err \<Rightarrow> err | None \<Rightarrow> HandlerFailed)
     else case clb_error b of Some err \<Rightarrow> Err err
       | None \<Rightarrow> if clb_item_count b \<noteq> clq_item_count v then Err BadItemCount else clb_finish b)"
  using assms by (simp add: dispatch_cgroups_lookup_def cl_sizes)

text \<open>A handler that answers every path with \<open>add_request_item\<close>.\<close>

lemma dispatch_answers_run:
  assumes d: "cgroups_lookup_request_decode req = Ok v" and l: "length req \<le> ISIZE_MAX" and cap: "length resp < 2 ^ 32"
    and qs: "map ce_path qs = clq_paths v" "\<forall>q \<in> set qs. cl_answer_ok q"
    and fit: "16 + length qs * 8 + suffix_need (map cl_need qs) \<le> length resp"
    and handler: "\<And>b b'. answer_seq (cl_respond v) (enumerate 0 qs) b = Ok b' \<Longrightarrow> handler v b = (True, b')"
  shows "\<exists>n resp' w es. dispatch_cgroups_lookup req resp handler = Ok (n, resp') \<and> n \<le> length resp \<and>
     cgroups_lookup_response_decode (take n resp') = Ok w \<and> clr_item_count w = clq_item_count v \<and>
     list_all2 cl_graceful qs es \<and>
     (\<forall>i < length qs. cgroups_lookup_response_item w (word_of_nat i) = Ok (cl_view (es ! i))) \<and>
     (clb_full_room (length resp) qs \<longrightarrow> es = qs)"
proof -
  have n: "length qs = unat (clq_item_count v)" using arg_cong [OF qs(1), of length] by (simp add: clq_paths_def)
  obtain b where b: "cgroups_lookup_builder_new resp (clq_item_count v) 0 = Ok b" "clb_state (length resp) b []"
      "clb_error b = None" "clb_max_items b = clq_item_count v" "\<not> clb_payload_exceeded_suffix b"
      "clb_data_offset b = 16 + length qs * 8"
    using cgroups_lookup_builder_new_ok [of "clq_item_count v" resp 0] fit cap n by auto
  note deq = dispatch_cgroups_lookup_eq [OF d _ b(1), of handler]
  have seq: "answer_seq (cl_respond v) (enumerate 0 qs) b = answer_seq (\<lambda>q. clb_add_entry q True) qs b" for b
    using answer_seq_respond [OF d l, of qs 0] qs(1) by (simp add: clq_paths_def)
  obtain b1 b2 es where run: "clb_prepare v b = Ok b1" "answer_seq (\<lambda>q. clb_add_entry q True) qs b1 = Ok b2"
      "clb_state (length resp) b2 es" "\<And>e. e \<in> set es \<Longrightarrow> cl_entry_ok e" "clb_error b2 = None" "list_all2 cl_graceful qs es"
      "clb_full_room (length resp) qs \<Longrightarrow> es = qs"
    using clb_prepare_run [OF d l b(2-6) qs(1) _ fit] qs(2) by blast
  have es: "length es = length qs" using list_all2_lengthD [OF run(6)] by simp
  obtain k resp' w where fin: "clb_finish b2 = Ok (k, resp')" "k \<le> length resp" "cgroups_lookup_response_decode (take k resp') = Ok w"
      "clr_item_count w = clb_item_count b2" "\<forall>i < length es. cgroups_lookup_response_item w (word_of_nat i) = Ok (cl_view (es ! i))"
    using clb_finish_decodes [OF run(3,4)] by blast
  have cnt: "clb_item_count b2 = clq_item_count v"
    using clb_state_facts(1) [OF run(3)] es n by (metis word_unat_eq_iff)
  have "dispatch_cgroups_lookup req resp handler = Ok (k, resp')"
    using deq fit n handler [of b1 b2] seq [of b1] run(1,2,5) cnt fin(1) by simp
  then show ?thesis
    using fin cnt run(6,7) es
    by (intro exI [of _ k] exI [of _ resp'] exI [of _ w] exI [of _ es]) auto
qed

text \<open>C4: every lookup that fits its reservation is answered. If the response buffer has room for the
  header, the directory and one minimal item per requested path, then a handler that answers every
  path in order with \<open>add_request_item\<close> and well-formed data always succeeds, however large its answers
  are: dispatch returns a response that decodes, with one item per path, in order, which is the
  handler's answer or the OVERSIZED_ITEM or PAYLOAD_EXCEEDED answer for the same path. If all the
  answers fit in full, they are returned as they are.\<close>

theorem cgroups_lookup_answers:
  assumes d: "cgroups_lookup_request_decode req = Ok v" and l: "length req \<le> ISIZE_MAX" and cap: "length resp < 2 ^ 32"
    and qs: "map ce_path qs = clq_paths v" "\<forall>q \<in> set qs. cl_answer_ok q"
    and fit: "16 + length qs * 8 + suffix_need (map cl_need qs) \<le> length resp"
    and handler: "\<And>b b'. answer_seq (cl_respond v) (enumerate 0 qs) b = Ok b' \<Longrightarrow> handler v b = (True, b')"
  shows "\<exists>n resp' w es. dispatch_cgroups_lookup req resp handler = Ok (n, resp') \<and> n \<le> length resp \<and>
     cgroups_lookup_response_decode (take n resp') = Ok w \<and> clr_item_count w = clq_item_count v \<and>
     list_all2 cl_graceful qs es \<and>
     (\<forall>i < length qs. cgroups_lookup_response_item w (word_of_nat i) = Ok (cl_view (es ! i))) \<and>
     (clb_full_room (length resp) qs \<longrightarrow> es = qs)"
  using assms by (rule dispatch_answers_run)


lemma cgroups_lookup_request_final:
  assumes hdr: "take 16 buf = lookup_req_wire (word_of_nat (length paths))"
    and fin: "packed_final buf 16 (map cl_key paths)" and len: "length buf < 2 ^ 32"
    and ok: "\<And>p. p \<in> set paths \<Longrightarrow> cl_path_ok p"
  shows "\<exists>v. cgroups_lookup_request_decode buf = Ok v \<and> clq_item_count v = word_of_nat (length paths) \<and> clq_paths v = paths"
proof -
  let ?n = "length paths" and ?xs = "map cl_key paths"
  note r = lookup_req_reads [OF hdr]
  have le: "16 + ?n * 8 + length (pack_data ?xs) \<le> length buf" using fin by (simp add: packed_final_def)
  have un: "unat (word_of_nat ?n :: u32) = ?n" using le len by simp
  have li: "length buf \<le> ISIZE_MAX" using len by (simp add: ISIZE_MAX_def)
  have k2: "2 \<le> length x" if "x \<in> set ?xs" for x
    using that ok by (auto simp: cl_path_ok_def length_greater_0_conv [symmetric] Suc_le_eq simp del: length_greater_0_conv)
  have vd: "validate_lookup_dir buf 16 (word_of_nat ?n) (length buf - (16 + ?n * 8)) 2 None = Ok ()"
    using packed_final_validates [OF fin len, where exact = None and min_len = 2 and n = "word_of_nat ?n"] k2 un by simp
  have dir: "dir_off buf 16 j + dir_len buf 16 j \<le> length (pack_data ?xs)" "dir_len buf 16 j = length (paths ! j) + 1"
      "sub buf (16 + ?n * 8 + dir_off buf 16 j) (dir_len buf 16 j) = paths ! j @ [0]" if "j < ?n" for j
    using packed_final_dir [OF fin len, of j] that by simp_all
  have "16 + ?n * 8 + dir_off buf 16 j + dir_len buf 16 j \<le> length buf \<and>
      (\<exists>p. 0 \<notin> set p \<and> sub buf (16 + ?n * 8 + dir_off buf 16 j) (dir_len buf 16 j) = p @ [0])" if "j < ?n" for j
    using dir [OF that] le ok [of "paths ! j"] that by (auto simp: cl_path_ok_def)
  then have ck: "cgroups_lookup_check_keys buf (16 + ?n * 8) 0 ?n = Ok ()"
    using cgroups_lookup_check_keys_ok [of 0 ?n buf "16 + ?n * 8"] le li dir(2) by simp
  let ?v = "clq_view_of buf"
  have d: "cgroups_lookup_request_decode buf = Ok ?v"
    using le r un vd ck by (simp add: cgroups_lookup_request_decode_ok(2) [OF li])
  have c: "clq_item_count ?v = word_of_nat ?n" using r by (simp add: clq_view_of_def)
  have "clq_path ?v j = paths ! j" if "j < ?n" for j
    using dir(3) [OF that] r un by (simp add: clq_path_def clq_view_of_def)
  then have "clq_paths ?v = paths" using c un by (intro nth_equalityI) (simp_all add: clq_paths_def)
  with d c show ?thesis by blast
qed

text \<open>A list of cgroup paths survives the request encoding. Every list of non-empty NUL-free paths that
  fits the buffer is encoded, the payload decodes, and \<open>item(i)\<close> is the i-th path, NUL-terminated.\<close>

lemma cgroups_request_reads_back:
  assumes fit: "16 + length paths * 8 + length (pack_data (map cl_key paths)) \<le> length buf" and len: "length buf < 2 ^ 32"
    and ok: "\<forall>p \<in> set paths. p \<noteq> [] \<and> 0 \<notin> set p"
  shows "\<exists>n buf' v. encode_cgroups_lookup_request paths buf = Ok (n, buf') \<and> n \<le> length buf \<and>
     cgroups_lookup_request_decode (take n buf') = Ok v \<and> clq_item_count v = word_of_nat (length paths) \<and>
     (\<forall>i < length paths. cgroups_lookup_request_item v (word_of_nat i) =
        Ok \<lparr>sv_bytes = paths ! i @ [0], sv_len = word_of_nat (length (paths ! i))\<rparr>)"
proof -
  let ?n = "16 + length paths * 8 + length (pack_data (map cl_key paths))"
  have ok': "cl_path_ok p" if "p \<in> set paths" for p using ok that by (simp add: cl_path_ok_def)
  obtain buf' where e: "encode_cgroups_lookup_request paths buf = Ok (?n, buf')" "length buf' = length buf"
      "take 16 buf' = lookup_req_wire (word_of_nat (length paths))" "packed_final buf' 16 (map cl_key paths)"
    using encode_cgroups_lookup_request_ok [OF fit len ok'] by auto
  let ?b = "take ?n buf'"
  have h: "take 16 ?b = lookup_req_wire (word_of_nat (length paths))" using e(3) by simp
  have f: "packed_final ?b 16 (map cl_key paths)" using e(4) by (intro packed_final_take) simp_all
  have l: "length ?b < 2 ^ 32" using e(2) len by simp
  obtain v where v: "cgroups_lookup_request_decode ?b = Ok v" "clq_item_count v = word_of_nat (length paths)" "clq_paths v = paths"
    using cgroups_lookup_request_final [OF h f l ok'] by blast
  have un: "unat (word_of_nat (length paths) :: u32) = length paths" using fit len by simp
  have "cgroups_lookup_request_item v (word_of_nat i) =
      Ok \<lparr>sv_bytes = paths ! i @ [0], sv_len = word_of_nat (length (paths ! i))\<rparr>" if "i < length paths" for i
  proof -
    have ui: "unat (word_of_nat i :: u32) = i" using that fit len by simp
    have "clq_path v i = paths ! i" using arg_cong [OF v(3), of "\<lambda>ps. ps ! i"] that v(2) un by (simp add: clq_paths_def)
    then show ?thesis
      using cgroups_lookup_request_path(1) [OF v(1), of "word_of_nat i"] l ui un v(2) that by (simp add: ISIZE_MAX_def)
  qed
  then show ?thesis using e(1) fit v(1,2) by (intro exI [of _ ?n] exI [of _ buf'] exI [of _ v]) simp
qed


definition sample_cl_request :: bytes where
  "sample_cl_request = lookup_req_wire 1 @ dir_wire (pack_dir [cl_key [47]]) @ [47, 0]"

definition sample_cl_answer :: cl_entry where
  "sample_cl_answer = \<lparr>ce_status = CGROUP_LOOKUP_KNOWN, ce_orchestrator = ORCHESTRATOR_DOCKER, ce_path = [47],
     ce_name = [97, 98], ce_labels = [([107], [118])]\<rparr>"

definition sample_cl_handler :: "cgroups_lookup_request_view \<Rightarrow> cgroups_lookup_builder \<Rightarrow> bool \<times> cgroups_lookup_builder" where
  "sample_cl_handler v b =
     (case cl_respond v (0, sample_cl_answer) b of Ok b' \<Rightarrow> (True, b') | Err (_, b') \<Rightarrow> (False, b') | Panic \<Rightarrow> (False, b))"

lemma sample_cl_request_decodes:
  "\<exists>v. cgroups_lookup_request_decode sample_cl_request = Ok v \<and> clq_item_count v = 1 \<and> clq_paths v = [[47]]"
proof -
  have "packed_final sample_cl_request 16 (map cl_key [[47]])"
    by (simp add: packed_final_def sample_cl_request_def append_windows pack_def pack_step_def al8_def)
  moreover have "take 16 sample_cl_request = lookup_req_wire (word_of_nat (length [[47 :: u8]]))"
    by (simp add: sample_cl_request_def)
  ultimately show ?thesis
    using cgroups_lookup_request_final [of sample_cl_request "[[47]]"]
    by (simp add: cl_path_ok_def sample_cl_request_def)
qed

lemma sample_cl_answer_ok: "cl_answer_ok sample_cl_answer"
  by (simp add: cl_answer_ok_def sample_cl_answer_def validate_cgroups_lookup_semantics_def cl_path_ok_def labels_valid_def
      cgroup_status_defs)

lemma sample_cl_run:
  "sample_cl_handler v b = (True, b')" if "answer_seq (cl_respond v) (enumerate 0 [sample_cl_answer]) b = Ok b'"
  using that by (auto simp: sample_cl_handler_def rbind_eq_Ok)

theorem cgroups_lookup_answers_witness:
  "\<exists>v n resp' w. cgroups_lookup_request_decode sample_cl_request = Ok v \<and>
     dispatch_cgroups_lookup sample_cl_request (replicate 100 9) sample_cl_handler = Ok (n, resp') \<and>
     cgroups_lookup_response_decode (take n resp') = Ok w \<and> clr_item_count w = 1 \<and>
     cgroups_lookup_response_item w 0 = Ok (cl_view sample_cl_answer)"
proof -
  obtain v where v: "cgroups_lookup_request_decode sample_cl_request = Ok v" "clq_item_count v = 1" "clq_paths v = [[47]]"
    using sample_cl_request_decodes by blast
  have room: "clb_full_room 100 [sample_cl_answer]"
    by (simp add: clb_full_room_def sample_cl_answer_def length_cl_wire length_label_block al8_def)
  obtain n resp' w es where r: "dispatch_cgroups_lookup sample_cl_request (replicate 100 9) sample_cl_handler = Ok (n, resp')"
      "cgroups_lookup_response_decode (take n resp') = Ok w" "clr_item_count w = 1"
      "\<forall>i < length [sample_cl_answer]. cgroups_lookup_response_item w (word_of_nat i) = Ok (cl_view (es ! i))" "es = [sample_cl_answer]"
    using cgroups_lookup_answers [OF v(1), of "replicate 100 9" "[sample_cl_answer]" sample_cl_handler] v sample_cl_run room sample_cl_answer_ok
    by (auto simp: sample_cl_request_def ISIZE_MAX_def sample_cl_answer_def cl_need_def)
  then show ?thesis using v(1) r(4) [rule_format, of 0] by auto
qed

text \<open>Reading a lookup request never panics, whatever bytes the client sent, and an accepted request has
  only usable paths: for every index \<open>item\<close> returns a non-empty NUL-free path inside the payload, which
  \<open>as_bytes\<close> returns without its terminator.\<close>

lemma cgroups_request_readable:
  assumes "length buf \<le> ISIZE_MAX"
  shows "cgroups_lookup_request_decode buf \<noteq> Panic \<and>
    (\<forall>v i. cgroups_lookup_request_decode buf = Ok v \<longrightarrow>
       (i < clq_item_count v \<longrightarrow> (\<exists>sv path. cgroups_lookup_request_item v i = Ok sv \<and>
          str_view_as_bytes sv = (Ok path :: bytes result) \<and> path \<noteq> [] \<and> 0 \<notin> set path)) \<and>
       (\<not> i < clq_item_count v \<longrightarrow> cgroups_lookup_request_item v i = Err OutOfBounds))"
proof (intro conjI allI impI)
  show "cgroups_lookup_request_decode buf \<noteq> Panic" using cgroups_lookup_request_decode_ok(1) [OF assms] .
  fix v i assume d: "cgroups_lookup_request_decode buf = Ok v"
  show "\<exists>sv path. cgroups_lookup_request_item v i = Ok sv \<and>
          str_view_as_bytes sv = (Ok path :: bytes result) \<and> path \<noteq> [] \<and> 0 \<notin> set path" if "i < clq_item_count v"
  proof -
    have "unat i < unat (clq_item_count v)" using that by (simp add: word_less_nat_alt)
    note r = cgroups_lookup_request_path [OF d assms this refl]
    then show ?thesis by (auto simp: str_view_as_bytes_def slice_rng_ok sub_def cl_path_ok_def)
  qed
  show "cgroups_lookup_request_item v i = Err OutOfBounds" if "\<not> i < clq_item_count v"
    using that by (simp add: cgroups_lookup_request_item_def not_less)
qed

text \<open>Reading a lookup response never panics, whatever bytes the server sent, and an accepted response
  can be read completely: every item decodes, its path is non-empty, its strings are NUL-terminated
  windows of the payload, and every label it announces can be read.\<close>

lemma cgroups_response_readable:
  assumes l: "length buf \<le> ISIZE_MAX"
  shows "cgroups_lookup_response_decode buf \<noteq> Panic \<and>
    (\<forall>v i. cgroups_lookup_response_decode buf = Ok v \<longrightarrow>
       (i < clr_item_count v \<longrightarrow> (\<exists>iv. cgroups_lookup_response_item v i = Ok iv \<and>
          str_view_ok (cli_path iv) \<and> str_view_ok (cli_name iv) \<and> 0 < sv_len (cli_path iv) \<and>
          (\<forall>j. unat j < unat (cli_label_count iv) \<longrightarrow> (\<exists>lv. cgroups_lookup_item_label iv j = Ok lv)))) \<and>
       (\<not> i < clr_item_count v \<longrightarrow> cgroups_lookup_response_item v i = Err OutOfBounds))"
proof (intro conjI allI impI)
  show "cgroups_lookup_response_decode buf \<noteq> Panic" using clresp.resp_decode_ok(1) [OF l] .
  fix v i assume d: "cgroups_lookup_response_decode buf = Ok v"
  show "\<exists>iv. cgroups_lookup_response_item v i = Ok iv \<and>
          str_view_ok (cli_path iv) \<and> str_view_ok (cli_name iv) \<and> 0 < sv_len (cli_path iv) \<and>
          (\<forall>j. unat j < unat (cli_label_count iv) \<longrightarrow> (\<exists>lv. cgroups_lookup_item_label iv j = Ok lv))" if "i < clr_item_count v"
  proof -
    have i: "unat i < unat (clr_item_count v)" using that by (simp add: word_less_nat_alt)
    let ?item = "sub buf (16 + unat (clr_item_count v) * 8 + dir_off buf 16 (unat i)) (dir_len buf 16 (unat i))"
    note e = clresp.item_facts [OF d l i refl]
    obtain iv where iv: "decode_cgroups_item ?item = Ok iv" using e(2) by blast
    have "length ?item \<le> ISIZE_MAX" using l by simp
    note r = decode_cgroups_item_readable [OF iv this]
    show ?thesis using e(1) iv r by (auto simp: word_less_nat_alt)
  qed
  show "cgroups_lookup_response_item v i = Err OutOfBounds" if "\<not> i < clr_item_count v"
    using that by (rule clresp.item_out_of_bounds)
qed

definition sample_cl_response :: bytes where
  "sample_cl_response = lookup_hdr_wire 1 5 @ dir_wire [(0, length (cl_wire sample_cl_answer))] @ cl_wire sample_cl_answer"

lemma sample_cl_entry_ok: "cl_entry_ok sample_cl_answer"
  using sample_cl_answer_ok
  by (auto simp: cl_entry_ok_def cl_answer_ok_def cl_path_ok_def) (simp_all add: sample_cl_answer_def length_cl_wire length_label_block al8_def)

lemma sample_cl_response_decodes:
  "\<exists>v. cgroups_lookup_response_decode sample_cl_response = Ok v \<and> clr_item_count v = 1"
proof -
  let ?xs = "[cl_wire sample_cl_answer]"
  have "packed_final sample_cl_response 16 ?xs"
    by (simp add: packed_final_def sample_cl_response_def append_windows pack_def pack_step_def al8_def)
  moreover have "take 16 sample_cl_response = lookup_hdr_wire (word_of_nat (length ?xs)) 5"
    by (simp add: sample_cl_response_def)
  moreover have "length sample_cl_response < 2 ^ 32"
    by (simp add: sample_cl_response_def sample_cl_answer_def length_cl_wire length_label_block al8_def)
  ultimately show ?thesis
    using clresp.final_decode(1) [OF _ _ _ _ refl, of sample_cl_response ?xs 5]
      decode_cgroups_item_wire [OF sample_cl_entry_ok] by (auto simp: length_cl_wire)
qed

text \<open>Reading cgroup lookup messages never panics, whatever bytes the peer sent. Every index of an accepted request has
  a non-empty NUL-free path inside the payload. Every item of an accepted response decodes, its path is non-empty, its strings are
  NUL-terminated windows of the payload, and every label it announces can be read.\<close>

lemma cgroups_views_readable:
  assumes "length buf \<le> ISIZE_MAX"
  shows "cgroups_lookup_request_decode buf \<noteq> Panic \<and> cgroups_lookup_response_decode buf \<noteq> Panic \<and>
    (\<forall>v i. cgroups_lookup_request_decode buf = Ok v \<longrightarrow>
       (i < clq_item_count v \<longrightarrow> (\<exists>sv path. cgroups_lookup_request_item v i = Ok sv \<and>
          str_view_as_bytes sv = (Ok path :: bytes result) \<and> path \<noteq> [] \<and> 0 \<notin> set path)) \<and>
       (\<not> i < clq_item_count v \<longrightarrow> cgroups_lookup_request_item v i = Err OutOfBounds)) \<and>
    (\<forall>v i. cgroups_lookup_response_decode buf = Ok v \<longrightarrow>
       (i < clr_item_count v \<longrightarrow> (\<exists>iv. cgroups_lookup_response_item v i = Ok iv \<and>
          str_view_ok (cli_path iv) \<and> str_view_ok (cli_name iv) \<and> 0 < sv_len (cli_path iv) \<and>
          (\<forall>j. unat j < unat (cli_label_count iv) \<longrightarrow> (\<exists>lv. cgroups_lookup_item_label iv j = Ok lv)))) \<and>
       (\<not> i < clr_item_count v \<longrightarrow> cgroups_lookup_response_item v i = Err OutOfBounds))"
  using cgroups_request_readable [OF assms] cgroups_response_readable [OF assms] by blast


text \<open>
  What a handler can do with the builder it is lent: call \<open>add\<close> with any status, strings and labels, \<open>add_request_item\<close>,
  \<open>set_generation\<close> and \<open>set_payload_exceeded_item_lens\<close>, in any order, and go on after a failed add with
  the builder as that add left it. Strings are bounded by what an address space can hold. \<open>P\<close> describes the paths that the
  handler gives to \<open>add\<close> while the builder is in its payload-exceeded state, where \<open>add\<close> does not check them.
\<close>

inductive clb_steps :: "(bytes \<Rightarrow> bool) \<Rightarrow> cgroups_lookup_request_view \<Rightarrow> cgroups_lookup_builder \<Rightarrow> cgroups_lookup_builder \<Rightarrow> bool"
  for P v where
  cl_none: "clb_steps P v b b"
| cl_add: "clb_steps P v b b1 \<Longrightarrow> (clb_payload_exceeded_suffix b1 \<Longrightarrow> P path) \<Longrightarrow> length path + length name < 2 ^ 63 \<Longrightarrow>
    clb_add st orch path name labels b1 \<in> {Ok b2, Err (err, b2)} \<Longrightarrow> clb_steps P v b b2"
| cl_add_request: "clb_steps P v b b1 \<Longrightarrow> length name < 2 ^ 62 \<Longrightarrow>
    clb_add_request_item v i st orch name labels b1 \<in> {Ok b2, Err (err, b2)} \<Longrightarrow> clb_steps P v b b2"
| cl_generation: "clb_steps P v b b1 \<Longrightarrow> clb_steps P v b (clb_set_generation g b1)"
| cl_lens: "clb_steps P v b b1 \<Longrightarrow> clb_set_payload_exceeded_item_lens lens b1 = Ok b2 \<Longrightarrow> clb_steps P v b b2"

text \<open>What is in the buffer then: entries that decode, and stand-ins for unchecked paths.\<close>

definition cl_entry_from :: "(bytes \<Rightarrow> bool) \<Rightarrow> cl_entry \<Rightarrow> bool" where
  "cl_entry_from P e \<longleftrightarrow> cl_entry_ok e \<or> (\<not> cl_path_ok (ce_path e) \<and> P (ce_path e))"

definition clb_holds :: "(bytes \<Rightarrow> bool) \<Rightarrow> nat \<Rightarrow> u32 \<Rightarrow> cgroups_lookup_builder \<Rightarrow> bool" where
  "clb_holds P cap m b \<longleftrightarrow> (\<exists>es. clb_state cap b es \<and> (\<forall>e \<in> set es. cl_entry_from P e)) \<and> clb_max_items b = m"

lemma clb_post_holds:
  assumes "clb_post cap es Q b r" "r \<in> {Ok b2, Err (err, b2)}" "\<forall>e \<in> set es. cl_entry_from P e" "clb_max_items b = m"
  shows "clb_holds P cap m b2"
proof -
  consider "r = Ok b2" | "r = Err (err, b2)" using assms(2) by blast
  then show ?thesis
  proof cases
    case 1
    then obtain e where "clb_state cap b2 (es @ [e])" "cl_entry_ok e" "clb_kept b b2" using assms(1) by auto
    then show ?thesis
      using assms(3,4) by (auto simp: clb_holds_def clb_kept_def cl_entry_from_def intro!: exI [of _ "es @ [e]"])
  next
    case 2
    then show ?thesis using assms by (auto simp: clb_holds_def clb_kept_def)
  qed
qed

text \<open>An add with an unusable path fails in the normal state; in the payload-exceeded state it may place a stand-in.\<close>

lemma clb_add_bad_path:
  assumes st: "clb_state cap b es" and es: "\<forall>e \<in> set es. cl_entry_from P e" "clb_max_items b = m"
    and p: "\<not> cl_path_ok path" "clb_payload_exceeded_suffix b \<Longrightarrow> P path"
    and r: "clb_add status orch path name labels b \<in> {Ok b2, Err (err, b2)}"
  shows "clb_holds P cap m b2"
proof (cases "clb_payload_exceeded_suffix b")
  case True
  let ?d = "cl_degraded CGROUP_LOOKUP_PAYLOAD_EXCEEDED path"
  have eq: "clb_add status orch path name labels b = clb_add_non_known_item CGROUP_LOOKUP_PAYLOAD_EXCEEDED path b"
    using True by (simp add: clb_add_def clb_add_with_path_def)
  show ?thesis
  proof (cases "length es < unat (clb_max_items b) \<and> al8 (clb_data_offset b) + (30 + length path) \<le> cap")
    case True
    then obtain b' where "clb_add_non_known_item CGROUP_LOOKUP_PAYLOAD_EXCEEDED path b = Ok b'" "clb_state cap b' (es @ [?d])"
        "clb_frame b b'"
      using clb_add_non_known_item_ok [OF st, of path CGROUP_LOOKUP_PAYLOAD_EXCEEDED] by auto
    then show ?thesis
      using r eq es p \<open>clb_payload_exceeded_suffix b\<close>
      by (auto simp: clb_holds_def clb_frame_def cl_entry_from_def cl_degraded_def intro!: exI [of _ "es @ [?d]"])
  next
    case False
    then show ?thesis using r eq es st by (auto simp: clb_add_non_known_item_full [OF st] clb_fail_def clb_holds_def)
  qed
next
  case False
  let ?sem = "validate_cgroups_lookup_semantics status orch (length path) (length name) (length labels)"
  have bad: "source_string_invalid path True" using p(1) by (auto simp: cl_path_ok_def source_string_invalid_def)
  have "(\<exists>err. ?sem = Err err) \<or> ?sem = Ok ()" by (simp add: validate_cgroups_lookup_semantics_def)
  then have "\<exists>err. clb_add status orch path name labels b = clb_fail err b"
    unfolding clb_add_def clb_add_with_path_def using False bad by (elim disjE exE) (simp_all cong: if_cong, blast+)
  then show ?thesis using r es st by (auto simp: clb_fail_def clb_holds_def)
qed

lemma clb_steps_holds:
  assumes d: "cgroups_lookup_request_decode req = Ok v" and l: "length req \<le> ISIZE_MAX"
  shows "clb_steps P v b b' \<Longrightarrow> clb_holds P cap m b \<Longrightarrow> clb_holds P cap m b'"
proof (induction rule: clb_steps.induct)
  case (cl_add b b1 path name st orch labels b2 err)
  then obtain es where es: "clb_state cap b1 es" "\<forall>e \<in> set es. cl_entry_from P e" "clb_max_items b1 = m"
    by (auto simp: clb_holds_def)
  show ?case
  proof (cases "cl_path_ok path")
    case True
    let ?e = "\<lparr>ce_status = st, ce_orchestrator = orch, ce_path = path, ce_name = name, ce_labels = labels\<rparr>"
    have "clb_post cap es (cl_graceful ?e) b1 (clb_add_entry ?e False b1)"
      using es(1) cl_add.hyps(3) True by (intro clb_post_add) simp_all
    then show ?thesis using clb_post_holds es cl_add.hyps(4) by (fastforce simp: clb_add_def)
  next
    case False
    then show ?thesis using clb_add_bad_path [OF es _ cl_add.hyps(2,4)] by blast
  qed
next
  case (cl_add_request b b1 name i st orch labels b2 err)
  then obtain es where es: "clb_state cap b1 es" "\<forall>e \<in> set es. cl_entry_from P e" "clb_max_items b1 = m"
    by (auto simp: clb_holds_def)
  show ?case
  proof (cases "unat i < unat (clq_item_count v)")
    case True
    let ?e = "\<lparr>ce_status = st, ce_orchestrator = orch, ce_path = clq_path v (unat i), ce_name = name, ce_labels = labels\<rparr>"
    note r = cgroups_lookup_request_path [OF d l True refl]
    have "clb_post cap es (cl_graceful ?e) b1 (clb_add_entry ?e True b1)"
      using es(1) cl_add_request r by (intro clb_post_add) simp_all
    then show ?thesis
      using clb_post_holds es cl_add_request.hyps(3) by (fastforce simp: add_request_item_eq [OF d l True])
  next
    case False
    then have "cgroups_lookup_request_item v i = Err OutOfBounds"
      by (simp add: cgroups_lookup_request_item_def word_le_nat_alt)
    then show ?thesis using cl_add_request by (auto simp: clb_add_request_item_def)
  qed
next
  case (cl_generation b b1 g)
  then show ?case by (auto simp: clb_holds_def clb_set_generation_def)
next
  case (cl_lens b b1 lens b2)
  then show ?case
    by (auto simp: clb_holds_def clb_set_payload_exceeded_item_lens_def split: outcome.splits)
qed

lemma clb_finish_bounds:
  assumes "clb_state cap b es"
  shows "\<exists>n buf'. clb_finish b = Ok (n, buf') \<and> n \<le> cap \<and> length buf' = cap"
  using lookup_state_finish [OF assms [unfolded clb_state_def], of "clb_generation b"] by (auto simp: clb_finish_def cl_sizes)

text \<open>C5: whatever a handler does through the builder interface, a lookup dispatch does not panic and a response
  it returns fits the buffer. If every path that the handler gives to \<open>add\<close> in the builder's payload-exceeded
  state is non-empty and NUL-free (in its normal state \<open>add\<close> checks that itself, and \<open>add_request_item\<close> takes the path from the
  request), the response is also complete: it decodes, has one item per requested path, and every item of it decodes.\<close>

theorem cgroups_lookup_dispatch_decodes:
  assumes l: "length req \<le> ISIZE_MAX" and cap: "length resp < 2 ^ 32"
    and handler: "\<And>v b. clb_steps P v b (snd (handler v b))"
  shows "case dispatch_cgroups_lookup req resp handler of
      Ok (n, resp') \<Rightarrow> n \<le> length resp \<and> length resp' = length resp \<and>
        ((\<forall>path. P path \<longrightarrow> path \<noteq> [] \<and> 0 \<notin> set path) \<longrightarrow>
        (\<exists>v w. cgroups_lookup_request_decode req = Ok v \<and> cgroups_lookup_response_decode (take n resp') = Ok w \<and>
          clr_item_count w = clq_item_count v \<and>
          (\<forall>i < unat (clr_item_count w). \<exists>iv. cgroups_lookup_response_item w (word_of_nat i) = Ok iv)))
    | Err err \<Rightarrow> True
    | Panic \<Rightarrow> False"
proof (cases "cgroups_lookup_request_decode req")
  case (Ok v)
  let ?m = "clq_item_count v"
  show ?thesis
  proof (cases "length resp < 16 + unat ?m * 8")
    case True
    then show ?thesis using Ok by (simp add: dispatch_cgroups_lookup_def cl_sizes)
  next
    case False
    then obtain b where b: "cgroups_lookup_builder_new resp ?m 0 = Ok b" "clb_state (length resp) b []" "clb_error b = None"
        "clb_max_items b = ?m"
      using cgroups_lookup_builder_new_ok [of ?m resp 0] cap by auto
    have eq: "dispatch_cgroups_lookup req resp handler = rbind (clb_prepare v b) (\<lambda>b. case handler v b of (ok, b) \<Rightarrow>
       if \<not> ok then Err (case clb_error b of Some err \<Rightarrow> err | None \<Rightarrow> HandlerFailed)
       else case clb_error b of Some err \<Rightarrow> Err err
         | None \<Rightarrow> if clb_item_count b \<noteq> ?m then Err BadItemCount else clb_finish b)"
      using False by (intro dispatch_cgroups_lookup_eq [OF Ok _ b(1)]) simp
    show ?thesis
    proof (cases "clb_prepare v b")
      case prep: (Ok b1)
      let ?b = "snd (handler v b1)"
      obtain ws where "b1 = b\<lparr>clb_payload_exceeded_suffix_bytes := ws\<rparr>"
        using prep clb_prepare_ok(2) [OF Ok l b(3) refl] by blast
      then have "clb_holds P (length resp) ?m b1" using b by (auto simp: clb_holds_def intro!: exI [of _ "[]"])
      then have "clb_holds P (length resp) ?m ?b" using handler [of v b1] clb_steps_holds [OF Ok l] by blast
      then obtain es where es: "clb_state (length resp) ?b es" "\<And>e. e \<in> set es \<Longrightarrow> cl_entry_from P e"
        by (auto simp: clb_holds_def)
      obtain n resp' where fin: "clb_finish ?b = Ok (n, resp')" "n \<le> length resp" "length resp' = length resp"
        using clb_finish_bounds [OF es(1)] by blast
      have "\<exists>w. cgroups_lookup_response_decode (take n resp') = Ok w \<and> clr_item_count w = clb_item_count ?b \<and>
          (\<forall>i < unat (clr_item_count w). \<exists>iv. cgroups_lookup_response_item w (word_of_nat i) = Ok iv)"
        if "\<And>path. P path \<Longrightarrow> path \<noteq> [] \<and> 0 \<notin> set path"
      proof -
        have ok: "cl_entry_ok e" if "e \<in> set es" for e using es(2) [OF that] \<open>\<And>path. P path \<Longrightarrow> _\<close> by (auto simp: cl_entry_from_def cl_path_ok_def)
        then show ?thesis using clb_finish_decodes [OF es(1) ok] fin(1) by fastforce
      qed
      then show ?thesis
        unfolding eq prep rbind.simps using Ok fin
        by (cases "handler v b1") (auto split: option.splits)
    next
      case (Err err)
      then show ?thesis unfolding eq by simp
    next
      case Panic
      then show ?thesis using clb_prepare_ok(1) [OF Ok l b(3) refl] by blast
    qed
  qed
next
  case (Err err)
  then show ?thesis by (simp add: dispatch_cgroups_lookup_def)
next
  case Panic
  then show ?thesis using cgroups_lookup_request_decode_ok(1) [OF l] by blast
qed

lemma sample_cl_handler_steps: "clb_steps P v b (snd (sample_cl_handler v b))"
proof -
  let ?r = "cl_respond v (0, sample_cl_answer) b"
  have n: "length (ce_name sample_cl_answer) < 2 ^ 62" by (simp add: sample_cl_answer_def)
  note step = clb_steps.cl_add_request [OF clb_steps.cl_none n, of v 0 "ce_status sample_cl_answer"
      "ce_orchestrator sample_cl_answer" "ce_labels sample_cl_answer" b]
  consider b' where "?r = Ok b'" | err b' where "?r = Err (err, b')" | "?r = Panic" by (cases ?r) auto
  then show ?thesis
  proof cases
    case (1 b')
    then show ?thesis
      using step [of b'] by (simp add: sample_cl_handler_def cl_respond_def)
  next
    case (2 err b')
    then show ?thesis
      using step [of b' err] by (simp add: sample_cl_handler_def cl_respond_def)
  next
    case 3
    then show ?thesis by (simp add: sample_cl_handler_def clb_steps.cl_none)
  qed
qed

lemma sample_cl_dispatched: "\<exists>n resp'. dispatch_cgroups_lookup sample_cl_request (replicate 100 9) sample_cl_handler = Ok (n, resp')"
proof -
  obtain v where v: "cgroups_lookup_request_decode sample_cl_request = Ok v" "clq_paths v = [[47]]"
    using sample_cl_request_decodes by blast
  show ?thesis
    using dispatch_answers_run [OF v(1), of "replicate 100 9" "[sample_cl_answer]" sample_cl_handler] v sample_cl_run sample_cl_answer_ok
    by (auto simp: sample_cl_request_def ISIZE_MAX_def sample_cl_answer_def cl_need_def)
qed

theorem cgroups_lookup_dispatch_decodes_witness:
  "case dispatch_cgroups_lookup sample_cl_request (replicate 100 9) sample_cl_handler of
      Ok (n, resp') \<Rightarrow> n \<le> 100 \<and>
        (\<exists>w. cgroups_lookup_response_decode (take n resp') = Ok w \<and> clr_item_count w = 1)
    | _ \<Rightarrow> False"
proof -
  obtain n resp' where d: "dispatch_cgroups_lookup sample_cl_request (replicate 100 9) sample_cl_handler = Ok (n, resp')"
    using sample_cl_dispatched by blast
  have l: "length sample_cl_request \<le> ISIZE_MAX" "length (replicate 100 (9 :: u8)) < 2 ^ 32"
    by (simp_all add: sample_cl_request_def ISIZE_MAX_def)
  have "clb_steps (\<lambda>path. False) v b (snd (sample_cl_handler v b))" for v b by (rule sample_cl_handler_steps)
  note r = cgroups_lookup_dispatch_decodes [OF l this, unfolded d outcome.case prod.case]
  then show ?thesis unfolding d using sample_cl_request_decodes by auto
qed

text \<open>A raw response re-encodes validated items unchanged. Any list of raw items that decode and fit the
  buffer is encoded with the given generation, the payload decodes, and \<open>raw_item(i)\<close> is byte for byte
  the i-th item.\<close>

lemma cgroups_raw_items_kept:
  assumes len: "length buf < 2 ^ 32" and fit: "16 + length items * 8 + length (pack_data items) \<le> length buf"
    and ok: "\<forall>x \<in> set items. \<exists>w. decode_cgroups_item x = Ok w"
  shows "\<exists>n buf' v. encode_cgroups_lookup_raw_response items g buf = Ok (n, buf') \<and> n \<le> length buf \<and>
    cgroups_lookup_response_decode (take n buf') = Ok v \<and> clr_item_count v = word_of_nat (length items) \<and> clr_generation v = g \<and>
    (\<forall>i < length items. cgroups_lookup_raw_item v (word_of_nat i) = Ok (items ! i))"
proof -
  have it: "28 \<le> length x \<and> (\<exists>w. decode_cgroups_item x = Ok w)" if "x \<in> set items" for x
    using ok that decode_cgroups_item_facts(1) by blast
  have val: "validate_cgroups_lookup_raw_item x = Ok ()" if "decode_cgroups_item x = Ok w" for x w
    using that by (simp add: validate_cgroups_lookup_raw_item_def)
  show ?thesis
    unfolding encode_cgroups_lookup_raw_response_def cl_sizes using it val by (intro clresp.raw_roundtrip [OF len fit])
qed


lemma decode_cgroups_item_no_path: "decode_cgroups_item (cl_wire (cl_degraded s [])) \<noteq> Ok w"
proof
  assume a: "decode_cgroups_item (cl_wire (cl_degraded s [])) = Ok w"
  have "rd32 (cl_wire (cl_degraded s [])) 12 = 0" using cl_wire_reads(6) [OF refl, of "cl_degraded s []"] by (simp add: cl_degraded_def)
  then show False
    using decode_cgroups_item_facts(3) [OF a] by (simp add: validate_cgroups_lookup_semantics_def split: if_splits)
qed

lemma clb_finish_undecodable:
  assumes st: "clb_state cap b es" and e: "e \<in> set es" and bad: "\<And>w. decode_cgroups_item (cl_wire e) \<noteq> Ok w"
  shows "\<exists>n buf' err. clb_finish b = Ok (n, buf') \<and> cgroups_lookup_response_decode (take n buf') = Err err"
proof -
  let ?xs = "map cl_wire es"
  obtain n buf' where f: "finish_lookup_response (clb_buf b) 16 (clb_item_count b) (clb_data_offset b) (clb_generation b) = Ok (n, buf')"
      "take 16 (take n buf') = lookup_hdr_wire (word_of_nat (length ?xs)) (clb_generation b)"
      "packed_final (take n buf') 16 ?xs" "length (take n buf') < 2 ^ 32"
    using lookup_state_finish [OF st [unfolded clb_state_def], of "clb_generation b"] by blast
  have "cl_wire e \<in> set ?xs" using e by simp
  then obtain err where "cgroups_lookup_response_decode (take n buf') = Err err"
    using clresp.final_undecodable [OF f(2-4) _ bad] by blast
  then show ?thesis using f(1) by (simp add: clb_finish_def cl_sizes)
qed

text \<open>C33: once the builder is in its payload-exceeded state, \<open>add\<close> skips its input checks: it accepts an
  empty path and reports success, but the finished response is one that the decoder rejects as a whole.
  In a buffer of 150 bytes, an unknown answer, a KNOWN answer whose name of 200 bytes does not fit, and then
  an answer for the empty path (which the builder rejects in its normal state) all succeed.\<close>

theorem cgroups_lookup_suffix_unchecked:
  "\<exists>b0 b1 b2 b3 n buf' err.
     cgroups_lookup_builder_new (replicate 150 0) 3 0 = Ok b0 \<and>
     clb_add CGROUP_LOOKUP_UNKNOWN_RETRY_LATER 0 [47] [] [] b0 = Ok b1 \<and>
     clb_add CGROUP_LOOKUP_KNOWN 0 [47] (replicate 200 97) [] b1 = Ok b2 \<and>
     clb_add CGROUP_LOOKUP_UNKNOWN_RETRY_LATER 0 [] [] [] b1 = clb_fail BadLayout b1 \<and>
     clb_add CGROUP_LOOKUP_UNKNOWN_RETRY_LATER 0 [] [] [] b2 = Ok b3 \<and>
     clb_finish b3 = Ok (n, buf') \<and> cgroups_lookup_response_decode (take n buf') = Err err"
proof -
  obtain b0 where b0: "cgroups_lookup_builder_new (replicate 150 0) 3 0 = Ok b0" "clb_state 150 b0 []" "clb_max_items b0 = 3"
      "\<not> clb_payload_exceeded_suffix b0" "clb_data_offset b0 = 40"
    using cgroups_lookup_builder_new_ok [of 3 "replicate 150 0" 0] by auto
  let ?u = "cl_degraded CGROUP_LOOKUP_UNKNOWN_RETRY_LATER [47]"
  obtain b1 where b1: "clb_add_non_known_item CGROUP_LOOKUP_UNKNOWN_RETRY_LATER [47] b0 = Ok b1" "clb_state 150 b1 [?u]"
      "clb_frame b0 b1" "clb_data_offset b1 = 71"
    using clb_add_non_known_item_ok [OF b0(2), of "[47]" CGROUP_LOOKUP_UNKNOWN_RETRY_LATER] b0 by (auto simp: al8_def)
  have f0: "clb_item_count b0 < 3" "clb_item_count b1 = 1" using clb_state_facts(4) [OF b0(2)] b1(2) b0(3) by (auto simp: clb_state_def lookup_state_def)
  have a1: "clb_add CGROUP_LOOKUP_UNKNOWN_RETRY_LATER 0 [47] [] [] b0 = Ok b1"
    using clb_add_entry_unknown [of b0 ?u False] b0 b1(1) f0
    by (simp add: clb_add_def cl_degraded_def validate_cgroups_lookup_semantics_def cgroup_status_defs not_le)
  let ?k = "\<lparr>ce_status = CGROUP_LOOKUP_KNOWN, ce_orchestrator = 0, ce_path = [47], ce_name = replicate 200 97, ce_labels = []\<rparr>"
  let ?s = "b1\<lparr>clb_payload_exceeded_suffix := True\<rparr>"
  have m1: "clb_max_items b1 = 3" "\<not> clb_payload_exceeded_suffix b1" using b1(3) b0 by (auto simp: clb_frame_def)
  obtain b2 where b2: "clb_add_non_known_item CGROUP_LOOKUP_PAYLOAD_EXCEEDED [47] ?s = Ok b2"
      "clb_state 150 b2 ([?u] @ [cl_degraded CGROUP_LOOKUP_PAYLOAD_EXCEEDED [47]])" "clb_frame ?s b2" "clb_data_offset b2 = 103"
    using clb_add_non_known_item_ok [of 150 ?s "[?u]" "[47]" CGROUP_LOOKUP_PAYLOAD_EXCEEDED] b1 m1 by (auto simp: al8_def)
  have "clb_add_entry ?k False b1 = clb_note_item_overflow [47] b1"
    using clb_add_entry_eq [OF b1(2), of ?k False] m1 b1(4)
    by (simp add: validate_cgroups_lookup_semantics_def cgroup_status_defs label_layout_def al8_def)
  then have a2: "clb_add CGROUP_LOOKUP_KNOWN 0 [47] (replicate 200 97) [] b1 = Ok b2"
    using b2(1) f0 by (simp add: clb_add_def clb_note_item_overflow_def)
  have m2: "clb_max_items b2 = 3" "clb_payload_exceeded_suffix b2" using b2(3) m1 by (auto simp: clb_frame_def)
  obtain b3 where b3: "clb_add_non_known_item CGROUP_LOOKUP_PAYLOAD_EXCEEDED [] b2 = Ok b3"
      "clb_state 150 b3 (([?u] @ [cl_degraded CGROUP_LOOKUP_PAYLOAD_EXCEEDED [47]]) @ [cl_degraded CGROUP_LOOKUP_PAYLOAD_EXCEEDED []])"
    using clb_add_non_known_item_ok [OF b2(2), of "[]" CGROUP_LOOKUP_PAYLOAD_EXCEEDED] b2(4) m2 by (auto simp: al8_def)
  have a3: "clb_add CGROUP_LOOKUP_UNKNOWN_RETRY_LATER 0 [] [] [] b2 = Ok b3"
    using b3(1) m2 by (simp add: clb_add_def clb_add_with_path_def)
  have a4: "clb_add CGROUP_LOOKUP_UNKNOWN_RETRY_LATER 0 [] [] [] b1 = clb_fail BadLayout b1"
    using m1 f0 by (simp add: clb_add_def clb_add_with_path_def validate_cgroups_lookup_semantics_def cgroup_status_defs word_le_nat_alt)
  obtain n buf' err where "clb_finish b3 = Ok (n, buf')" "cgroups_lookup_response_decode (take n buf') = Err err"
    using clb_finish_undecodable [OF b3(2) _ decode_cgroups_item_no_path [of CGROUP_LOOKUP_PAYLOAD_EXCEEDED]] by auto
  then show ?thesis using b0(1) a1 a2 a3 a4 by blast
qed

end
