(* ===== verification/Apps_Lookup.thy ===== *)
theory Apps_Lookup
  imports Lookup_Common
begin

text \<open>
  The APPS_LOOKUP codec of \<open>protocol/lookup/apps_lookup.rs\<close>: processes looked up by pid. The request
  carries fixed 8-byte keys; an answer carries the process fields, three strings and labels. The builder
  degrades to PAYLOAD_EXCEEDED and OVERSIZED_ITEM answers as the CGROUPS_LOOKUP builder does, with a
  reservation of one fixed-size item per remaining pid.
\<close>

section \<open>Constants and views\<close>

definition NIPC_UID_UNSET :: u32 where "NIPC_UID_UNSET = 0xffffffff"

definition PID_LOOKUP_KNOWN :: u16 where "PID_LOOKUP_KNOWN = 0"
definition PID_LOOKUP_UNKNOWN :: u16 where "PID_LOOKUP_UNKNOWN = 1"
definition PID_LOOKUP_PAYLOAD_EXCEEDED :: u16 where "PID_LOOKUP_PAYLOAD_EXCEEDED = 2"
definition PID_LOOKUP_OVERSIZED_ITEM :: u16 where "PID_LOOKUP_OVERSIZED_ITEM = 3"

definition APPS_CGROUP_KNOWN :: u16 where "APPS_CGROUP_KNOWN = 0"
definition APPS_CGROUP_UNKNOWN_RETRY_LATER :: u16 where "APPS_CGROUP_UNKNOWN_RETRY_LATER = 1"
definition APPS_CGROUP_UNKNOWN_PERMANENT :: u16 where "APPS_CGROUP_UNKNOWN_PERMANENT = 2"
definition APPS_CGROUP_HOST_ROOT :: u16 where "APPS_CGROUP_HOST_ROOT = 3"

definition APPS_LOOKUP_REQ_HDR_SIZE :: usize where "APPS_LOOKUP_REQ_HDR_SIZE = 16"
definition APPS_LOOKUP_RESP_HDR_SIZE :: usize where "APPS_LOOKUP_RESP_HDR_SIZE = 16"
definition APPS_LOOKUP_ITEM_HDR_SIZE :: usize where "APPS_LOOKUP_ITEM_HDR_SIZE = 60"
definition APPS_LOOKUP_KEY_SIZE :: usize where "APPS_LOOKUP_KEY_SIZE = 8"

lemmas pid_status_defs = PID_LOOKUP_KNOWN_def PID_LOOKUP_UNKNOWN_def PID_LOOKUP_PAYLOAD_EXCEEDED_def
  PID_LOOKUP_OVERSIZED_ITEM_def
lemmas apps_cgroup_defs = APPS_CGROUP_KNOWN_def APPS_CGROUP_UNKNOWN_RETRY_LATER_def
  APPS_CGROUP_UNKNOWN_PERMANENT_def APPS_CGROUP_HOST_ROOT_def
lemmas al_sizes = APPS_LOOKUP_REQ_HDR_SIZE_def APPS_LOOKUP_RESP_HDR_SIZE_def APPS_LOOKUP_ITEM_HDR_SIZE_def
  APPS_LOOKUP_KEY_SIZE_def lookup_sizes

record apps_lookup_request_view =
  alq_item_count :: u32
  alq_packed_start :: usize
  alq_payload :: bytes

record apps_lookup_response_view =
  alr_layout_version :: u16
  alr_flags :: u16
  alr_item_count :: u32
  alr_generation :: u64
  alr_payload :: bytes

record apps_lookup_item_view =
  ali_status :: u16
  ali_orchestrator :: u16
  ali_cgroup_status :: u16
  ali_pid :: u32
  ali_ppid :: u32
  ali_uid :: u32
  ali_starttime :: u64
  ali_comm :: str_view
  ali_cgroup_path :: str_view
  ali_cgroup_name :: str_view
  ali_label_count :: u16
  ali_item :: bytes
  ali_label_table_offset :: usize

section \<open>Semantics of an answer\<close>

definition validate_apps_lookup_domains :: "u16 \<Rightarrow> u16 \<Rightarrow> nat \<Rightarrow> unit result" where
  "validate_apps_lookup_domains status cgroup_status comm_len =
     (if status \<noteq> PID_LOOKUP_KNOWN \<and> status \<noteq> PID_LOOKUP_UNKNOWN \<and> status \<noteq> PID_LOOKUP_PAYLOAD_EXCEEDED \<and>
         status \<noteq> PID_LOOKUP_OVERSIZED_ITEM then Err BadLayout
      else if cgroup_status \<noteq> APPS_CGROUP_KNOWN \<and> cgroup_status \<noteq> APPS_CGROUP_UNKNOWN_RETRY_LATER \<and>
         cgroup_status \<noteq> APPS_CGROUP_UNKNOWN_PERMANENT \<and> cgroup_status \<noteq> APPS_CGROUP_HOST_ROOT then Err BadLayout
      else if comm_len > 15 then Err BadLayout
      else Ok ())"

definition validate_apps_lookup_unknown ::
  "u16 \<Rightarrow> u16 \<Rightarrow> u32 \<Rightarrow> u32 \<Rightarrow> u64 \<Rightarrow> nat \<Rightarrow> nat \<Rightarrow> nat \<Rightarrow> nat \<Rightarrow> unit result" where
  "validate_apps_lookup_unknown orchestrator cgroup_status ppid uid starttime comm_len path_len name_len label_count =
     (if orchestrator \<noteq> 0 \<or> cgroup_status \<noteq> 0 \<or> ppid \<noteq> 0 \<or> uid \<noteq> NIPC_UID_UNSET \<or> starttime \<noteq> 0 \<or> comm_len \<noteq> 0 \<or>
         path_len \<noteq> 0 \<or> name_len \<noteq> 0 \<or> label_count \<noteq> 0 then Err BadLayout
      else Ok ())"

definition validate_apps_lookup_known :: "u16 \<Rightarrow> u16 \<Rightarrow> nat \<Rightarrow> nat \<Rightarrow> nat \<Rightarrow> nat \<Rightarrow> unit result" where
  "validate_apps_lookup_known cgroup_status orchestrator comm_len path_len name_len label_count =
     (if comm_len = 0 then Err BadLayout
      else if cgroup_status = APPS_CGROUP_KNOWN then
        (if path_len = 0 then Err BadLayout else Ok ())
      else if cgroup_status = APPS_CGROUP_UNKNOWN_RETRY_LATER then
        (if orchestrator \<noteq> 0 \<or> name_len \<noteq> 0 \<or> label_count \<noteq> 0 then Err BadLayout else Ok ())
      else if cgroup_status = APPS_CGROUP_UNKNOWN_PERMANENT then
        (if path_len = 0 \<or> orchestrator \<noteq> 0 \<or> name_len \<noteq> 0 \<or> label_count \<noteq> 0 then Err BadLayout else Ok ())
      else if cgroup_status = APPS_CGROUP_HOST_ROOT then
        (if orchestrator \<noteq> 0 \<or> path_len \<noteq> 0 \<or> name_len \<noteq> 0 \<or> label_count \<noteq> 0 then Err BadLayout else Ok ())
      else Err BadLayout)"

definition validate_apps_lookup_semantics ::
  "u16 \<Rightarrow> u16 \<Rightarrow> u16 \<Rightarrow> u32 \<Rightarrow> u32 \<Rightarrow> u64 \<Rightarrow> nat \<Rightarrow> nat \<Rightarrow> nat \<Rightarrow> nat \<Rightarrow> unit result" where
  "validate_apps_lookup_semantics status cgroup_status orchestrator ppid uid starttime comm_len path_len name_len label_count =
     rbind (validate_apps_lookup_domains status cgroup_status comm_len) (\<lambda>_.
     if status \<noteq> PID_LOOKUP_KNOWN then
       validate_apps_lookup_unknown orchestrator cgroup_status ppid uid starttime comm_len path_len name_len label_count
     else validate_apps_lookup_known cgroup_status orchestrator comm_len path_len name_len label_count)"

section \<open>Request\<close>

fun encode_apps_lookup_pids :: "bytes \<Rightarrow> usize \<Rightarrow> usize \<Rightarrow> u32 list \<Rightarrow> bytes result" where
  "encode_apps_lookup_pids buf packed_start i [] = Ok buf"
| "encode_apps_lookup_pids buf packed_start i (pid # pids) =
     (let dir = APPS_LOOKUP_REQ_HDR_SIZE + i * LOOKUP_DIR_ENTRY_SIZE in
      rbind (ok_or (checked_mul i APPS_LOOKUP_KEY_SIZE) Overflow) (\<lambda>key_offset.
      rbind (checked_u32 key_offset) (\<lambda>w. rbind (put_u32 buf dir w) (\<lambda>buf.
      rbind (put_u32 buf (dir + 4) (word_of_nat APPS_LOOKUP_KEY_SIZE)) (\<lambda>buf.
      let key = packed_start + i * APPS_LOOKUP_KEY_SIZE in
      rbind (put_u32 buf key pid) (\<lambda>buf.
      rbind (put_u32 buf (key + 4) 0) (\<lambda>buf.
      encode_apps_lookup_pids buf packed_start (i + 1) pids)))))))"

definition encode_apps_lookup_request :: "u32 list \<Rightarrow> bytes \<Rightarrow> (usize \<times> bytes) result" where
  "encode_apps_lookup_request pids buf =
     (let count = length pids in
      rbind (ok_or (checked_mul count LOOKUP_DIR_ENTRY_SIZE) Overflow) (\<lambda>dir_size.
      rbind (ok_or (checked_mul count APPS_LOOKUP_KEY_SIZE) Overflow) (\<lambda>key_size.
      rbind (ok_or (checked_add APPS_LOOKUP_REQ_HDR_SIZE dir_size) Overflow) (\<lambda>packed_start.
      rbind (ok_or (checked_add packed_start key_size) Overflow) (\<lambda>total.
      if total > length buf then Err Overflow
      else
        rbind (encode_apps_lookup_pids buf packed_start 0 pids) (\<lambda>buf.
        rbind (put_u16 buf 0 1) (\<lambda>buf.
        rbind (put_u16 buf 2 0) (\<lambda>buf.
        rbind (checked_u32 count) (\<lambda>w. rbind (put_u32 buf 4 w) (\<lambda>buf.
        rbind (put_u32 buf 8 0) (\<lambda>buf.
        rbind (put_u32 buf 12 0) (\<lambda>buf.
        Ok (total, buf)))))))))))))"

fun apps_lookup_check_keys :: "bytes \<Rightarrow> usize \<Rightarrow> usize \<Rightarrow> nat \<Rightarrow> unit result" where
  "apps_lookup_check_keys buf dir_end i 0 = Ok ()"
| "apps_lookup_check_keys buf dir_end i (Suc left) =
     (let base = APPS_LOOKUP_REQ_HDR_SIZE + i * LOOKUP_DIR_ENTRY_SIZE in
      rbind (u32_at buf base) (\<lambda>off.
      rbind (checked_subslice buf dir_end (unat off) APPS_LOOKUP_KEY_SIZE) (\<lambda>key.
      rbind (u32_at key 4) (\<lambda>r.
      if r \<noteq> 0 then Err BadLayout
      else apps_lookup_check_keys buf dir_end (i + 1) left))))"

definition apps_lookup_request_decode :: "bytes \<Rightarrow> apps_lookup_request_view result" where
  "apps_lookup_request_decode buf =
     (if length buf < APPS_LOOKUP_REQ_HDR_SIZE then Err Truncated
      else
        rbind (u16_at buf 0) (\<lambda>v.
        rbind (u16_at buf 2) (\<lambda>f.
        rbind (u32_at buf 8) (\<lambda>r1.
        rbind (u32_at buf 12) (\<lambda>r2.
        if v \<noteq> 1 \<or> f \<noteq> 0 \<or> r1 \<noteq> 0 \<or> r2 \<noteq> 0 then Err BadLayout
        else
          rbind (u32_at buf 4) (\<lambda>item_count.
          rbind (ok_or (checked_mul (unat item_count) LOOKUP_DIR_ENTRY_SIZE) BadItemCount) (\<lambda>dir_size.
          rbind (ok_or (checked_add APPS_LOOKUP_REQ_HDR_SIZE dir_size) BadItemCount) (\<lambda>dir_end.
          if dir_end > length buf then Err Truncated
          else
            rbind (validate_lookup_dir buf APPS_LOOKUP_REQ_HDR_SIZE item_count (length buf - dir_end) 0
                     (Some APPS_LOOKUP_KEY_SIZE)) (\<lambda>_.
            rbind (apps_lookup_check_keys buf dir_end 0 (unat item_count)) (\<lambda>_.
            Ok \<lparr>alq_item_count = item_count, alq_packed_start = dir_end, alq_payload = buf\<rparr>))))))))))"

definition apps_lookup_request_item :: "apps_lookup_request_view \<Rightarrow> u32 \<Rightarrow> u32 result" where
  "apps_lookup_request_item v idx =
     (if idx \<ge> alq_item_count v then Err OutOfBounds
      else
        rbind (ok_or (checked_mul (unat idx) LOOKUP_DIR_ENTRY_SIZE) BadItemCount) (\<lambda>rel.
        rbind (ok_or (checked_add APPS_LOOKUP_REQ_HDR_SIZE rel) BadItemCount) (\<lambda>base.
        rbind (u32_at (alq_payload v) base) (\<lambda>off.
        rbind (checked_subslice (alq_payload v) (alq_packed_start v) (unat off) APPS_LOOKUP_KEY_SIZE) (\<lambda>key.
        u32_at key 0)))))"

section \<open>Response\<close>

definition decode_apps_item :: "bytes \<Rightarrow> apps_lookup_item_view result" where
  "decode_apps_item item =
     (if length item < APPS_LOOKUP_ITEM_HDR_SIZE then Err Truncated
      else
        rbind (u16_at item 2) (\<lambda>status.
        rbind (u16_at item 4) (\<lambda>orchestrator.
        rbind (u16_at item 6) (\<lambda>cgroup_status.
        rbind (u32_at item 8) (\<lambda>pid.
        rbind (u32_at item 12) (\<lambda>ppid.
        rbind (u32_at item 16) (\<lambda>uid.
        rbind (u64_at item 24) (\<lambda>starttime.
        rbind (u32_at item 32) (\<lambda>comm_off.
        rbind (u32_at item 36) (\<lambda>comm_len.
        rbind (u32_at item 40) (\<lambda>path_off.
        rbind (u32_at item 44) (\<lambda>path_len.
        rbind (u32_at item 48) (\<lambda>name_off.
        rbind (u32_at item 52) (\<lambda>name_len.
        rbind (u16_at item 56) (\<lambda>label_count.
        rbind (u16_at item 0) (\<lambda>v.
        rbind (u32_at item 20) (\<lambda>r1.
        rbind (u16_at item 58) (\<lambda>r2.
        if v \<noteq> 1 \<or> r1 \<noteq> 0 \<or> r2 \<noteq> 0 then Err BadLayout
        else
          rbind (validate_apps_lookup_semantics status cgroup_status orchestrator ppid uid starttime
                   (unat comm_len) (unat path_len) (unat name_len) (unat label_count)) (\<lambda>_.
          rbind (lookup_string item APPS_LOOKUP_ITEM_HDR_SIZE (unat comm_off) (unat comm_len)) (\<lambda>(comm, comm_end).
          rbind (lookup_string item APPS_LOOKUP_ITEM_HDR_SIZE (unat path_off) (unat path_len)) (\<lambda>(cgroup_path, path_end).
          rbind (lookup_string item APPS_LOOKUP_ITEM_HDR_SIZE (unat name_off) (unat name_len)) (\<lambda>(cgroup_name, name_end).
          if overlap (unat comm_off) comm_end (unat path_off) path_end \<or>
             overlap (unat comm_off) comm_end (unat name_off) name_end \<or>
             overlap (unat path_off) path_end (unat name_off) name_end then Err BadLayout
          else
            rbind (validate_labels item APPS_LOOKUP_ITEM_HDR_SIZE label_count
                     (max (max comm_end path_end) name_end)) (\<lambda>label_table_offset.
            Ok \<lparr>ali_status = status, ali_orchestrator = orchestrator, ali_cgroup_status = cgroup_status,
                ali_pid = pid, ali_ppid = ppid, ali_uid = uid, ali_starttime = starttime, ali_comm = comm,
                ali_cgroup_path = cgroup_path, ali_cgroup_name = cgroup_name, ali_label_count = label_count,
                ali_item = item, ali_label_table_offset = label_table_offset\<rparr>)))))))))))))))))))))))"

fun apps_lookup_check_items :: "bytes \<Rightarrow> usize \<Rightarrow> usize \<Rightarrow> nat \<Rightarrow> unit result" where
  "apps_lookup_check_items buf dir_end i 0 = Ok ()"
| "apps_lookup_check_items buf dir_end i (Suc left) =
     (let base = APPS_LOOKUP_RESP_HDR_SIZE + i * LOOKUP_DIR_ENTRY_SIZE in
      rbind (u32_at buf base) (\<lambda>off.
      rbind (u32_at buf (base + 4)) (\<lambda>len.
      rbind (checked_subslice buf dir_end (unat off) (unat len)) (\<lambda>item.
      rbind (decode_apps_item item) (\<lambda>_.
      apps_lookup_check_items buf dir_end (i + 1) left)))))"

definition apps_lookup_response_decode :: "bytes \<Rightarrow> apps_lookup_response_view result" where
  "apps_lookup_response_decode buf =
     (if length buf < APPS_LOOKUP_RESP_HDR_SIZE then Err Truncated
      else
        rbind (u16_at buf 0) (\<lambda>v.
        rbind (u16_at buf 2) (\<lambda>f.
        if v \<noteq> 1 \<or> f \<noteq> 0 then Err BadLayout
        else
          rbind (u32_at buf 4) (\<lambda>item_count.
          rbind (ok_or (checked_mul (unat item_count) LOOKUP_DIR_ENTRY_SIZE) BadItemCount) (\<lambda>dir_size.
          rbind (ok_or (checked_add APPS_LOOKUP_RESP_HDR_SIZE dir_size) BadItemCount) (\<lambda>dir_end.
          if dir_end > length buf then Err Truncated
          else
            rbind (validate_lookup_dir buf APPS_LOOKUP_RESP_HDR_SIZE item_count (length buf - dir_end)
                     APPS_LOOKUP_ITEM_HDR_SIZE None) (\<lambda>_.
            rbind (apps_lookup_check_items buf dir_end 0 (unat item_count)) (\<lambda>_.
            rbind (u64_at buf 8) (\<lambda>generation.
            Ok \<lparr>alr_layout_version = 1, alr_flags = 0, alr_item_count = item_count,
                alr_generation = generation, alr_payload = buf\<rparr>)))))))))"

definition apps_lookup_response_item :: "apps_lookup_response_view \<Rightarrow> u32 \<Rightarrow> apps_lookup_item_view result" where
  "apps_lookup_response_item v idx =
     (if idx \<ge> alr_item_count v then Err OutOfBounds
      else
        rbind (lookup_data_offset APPS_LOOKUP_RESP_HDR_SIZE (alr_item_count v)) (\<lambda>packed_start.
        rbind (lookup_dir_entry_offset APPS_LOOKUP_RESP_HDR_SIZE idx) (\<lambda>base.
        rbind (u32_at (alr_payload v) base) (\<lambda>off.
        rbind (u32_at (alr_payload v) (base + 4)) (\<lambda>len.
        rbind (checked_subslice (alr_payload v) packed_start (unat off) (unat len)) (\<lambda>item.
        decode_apps_item item))))))"

definition apps_lookup_raw_item :: "apps_lookup_response_view \<Rightarrow> u32 \<Rightarrow> bytes result" where
  "apps_lookup_raw_item v idx =
     response_raw_item (alr_payload v) APPS_LOOKUP_RESP_HDR_SIZE (alr_item_count v) idx"

definition validate_apps_lookup_raw_item :: "bytes \<Rightarrow> unit result" where
  "validate_apps_lookup_raw_item item = rbind (decode_apps_item item) (\<lambda>_. Ok ())"

definition encode_apps_lookup_raw_response :: "bytes list \<Rightarrow> u64 \<Rightarrow> bytes \<Rightarrow> (usize \<times> bytes) result" where
  "encode_apps_lookup_raw_response items generation buf =
     encode_raw_response buf APPS_LOOKUP_RESP_HDR_SIZE generation items APPS_LOOKUP_ITEM_HDR_SIZE
       validate_apps_lookup_raw_item"

definition apps_lookup_item_label :: "apps_lookup_item_view \<Rightarrow> u32 \<Rightarrow> lookup_label_view result" where
  "apps_lookup_item_label v idx =
     label_at (ali_item v) APPS_LOOKUP_ITEM_HDR_SIZE (ali_label_count v) (ali_label_table_offset v) idx"


section \<open>Response builder\<close>

record apps_lookup_builder =
  alb_buf :: bytes
  alb_generation :: u64
  alb_item_count :: u32
  alb_max_items :: u32
  alb_data_offset :: usize
  alb_error :: "nipc_error option"
  alb_payload_exceeded_suffix :: bool
  alb_payload_exceeded_suffix_bytes :: "u32 list"
  alb_payload_exceeded_fixed_item_len :: "usize option"

type_synonym alb_outcome = "(nipc_error \<times> apps_lookup_builder, apps_lookup_builder) outcome"
type_synonym alb_outcome_bytes = "(nipc_error \<times> apps_lookup_builder, bytes) outcome"

definition apps_lookup_builder_new :: "bytes \<Rightarrow> u32 \<Rightarrow> u64 \<Rightarrow> apps_lookup_builder result" where
  "apps_lookup_builder_new buf max_items generation =
     (case Option.bind (checked_mul (unat max_items) LOOKUP_DIR_ENTRY_SIZE)
             (\<lambda>v. checked_add APPS_LOOKUP_RESP_HDR_SIZE v) of
        None \<Rightarrow> Panic
      | Some data_offset \<Rightarrow>
          if \<not> length buf \<ge> data_offset then Panic
          else Ok \<lparr>alb_buf = buf, alb_generation = generation, alb_item_count = 0, alb_max_items = max_items,
                   alb_data_offset = data_offset, alb_error = None, alb_payload_exceeded_suffix = False,
                   alb_payload_exceeded_suffix_bytes = [], alb_payload_exceeded_fixed_item_len = None\<rparr>)"

definition alb_set_generation :: "u64 \<Rightarrow> apps_lookup_builder \<Rightarrow> apps_lookup_builder" where
  "alb_set_generation generation b = b\<lparr>alb_generation := generation\<rparr>"

definition alb_set_payload_exceeded_item_lens :: "usize list \<Rightarrow> apps_lookup_builder \<Rightarrow> apps_lookup_builder result" where
  "alb_set_payload_exceeded_item_lens item_lens b =
     (case payload_exceeded_suffix_bytes_from_lens item_lens of
        Ok suffix_bytes \<Rightarrow> Ok (b\<lparr>alb_payload_exceeded_suffix_bytes := suffix_bytes,
                                 alb_payload_exceeded_fixed_item_len := None\<rparr>)
      | Err err \<Rightarrow> Ok (b\<lparr>alb_error := Some err\<rparr>)
      | Panic \<Rightarrow> Panic)"

definition alb_fail :: "nipc_error \<Rightarrow> apps_lookup_builder \<Rightarrow> alb_outcome" where
  "alb_fail err b = Err (err, b\<lparr>alb_error := Some err\<rparr>)"

definition write_apps_item_header ::
  "bytes \<Rightarrow> u16 \<Rightarrow> u16 \<Rightarrow> u16 \<Rightarrow> u32 \<Rightarrow> u32 \<Rightarrow> u32 \<Rightarrow> u64 \<Rightarrow> usize \<Rightarrow> usize \<Rightarrow> usize \<Rightarrow> usize \<Rightarrow> usize \<Rightarrow> usize \<Rightarrow> u16 \<Rightarrow>
   (nipc_error \<times> bytes, bytes) outcome" where
  "write_apps_item_header item status orchestrator cgroup_status pid ppid uid starttime
     comm_off comm_len path_off path_len name_off name_len label_count =
     rbind (put_u16 item 0 1) (\<lambda>item.
     rbind (put_u16 item 2 status) (\<lambda>item.
     rbind (put_u16 item 4 orchestrator) (\<lambda>item.
     rbind (put_u16 item 6 cgroup_status) (\<lambda>item.
     rbind (put_u32 item 8 pid) (\<lambda>item.
     rbind (put_u32 item 12 ppid) (\<lambda>item.
     rbind (put_u32 item 16 uid) (\<lambda>item.
     rbind (put_u32 item 20 0) (\<lambda>item.
     rbind (put_u64 item 24 starttime) (\<lambda>item.
     rbind (fail_with item (checked_u32 comm_off)) (\<lambda>w. rbind (put_u32 item 32 w) (\<lambda>item.
     rbind (fail_with item (checked_u32 comm_len)) (\<lambda>w. rbind (put_u32 item 36 w) (\<lambda>item.
     rbind (fail_with item (checked_u32 path_off)) (\<lambda>w. rbind (put_u32 item 40 w) (\<lambda>item.
     rbind (fail_with item (checked_u32 path_len)) (\<lambda>w. rbind (put_u32 item 44 w) (\<lambda>item.
     rbind (fail_with item (checked_u32 name_off)) (\<lambda>w. rbind (put_u32 item 48 w) (\<lambda>item.
     rbind (fail_with item (checked_u32 name_len)) (\<lambda>w. rbind (put_u32 item 52 w) (\<lambda>item.
     rbind (put_u16 item 56 label_count) (\<lambda>item.
     put_u16 item 58 0))))))))))))))))))))))"

definition alb_payload_exceeded_suffix_fits :: "usize \<Rightarrow> apps_lookup_builder \<Rightarrow> ('e, bool) outcome" where
  "alb_payload_exceeded_suffix_fits data_offset b =
     (case alb_payload_exceeded_fixed_item_len b of
        Some item_len \<Rightarrow> Ok (payload_exceeded_fixed_suffix_fits (length (alb_buf b)) data_offset item_len
                              (alb_item_count b + 1) (alb_max_items b))
      | None \<Rightarrow> payload_exceeded_suffix_fits (length (alb_buf b)) data_offset (alb_payload_exceeded_suffix_bytes b)
                  (alb_item_count b + 1) (alb_max_items b))"

definition alb_add_non_known_item :: "u16 \<Rightarrow> u32 \<Rightarrow> apps_lookup_builder \<Rightarrow> alb_outcome" where
  "alb_add_non_known_item status pid b =
     (if alb_item_count b \<ge> alb_max_items b then alb_fail Overflow b
      else
        let item_start = align8 (alb_data_offset b); item_size = APPS_LOOKUP_ITEM_HDR_SIZE + 3 in
        case checked_add item_start item_size of
          None \<Rightarrow> alb_fail Overflow b
        | Some item_end \<Rightarrow>
            if item_end > length (alb_buf b) then alb_fail Overflow b
            else
              rbind (if item_start > alb_data_offset b
                     then fill (alb_buf b) (alb_data_offset b) item_start 0 else Ok (alb_buf b)) (\<lambda>buf.
              rbind (slice_rng buf item_start item_end) (\<lambda>item.
              rbind (fill item 0 (length item) 0) (\<lambda>item.
              case write_apps_item_header item status 0 0 pid 0 NIPC_UID_UNSET 0 APPS_LOOKUP_ITEM_HDR_SIZE 0
                     (APPS_LOOKUP_ITEM_HDR_SIZE + 1) 0 (APPS_LOOKUP_ITEM_HDR_SIZE + 2) 0 0 of
                Panic \<Rightarrow> Panic
              | Err (err, item) \<Rightarrow> alb_fail err (b\<lparr>alb_buf := upd buf item_start item\<rparr>)
              | Ok item \<Rightarrow>
                  let buf = upd buf item_start item; b = b\<lparr>alb_buf := buf\<rparr> in
                  rbind (fail_with b (ok_or (checked_mul (unat (alb_item_count b)) LOOKUP_DIR_ENTRY_SIZE) Overflow)) (\<lambda>dir_offset.
                  rbind (fail_with b (ok_or (checked_add APPS_LOOKUP_RESP_HDR_SIZE dir_offset) Overflow)) (\<lambda>dir.
                  rbind (fail_with b (checked_u32 item_start)) (\<lambda>w. rbind (put_u32 buf dir w) (\<lambda>buf.
                  rbind (fail_with (b\<lparr>alb_buf := buf\<rparr>) (checked_u32 item_size)) (\<lambda>w. rbind (put_u32 buf (dir + 4) w) (\<lambda>buf.
                  Ok (b\<lparr>alb_buf := buf, alb_data_offset := item_end, alb_item_count := alb_item_count b + 1,
                        alb_error := None\<rparr>)))))))))))"

definition alb_note_item_overflow :: "u32 \<Rightarrow> apps_lookup_builder \<Rightarrow> alb_outcome" where
  "alb_note_item_overflow pid b =
     (if alb_item_count b = 0 then alb_add_non_known_item PID_LOOKUP_OVERSIZED_ITEM pid b
      else alb_add_non_known_item PID_LOOKUP_PAYLOAD_EXCEEDED pid (b\<lparr>alb_payload_exceeded_suffix := True\<rparr>))"

text \<open>The part of \<open>add\<close> that writes a KNOWN item once its size is settled.\<close>

definition alb_write_known_item ::
  "u16 \<Rightarrow> u16 \<Rightarrow> u16 \<Rightarrow> u32 \<Rightarrow> u32 \<Rightarrow> u32 \<Rightarrow> u64 \<Rightarrow> bytes \<Rightarrow> bytes \<Rightarrow> bytes \<Rightarrow> label list \<Rightarrow> u16 \<Rightarrow>
   usize \<Rightarrow> usize \<Rightarrow> usize \<Rightarrow> usize \<Rightarrow> usize \<Rightarrow> usize \<Rightarrow> usize \<Rightarrow> usize \<Rightarrow> apps_lookup_builder \<Rightarrow> alb_outcome" where
  "alb_write_known_item status cgroup_status orchestrator pid ppid uid starttime comm cgroup_path cgroup_name labels
     label_count item_start item_end path_offset name_offset fixed_end table_start table_bytes item_size b =
     (let comm_offset = APPS_LOOKUP_ITEM_HDR_SIZE in
      rbind (if item_start > alb_data_offset b
             then fill (alb_buf b) (alb_data_offset b) item_start 0 else Ok (alb_buf b)) (\<lambda>buf.
      rbind (slice_rng buf item_start item_end) (\<lambda>item.
      case write_apps_item_header item status orchestrator cgroup_status pid ppid uid starttime comm_offset (length comm)
             path_offset (length cgroup_path) name_offset (length cgroup_name) label_count of
        Panic \<Rightarrow> Panic
      | Err (err, item) \<Rightarrow> alb_fail err (b\<lparr>alb_buf := upd buf item_start item\<rparr>)
      | Ok item \<Rightarrow>
          rbind (copy_from_slice item comm_offset (comm_offset + length comm) comm) (\<lambda>item.
          rbind (index_set item (comm_offset + length comm) 0) (\<lambda>item.
          rbind (copy_from_slice item path_offset (path_offset + length cgroup_path) cgroup_path) (\<lambda>item.
          rbind (index_set item (path_offset + length cgroup_path) 0) (\<lambda>item.
          rbind (copy_from_slice item name_offset (name_offset + length cgroup_name) cgroup_name) (\<lambda>item.
          rbind (index_set item (name_offset + length cgroup_name) 0) (\<lambda>item.
          rbind (if labels \<noteq> []
                 then rbind (fill item fixed_end table_start 0) (\<lambda>item.
                      map_err (\<lambda>(err, item). (err, b\<lparr>alb_buf := upd buf item_start item\<rparr>))
                        (write_lookup_labels item table_start table_bytes labels))
                 else Ok (item_size, item)) (\<lambda>(item_size, item).
          let buf = upd buf item_start item; b = b\<lparr>alb_buf := buf\<rparr> in
          case checked_mul (unat (alb_item_count b)) LOOKUP_DIR_ENTRY_SIZE of
            None \<Rightarrow> alb_fail Overflow b
          | Some dir_offset \<Rightarrow>
          (case checked_add APPS_LOOKUP_RESP_HDR_SIZE dir_offset of
            None \<Rightarrow> alb_fail Overflow b
          | Some dir \<Rightarrow>
          (case checked_u32 item_start of
            Panic \<Rightarrow> Panic
          | Err err \<Rightarrow> alb_fail err b
          | Ok item_start_u32 \<Rightarrow>
          (case checked_u32 item_size of
            Panic \<Rightarrow> Panic
          | Err err \<Rightarrow> alb_fail err b
          | Ok item_size_u32 \<Rightarrow>
              rbind (put_u32 buf dir item_start_u32) (\<lambda>buf.
              rbind (put_u32 buf (dir + 4) item_size_u32) (\<lambda>buf.
              Ok (b\<lparr>alb_buf := buf, alb_data_offset := item_end, alb_item_count := alb_item_count b + 1,
                    alb_error := None\<rparr>))))))))))))))))"

definition alb_add ::
  "u16 \<Rightarrow> u16 \<Rightarrow> u16 \<Rightarrow> u32 \<Rightarrow> u32 \<Rightarrow> u32 \<Rightarrow> u64 \<Rightarrow> bytes \<Rightarrow> bytes \<Rightarrow> bytes \<Rightarrow> label list \<Rightarrow> apps_lookup_builder \<Rightarrow> alb_outcome" where
  "alb_add status cgroup_status orchestrator pid ppid uid starttime comm cgroup_path cgroup_name labels b =
     (if alb_payload_exceeded_suffix b then alb_add_non_known_item PID_LOOKUP_PAYLOAD_EXCEEDED pid b
      else if alb_item_count b \<ge> alb_max_items b then alb_fail Overflow b
      else
        case validate_apps_lookup_semantics status cgroup_status orchestrator ppid uid starttime (length comm)
               (length cgroup_path) (length cgroup_name) (length labels) of
          Panic \<Rightarrow> Panic
        | Err err \<Rightarrow> alb_fail err b
        | Ok _ \<Rightarrow>
        if status \<noteq> PID_LOOKUP_KNOWN then
          (case alb_add_non_known_item status pid b of
             Err (Overflow, b) \<Rightarrow> alb_note_item_overflow pid b
           | other \<Rightarrow> other)
        else if source_string_invalid comm (status = PID_LOOKUP_KNOWN) \<or> source_string_invalid cgroup_path False \<or>
          source_string_invalid cgroup_name False then alb_fail BadLayout b
        else
        (case checked_u16 (length labels) of
           Panic \<Rightarrow> Panic
         | Err err \<Rightarrow> if err = Overflow then alb_note_item_overflow pid b else alb_fail err b
         | Ok label_count \<Rightarrow>
         let item_start = align8 (alb_data_offset b); comm_offset = APPS_LOOKUP_ITEM_HDR_SIZE in
         (case Option.bind (checked_add comm_offset (length comm)) (\<lambda>v. checked_add v 1) of
            None \<Rightarrow> alb_note_item_overflow pid b
          | Some path_offset \<Rightarrow>
         (case Option.bind (checked_add path_offset (length cgroup_path)) (\<lambda>v. checked_add v 1) of
            None \<Rightarrow> alb_note_item_overflow pid b
          | Some name_offset \<Rightarrow>
         (case Option.bind (checked_add name_offset (length cgroup_name)) (\<lambda>v. checked_add v 1) of
            None \<Rightarrow> alb_note_item_overflow pid b
          | Some fixed_end \<Rightarrow>
         (case label_layout fixed_end labels of
            Panic \<Rightarrow> Panic
          | Err err \<Rightarrow> if err = Overflow then alb_note_item_overflow pid b else alb_fail err b
          | Ok (table_start, table_bytes, item_size) \<Rightarrow>
         (case checked_add item_start item_size of
            None \<Rightarrow> alb_note_item_overflow pid b
          | Some item_end \<Rightarrow>
             if \<not> item_end \<le> length (alb_buf b) then alb_note_item_overflow pid b
             else
               rbind (alb_payload_exceeded_suffix_fits item_end b) (\<lambda>fits.
               if \<not> fits then alb_note_item_overflow pid b
               else alb_write_known_item status cgroup_status orchestrator pid ppid uid starttime comm cgroup_path
                      cgroup_name labels label_count item_start item_end path_offset name_offset fixed_end
                      table_start table_bytes item_size b))))))))"

definition alb_finish :: "apps_lookup_builder \<Rightarrow> (usize \<times> bytes) result" where
  "alb_finish b = finish_lookup_response (alb_buf b) APPS_LOOKUP_RESP_HDR_SIZE (alb_item_count b)
     (alb_data_offset b) (alb_generation b)"

section \<open>Dispatch\<close>

definition dispatch_apps_lookup ::
  "bytes \<Rightarrow> bytes \<Rightarrow> (apps_lookup_request_view \<Rightarrow> apps_lookup_builder \<Rightarrow> bool \<times> apps_lookup_builder) \<Rightarrow>
   (usize \<times> bytes) result" where
  "dispatch_apps_lookup req resp handler =
     rbind (apps_lookup_request_decode req) (\<lambda>request.
     rbind (map_err (\<lambda>_. Overflow) (lookup_data_offset APPS_LOOKUP_RESP_HDR_SIZE (alq_item_count request))) (\<lambda>min_required.
     if length resp < min_required then Err Overflow
     else
       rbind (apps_lookup_builder_new resp (alq_item_count request) 0) (\<lambda>builder.
       let builder = (if alq_item_count request > 0
                      then builder\<lparr>alb_payload_exceeded_fixed_item_len := Some (APPS_LOOKUP_ITEM_HDR_SIZE + 3)\<rparr>
                      else builder) in
       case handler request builder of (ok, builder) \<Rightarrow>
         if \<not> ok then Err (case alb_error builder of Some err \<Rightarrow> err | None \<Rightarrow> HandlerFailed)
         else
           case alb_error builder of
             Some err \<Rightarrow> Err err
           | None \<Rightarrow>
               if alb_item_count builder \<noteq> alq_item_count request then Err BadItemCount
               else alb_finish builder)))"


section \<open>Items on the wire\<close>

record al_entry =
  ae_status :: u16
  ae_cgroup_status :: u16
  ae_orchestrator :: u16
  ae_pid :: u32
  ae_ppid :: u32
  ae_uid :: u32
  ae_starttime :: u64
  ae_comm :: bytes
  ae_path :: bytes
  ae_name :: bytes
  ae_labels :: "label list"

definition al_header :: "al_entry \<Rightarrow> bytes" where
  "al_header e =
     u16_to_ne 1 @ u16_to_ne (ae_status e) @ u16_to_ne (ae_orchestrator e) @ u16_to_ne (ae_cgroup_status e) @
     u32_to_ne (ae_pid e) @ u32_to_ne (ae_ppid e) @ u32_to_ne (ae_uid e) @ u32_to_ne 0 @ u64_to_ne (ae_starttime e) @
     u32_to_ne 60 @ u32_to_ne (word_of_nat (length (ae_comm e))) @
     u32_to_ne (word_of_nat (61 + length (ae_comm e))) @ u32_to_ne (word_of_nat (length (ae_path e))) @
     u32_to_ne (word_of_nat (62 + length (ae_comm e) + length (ae_path e))) @ u32_to_ne (word_of_nat (length (ae_name e))) @
     u16_to_ne (word_of_nat (length (ae_labels e))) @ u16_to_ne 0"

definition al_fixed :: "al_entry \<Rightarrow> bytes" where
  "al_fixed e = al_header e @ ae_comm e @ [0] @ ae_path e @ [0] @ ae_name e @ [0]"

definition al_wire :: "al_entry \<Rightarrow> bytes" where
  "al_wire e = al_fixed e @ label_block (length (al_fixed e)) (ae_labels e)"

abbreviation al_semantics :: "al_entry \<Rightarrow> unit result" where
  "al_semantics e \<equiv> validate_apps_lookup_semantics (ae_status e) (ae_cgroup_status e) (ae_orchestrator e) (ae_ppid e) (ae_uid e)
     (ae_starttime e) (length (ae_comm e)) (length (ae_path e)) (length (ae_name e)) (length (ae_labels e))"

definition al_entry_ok :: "al_entry \<Rightarrow> bool" where
  "al_entry_ok e \<longleftrightarrow> al_semantics e = Ok () \<and>
     0 \<notin> set (ae_comm e) \<and> 0 \<notin> set (ae_path e) \<and> 0 \<notin> set (ae_name e) \<and> labels_valid (ae_labels e) \<and>
     length (ae_labels e) < 2 ^ 16 \<and> length (al_wire e) < 2 ^ 32"

abbreviation al_str :: "bytes \<Rightarrow> str_view" where
  "al_str x \<equiv> \<lparr>sv_bytes = x @ [0], sv_len = word_of_nat (length x)\<rparr>"

definition al_view :: "al_entry \<Rightarrow> apps_lookup_item_view" where
  "al_view e = \<lparr>ali_status = ae_status e, ali_orchestrator = ae_orchestrator e, ali_cgroup_status = ae_cgroup_status e,
     ali_pid = ae_pid e, ali_ppid = ae_ppid e, ali_uid = ae_uid e, ali_starttime = ae_starttime e,
     ali_comm = al_str (ae_comm e), ali_cgroup_path = al_str (ae_path e), ali_cgroup_name = al_str (ae_name e),
     ali_label_count = word_of_nat (length (ae_labels e)), ali_item = al_wire e,
     ali_label_table_offset = (if ae_labels e = [] then length (al_fixed e) else al8 (length (al_fixed e)))\<rparr>"

lemma length_al_header [simp]: "length (al_header e) = 60"
  by (simp add: al_header_def)

lemma length_al_fixed [simp]: "length (al_fixed e) = 63 + length (ae_comm e) + length (ae_path e) + length (ae_name e)"
  by (simp add: al_fixed_def)

lemma length_al_wire: "length (al_wire e) =
    63 + length (ae_comm e) + length (ae_path e) + length (ae_name e) + length (label_block (length (al_fixed e)) (ae_labels e))"
  by (simp add: al_wire_def)

lemma al_wire_reads:
  assumes "item = al_wire e"
  shows "rd16 item 0 = 1" "rd16 item 2 = ae_status e" "rd16 item 4 = ae_orchestrator e" "rd16 item 6 = ae_cgroup_status e"
    "rd32 item 8 = ae_pid e" "rd32 item 12 = ae_ppid e" "rd32 item 16 = ae_uid e" "rd32 item 20 = 0" "rd64 item 24 = ae_starttime e"
    "rd32 item 32 = 60" "rd32 item 36 = word_of_nat (length (ae_comm e))"
    "rd32 item 40 = word_of_nat (61 + length (ae_comm e))" "rd32 item 44 = word_of_nat (length (ae_path e))"
    "rd32 item 48 = word_of_nat (62 + length (ae_comm e) + length (ae_path e))" "rd32 item 52 = word_of_nat (length (ae_name e))"
    "rd16 item 56 = word_of_nat (length (ae_labels e))" "rd16 item 58 = 0"
  unfolding assms al_wire_def al_fixed_def al_header_def append_assoc
  by (simp_all add: wire_reads del: of_nat_add)

lemma al_wire_strings:
  assumes "item = al_wire e"
  shows "sub item 60 (length (ae_comm e) + 1) = ae_comm e @ [0]"
    "sub item (61 + length (ae_comm e)) (length (ae_path e) + 1) = ae_path e @ [0]"
    "sub item (62 + length (ae_comm e) + length (ae_path e)) (length (ae_name e) + 1) = ae_name e @ [0]"
proof -
  have i: "item = al_header e @ (ae_comm e @ [0]) @ (ae_path e @ [0]) @ (ae_name e @ [0]) @
      label_block (length (al_fixed e)) (ae_labels e)"
    using assms by (simp add: al_wire_def al_fixed_def)
  have "sub (al_header e @ (ae_comm e @ [0]) @ r) 60 (length (ae_comm e) + 1) = ae_comm e @ [0]" for r
    by (simp add: append_windows sub_def)
  then show "sub item 60 (length (ae_comm e) + 1) = ae_comm e @ [0]" unfolding i .
  have "sub (al_header e @ (ae_comm e @ [0]) @ (ae_path e @ [0]) @ r) (61 + length (ae_comm e)) (length (ae_path e) + 1) =
      ae_path e @ [0]" for r
    by (simp add: append_windows sub_def)
  then show "sub item (61 + length (ae_comm e)) (length (ae_path e) + 1) = ae_path e @ [0]" unfolding i .
  have "sub (al_header e @ (ae_comm e @ [0]) @ (ae_path e @ [0]) @ (ae_name e @ [0]) @ r)
      (62 + length (ae_comm e) + length (ae_path e)) (length (ae_name e) + 1) = ae_name e @ [0]" for r
    by (simp add: append_windows sub_def)
  then show "sub item (62 + length (ae_comm e) + length (ae_path e)) (length (ae_name e) + 1) = ae_name e @ [0]" unfolding i .
qed

lemma decode_apps_item_wire:
  assumes "al_entry_ok e"
  shows "decode_apps_item (al_wire e) = Ok (al_view e)"
proof -
  let ?i = "al_wire e" and ?c = "length (ae_comm e)" and ?p = "length (ae_path e)" and ?n = "length (ae_name e)"
  note ok = assms [unfolded al_entry_ok_def]
  have l: "length ?i < 2 ^ 32" using ok by simp
  have ge: "63 + ?c + ?p + ?n \<le> length ?i" by (simp add: length_al_wire)
  have u: "unat (word_of_nat ?c :: u32) = ?c" "unat (word_of_nat ?p :: u32) = ?p" "unat (word_of_nat ?n :: u32) = ?n"
      "unat (word_of_nat (61 + ?c) :: u32) = 61 + ?c" "unat (word_of_nat (62 + ?c + ?p) :: u32) = 62 + ?c + ?p" "unat (60 :: u32) = 60"
      "unat (word_of_nat (length (ae_labels e)) :: u16) = length (ae_labels e)"
    using l ge ok by (simp_all del: of_nat_add)
  have at: "u16_at ?i k = Ok (rd16 ?i k)" if "k \<le> 58" for k using ge that by simp
  have at4: "u32_at ?i k = Ok (rd32 ?i k)" if "k \<le> 56" for k using ge that by simp
  have at8: "u64_at ?i 24 = Ok (rd64 ?i 24)" using ge by simp
  have s: "lookup_string ?i 60 60 ?c = Ok (al_str (ae_comm e), 60 + ?c + 1)"
      "lookup_string ?i 60 (61 + ?c) ?p = Ok (al_str (ae_path e), 61 + ?c + ?p + 1)"
      "lookup_string ?i 60 (62 + ?c + ?p) ?n = Ok (al_str (ae_name e), 62 + ?c + ?p + ?n + 1)"
    using ok ge l al_wire_strings [OF refl, of e] by (intro lookup_string_wire; simp add: USIZE_MAX_def)+
  define ts where "ts = (if ae_labels e = [] then length (al_fixed e) else al8 (length (al_fixed e)))"
  have fx: "63 + (?c + (?p + ?n)) = length (al_fixed e)" by simp
  have lb: "validate_labels ?i 60 (word_of_nat (length (ae_labels e))) (63 + (?c + (?p + ?n))) = Ok ts"
    unfolding fx ts_def using ok by (intro validate_labels_wire al_wire_def) simp_all
  have ov: "\<not> (overlap 60 (60 + ?c + 1) (61 + ?c) (61 + ?c + ?p + 1) \<or>
      overlap 60 (60 + ?c + 1) (62 + ?c + ?p) (62 + ?c + ?p + ?n + 1) \<or>
      overlap (61 + ?c) (61 + ?c + ?p + 1) (62 + ?c + ?p) (62 + ?c + ?p + ?n + 1))" by (simp add: overlap_def)
  have mx: "max (max (60 + ?c + 1) (61 + ?c + ?p + 1)) (62 + ?c + ?p + ?n + 1) = 63 + (?c + (?p + ?n))" by simp
  have sem: "al_semantics e = Ok ()" using ok by simp
  have nl: "\<not> length ?i < 60" using ge by simp
  show ?thesis
    unfolding decode_apps_item_def al_sizes if_not_P [OF nl]
    using ov by (simp add: at at4 at8 al_wire_reads [OF refl] u s mx lb sem al_view_def ts_def [symmetric]
        del: length_al_fixed of_nat_add)
qed

lemma al_view_label:
  assumes "al_entry_ok e" "j < length (ae_labels e)"
  shows "apps_lookup_item_label (al_view e) (word_of_nat j) = Ok (label_view (ae_labels e ! j))"
  using assms label_at_wire [of "al_wire e" "al_fixed e" "ae_labels e" 60 j]
  by (auto simp: apps_lookup_item_label_def al_view_def al_sizes al_entry_ok_def al_wire_def)


section \<open>Reading a response\<close>

lemma decode_apps_item_facts:
  assumes "decode_apps_item item = Ok v"
  shows "60 \<le> length item" "ali_item v = item" "ali_pid v = rd32 item 8"
    "validate_apps_lookup_semantics (ali_status v) (ali_cgroup_status v) (ali_orchestrator v) (ali_ppid v) (ali_uid v)
       (ali_starttime v) (unat (rd32 item 36)) (unat (rd32 item 44)) (unat (rd32 item 52)) (unat (ali_label_count v)) = Ok ()"
    "\<exists>fc fp fn. lookup_string item 60 (unat (rd32 item 32)) (unat (rd32 item 36)) = Ok (ali_comm v, fc) \<and>
       lookup_string item 60 (unat (rd32 item 40)) (unat (rd32 item 44)) = Ok (ali_cgroup_path v, fp) \<and>
       lookup_string item 60 (unat (rd32 item 48)) (unat (rd32 item 52)) = Ok (ali_cgroup_name v, fn) \<and>
       validate_labels item 60 (ali_label_count v) (max (max fc fp) fn) = Ok (ali_label_table_offset v)"
proof -
  show l: "60 \<le> length item" using assms by (simp add: decode_apps_item_def al_sizes not_less split: if_splits)
  have at: "u16_at item k = Ok (rd16 item k)" if "k \<le> 58" for k using l that by simp
  have at4: "u32_at item k = Ok (rd32 item k)" if "k \<le> 56" for k using l that by simp
  have at8: "u64_at item 24 = Ok (rd64 item 24)" using l by simp
  have "ali_item v = item \<and> ali_pid v = rd32 item 8 \<and>
    validate_apps_lookup_semantics (ali_status v) (ali_cgroup_status v) (ali_orchestrator v) (ali_ppid v) (ali_uid v)
       (ali_starttime v) (unat (rd32 item 36)) (unat (rd32 item 44)) (unat (rd32 item 52)) (unat (ali_label_count v)) = Ok () \<and>
    (\<exists>fc fp fn. lookup_string item 60 (unat (rd32 item 32)) (unat (rd32 item 36)) = Ok (ali_comm v, fc) \<and>
       lookup_string item 60 (unat (rd32 item 40)) (unat (rd32 item 44)) = Ok (ali_cgroup_path v, fp) \<and>
       lookup_string item 60 (unat (rd32 item 48)) (unat (rd32 item 52)) = Ok (ali_cgroup_name v, fn) \<and>
       validate_labels item 60 (ali_label_count v) (max (max fc fp) fn) = Ok (ali_label_table_offset v))"
    using assms [unfolded decode_apps_item_def al_sizes if_not_P [OF leD [OF l]]]
    by (auto simp: at at4 at8 rbind_eq_Ok split: if_splits)
  then show "ali_item v = item" "ali_pid v = rd32 item 8"
    "validate_apps_lookup_semantics (ali_status v) (ali_cgroup_status v) (ali_orchestrator v) (ali_ppid v) (ali_uid v)
       (ali_starttime v) (unat (rd32 item 36)) (unat (rd32 item 44)) (unat (rd32 item 52)) (unat (ali_label_count v)) = Ok ()"
    "\<exists>fc fp fn. lookup_string item 60 (unat (rd32 item 32)) (unat (rd32 item 36)) = Ok (ali_comm v, fc) \<and>
       lookup_string item 60 (unat (rd32 item 40)) (unat (rd32 item 44)) = Ok (ali_cgroup_path v, fp) \<and>
       lookup_string item 60 (unat (rd32 item 48)) (unat (rd32 item 52)) = Ok (ali_cgroup_name v, fn) \<and>
       validate_labels item 60 (ali_label_count v) (max (max fc fp) fn) = Ok (ali_label_table_offset v)"
    by blast+
qed

lemma apps_semantics_no_panic [no_panic, simp]:
  "validate_apps_lookup_semantics st cst orch ppid uid start c p n k \<noteq> Panic"
  by (simp add: validate_apps_lookup_semantics_def validate_apps_lookup_domains_def validate_apps_lookup_unknown_def
      validate_apps_lookup_known_def)

lemma decode_apps_item_no_panic [no_panic]:
  assumes "length item \<le> ISIZE_MAX"
  shows "decode_apps_item item \<noteq> Panic"
proof -
  have lb: "validate_labels item 60 lc (max (max fc fp) fn) \<noteq> Panic"
    if "lookup_string item 60 a b = Ok (x, fc)" "lookup_string item 60 c d = Ok (p, fp)" "lookup_string item 60 e f = Ok (q, fn)"
    for lc fc fp fn a b x c d p e f q
    using that assms by (intro validate_labels_no_panic) (auto simp: lookup_string_Ok)
  show ?thesis
  proof (cases "60 \<le> length item")
    case True
    then show ?thesis
      unfolding decode_apps_item_def al_sizes if_not_P [OF leD [OF True]]
      by (auto simp: rbind_eq_Panic dest: lb)
  qed (simp add: decode_apps_item_def al_sizes)
qed

lemma decode_apps_item_readable:
  assumes "decode_apps_item item = Ok v" "length item \<le> ISIZE_MAX"
  shows "str_view_ok (ali_comm v)" "str_view_ok (ali_cgroup_path v)" "str_view_ok (ali_cgroup_name v)"
    "unat (sv_len (ali_comm v)) \<le> 15" "ali_status v = PID_LOOKUP_KNOWN \<Longrightarrow> 0 < unat (sv_len (ali_comm v))"
    "unat i < unat (ali_label_count v) \<Longrightarrow> \<exists>l. apps_lookup_item_label v i = Ok l"
proof -
  note f = decode_apps_item_facts [OF assms(1)]
  obtain fc fp fn where s: "lookup_string item 60 (unat (rd32 item 32)) (unat (rd32 item 36)) = Ok (ali_comm v, fc)"
      "lookup_string item 60 (unat (rd32 item 40)) (unat (rd32 item 44)) = Ok (ali_cgroup_path v, fp)"
      "lookup_string item 60 (unat (rd32 item 48)) (unat (rd32 item 52)) = Ok (ali_cgroup_name v, fn)"
    and vl: "validate_labels item 60 (ali_label_count v) (max (max fc fp) fn) = Ok (ali_label_table_offset v)"
    using f(5) by blast
  show "str_view_ok (ali_comm v)" "str_view_ok (ali_cgroup_path v)" "str_view_ok (ali_cgroup_name v)"
    using s by (auto simp: lookup_string_Ok intro!: str_view_window)
  show "unat (sv_len (ali_comm v)) \<le> 15"
    using s(1) f(4) by (auto simp: lookup_string_Ok validate_apps_lookup_semantics_def validate_apps_lookup_domains_def split: if_splits)
  show "0 < unat (sv_len (ali_comm v))" if "ali_status v = PID_LOOKUP_KNOWN"
    using s(1) f(4) that
    by (auto simp: lookup_string_Ok validate_apps_lookup_semantics_def validate_apps_lookup_known_def rbind_eq_Ok split: if_splits)
  have m: "max (max fc fp) fn \<le> length item" using s by (auto simp: lookup_string_Ok)
  show "\<exists>l. apps_lookup_item_label v i = Ok l" if "unat i < unat (ali_label_count v)"
    using validate_labels_readable [OF vl m assms(2) that] f(2) by (simp add: apps_lookup_item_label_def al_sizes)
qed

interpretation alresp: lookup_response decode_apps_item apps_lookup_check_items 60
  "\<lambda>n g p. \<lparr>alr_layout_version = 1, alr_flags = 0, alr_item_count = n, alr_generation = g, alr_payload = p\<rparr>"
  alr_item_count alr_generation alr_payload apps_lookup_response_decode apps_lookup_response_item apps_lookup_raw_item
proof (unfold_locales, goal_cases)
  case (2 buf dir_end i n)
  show ?case unfolding apps_lookup_check_items.simps al_sizes Let_def ..
next
  case (3 item)
  then show ?case by (rule decode_apps_item_no_panic)
next
  case (7 buf)
  show ?case unfolding apps_lookup_response_decode_def al_sizes ..
next
  case (8 v idx)
  show ?case unfolding apps_lookup_response_item_def al_sizes ..
next
  case (9 v idx)
  show ?case unfolding apps_lookup_raw_item_def al_sizes ..
qed simp_all

section \<open>The builder keeps a packed area of items\<close>

definition al_degraded :: "u16 \<Rightarrow> u32 \<Rightarrow> al_entry" where
  "al_degraded status pid =
     \<lparr>ae_status = status, ae_cgroup_status = 0, ae_orchestrator = 0, ae_pid = pid, ae_ppid = 0, ae_uid = NIPC_UID_UNSET,
      ae_starttime = 0, ae_comm = [], ae_path = [], ae_name = [], ae_labels = []\<rparr>"

definition alb_state :: "nat \<Rightarrow> apps_lookup_builder \<Rightarrow> al_entry list \<Rightarrow> bool" where
  "alb_state cap b es \<longleftrightarrow>
     lookup_state cap (alb_buf b) (alb_max_items b) (alb_data_offset b) (alb_item_count b) (map al_wire es)"

definition alb_kept :: "apps_lookup_builder \<Rightarrow> apps_lookup_builder \<Rightarrow> bool" where
  "alb_kept b b' \<longleftrightarrow> alb_generation b' = alb_generation b \<and> alb_max_items b' = alb_max_items b \<and>
     alb_payload_exceeded_suffix_bytes b' = alb_payload_exceeded_suffix_bytes b \<and>
     alb_payload_exceeded_fixed_item_len b' = alb_payload_exceeded_fixed_item_len b"

definition alb_frame :: "apps_lookup_builder \<Rightarrow> apps_lookup_builder \<Rightarrow> bool" where
  "alb_frame b b' \<longleftrightarrow> alb_kept b b' \<and> alb_payload_exceeded_suffix b' = alb_payload_exceeded_suffix b"

lemma alb_state_facts:
  assumes "alb_state cap b es"
  shows "unat (alb_item_count b) = length es" "alb_data_offset b \<le> cap" "length es \<le> unat (alb_max_items b)"
    "alb_item_count b \<ge> alb_max_items b \<longleftrightarrow> length es = unat (alb_max_items b)"
    "align8 (alb_data_offset b) = al8 (alb_data_offset b)" "length (alb_buf b) = cap" "cap < 2 ^ 32"
    "length es < unat (alb_max_items b) \<Longrightarrow> unat (alb_item_count b + 1) = length es + 1"
  using lookup_state_facts [OF assms [unfolded alb_state_def]] by simp_all

lemma write_apps_item_header_ok:
  assumes "60 \<le> length item" "62 + c + p < 2 ^ 32" "n < 2 ^ 32" "c = length (ae_comm e)" "p = length (ae_path e)" "n = length (ae_name e)"
  shows "write_apps_item_header item (ae_status e) (ae_orchestrator e) (ae_cgroup_status e) (ae_pid e) (ae_ppid e) (ae_uid e)
     (ae_starttime e) 60 c (61 + c) p (62 + c + p) n (word_of_nat (length (ae_labels e))) = Ok (upd item 0 (al_header e))"
  using assms
  by (simp add: write_apps_item_header_def al_header_def upd_upd_append del: of_nat_add)

lemma al_degraded_wire: "al_wire (al_degraded status pid) = al_header (al_degraded status pid) @ [0, 0, 0]"
  by (simp add: al_wire_def al_fixed_def al_degraded_def label_block_def)

lemma length_al_degraded [simp]: "length (al_wire (al_degraded status pid)) = 63"
  by (simp add: al_degraded_wire)

lemma alb_add_non_known_item_ok:
  assumes st: "alb_state cap b es" and n: "length es < unat (alb_max_items b)"
    and fit: "al8 (alb_data_offset b) + 63 \<le> cap"
  shows "\<exists>b'. alb_add_non_known_item status pid b = Ok b' \<and> alb_state cap b' (es @ [al_degraded status pid]) \<and>
     alb_frame b b' \<and> alb_error b' = None \<and> alb_data_offset b' = al8 (alb_data_offset b) + 63"
proof -
  let ?e = "al_degraded status pid" and ?o = "al8 (alb_data_offset b)"
  note ls = st [unfolded alb_state_def]
  define buf1 where "buf1 = upd (alb_buf b) (alb_data_offset b) (replicate (?o - alb_data_offset b) 0)"
  define buf2 where "buf2 = upd buf1 ?o (al_wire ?e)"
  define buf3 where "buf3 = upd (upd buf2 (16 + length (map al_wire es) * 8) (u32_to_ne (word_of_nat ?o)))
      (16 + length (map al_wire es) * 8 + 4) (u32_to_ne (word_of_nat (length (al_wire ?e))))"
  note f = alb_state_facts [OF st]
  note pl = lookup_state_place [OF ls _ _ buf1_def buf2_def buf3_def, unfolded length_map length_al_degraded, OF n fit]
  have nc: "\<not> alb_max_items b \<le> alb_item_count b" using f(4) n by simp
  have c: "checked_add ?o 63 = Some (?o + 63)" using fit f(7) by (simp add: checked_ok USIZE_MAX_def)
  let ?item = "sub buf1 ?o 63" and ?z = "replicate 63 (0 :: u8)"
  have fl: "(fill ?item 0 (length ?item) 0 :: alb_outcome_bytes) = Ok ?z"
    using pl(4) by (simp add: fill_ok del: length_sub)
  have wr: "write_apps_item_header ?z status 0 0 pid 0 NIPC_UID_UNSET 0 60 0 (60 + 1) 0 (60 + 2) 0 0 = Ok (al_wire ?e)"
  proof -
    have "upd ?z 0 (al_header ?e) = al_wire ?e" by (simp add: upd_0 al_degraded_wire numeral_3_eq_3)
    then show ?thesis
      using write_apps_item_header_ok [of ?z 0 0 0 ?e] by (simp add: al_degraded_def)
  qed
  have fits: "\<not> ?o + 63 > length (alb_buf b)" using fit f(6) by simp
  let ?b = "b\<lparr>alb_buf := buf3, alb_data_offset := ?o + 63, alb_item_count := alb_item_count b + 1, alb_error := None\<rparr>"
  have s63: "60 + 3 = (63 :: nat)" by simp
  have "alb_add_non_known_item status pid b = Ok ?b"
    unfolding alb_add_non_known_item_def al_sizes Let_def if_not_P [OF nc] f(5) pl(1) s63 c option.case if_not_P [OF fits]
      rbind.simps pl(3) fl wr outcome.case
    using pl(11) by (simp add: pl(8-10) f(1) buf2_def [symmetric] pl(5) pl(6) [simplified])
  moreover have "alb_state cap ?b (es @ [?e])" using pl(7) by (simp add: alb_state_def)
  ultimately show ?thesis by (simp add: alb_frame_def alb_kept_def)
qed

lemma alb_add_non_known_item_full:
  assumes st: "alb_state cap b es"
    and "\<not> (length es < unat (alb_max_items b) \<and> al8 (alb_data_offset b) + 63 \<le> cap)"
  shows "alb_add_non_known_item status pid b = alb_fail Overflow b"
proof (cases "alb_item_count b \<ge> alb_max_items b")
  case True
  then show ?thesis by (simp add: alb_add_non_known_item_def)
next
  case False
  note f = alb_state_facts [OF st]
  have "cap < al8 (alb_data_offset b) + 63" using assms(2) False f(3,4) by auto
  then show ?thesis
    using False f(5-7) by (auto simp: alb_add_non_known_item_def al_sizes Let_def checked_add_def)
qed


text \<open>Writing a KNOWN item of settled size.\<close>

lemma alb_known_item:
  assumes il: "length item = length (al_wire e)" and l: "length item < 2 ^ 32"
    and fe: "fixed_end = 63 + length (ae_comm e) + length (ae_path e) + length (ae_name e)"
    and ts: "ae_labels e \<noteq> [] \<longrightarrow> table_start = al8 fixed_end" and sz: "sz = length (al_wire e)"
    and cp: "c = length (ae_comm e)" "p = length (ae_path e)" "n = length (ae_name e)"
  shows "rbind (copy_from_slice (upd item 0 (al_header e)) 60 (60 + c) (ae_comm e)) (\<lambda>item.
     rbind (index_set item (60 + c) 0) (\<lambda>item.
     rbind (copy_from_slice item (61 + c) (61 + c + p) (ae_path e)) (\<lambda>item.
     rbind (index_set item (61 + c + p) 0) (\<lambda>item.
     rbind (copy_from_slice item (62 + c + p) (62 + c + p + n) (ae_name e)) (\<lambda>item.
     rbind (index_set item (62 + c + p + n) 0) (\<lambda>item.
     rbind (if ae_labels e \<noteq> []
            then rbind (fill item fixed_end table_start 0) (\<lambda>item.
                 map_err g (write_lookup_labels item table_start (length (ae_labels e) * 16) (ae_labels e)))
            else Ok (sz, item)) k)))))) =
     (k (length (al_wire e), al_wire e) :: ('e, 'r) outcome)"
proof -
  let ?c = "ae_comm e" and ?p = "ae_path e" and ?n = "ae_name e" and ?h = "al_header e"
  have ge: "63 + c + p + n \<le> length item" using il cp by (simp add: length_al_wire)
  have 1: "(copy_from_slice (upd item 0 ?h) 60 (60 + c) ?c :: ('e, _) outcome) = Ok (upd item 0 (?h @ ?c))"
      "(index_set (upd item 0 (?h @ ?c)) (60 + c) 0 :: ('e, _) outcome) = Ok (upd item 0 (?h @ ?c @ [0]))"
      "(copy_from_slice (upd item 0 (?h @ ?c @ [0])) (61 + c) (61 + c + p) ?p :: ('e, _) outcome) =
         Ok (upd item 0 (?h @ ?c @ 0 # ?p))"
      "(index_set (upd item 0 (?h @ ?c @ 0 # ?p)) (61 + c + p) 0 :: ('e, _) outcome) =
         Ok (upd item 0 (?h @ ?c @ 0 # ?p @ [0]))"
      "(copy_from_slice (upd item 0 (?h @ ?c @ 0 # ?p @ [0])) (62 + c + p) (62 + c + p + n) ?n :: ('e, _) outcome) =
         Ok (upd item 0 (?h @ ?c @ 0 # ?p @ 0 # ?n))"
      "(index_set (upd item 0 (?h @ ?c @ 0 # ?p @ 0 # ?n)) (62 + c + p + n) 0 :: ('e, _) outcome) =
         Ok (upd item 0 (al_fixed e))"
    using ge cp by (simp_all add: copy_from_slice_ok index_set_ok upd_upd_append al_fixed_def)
  have fl: "length (al_fixed e) = fixed_end" using fe by simp
  note lb = write_label_block [of item "al_fixed e" "ae_labels e" table_start sz g k, folded al_wire_def, unfolded fl, OF il l ts]
  show ?thesis unfolding 1 rbind.simps using lb il sz by simp
qed

abbreviation alb_write_entry ::
  "al_entry \<Rightarrow> usize \<Rightarrow> usize \<Rightarrow> usize \<Rightarrow> apps_lookup_builder \<Rightarrow> alb_outcome" where
  "alb_write_entry e ts tb sz b \<equiv>
     alb_write_known_item (ae_status e) (ae_cgroup_status e) (ae_orchestrator e) (ae_pid e) (ae_ppid e) (ae_uid e)
       (ae_starttime e) (ae_comm e) (ae_path e) (ae_name e) (ae_labels e) (word_of_nat (length (ae_labels e)))
       (al8 (alb_data_offset b)) (al8 (alb_data_offset b) + sz) (61 + length (ae_comm e))
       (62 + length (ae_comm e) + length (ae_path e)) (63 + length (ae_comm e) + length (ae_path e) + length (ae_name e))
       ts tb sz b"

lemma alb_write_known_item_ok:
  assumes st: "alb_state cap b es" and n: "length es < unat (alb_max_items b)"
    and fit: "al8 (alb_data_offset b) + length (al_wire e) \<le> cap"
    and ts: "ae_labels e \<noteq> [] \<longrightarrow> ts = al8 (63 + length (ae_comm e) + length (ae_path e) + length (ae_name e))"
    and sz: "sz = length (al_wire e)"
  shows "\<exists>b'. alb_write_entry e ts (length (ae_labels e) * 16) sz b = Ok b' \<and>
     alb_state cap b' (es @ [e]) \<and> alb_frame b b' \<and> alb_error b' = None \<and>
     alb_data_offset b' = al8 (alb_data_offset b) + length (al_wire e)"
proof -
  let ?o = "al8 (alb_data_offset b)" and ?w = "al_wire e"
  note ls = st [unfolded alb_state_def]
  define buf1 where "buf1 = upd (alb_buf b) (alb_data_offset b) (replicate (?o - alb_data_offset b) 0)"
  define buf2 where "buf2 = upd buf1 ?o ?w"
  define buf3 where "buf3 = upd (upd buf2 (16 + length (map al_wire es) * 8) (u32_to_ne (word_of_nat ?o)))
      (16 + length (map al_wire es) * 8 + 4) (u32_to_ne (word_of_nat (length ?w)))"
  note f = alb_state_facts [OF st]
  note pl = lookup_state_place [OF ls _ _ buf1_def buf2_def buf3_def, unfolded length_map, OF n fit]
  let ?item = "sub buf1 ?o (length ?w)"
  have ge: "63 + length (ae_comm e) + length (ae_path e) + length (ae_name e) \<le> length ?w" by (simp add: length_al_wire)
  have wr: "write_apps_item_header ?item (ae_status e) (ae_orchestrator e) (ae_cgroup_status e) (ae_pid e) (ae_ppid e) (ae_uid e)
      (ae_starttime e) 60 (length (ae_comm e)) (61 + length (ae_comm e)) (length (ae_path e))
      (62 + length (ae_comm e) + length (ae_path e)) (length (ae_name e)) (word_of_nat (length (ae_labels e))) =
      Ok (upd ?item 0 (al_header e))"
    using ge pl(4) fit f(7) by (intro write_apps_item_header_ok) linarith+
  have lw: "length ?item < 2 ^ 32" using pl(4) fit f(7) by simp
  note kn = alb_known_item [OF pl(4) lw refl ts refl refl refl refl]
  let ?b = "b\<lparr>alb_buf := buf3, alb_data_offset := ?o + length ?w, alb_item_count := alb_item_count b + 1, alb_error := None\<rparr>"
  have "alb_write_entry e ts (length (ae_labels e) * 16) sz b = Ok ?b"
    unfolding alb_write_known_item_def al_sizes Let_def pl(1) rbind.simps sz pl(3) wr outcome.case kn
    by (simp add: pl(8-11) f(1) buf2_def [symmetric] pl(5,6))
  moreover have "alb_state cap ?b (es @ [e])" using pl(7) by (simp add: alb_state_def)
  ultimately show ?thesis by (simp add: alb_frame_def alb_kept_def)
qed

section \<open>Outcomes of \<open>add\<close>\<close>

text \<open>
  \<open>alb_post\<close>: what every add leaves behind. On success one more item, which decodes; on failure the items as they
  were and the error recorded.
\<close>

fun alb_post :: "nat \<Rightarrow> al_entry list \<Rightarrow> (al_entry \<Rightarrow> bool) \<Rightarrow> apps_lookup_builder \<Rightarrow> alb_outcome \<Rightarrow> bool" where
  "alb_post cap es P b Panic = False"
| "alb_post cap es P b (Err (err, b')) = (alb_state cap b' es \<and> alb_error b' = Some err \<and> alb_kept b b')"
| "alb_post cap es P b (Ok b') =
     (\<exists>e. alb_state cap b' (es @ [e]) \<and> P e \<and> al_entry_ok e \<and> alb_error b' = None \<and> alb_kept b b')"

lemma alb_kept_refl [simp]: "alb_kept b b" "alb_kept b (b\<lparr>alb_error := err\<rparr>)"
    "alb_kept b (b\<lparr>alb_payload_exceeded_suffix := flag\<rparr>)"
  by (simp_all add: alb_kept_def)

lemma alb_post_kept: "alb_post cap es P b' r \<Longrightarrow> alb_kept b b' \<Longrightarrow> alb_post cap es P b r"
  by (induction cap es P b' r rule: alb_post.induct) (auto simp: alb_kept_def)

lemma alb_state_update [simp]:
  "alb_state cap (b\<lparr>alb_error := err\<rparr>) es = alb_state cap b es"
  "alb_state cap (b\<lparr>alb_payload_exceeded_suffix := flag\<rparr>) es = alb_state cap b es"
  "alb_state cap (b\<lparr>alb_generation := g\<rparr>) es = alb_state cap b es"
  "alb_state cap (b\<lparr>alb_payload_exceeded_suffix_bytes := ws\<rparr>) es = alb_state cap b es"
  "alb_state cap (b\<lparr>alb_payload_exceeded_fixed_item_len := len\<rparr>) es = alb_state cap b es"
  by (simp_all add: alb_state_def)

lemma alb_post_fail: "alb_state cap b es \<Longrightarrow> alb_post cap es P b (alb_fail err b)"
  by (simp add: alb_fail_def)

lemma al_degraded_ok: "status \<in> {1, 2, 3} \<Longrightarrow> al_entry_ok (al_degraded status pid)"
  by (auto simp: al_entry_ok_def)
    (auto simp: al_degraded_def validate_apps_lookup_semantics_def validate_apps_lookup_domains_def
      validate_apps_lookup_unknown_def pid_status_defs apps_cgroup_defs labels_valid_def)

lemma alb_post_non_known:
  assumes st: "alb_state cap b es" and "status \<in> {1, 2, 3}" "P (al_degraded status pid)"
  shows "alb_post cap es P b (alb_add_non_known_item status pid b)"
proof (cases "length es < unat (alb_max_items b) \<and> al8 (alb_data_offset b) + 63 \<le> cap")
  case True
  then obtain b' where "alb_add_non_known_item status pid b = Ok b'" "alb_state cap b' (es @ [al_degraded status pid])"
      "alb_frame b b'" "alb_error b' = None"
    using alb_add_non_known_item_ok [OF st, of status pid] by auto
  then show ?thesis
    using assms al_degraded_ok [of status pid] by (auto simp: alb_frame_def intro!: exI [of _ "al_degraded status pid"])
next
  case False
  then show ?thesis using st by (simp add: alb_add_non_known_item_full alb_post_fail)
qed

lemma alb_post_note:
  assumes st: "alb_state cap b es"
    and "P (al_degraded PID_LOOKUP_OVERSIZED_ITEM pid)" "P (al_degraded PID_LOOKUP_PAYLOAD_EXCEEDED pid)"
  shows "alb_post cap es P b (alb_note_item_overflow pid b)"
proof -
  have "alb_post cap es P (b\<lparr>alb_payload_exceeded_suffix := True\<rparr>)
      (alb_add_non_known_item PID_LOOKUP_PAYLOAD_EXCEEDED pid (b\<lparr>alb_payload_exceeded_suffix := True\<rparr>))"
    using assms by (intro alb_post_non_known) (simp_all add: pid_status_defs)
  then have "alb_post cap es P b
      (alb_add_non_known_item PID_LOOKUP_PAYLOAD_EXCEEDED pid (b\<lparr>alb_payload_exceeded_suffix := True\<rparr>))"
    by (rule alb_post_kept) simp
  then show ?thesis
    using assms alb_post_non_known [OF st, of PID_LOOKUP_OVERSIZED_ITEM P pid]
    by (simp add: alb_note_item_overflow_def pid_status_defs)
qed

text \<open>What an answer for \<open>e\<close> may turn into.\<close>

definition al_graceful :: "al_entry \<Rightarrow> al_entry \<Rightarrow> bool" where
  "al_graceful e e' \<longleftrightarrow> e' = e \<or>
     e' = al_degraded PID_LOOKUP_OVERSIZED_ITEM (ae_pid e) \<or> e' = al_degraded PID_LOOKUP_PAYLOAD_EXCEEDED (ae_pid e)"

lemma al_entry_degraded:
  assumes "al_semantics e = Ok ()" "ae_status e \<noteq> PID_LOOKUP_KNOWN"
  shows "e = al_degraded (ae_status e) (ae_pid e)" "ae_status e \<in> {1, 2, 3}"
  using assms
  by (cases e; auto simp: validate_apps_lookup_semantics_def validate_apps_lookup_domains_def validate_apps_lookup_unknown_def
      al_degraded_def pid_status_defs apps_cgroup_defs rbind_eq_Ok split: if_splits)+


abbreviation alb_add_entry :: "al_entry \<Rightarrow> apps_lookup_builder \<Rightarrow> alb_outcome" where
  "alb_add_entry e b \<equiv> alb_add (ae_status e) (ae_cgroup_status e) (ae_orchestrator e) (ae_pid e) (ae_ppid e) (ae_uid e)
     (ae_starttime e) (ae_comm e) (ae_path e) (ae_name e) (ae_labels e) b"

abbreviation al_fixed_end :: "al_entry \<Rightarrow> nat" where
  "al_fixed_end e \<equiv> 63 + length (ae_comm e) + length (ae_path e) + length (ae_name e)"

definition al_small :: "al_entry \<Rightarrow> bool" where
  "al_small e \<longleftrightarrow> length (ae_comm e) + length (ae_path e) + length (ae_name e) < 2 ^ 63"

definition al_strings_ok :: "al_entry \<Rightarrow> bool" where
  "al_strings_ok e \<longleftrightarrow> 0 \<notin> set (ae_comm e) \<and> 0 \<notin> set (ae_path e) \<and> 0 \<notin> set (ae_name e)"

lemma alb_post_known:
  assumes st: "alb_state cap b es" and n: "length es < unat (alb_max_items b)" and small: "al_small e"
    and sem: "al_semantics e = Ok ()" and str: "al_strings_ok e" and lc: "length (ae_labels e) < 2 ^ 16"
    and lay: "label_layout (al_fixed_end e) (ae_labels e) = Ok (ts, tb, sz)" and fit: "al8 (alb_data_offset b) + sz \<le> cap"
  shows "\<exists>b'. alb_write_entry e ts tb sz b = Ok b' \<and> alb_state cap b' (es @ [e]) \<and> al_entry_ok e \<and> alb_frame b b' \<and>
     alb_error b' = None \<and> alb_data_offset b' = al8 (alb_data_offset b) + length (al_wire e)"
proof -
  have s: "al_fixed_end e + 7 \<le> USIZE_MAX" using small by (simp add: USIZE_MAX_def al_small_def)
  have v: "labels_valid (ae_labels e)" using label_layout_cases(3) [OF s lay] .
  have r: "ts = (if ae_labels e = [] then al_fixed_end e else al8 (al_fixed_end e))" "tb = length (ae_labels e) * 16"
      "sz = length (al_wire e)"
    using lay label_layout_cases(2) [OF s v] by (auto simp: length_al_wire split: if_splits)
  have "al_entry_ok e"
    using sem str lc v fit alb_state_facts(7) [OF st] r(3) by (simp add: al_entry_ok_def al_strings_ok_def)
  then show ?thesis
    using alb_write_known_item_ok [OF st n, of e ts sz] fit r by simp
qed

text \<open>A KNOWN item is written only if the reserved suffix still fits behind it.\<close>

definition alb_suffix_fits :: "apps_lookup_builder \<Rightarrow> usize \<Rightarrow> bool" where
  "alb_suffix_fits b item_end = (case alb_payload_exceeded_fixed_item_len b of
     Some len \<Rightarrow> payload_exceeded_fixed_suffix_fits (length (alb_buf b)) item_end len (alb_item_count b + 1) (alb_max_items b)
   | None \<Rightarrow> suffix_reserved (length (alb_buf b)) item_end (alb_payload_exceeded_suffix_bytes b)
       (alb_item_count b + 1) (alb_max_items b))"

definition alb_known_fits :: "apps_lookup_builder \<Rightarrow> al_entry \<Rightarrow> bool" where
  "alb_known_fits b e \<longleftrightarrow> length (ae_labels e) < 2 ^ 16 \<and>
     al8 (alb_data_offset b) + length (al_wire e) \<le> length (alb_buf b) \<and>
     alb_suffix_fits b (al8 (alb_data_offset b) + length (al_wire e))"

lemma alb_add_entry_eq:
  assumes st: "alb_state cap b es" and n: "length es < unat (alb_max_items b)" and ns: "\<not> alb_payload_exceeded_suffix b"
    and small: "al_small e" and sem: "al_semantics e = Ok ()" and str: "al_strings_ok e" and kn: "ae_status e = PID_LOOKUP_KNOWN"
  shows "alb_add_entry e b =
     (if \<not> length (ae_labels e) < 2 ^ 16 then alb_note_item_overflow (ae_pid e) b
      else case label_layout (al_fixed_end e) (ae_labels e) of
        Panic \<Rightarrow> Panic
      | Err err \<Rightarrow> if err = Overflow then alb_note_item_overflow (ae_pid e) b else alb_fail err b
      | Ok (ts, tb, sz) \<Rightarrow>
          if al8 (alb_data_offset b) + sz \<le> cap \<and> alb_suffix_fits b (al8 (alb_data_offset b) + sz)
          then alb_write_entry e ts tb sz b else alb_note_item_overflow (ae_pid e) b)"
proof -
  let ?c = "length (ae_comm e)" and ?p = "length (ae_path e)" and ?n = "length (ae_name e)"
  note f = alb_state_facts [OF st]
  have nc: "\<not> alb_max_items b \<le> alb_item_count b" using f(4) n by auto
  have ce: "ae_comm e \<noteq> []"
    using sem kn by (auto simp: validate_apps_lookup_semantics_def validate_apps_lookup_known_def rbind_eq_Ok split: if_splits)
  have c: "Option.bind (checked_add 60 ?c) (\<lambda>v. checked_add v 1) = Some (61 + ?c)"
      "Option.bind (checked_add (61 + ?c) ?p) (\<lambda>v. checked_add v 1) = Some (62 + ?c + ?p)"
      "Option.bind (checked_add (62 + ?c + ?p) ?n) (\<lambda>v. checked_add v 1) = Some (63 + ?c + ?p + ?n)"
    using small by (simp_all add: checked_ok USIZE_MAX_def al_small_def)
  have str': "\<not> (source_string_invalid (ae_comm e) (ae_status e = PID_LOOKUP_KNOWN) \<or> source_string_invalid (ae_path e) False \<or>
      source_string_invalid (ae_name e) False)"
    using str ce by (auto simp: source_string_invalid_def al_strings_ok_def)
  have kn': "\<not> ae_status e \<noteq> PID_LOOKUP_KNOWN" using kn by simp
  have u16: "checked_u16 (length (ae_labels e)) =
      (if length (ae_labels e) < 2 ^ 16 then Ok (word_of_nat (length (ae_labels e))) else Err Overflow)"
    by (simp add: checked_u16_def)
  have fits: "(case checked_add (al8 (alb_data_offset b)) sz of
      None \<Rightarrow> N
    | Some item_end \<Rightarrow> if \<not> item_end \<le> length (alb_buf b) then N
        else rbind (alb_payload_exceeded_suffix_fits item_end b) (\<lambda>fits. if \<not> fits then N else W item_end)) =
    (if al8 (alb_data_offset b) + sz \<le> cap \<and> alb_suffix_fits b (al8 (alb_data_offset b) + sz)
     then W (al8 (alb_data_offset b) + sz) else N)" for sz N and W :: "nat \<Rightarrow> alb_outcome"
  proof (cases "al8 (alb_data_offset b) + sz \<le> cap")
    case True
    then have "checked_add (al8 (alb_data_offset b)) sz = Some (al8 (alb_data_offset b) + sz)"
      using f by (simp add: checked_ok USIZE_MAX_def)
    then show ?thesis
      using True f by (auto simp: alb_suffix_fits_def alb_payload_exceeded_suffix_fits_def split: option.splits)
  qed (use f in \<open>auto simp: checked_add_def\<close>)
  show ?thesis
    unfolding alb_add_def al_sizes if_not_P [OF ns] if_not_P [OF nc] sem outcome.case if_not_P [OF kn'] if_not_P [OF str']
      Let_def f(5) u16 fits c option.case
    by (auto split: outcome.splits)
qed

text \<open>An answer that is not KNOWN and does not fit is tried once more as a degraded item.\<close>

lemma alb_add_entry_unknown:
  assumes "\<not> alb_payload_exceeded_suffix b" "\<not> alb_max_items b \<le> alb_item_count b" "al_semantics e = Ok ()"
    "ae_status e \<noteq> PID_LOOKUP_KNOWN"
  shows "alb_add_entry e b =
     (case alb_add_non_known_item (ae_status e) (ae_pid e) b of
        Err (Overflow, b) \<Rightarrow> alb_note_item_overflow (ae_pid e) b | other \<Rightarrow> other)"
  unfolding alb_add_def if_not_P [OF assms(1)] if_not_P [OF assms(2)] assms(3) outcome.case
  using assms(4) by (auto simp del: outcome.case nipc_error.case)

lemma alb_post_unknown:
  assumes st: "alb_state cap b es" and s: "s \<in> {1, 2, 3}"
    and P: "P (al_degraded s pid)" "P (al_degraded PID_LOOKUP_OVERSIZED_ITEM pid)" "P (al_degraded PID_LOOKUP_PAYLOAD_EXCEEDED pid)"
  shows "alb_post cap es P b
     (case alb_add_non_known_item s pid b of Err (Overflow, b) \<Rightarrow> alb_note_item_overflow pid b | other \<Rightarrow> other)"
proof (cases "length es < unat (alb_max_items b) \<and> al8 (alb_data_offset b) + 63 \<le> cap")
  case True
  then obtain b' where "alb_add_non_known_item s pid b = Ok b'"
    using alb_add_non_known_item_ok [OF st, of s pid] by auto
  then show ?thesis using alb_post_non_known [of cap b es s P pid] st s P by simp
next
  case False
  let ?b = "b\<lparr>alb_error := Some Overflow\<rparr>"
  have "alb_post cap es P ?b (alb_note_item_overflow pid ?b)" using st P by (intro alb_post_note) simp_all
  then have "alb_post cap es P b (alb_note_item_overflow pid ?b)" by (rule alb_post_kept) simp
  then show ?thesis using alb_add_non_known_item_full [OF st False, of s] by (simp add: alb_fail_def)
qed

lemma alb_post_add_known:
  assumes st: "alb_state cap b es" and small: "al_small e"
    and known: "\<not> alb_payload_exceeded_suffix b" "\<not> alb_max_items b \<le> alb_item_count b" "al_semantics e = Ok ()"
      "al_strings_ok e" "ae_status e = PID_LOOKUP_KNOWN"
  shows "alb_post cap es (al_graceful e) b (alb_add_entry e b)"
proof -
  have note_ok: "alb_post cap es (al_graceful e) b (alb_note_item_overflow (ae_pid e) b)"
    using st by (intro alb_post_note) (simp_all add: al_graceful_def)
  have fail_ok: "alb_post cap es (al_graceful e) b (alb_fail err b)" for err using st by (rule alb_post_fail)
  have n: "length es < unat (alb_max_items b)" using known(2) alb_state_facts(3,4) [OF st] by auto
  have fe: "al_fixed_end e + 7 \<le> USIZE_MAX" using small by (simp add: USIZE_MAX_def al_small_def)
  note eq = alb_add_entry_eq [OF st n known(1) small known(3-5)]
  show ?thesis
  proof (cases "length (ae_labels e) < 2 ^ 16")
    case False
    then show ?thesis using eq note_ok by simp
  next
    case lc: True
    show ?thesis
    proof (cases "label_layout (al_fixed_end e) (ae_labels e)")
      case (Ok r)
      obtain ts tb sz where r: "r = (ts, tb, sz)" by (cases r)
      note w = alb_post_known [OF st n small known(3,4) lc Ok [unfolded r]]
      show ?thesis
        using w eq lc Ok r note_ok
        by (cases "al8 (alb_data_offset b) + sz \<le> cap \<and> alb_suffix_fits b (al8 (alb_data_offset b) + sz)")
          (auto simp: alb_frame_def al_graceful_def)
    next
      case (Err err)
      then show ?thesis using eq lc note_ok fail_ok by simp
    next
      case Panic
      then show ?thesis using label_layout_cases(1) [OF fe] by blast
    qed
  qed
qed

lemma alb_post_add:
  assumes st: "alb_state cap b es" and small: "al_small e"
  shows "alb_post cap es (al_graceful e) b (alb_add_entry e b)"
proof -
  let ?go = "\<not> alb_payload_exceeded_suffix b \<and> \<not> alb_max_items b \<le> alb_item_count b"
  have g: "al_graceful e e" "al_graceful e (al_degraded PID_LOOKUP_OVERSIZED_ITEM (ae_pid e))"
      "al_graceful e (al_degraded PID_LOOKUP_PAYLOAD_EXCEEDED (ae_pid e))" by (simp_all add: al_graceful_def)
  have fail_ok: "alb_post cap es (al_graceful e) b (alb_fail err b)" for err using st by (rule alb_post_fail)
  have cs: "(\<exists>err. al_semantics e = Err err) \<or> al_semantics e = Ok ()" by (cases "al_semantics e") auto
  consider (suffix) "alb_payload_exceeded_suffix b" | (full) "\<not> alb_payload_exceeded_suffix b" "alb_max_items b \<le> alb_item_count b"
    | (sem) err where ?go "al_semantics e = Err err"
    | (unknown) ?go "al_semantics e = Ok ()" "ae_status e \<noteq> PID_LOOKUP_KNOWN"
    | (strings) ?go "al_semantics e = Ok ()" "ae_status e = PID_LOOKUP_KNOWN" "\<not> al_strings_ok e"
    | (known) ?go "al_semantics e = Ok ()" "ae_status e = PID_LOOKUP_KNOWN" "al_strings_ok e"
    using cs by blast
  then show ?thesis
  proof cases
    case suffix
    then show ?thesis using st g by (simp add: alb_add_def alb_post_non_known pid_status_defs)
  next
    case full
    then show ?thesis using fail_ok by (simp add: alb_add_def)
  next
    case sem
    then show ?thesis using fail_ok by (simp add: alb_add_def)
  next
    case unknown
    have d: "al_degraded (ae_status e) (ae_pid e) = e" "ae_status e \<in> {1, 2, 3}"
      using al_entry_degraded [of e] unknown by auto
    have "alb_post cap es (al_graceful e) b
       (case alb_add_non_known_item (ae_status e) (ae_pid e) b of
          Err (Overflow, b) \<Rightarrow> alb_note_item_overflow (ae_pid e) b | other \<Rightarrow> other)"
      using st g d by (intro alb_post_unknown) simp_all
    then show ?thesis using alb_add_entry_unknown [of b e] unknown by simp
  next
    case strings
    then have "source_string_invalid (ae_comm e) True \<or> source_string_invalid (ae_path e) False \<or>
        source_string_invalid (ae_name e) False" by (auto simp: source_string_invalid_def al_strings_ok_def)
    then show ?thesis using strings fail_ok by (simp add: alb_add_def)
  next
    case known
    then show ?thesis using alb_post_add_known [OF st small] by blast
  qed
qed

lemma alb_finish_decodes:
  assumes st: "alb_state cap b es" and ok: "\<And>e. e \<in> set es \<Longrightarrow> al_entry_ok e"
  shows "\<exists>n buf' v. alb_finish b = Ok (n, buf') \<and> n \<le> cap \<and> length buf' = cap \<and>
     apps_lookup_response_decode (take n buf') = Ok v \<and>
     unat (alr_item_count v) = length es \<and> alr_item_count v = alb_item_count b \<and> alr_generation v = alb_generation b \<and>
     (\<forall>i < length es. apps_lookup_response_item v (word_of_nat i) = Ok (al_view (es ! i)))"
proof -
  let ?xs = "map al_wire es" and ?g = "alb_generation b"
  obtain n buf' where f: "finish_lookup_response (alb_buf b) 16 (alb_item_count b) (alb_data_offset b) ?g = Ok (n, buf')"
      "n \<le> cap" "length buf' = cap" "take 16 (take n buf') = lookup_hdr_wire (word_of_nat (length ?xs)) ?g"
      "packed_final (take n buf') 16 ?xs" "length (take n buf') < 2 ^ 32"
    using lookup_state_finish [OF st [unfolded alb_state_def], of ?g] by blast
  have items: "60 \<le> length x \<and> (\<exists>w. decode_apps_item x = Ok w)" if "x \<in> set ?xs" for x
    using that ok decode_apps_item_wire by (auto simp: length_al_wire)
  note d = alresp.final_decode [OF f(4-6) items refl]
  have c: "alb_item_count b = word_of_nat (length es)" using st by (simp add: alb_state_def lookup_state_def)
  have "apps_lookup_response_item \<lparr>alr_layout_version = 1, alr_flags = 0, alr_item_count = word_of_nat (length ?xs),
      alr_generation = ?g, alr_payload = take n buf'\<rparr> (word_of_nat i) = Ok (al_view (es ! i))" if "i < length es" for i
    using d(2) [of i] that ok decode_apps_item_wire [of "es ! i"] by simp
  then show ?thesis
    using f(1-3) d(1) c alb_state_facts(1) [OF st]
    by (intro exI [of _ n] exI [of _ buf'] exI) (auto simp: alb_finish_def al_sizes)
qed

section \<open>Requests\<close>

lemma apps_lookup_check_keys_ok:
  assumes "16 + (i + n) * 8 \<le> length buf" "length buf \<le> ISIZE_MAX" "dir_end \<le> length buf"
  shows "apps_lookup_check_keys buf dir_end i n \<noteq> Panic \<and>
    (apps_lookup_check_keys buf dir_end i n = Ok () \<longleftrightarrow>
      (\<forall>j. i \<le> j \<and> j < i + n \<longrightarrow> dir_end + dir_off buf 16 j + 8 \<le> length buf \<and>
        rd32 (sub buf (dir_end + dir_off buf 16 j) 8) 4 = 0))"
  using assms
proof (induction n arbitrary: i)
  case 0
  then show ?case by auto
next
  case (Suc n)
  let ?o = "dir_off buf 16 i"
  let ?key = "sub buf (dir_end + ?o) 8"
  have s: "checked_subslice buf dir_end ?o 8 = (if dir_end + ?o + 8 \<le> length buf then Ok ?key else Err OutOfBounds)"
    using dir_bounds [of buf 16 i] Suc.prems by (intro checked_subslice_eq) (simp add: usize_bounds)
  have r: "u32_at buf (16 + i * 8) = Ok (rd32 buf (16 + i * 8))" using Suc.prems(1) by simp
  have step: "apps_lookup_check_keys buf dir_end i (Suc n) =
      rbind (checked_subslice buf dir_end ?o 8) (\<lambda>key. rbind (u32_at key 4) (\<lambda>r.
      if r \<noteq> 0 then Err BadLayout else apps_lookup_check_keys buf dir_end (i + 1) n))"
    unfolding apps_lookup_check_keys.simps al_sizes Let_def r rbind.simps dir_off_def by (rule refl)
  have IH: "apps_lookup_check_keys buf dir_end (i + 1) n \<noteq> Panic \<and>
    (apps_lookup_check_keys buf dir_end (i + 1) n = Ok () \<longleftrightarrow>
      (\<forall>j. i + 1 \<le> j \<and> j < i + 1 + n \<longrightarrow> dir_end + dir_off buf 16 j + 8 \<le> length buf \<and>
        rd32 (sub buf (dir_end + dir_off buf 16 j) 8) 4 = 0))"
    using Suc.prems by (intro Suc.IH) simp_all
  have k: "u32_at ?key 4 = Ok (rd32 ?key 4)" if "dir_end + ?o + 8 \<le> length buf" using that by simp
  show ?case unfolding all_range_Suc step s using IH k by auto
qed

definition alq_pid :: "apps_lookup_request_view \<Rightarrow> nat \<Rightarrow> u32" where
  "alq_pid v i = rd32 (sub (alq_payload v) (alq_packed_start v + dir_off (alq_payload v) 16 i) 8) 0"

definition alq_pids :: "apps_lookup_request_view \<Rightarrow> u32 list" where
  "alq_pids v = map (alq_pid v) [0..<unat (alq_item_count v)]"

definition alq_view_of :: "bytes \<Rightarrow> apps_lookup_request_view" where
  "alq_view_of buf = \<lparr>alq_item_count = rd32 buf 4, alq_packed_start = 16 + unat (rd32 buf 4) * 8, alq_payload = buf\<rparr>"

lemma apps_lookup_request_decode_ok:
  assumes l: "length buf \<le> ISIZE_MAX"
  shows "apps_lookup_request_decode buf \<noteq> Panic"
    and "apps_lookup_request_decode buf = Ok v \<longleftrightarrow>
      16 + unat (rd32 buf 4) * 8 \<le> length buf \<and> rd16 buf 0 = 1 \<and> rd16 buf 2 = 0 \<and> rd32 buf 8 = 0 \<and> rd32 buf 12 = 0 \<and>
      validate_lookup_dir buf 16 (rd32 buf 4) (length buf - (16 + unat (rd32 buf 4) * 8)) 0 (Some 8) = Ok () \<and>
      apps_lookup_check_keys buf (16 + unat (rd32 buf 4) * 8) 0 (unat (rd32 buf 4)) = Ok () \<and> v = alq_view_of buf"
proof -
  let ?n = "unat (rd32 buf 4)"
  have c: "checked_add 16 (?n * 8) = Some (16 + ?n * 8)"
    using u32_lt [of "rd32 buf 4"] by (simp add: checked_ok USIZE_MAX_def)
  note vd = validate_lookup_dir_ok [of 16 buf "rd32 buf 4" "length buf - (16 + ?n * 8)" 0 "Some 8"]
  have ck: "apps_lookup_check_keys buf (16 + ?n * 8) 0 ?n \<noteq> Panic" if "16 + ?n * 8 \<le> length buf"
    using apps_lookup_check_keys_ok [of 0 ?n buf "16 + ?n * 8"] that l by simp
  show "apps_lookup_request_decode buf \<noteq> Panic"
    using vd ck by (auto simp: apps_lookup_request_decode_def al_sizes c rbind_eq_Panic Let_def)
  show "apps_lookup_request_decode buf = Ok v \<longleftrightarrow>
      16 + ?n * 8 \<le> length buf \<and> rd16 buf 0 = 1 \<and> rd16 buf 2 = 0 \<and> rd32 buf 8 = 0 \<and> rd32 buf 12 = 0 \<and>
      validate_lookup_dir buf 16 (rd32 buf 4) (length buf - (16 + ?n * 8)) 0 (Some 8) = Ok () \<and>
      apps_lookup_check_keys buf (16 + ?n * 8) 0 ?n = Ok () \<and> v = alq_view_of buf"
    by (cases "length buf < 16")
       (auto simp: apps_lookup_request_decode_def al_sizes c rbind_eq_Ok alq_view_of_def not_less Let_def)
qed

lemma apps_lookup_request_pid:
  assumes d: "apps_lookup_request_decode buf = Ok v" and l: "length buf \<le> ISIZE_MAX" and i: "unat i < unat (alq_item_count v)"
  shows "apps_lookup_request_item v i = Ok (alq_pid v (unat i))"
proof -
  let ?n = "unat (alq_item_count v)" and ?o = "dir_off buf 16 (unat i)"
  note r = d [unfolded apps_lookup_request_decode_ok(2) [OF l]]
  have v: "alq_item_count v = rd32 buf 4" "alq_payload v = buf" "alq_packed_start v = 16 + ?n * 8"
    using r by (auto simp: alq_view_of_def)
  have le: "16 + ?n * 8 \<le> length buf" using r v by simp
  have k: "16 + ?n * 8 + ?o + 8 \<le> length buf"
    using apps_lookup_check_keys_ok [of 0 ?n buf "16 + ?n * 8"] le l r v i by simp
  have ni: "\<not> alq_item_count v \<le> i" using i by (simp add: word_le_nat_alt)
  have b: "16 + unat i * 8 + 8 \<le> length buf" using i le by linarith
  have u: "unat (rd32 buf (16 + unat i * 8)) = ?o" by (simp add: dir_off_def)
  have c: "checked_add 16 (unat i * 8) = Some (16 + unat i * 8)"
    using u32_lt [of i] by (simp add: checked_ok USIZE_MAX_def)
  have cs: "checked_subslice buf (16 + ?n * 8) ?o 8 = Ok (sub buf (16 + ?n * 8 + ?o) 8)"
    using k l by (simp add: checked_subslice_eq usize_bounds)
  show ?thesis
    unfolding apps_lookup_request_item_def if_not_P [OF ni] al_sizes v(2,3)
    using b cs k by (simp add: c u alq_pid_def v)
qed

text \<open>The encoder lays the keys out as a packed area with relative offsets.\<close>

definition al_key :: "u32 \<Rightarrow> bytes" where
  "al_key pid = u32_to_ne pid @ u32_to_ne 0"

lemma length_al_key [simp]: "length (al_key pid) = 8"
  by (simp add: al_key_def)

lemma length_pack_keys [simp]: "length (pack_data (map al_key pids)) = length pids * 8"
proof (induction pids rule: rev_induct)
  case Nil
  then show ?case by simp
next
  case (snoc p ps)
  then show ?case by (simp add: length_pack_data_snoc mod_simps del: pack_data_snoc)
qed

lemma encode_apps_lookup_pids_ok:
  assumes "packed_gen 0 buf 16 base (base + length ps * 8) (map al_key ps)" "16 + (length ps + length pids) * 8 \<le> base"
    and "base + (length ps + length pids) * 8 \<le> length buf" "length buf < 2 ^ 32"
  shows "\<exists>buf'. encode_apps_lookup_pids buf base (length ps) pids = Ok buf' \<and> length buf' = length buf \<and>
     packed_gen 0 buf' 16 base (base + length (ps @ pids) * 8) (map al_key (ps @ pids))"
  using assms
proof (induction pids arbitrary: buf ps)
  case Nil
  then show ?case by auto
next
  case (Cons p pids)
  let ?n = "length ps" and ?x = "al_key p"
  let ?o = "base + ?n * 8"
  have bm: "base mod 8 = 0" using Cons.prems(1) by (simp add: packed_gen_def)
  then have al: "?o = al8 ?o" by (simp add: mod_simps)
  let ?d1 = "upd buf (16 + ?n * 8) (u32_to_ne (word_of_nat (?n * 8)))"
  let ?d2 = "upd ?d1 (16 + ?n * 8 + 4) (u32_to_ne (word_of_nat 8))"
  let ?b3 = "upd (upd (upd buf ?o ?x) (16 + ?n * 8) (u32_to_ne (word_of_nat (?n * 8)))) (16 + ?n * 8 + 4) (u32_to_ne (word_of_nat 8))"
  have fit: "?o + length ?x \<le> length buf" using Cons.prems(3) by simp
  have pk: "packed_gen 0 ?b3 16 base (?o + 8) (map al_key (ps @ [p]))"
    using packed_gen_append [OF Cons.prems(1) _ al fit _ refl, of "?n * 8"] Cons.prems(2) fit by (simp add: upd_Nil)
  have hb: "16 + ?n * 8 + 8 \<le> base" using Cons.prems(2) by simp
  have c: "checked_mul ?n 8 = Some (?n * 8)" "checked_u32 (?n * 8) = Ok (word_of_nat (?n * 8))"
    using Cons.prems(3,4) by (simp_all add: checked_ok USIZE_MAX_def)
  have l: "length ?d2 = length buf" using fit hb by simp
  have w: "put_u32 buf (16 + ?n * 8) (word_of_nat (?n * 8)) = (Ok ?d1 :: bytes result)"
      "put_u32 ?d1 (16 + ?n * 8 + 4) (word_of_nat 8) = (Ok ?d2 :: bytes result)"
      "put_u32 ?d2 ?o p = (Ok (upd ?d2 ?o (u32_to_ne p)) :: bytes result)"
      "put_u32 (upd ?d2 ?o (u32_to_ne p)) (?o + 4) 0 = (Ok (upd ?d2 ?o ?x) :: bytes result)"
    using l hb fit by (simp_all add: al_key_def upd_upd_append)
  have com: "upd ?d2 ?o ?x = ?b3"
  proof -
    have "upd ?d2 ?o ?x = upd (upd ?d1 ?o ?x) (16 + ?n * 8 + 4) (u32_to_ne (word_of_nat 8))"
      using hb fit by (intro upd_commute) simp_all
    also have "upd ?d1 ?o ?x = upd (upd buf ?o ?x) (16 + ?n * 8) (u32_to_ne (word_of_nat (?n * 8)))"
      using hb fit by (intro upd_commute) simp_all
    finally show ?thesis .
  qed
  have step: "encode_apps_lookup_pids buf base ?n (p # pids) = encode_apps_lookup_pids ?b3 base (?n + 1) pids"
    unfolding encode_apps_lookup_pids.simps Let_def al_sizes c ok_or.simps rbind.simps w com ..
  have lb: "length ?b3 = length buf" using hb fit by simp
  have "\<exists>buf'. encode_apps_lookup_pids ?b3 base (length (ps @ [p])) pids = Ok buf' \<and> length buf' = length ?b3 \<and>
     packed_gen 0 buf' 16 base (base + length ((ps @ [p]) @ pids) * 8) (map al_key ((ps @ [p]) @ pids))"
    using Cons.prems pk lb by (intro Cons.IH) (simp_all add: algebra_simps)
  then show ?case using step lb by simp
qed

lemma encode_apps_lookup_request_ok:
  assumes "16 + length pids * 16 \<le> length buf" "length buf < 2 ^ 32"
  shows "\<exists>buf'. encode_apps_lookup_request pids buf = Ok (16 + length pids * 16, buf') \<and>
     length buf' = length buf \<and> take 16 buf' = lookup_req_wire (word_of_nat (length pids)) \<and>
     packed_final buf' 16 (map al_key pids)"
proof -
  let ?n = "length pids" and ?base = "16 + length pids * 8" and ?h = "lookup_req_wire (word_of_nat (length pids))"
  have "packed_gen 0 buf 16 ?base (?base + length [] * 8) (map al_key [])"
    using assms(1) by (simp add: packed_gen_def dir_wire_def mod_simps)
  then obtain buf1 where b1: "encode_apps_lookup_pids buf ?base 0 pids = Ok buf1"
      "packed_gen 0 buf1 16 ?base (?base + ?n * 8) (map al_key pids)" "length buf1 = length buf"
    using encode_apps_lookup_pids_ok [of buf ?base "[]" pids] assms by auto
  let ?b = "upd buf1 0 ?h"
  have c: "checked_mul ?n 8 = Some (?n * 8)" "checked_add 16 (?n * 8) = Some ?base" "checked_add ?base (?n * 8) = Some (16 + ?n * 16)"
      "checked_u32 ?n = Ok (word_of_nat ?n)"
    using assms by (simp_all add: checked_ok USIZE_MAX_def)
  have nl: "\<not> length buf < 16 + ?n * 16" using assms(1) by simp
  have "rbind (put_u16 buf1 0 1) (\<lambda>buf. rbind (put_u16 buf 2 0) (\<lambda>buf. rbind (put_u32 buf 4 (word_of_nat ?n)) (\<lambda>buf.
      rbind (put_u32 buf 8 0) (\<lambda>buf. rbind (put_u32 buf 12 0) (\<lambda>buf. Ok (16 + ?n * 16, buf)))))) =
      (Ok (16 + ?n * 16, ?b) :: (nat \<times> bytes) result)"
    using b1(3) assms(1) by (simp add: lookup_req_wire_def upd_upd_append)
  then have "encode_apps_lookup_request pids buf = Ok (16 + ?n * 16, ?b)"
    unfolding encode_apps_lookup_request_def al_sizes Let_def c ok_or.simps rbind.simps if_not_P [OF nl] b1(1) by simp
  moreover have "packed_final ?b 16 (map al_key pids)"
    using packed_gen_header [OF b1(2), of ?h] by (intro packed_gen_final) simp_all
  moreover have "take 16 ?b = ?h" "length ?b = length buf" using b1(3) assms(1) by (simp_all add: upd_def)
  ultimately show ?thesis by blast
qed

lemma apps_lookup_request_final:
  assumes hdr: "take 16 buf = lookup_req_wire (word_of_nat (length pids))"
    and fin: "packed_final buf 16 (map al_key pids)" and len: "length buf < 2 ^ 32"
  shows "\<exists>v. apps_lookup_request_decode buf = Ok v \<and> alq_item_count v = word_of_nat (length pids) \<and> alq_pids v = pids"
proof -
  let ?n = "length pids" and ?xs = "map al_key pids"
  note r = lookup_req_reads [OF hdr]
  have le: "16 + ?n * 8 + length (pack_data ?xs) \<le> length buf" using fin by (simp add: packed_final_def)
  have un: "unat (word_of_nat ?n :: u32) = ?n" using le len by simp
  have li: "length buf \<le> ISIZE_MAX" using len by (simp add: ISIZE_MAX_def)
  have k8: "length x = 8" if "x \<in> set ?xs" for x using that by auto
  have vd: "validate_lookup_dir buf 16 (word_of_nat ?n) (length buf - (16 + ?n * 8)) 0 (Some 8) = Ok ()"
    using packed_final_validates [OF fin len, where exact = "Some 8" and min_len = 0 and n = "word_of_nat ?n"] k8 un by simp
  have key: "sub buf (16 + ?n * 8 + dir_off buf 16 j) 8 = al_key (pids ! j)" "dir_off buf 16 j + 8 \<le> ?n * 8" if "j < ?n" for j
    using packed_final_dir [OF fin len, of j] that by simp_all
  have rk: "rd32 (al_key p) 4 = 0" "rd32 (al_key p) 0 = p" for p
    by (simp_all add: al_key_def rd_append_right rd_here)
  have ck: "apps_lookup_check_keys buf (16 + ?n * 8) 0 ?n = Ok ()"
    using apps_lookup_check_keys_ok [of 0 ?n buf "16 + ?n * 8"] le li key rk by force
  let ?v = "alq_view_of buf"
  have d: "apps_lookup_request_decode buf = Ok ?v"
    using le r un vd ck by (simp add: apps_lookup_request_decode_ok(2) [OF li])
  have c: "alq_item_count ?v = word_of_nat ?n" using r by (simp add: alq_view_of_def)
  have "alq_pid ?v j = pids ! j" if "j < ?n" for j
    using key(1) [OF that] r un rk by (simp add: alq_pid_def alq_view_of_def)
  then have "alq_pids ?v = pids" using c un by (intro nth_equalityI) (simp_all add: alq_pids_def)
  with d c show ?thesis by blast
qed

section \<open>The reservation: every request can be answered\<close>

definition al_answer_ok :: "al_entry \<Rightarrow> bool" where
  "al_answer_ok e \<longleftrightarrow> al_semantics e = Ok () \<and> al_strings_ok e \<and> labels_valid (ae_labels e) \<and> al_small e"

abbreviation al_reserve :: "nat \<Rightarrow> nat" where
  "al_reserve n \<equiv> suffix_need (replicate n 63)"

definition alb_ready :: "nat \<Rightarrow> apps_lookup_builder \<Rightarrow> al_entry list \<Rightarrow> al_entry list \<Rightarrow> bool" where
  "alb_ready cap b es qs \<longleftrightarrow>
     alb_state cap b es \<and> (\<forall>e \<in> set es. al_entry_ok e) \<and> alb_error b = None \<and> (\<forall>q \<in> set qs. al_answer_ok q) \<and>
     length es + length qs = unat (alb_max_items b) \<and>
     alb_payload_exceeded_fixed_item_len b = Some 63 \<and>
     (qs \<noteq> [] \<longrightarrow> al8 (alb_data_offset b) + al_reserve (length qs) \<le> cap)"

lemma alb_ready_next:
  assumes r: "alb_ready cap b es (q # qs)" and "alb_state cap b' (es @ [e])" "al_entry_ok e" "alb_error b' = None" "alb_kept b b'"
    and "qs \<noteq> [] \<Longrightarrow> al8 (alb_data_offset b') + al_reserve (length qs) \<le> cap"
  shows "alb_ready cap b' (es @ [e]) qs"
  using assms by (auto simp: alb_ready_def alb_kept_def)

lemma alb_ready_room:
  assumes "alb_ready cap b es (q # qs)"
  shows "length es < unat (alb_max_items b)" "al8 (alb_data_offset b) + 63 \<le> cap"
    "qs \<noteq> [] \<Longrightarrow> al8 (al8 (alb_data_offset b) + 63) + al_reserve (length qs) \<le> cap"
proof -
  have res: "al8 (alb_data_offset b) + suffix_need (63 # replicate (length qs) 63) \<le> cap"
    and len: "length es + length (q # qs) = unat (alb_max_items b)" using assms by (simp_all add: alb_ready_def)
  have "0 < x" if "x \<in> set (replicate (length qs) (63 :: nat))" for x using that by simp
  note r = reserve_step [OF res this]
  show "length es < unat (alb_max_items b)" using len by simp
  show "al8 (alb_data_offset b) + 63 \<le> cap" by (rule r(1))
  show "qs \<noteq> [] \<Longrightarrow> al8 (al8 (alb_data_offset b) + 63) + al_reserve (length qs) \<le> cap" using r(2) by simp
qed

lemma alb_ready_degrade:
  assumes r: "alb_ready cap b es (q # qs)" and st: "alb_state cap b1 es" and k: "alb_kept b b1"
    and o: "alb_data_offset b1 = alb_data_offset b" and s: "s \<in> {1, 2, 3}"
  shows "\<exists>b'. alb_add_non_known_item s (ae_pid q) b1 = Ok b' \<and> alb_ready cap b' (es @ [al_degraded s (ae_pid q)]) qs \<and>
     alb_data_offset b' = al8 (alb_data_offset b) + 63 \<and> alb_payload_exceeded_suffix b' = alb_payload_exceeded_suffix b1"
proof -
  note room = alb_ready_room [OF r]
  have m: "alb_max_items b1 = alb_max_items b" using k by (simp add: alb_kept_def)
  obtain b' where b': "alb_add_non_known_item s (ae_pid q) b1 = Ok b'" "alb_state cap b' (es @ [al_degraded s (ae_pid q)])"
      "alb_frame b1 b'" "alb_error b' = None" "alb_data_offset b' = al8 (alb_data_offset b1) + 63"
    using alb_add_non_known_item_ok [OF st, of s "ae_pid q"] room m o by auto
  moreover have "alb_kept b b'" using k b'(3) by (simp add: alb_kept_def alb_frame_def)
  ultimately have "alb_ready cap b' (es @ [al_degraded s (ae_pid q)]) qs"
    using room(3) o al_degraded_ok [OF s] by (intro alb_ready_next [OF r]) simp_all
  with b' o show ?thesis by (auto simp: alb_frame_def)
qed

lemma alb_ready_note:
  assumes r: "alb_ready cap b es (q # qs)"
  shows "\<exists>b' e. alb_note_item_overflow (ae_pid q) b = Ok b' \<and> alb_ready cap b' (es @ [e]) qs \<and> al_graceful q e"
proof -
  have st: "alb_state cap b es" using r by (simp add: alb_ready_def)
  note d = alb_ready_degrade [OF r, where s = PID_LOOKUP_OVERSIZED_ITEM and ?b1.0 = b]
    alb_ready_degrade [OF r, where s = PID_LOOKUP_PAYLOAD_EXCEEDED and ?b1.0 = "b\<lparr>alb_payload_exceeded_suffix := True\<rparr>"]
  show ?thesis
    using d st by (auto simp: alb_note_item_overflow_def al_graceful_def pid_status_defs)
qed

lemma alb_ready_fits:
  assumes r: "alb_ready cap b es (q # qs)" and stop: "stop \<le> cap"
  shows "alb_suffix_fits b stop \<longleftrightarrow> al8 stop + al_reserve (length qs) \<le> cap"
proof -
  have st: "alb_state cap b es" and f: "alb_payload_exceeded_fixed_item_len b = Some 63"
    and n: "length es + length (q # qs) = unat (alb_max_items b)" using r by (simp_all add: alb_ready_def)
  note s = alb_state_facts [OF st]
  have c: "unat (alb_item_count b + 1) = length es + 1" using s(8) n by simp
  have "stop + 7 \<le> USIZE_MAX" using stop s(7) by (simp add: USIZE_MAX_def)
  then have "alb_suffix_fits b stop \<longleftrightarrow> al8 stop \<le> cap \<and> al_reserve (length qs) \<le> cap - al8 stop"
    using c n s(6) by (simp add: alb_suffix_fits_def f fixed_suffix_fits_eq n [symmetric])
  then show ?thesis by linarith
qed

lemma alb_ready_known:
  assumes r: "alb_ready cap b es (q # qs)" and ns: "\<not> alb_payload_exceeded_suffix b" and kn: "ae_status q = PID_LOOKUP_KNOWN"
  shows "\<exists>b' e. alb_add_entry q b = Ok b' \<and> alb_ready cap b' (es @ [e]) qs \<and> al_graceful q e \<and>
    (alb_known_fits b q \<longrightarrow> e = q \<and> alb_payload_exceeded_suffix b' = alb_payload_exceeded_suffix b \<and>
       alb_data_offset b' = al8 (alb_data_offset b) + length (al_wire q))"
proof -
  let ?fe = "al_fixed_end q" and ?stop = "al8 (alb_data_offset b) + length (al_wire q)"
  have st: "alb_state cap b es" and q: "al_answer_ok q" using r by (auto simp: alb_ready_def)
  note qq = q [unfolded al_answer_ok_def]
  note room = alb_ready_room [OF r]
  note l = alb_state_facts(6,7) [OF st]
  have fe: "?fe + 7 \<le> USIZE_MAX" using qq by (simp add: USIZE_MAX_def al_small_def)
  have lay: "label_layout ?fe (ae_labels q) =
      (if length (al_wire q) \<le> USIZE_MAX
       then Ok (if ae_labels q = [] then ?fe else al8 ?fe, length (ae_labels q) * 16, length (al_wire q)) else Err Overflow)"
    using label_layout_cases(2) [OF fe] qq by (simp add: length_al_wire)
  have eq: "alb_add_entry q b = (if alb_known_fits b q then
      alb_write_entry q (if ae_labels q = [] then ?fe else al8 ?fe) (length (ae_labels q) * 16) (length (al_wire q)) b
      else alb_note_item_overflow (ae_pid q) b)"
    using alb_add_entry_eq [OF st room(1) ns, of q] qq kn lay l by (auto simp: alb_known_fits_def USIZE_MAX_def)
  show ?thesis
  proof (cases "alb_known_fits b q")
    case False
    then show ?thesis using eq alb_ready_note [OF r] by auto
  next
    case True
    then have f: "length (ae_labels q) < 2 ^ 16" "?stop \<le> cap" "alb_suffix_fits b ?stop"
      using l by (auto simp: alb_known_fits_def)
    have lay': "label_layout ?fe (ae_labels q) =
       Ok (if ae_labels q = [] then ?fe else al8 ?fe, length (ae_labels q) * 16, length (al_wire q))"
      using lay f(2) l by (simp add: USIZE_MAX_def)
    obtain b' where b': "alb_add_entry q b = Ok b'" "alb_state cap b' (es @ [q])" "al_entry_ok q" "alb_frame b b'"
        "alb_error b' = None" "alb_data_offset b' = ?stop"
      using alb_post_known [OF st room(1) _ _ _ f(1) lay' f(2)] qq eq True by auto
    have "al8 (alb_data_offset b') + al_reserve (length qs) \<le> cap"
      using alb_ready_fits [OF r f(2)] f(3) b'(6) by simp
    then have "alb_ready cap b' (es @ [q]) qs"
      using b' by (intro alb_ready_next [OF r]) (simp_all add: alb_frame_def)
    then show ?thesis using b' by (auto simp: al_graceful_def alb_frame_def)
  qed
qed

lemma alb_ready_unknown:
  assumes r: "alb_ready cap b es (q # qs)" and ns: "\<not> alb_payload_exceeded_suffix b" and kn: "ae_status q \<noteq> PID_LOOKUP_KNOWN"
  shows "\<exists>b'. alb_add_entry q b = Ok b' \<and> alb_ready cap b' (es @ [q]) qs \<and>
    alb_payload_exceeded_suffix b' = alb_payload_exceeded_suffix b \<and>
    alb_data_offset b' = al8 (alb_data_offset b) + length (al_wire q)"
proof -
  have st: "alb_state cap b es" and q: "al_answer_ok q" using r by (auto simp: alb_ready_def)
  have d: "al_degraded (ae_status q) (ae_pid q) = q" "ae_status q \<in> {1, 2, 3}"
    using al_entry_degraded [of q] q kn by (auto simp: al_answer_ok_def)
  have "length (al_wire q) = 63" using length_al_degraded [of "ae_status q" "ae_pid q"] d(1) by simp
  then obtain b' where b': "alb_add_non_known_item (ae_status q) (ae_pid q) b = Ok b'" "alb_ready cap b' (es @ [q]) qs"
      "alb_payload_exceeded_suffix b' = alb_payload_exceeded_suffix b" "alb_data_offset b' = al8 (alb_data_offset b) + length (al_wire q)"
    using alb_ready_degrade [OF r st _ refl d(2)] d(1) by auto
  moreover have "alb_add_entry q b = Ok b'"
    using alb_add_entry_unknown [OF ns, of q] b'(1) q kn alb_state_facts(4) [OF st] alb_ready_room(1) [OF r]
    by (auto simp: al_answer_ok_def)
  ultimately show ?thesis by blast
qed

lemma alb_ready_step:
  assumes r: "alb_ready cap b es (q # qs)"
  shows "\<exists>b' e. alb_add_entry q b = Ok b' \<and> alb_ready cap b' (es @ [e]) qs \<and> al_graceful q e"
proof -
  have st: "alb_state cap b es" using r by (simp add: alb_ready_def)
  consider "alb_payload_exceeded_suffix b" | "\<not> alb_payload_exceeded_suffix b" "ae_status q = PID_LOOKUP_KNOWN"
    | "\<not> alb_payload_exceeded_suffix b" "ae_status q \<noteq> PID_LOOKUP_KNOWN" by blast
  then show ?thesis
  proof cases
    case 1
    then show ?thesis
      using alb_ready_degrade [OF r st _ refl, of PID_LOOKUP_PAYLOAD_EXCEEDED]
      by (auto simp: alb_add_def al_graceful_def pid_status_defs)
  next
    case 2
    then show ?thesis using alb_ready_known [OF r] by blast
  next
    case 3
    then show ?thesis using alb_ready_unknown [OF r] al_graceful_def by blast
  qed
qed

interpretation alans: answering_builder "alb_ready cap" alb_add_entry al_graceful for cap
  by unfold_locales (rule alb_ready_step)

text \<open>With room for all items in full no answer is degraded.\<close>

definition alb_roomy :: "nat \<Rightarrow> apps_lookup_builder \<Rightarrow> al_entry list \<Rightarrow> al_entry list \<Rightarrow> bool" where
  "alb_roomy cap b es qs \<longleftrightarrow> alb_ready cap b es qs \<and> \<not> alb_payload_exceeded_suffix b \<and>
     (\<forall>q \<in> set qs. length (ae_labels q) < 2 ^ 16) \<and>
     al8 (alb_data_offset b) + sum_list (map (\<lambda>q. al8 (length (al_wire q))) qs) \<le> cap"

lemma al_reserve_le_wires: "al_reserve (length qs) \<le> sum_list (map (\<lambda>q. al8 (length (al_wire q))) qs)"
proof (induction qs)
  case (Cons q qs)
  have "al8 63 \<le> al8 (length (al_wire q))" "63 \<le> al8 63" by (rule al8_mono, simp add: length_al_wire) (rule al8_ge)
  then show ?case using Cons by auto
qed simp

lemma alb_roomy_step:
  assumes r: "alb_roomy cap b es (q # qs)"
  shows "\<exists>b' e. alb_add_entry q b = Ok b' \<and> alb_roomy cap b' (es @ [e]) qs \<and> e = q"
proof -
  let ?stop = "al8 (alb_data_offset b) + length (al_wire q)"
  have rd: "alb_ready cap b es (q # qs)" and ns: "\<not> alb_payload_exceeded_suffix b" and lc: "length (ae_labels q) < 2 ^ 16"
    and sm: "al8 (alb_data_offset b) + al8 (length (al_wire q)) + sum_list (map (\<lambda>q. al8 (length (al_wire q))) qs) \<le> cap"
    using r by (auto simp: alb_roomy_def)
  have st: "alb_state cap b es" using rd by (simp add: alb_ready_def)
  have al: "al8 ?stop = al8 (alb_data_offset b) + al8 (length (al_wire q))" by (simp add: al8_add)
  have le: "?stop \<le> cap" using sm al8_ge [of "length (al_wire q)"] by linarith
  have "alb_suffix_fits b ?stop"
    using alb_ready_fits [OF rd le] sm al al_reserve_le_wires [of qs] by linarith
  then have "alb_known_fits b q" using lc le alb_state_facts(6) [OF st] by (simp add: alb_known_fits_def)
  then obtain b' where "alb_add_entry q b = Ok b'" "alb_ready cap b' (es @ [q]) qs" "\<not> alb_payload_exceeded_suffix b'"
      "alb_data_offset b' = ?stop"
    using alb_ready_known [OF rd ns] alb_ready_unknown [OF rd ns] ns by (cases "ae_status q = PID_LOOKUP_KNOWN") auto
  then show ?thesis using r sm al by (auto simp: alb_roomy_def)
qed

interpretation alroom: answering_builder "alb_roomy cap" alb_add_entry "\<lambda>q e. e = q" for cap
  by unfold_locales (rule alb_roomy_step)

section \<open>Properties\<close>

lemma apps_lookup_builder_new_ok:
  assumes "16 + unat m * 8 \<le> length buf" "length buf < 2 ^ 32"
  shows "\<exists>b. apps_lookup_builder_new buf m g = Ok b \<and> alb_state (length buf) b [] \<and> alb_error b = None \<and>
     alb_max_items b = m \<and> \<not> alb_payload_exceeded_suffix b \<and> alb_data_offset b = 16 + unat m * 8 \<and> alb_generation b = g"
proof -
  have "checked_add 16 (unat m * 8) = Some (16 + unat m * 8)" using u32_lt [of m] by (simp add: checked_ok USIZE_MAX_def)
  then show ?thesis using assms lookup_state_new [OF assms] by (simp add: apps_lookup_builder_new_def al_sizes alb_state_def)
qed

text \<open>The builder as dispatch lends it to the handler.\<close>

definition alb_reserve :: "apps_lookup_request_view \<Rightarrow> apps_lookup_builder \<Rightarrow> apps_lookup_builder" where
  "alb_reserve v b = (if alq_item_count v > 0 then b\<lparr>alb_payload_exceeded_fixed_item_len := Some 63\<rparr> else b)"

lemma dispatch_apps_lookup_eq:
  assumes "apps_lookup_request_decode req = Ok v" "16 + unat (alq_item_count v) * 8 \<le> length resp"
    and "apps_lookup_builder_new resp (alq_item_count v) 0 = Ok b"
  shows "dispatch_apps_lookup req resp handler = (case handler v (alb_reserve v b) of (ok, b) \<Rightarrow>
     if \<not> ok then Err (case alb_error b of Some err \<Rightarrow> err | None \<Rightarrow> HandlerFailed)
     else case alb_error b of Some err \<Rightarrow> Err err
       | None \<Rightarrow> if alb_item_count b \<noteq> alq_item_count v then Err BadItemCount else alb_finish b)"
  using assms by (simp add: dispatch_apps_lookup_def al_sizes alb_reserve_def Let_def)

definition alb_full_room :: "nat \<Rightarrow> al_entry list \<Rightarrow> bool" where
  "alb_full_room cap qs \<longleftrightarrow> (\<forall>q \<in> set qs. length (ae_labels q) < 2 ^ 16) \<and>
     16 + length qs * 8 + sum_list (map (\<lambda>q. al8 (length (al_wire q))) qs) \<le> cap"

lemma alb_ready_run:
  assumes r: "alb_ready cap b [] qs" and b: "\<not> alb_payload_exceeded_suffix b" "alb_data_offset b = 16 + length qs * 8"
  shows "\<exists>b2 es. answer_seq alb_add_entry qs b = Ok b2 \<and> alb_ready cap b2 es [] \<and>
     list_all2 al_graceful qs es \<and> (alb_full_room cap qs \<longrightarrow> es = qs)"
proof (cases "alb_full_room cap qs")
  case True
  then have "alb_roomy cap b [] qs" using r b by (simp add: alb_roomy_def alb_full_room_def mod_simps)
  then obtain b3 fs where f: "answer_seq alb_add_entry qs b = Ok b3" "alb_roomy cap b3 fs []" "list_all2 (\<lambda>q e. e = q) qs fs"
    using alroom.run [of cap b "[]" qs] by auto
  moreover have "fs = qs" using f(3) by (auto simp: list_all2_conv_all_nth intro: nth_equalityI)
  moreover have "list_all2 al_graceful qs qs" by (simp add: list_all2_same al_graceful_def)
  ultimately show ?thesis by (auto simp: alb_roomy_def)
next
  case False
  then show ?thesis using alans.run [OF r] by auto
qed

lemma alb_reserve_run:
  assumes new: "alb_state cap b []" "alb_error b = None" "alb_max_items b = alq_item_count v"
      "\<not> alb_payload_exceeded_suffix b" "alb_data_offset b = 16 + length qs * 8"
    and qs: "length qs = unat (alq_item_count v)" "\<forall>q \<in> set qs. al_answer_ok q"
    and fit: "16 + length qs * 8 + al_reserve (length qs) \<le> cap"
  shows "\<exists>b2 es. answer_seq alb_add_entry qs (alb_reserve v b) = Ok b2 \<and> alb_state cap b2 es \<and> (\<forall>e \<in> set es. al_entry_ok e) \<and>
     alb_error b2 = None \<and> list_all2 al_graceful qs es \<and> (alb_full_room cap qs \<longrightarrow> es = qs)"
proof (cases "qs = []")
  case True
  then show ?thesis using new qs by (auto simp: alb_reserve_def unat_eq_0)
next
  case False
  then have pos: "0 < alq_item_count v" by (simp add: word_less_nat_alt qs(1) [symmetric])
  have "al8 (16 + length qs * 8) = 16 + length qs * 8" by (simp add: mod_simps)
  then have "alb_ready cap (alb_reserve v b) [] qs" using new qs fit pos by (simp add: alb_ready_def alb_reserve_def)
  then obtain b2 es where "answer_seq alb_add_entry qs (alb_reserve v b) = Ok b2" "alb_ready cap b2 es []"
      "list_all2 al_graceful qs es" "alb_full_room cap qs \<longrightarrow> es = qs"
    using alb_ready_run [of cap "alb_reserve v b" qs] new pos by (auto simp: alb_reserve_def)
  then show ?thesis unfolding alb_ready_def by blast
qed

text \<open>C6: every process lookup that fits its reservation is answered. If the response buffer has room for the
  header, the directory and one minimal item per requested pid, then a handler that answers every pid in
  order with well-formed data always succeeds, however large its answers are: dispatch returns a response
  that decodes, with one item per pid, in order, which is the handler's answer or the OVERSIZED_ITEM or
  PAYLOAD_EXCEEDED answer for the same pid. If all the answers fit in full, they are returned as they are.\<close>

theorem apps_lookup_answers:
  assumes d: "apps_lookup_request_decode req = Ok v" and cap: "length resp < 2 ^ 32"
    and qs: "map ae_pid qs = alq_pids v" "\<forall>q \<in> set qs. al_answer_ok q"
    and fit: "16 + length qs * 8 + al_reserve (length qs) \<le> length resp"
    and handler: "\<And>b b'. answer_seq alb_add_entry qs b = Ok b' \<Longrightarrow> handler v b = (True, b')"
  shows "\<exists>n resp' w es. dispatch_apps_lookup req resp handler = Ok (n, resp') \<and> n \<le> length resp \<and>
     apps_lookup_response_decode (take n resp') = Ok w \<and> alr_item_count w = alq_item_count v \<and>
     list_all2 al_graceful qs es \<and> map ae_pid es = alq_pids v \<and>
     (\<forall>i < length qs. apps_lookup_response_item w (word_of_nat i) = Ok (al_view (es ! i))) \<and>
     (alb_full_room (length resp) qs \<longrightarrow> es = qs)"
proof -
  have n: "length qs = unat (alq_item_count v)" using arg_cong [OF qs(1), of length] by (simp add: alq_pids_def)
  obtain b where b: "apps_lookup_builder_new resp (alq_item_count v) 0 = Ok b" "alb_state (length resp) b []"
      "alb_error b = None" "alb_max_items b = alq_item_count v" "\<not> alb_payload_exceeded_suffix b"
      "alb_data_offset b = 16 + length qs * 8"
    using apps_lookup_builder_new_ok [of "alq_item_count v" resp 0] fit cap n by auto
  note deq = dispatch_apps_lookup_eq [OF d _ b(1), of handler]
  obtain b2 es where run: "answer_seq alb_add_entry qs (alb_reserve v b) = Ok b2" "alb_state (length resp) b2 es"
      "\<And>e. e \<in> set es \<Longrightarrow> al_entry_ok e" "alb_error b2 = None" "list_all2 al_graceful qs es"
      "alb_full_room (length resp) qs \<Longrightarrow> es = qs"
    using alb_reserve_run [OF b(2-6) n qs(2) fit] by blast
  have es: "length es = length qs" using list_all2_lengthD [OF run(5)] by simp
  have "map ae_pid es = map ae_pid qs"
    using run(5) es by (auto simp: list_all2_conv_all_nth al_graceful_def al_degraded_def intro!: nth_equalityI)
  then have pids: "map ae_pid es = alq_pids v" using qs(1) by simp
  obtain k resp' w where fin: "alb_finish b2 = Ok (k, resp')" "k \<le> length resp" "apps_lookup_response_decode (take k resp') = Ok w"
      "alr_item_count w = alb_item_count b2" "\<forall>i < length es. apps_lookup_response_item w (word_of_nat i) = Ok (al_view (es ! i))"
    using alb_finish_decodes [OF run(2,3)] by blast
  have cnt: "alb_item_count b2 = alq_item_count v"
    using alb_state_facts(1) [OF run(2)] es n by (metis word_unat_eq_iff)
  have "dispatch_apps_lookup req resp handler = Ok (k, resp')"
    using deq fit n handler [OF run(1)] run(4) cnt fin(1) by simp
  then show ?thesis
    using fin cnt run(5,6) es pids
    by (intro exI [of _ k] exI [of _ resp'] exI [of _ w] exI [of _ es]) auto
qed

definition sample_al_request :: bytes where
  "sample_al_request = lookup_req_wire 1 @ dir_wire (pack_dir [al_key 321]) @ al_key 321"

definition sample_al_answer :: al_entry where
  "sample_al_answer = \<lparr>ae_status = PID_LOOKUP_KNOWN, ae_cgroup_status = APPS_CGROUP_KNOWN, ae_orchestrator = ORCHESTRATOR_DOCKER,
     ae_pid = 321, ae_ppid = 1, ae_uid = 1000, ae_starttime = 77, ae_comm = [98, 99], ae_path = [47], ae_name = [97],
     ae_labels = [([107], [118])]\<rparr>"

definition sample_al_handler :: "apps_lookup_request_view \<Rightarrow> apps_lookup_builder \<Rightarrow> bool \<times> apps_lookup_builder" where
  "sample_al_handler v b =
     (case alb_add_entry sample_al_answer b of Ok b' \<Rightarrow> (True, b') | Err (_, b') \<Rightarrow> (False, b') | Panic \<Rightarrow> (False, b))"

lemma sample_al_request_decodes:
  "\<exists>v. apps_lookup_request_decode sample_al_request = Ok v \<and> alq_item_count v = 1 \<and> alq_pids v = [321]"
proof -
  have "packed_final sample_al_request 16 (map al_key [321])"
    by (simp add: packed_final_def sample_al_request_def append_windows pack_def pack_step_def al8_def)
  moreover have "take 16 sample_al_request = lookup_req_wire (word_of_nat (length [321 :: u32]))"
    by (simp add: sample_al_request_def)
  ultimately show ?thesis
    using apps_lookup_request_final [of sample_al_request "[321]"] by (simp add: sample_al_request_def)
qed

lemma sample_al_answer_ok: "al_answer_ok sample_al_answer"
  by (simp add: al_answer_ok_def al_strings_ok_def al_small_def sample_al_answer_def labels_valid_def
      validate_apps_lookup_semantics_def validate_apps_lookup_domains_def validate_apps_lookup_known_def
      pid_status_defs apps_cgroup_defs)

theorem apps_lookup_answers_witness:
  "\<exists>v n resp' w. apps_lookup_request_decode sample_al_request = Ok v \<and>
     dispatch_apps_lookup sample_al_request (replicate 200 9) sample_al_handler = Ok (n, resp') \<and>
     apps_lookup_response_decode (take n resp') = Ok w \<and> alr_item_count w = 1 \<and>
     apps_lookup_response_item w 0 = Ok (al_view sample_al_answer)"
proof -
  obtain v where v: "apps_lookup_request_decode sample_al_request = Ok v" "alq_item_count v = 1" "alq_pids v = [321]"
    using sample_al_request_decodes by blast
  have h: "sample_al_handler v b = (True, b')" if "answer_seq alb_add_entry [sample_al_answer] b = Ok b'" for b b'
    using that by (auto simp: sample_al_handler_def rbind_eq_Ok)
  have room: "alb_full_room 200 [sample_al_answer]"
    by (simp add: alb_full_room_def sample_al_answer_def length_al_wire length_label_block al8_def)
  have pid: "map ae_pid [sample_al_answer] = alq_pids v" using v(3) by (simp add: sample_al_answer_def)
  obtain n resp' w es where r: "dispatch_apps_lookup sample_al_request (replicate 200 9) sample_al_handler = Ok (n, resp')"
      "apps_lookup_response_decode (take n resp') = Ok w" "alr_item_count w = 1"
      "\<forall>i < length [sample_al_answer]. apps_lookup_response_item w (word_of_nat i) = Ok (al_view (es ! i))" "es = [sample_al_answer]"
    using apps_lookup_answers [OF v(1) _ pid, of "replicate 200 9" sample_al_handler] v h room sample_al_answer_ok by auto
  then show ?thesis using v(1) r(4) [rule_format, of 0] by auto
qed

text \<open>
  What a handler can do with the builder it is lent: \<open>add\<close>, \<open>set_generation\<close> and
  \<open>set_payload_exceeded_item_lens\<close>, in any order, going on after a failed add with the builder as that add
  left it. Strings are bounded by what an address space can hold.
\<close>

inductive alb_steps :: "apps_lookup_builder \<Rightarrow> apps_lookup_builder \<Rightarrow> bool" where
  al_none: "alb_steps b b"
| al_add: "alb_steps b b1 \<Longrightarrow> length comm + length path + length name < 2 ^ 63 \<Longrightarrow>
    alb_add st cst orch pid ppid uid start comm path name labels b1 \<in> {Ok b2, Err (err, b2)} \<Longrightarrow> alb_steps b b2"
| al_generation: "alb_steps b b1 \<Longrightarrow> alb_steps b (alb_set_generation g b1)"
| al_lens: "alb_steps b b1 \<Longrightarrow> alb_set_payload_exceeded_item_lens lens b1 = Ok b2 \<Longrightarrow> alb_steps b b2"

definition alb_holds :: "nat \<Rightarrow> u32 \<Rightarrow> apps_lookup_builder \<Rightarrow> bool" where
  "alb_holds cap m b \<longleftrightarrow> (\<exists>es. alb_state cap b es \<and> (\<forall>e \<in> set es. al_entry_ok e)) \<and> alb_max_items b = m"

lemma alb_post_holds:
  assumes "alb_post cap es P b r" "r \<in> {Ok b2, Err (err, b2)}" "\<forall>e \<in> set es. al_entry_ok e" "alb_max_items b = m"
  shows "alb_holds cap m b2"
proof -
  consider "r = Ok b2" | "r = Err (err, b2)" using assms(2) by blast
  then show ?thesis
  proof cases
    case 1
    then obtain e where "alb_state cap b2 (es @ [e])" "al_entry_ok e" "alb_kept b b2" using assms(1) by auto
    then show ?thesis using assms(3,4) by (auto simp: alb_holds_def alb_kept_def intro!: exI [of _ "es @ [e]"])
  next
    case 2
    then show ?thesis using assms by (auto simp: alb_holds_def alb_kept_def)
  qed
qed

lemma alb_steps_holds: "alb_steps b b' \<Longrightarrow> alb_holds cap m b \<Longrightarrow> alb_holds cap m b'"
proof (induction rule: alb_steps.induct)
  case (al_add b b1 comm path name st cst orch pid ppid uid start labels b2 err)
  then obtain es where es: "alb_state cap b1 es" "\<forall>e \<in> set es. al_entry_ok e" "alb_max_items b1 = m"
    by (auto simp: alb_holds_def)
  let ?e = "\<lparr>ae_status = st, ae_cgroup_status = cst, ae_orchestrator = orch, ae_pid = pid, ae_ppid = ppid, ae_uid = uid,
      ae_starttime = start, ae_comm = comm, ae_path = path, ae_name = name, ae_labels = labels\<rparr>"
  have "alb_post cap es (al_graceful ?e) b1 (alb_add_entry ?e b1)"
    using es(1) al_add by (intro alb_post_add) (simp_all add: al_small_def)
  then show ?case using alb_post_holds es al_add.hyps(3) by fastforce
next
  case (al_generation b b1 g)
  then show ?case by (auto simp: alb_holds_def alb_set_generation_def)
next
  case (al_lens b b1 lens b2)
  then show ?case
    by (auto simp: alb_holds_def alb_set_payload_exceeded_item_lens_def split: outcome.splits)
qed simp_all

text \<open>C7: whatever a handler does through the builder interface, a process lookup dispatch does not panic, and
  a response it returns is complete: it fits the buffer, decodes, has one item per requested pid, and every
  item of it decodes.\<close>

theorem apps_lookup_dispatch_decodes:
  assumes l: "length req \<le> ISIZE_MAX" and cap: "length resp < 2 ^ 32"
    and handler: "\<And>v b. alb_steps b (snd (handler v b))"
  shows "case dispatch_apps_lookup req resp handler of
      Ok (n, resp') \<Rightarrow> n \<le> length resp \<and> length resp' = length resp \<and>
        (\<exists>v w. apps_lookup_request_decode req = Ok v \<and> apps_lookup_response_decode (take n resp') = Ok w \<and>
          alr_item_count w = alq_item_count v \<and>
          (\<forall>i < unat (alr_item_count w). \<exists>iv. apps_lookup_response_item w (word_of_nat i) = Ok iv))
    | Err err \<Rightarrow> True
    | Panic \<Rightarrow> False"
proof (cases "apps_lookup_request_decode req")
  case (Ok v)
  let ?m = "alq_item_count v"
  show ?thesis
  proof (cases "length resp < 16 + unat ?m * 8")
    case True
    then show ?thesis using Ok by (simp add: dispatch_apps_lookup_def al_sizes)
  next
    case False
    then obtain b where b: "apps_lookup_builder_new resp ?m 0 = Ok b" "alb_state (length resp) b []" "alb_max_items b = ?m"
      using apps_lookup_builder_new_ok [of ?m resp 0] cap by auto
    let ?b = "snd (handler v (alb_reserve v b))"
    have "alb_holds (length resp) ?m (alb_reserve v b)"
      using b by (auto simp: alb_holds_def alb_reserve_def intro!: exI [of _ "[]"])
    then have "alb_holds (length resp) ?m ?b" using handler alb_steps_holds by blast
    then obtain es where es: "alb_state (length resp) ?b es" "\<And>e. e \<in> set es \<Longrightarrow> al_entry_ok e" by (auto simp: alb_holds_def)
    have fin: "\<exists>n resp' w. alb_finish ?b = Ok (n, resp') \<and> n \<le> length resp \<and> length resp' = length resp \<and>
        apps_lookup_response_decode (take n resp') = Ok w \<and> unat (alr_item_count w) = length es \<and>
        alr_item_count w = alb_item_count ?b \<and>
        (\<forall>i < length es. apps_lookup_response_item w (word_of_nat i) = Ok (al_view (es ! i)))"
      using alb_finish_decodes [OF es] by blast
    have eq: "dispatch_apps_lookup req resp handler = (case handler v (alb_reserve v b) of (ok, b) \<Rightarrow>
       if \<not> ok then Err (case alb_error b of Some err \<Rightarrow> err | None \<Rightarrow> HandlerFailed)
       else case alb_error b of Some err \<Rightarrow> Err err
         | None \<Rightarrow> if alb_item_count b \<noteq> ?m then Err BadItemCount else alb_finish b)"
      using False by (intro dispatch_apps_lookup_eq [OF Ok _ b(1)]) simp
    show ?thesis
      unfolding eq using fin Ok by (cases "handler v (alb_reserve v b)") (auto split: option.splits)
  qed
next
  case (Err err)
  then show ?thesis by (simp add: dispatch_apps_lookup_def)
next
  case Panic
  then show ?thesis using apps_lookup_request_decode_ok(1) [OF l] by blast
qed

lemma sample_al_handler_steps: "alb_steps b (snd (sample_al_handler v b))"
proof -
  let ?r = "alb_add_entry sample_al_answer b" and ?e = sample_al_answer
  have n: "length (ae_comm ?e) + length (ae_path ?e) + length (ae_name ?e) < 2 ^ 63" by (simp add: sample_al_answer_def)
  note step = alb_steps.al_add [OF alb_steps.al_none n, of "ae_status ?e" "ae_cgroup_status ?e" "ae_orchestrator ?e" "ae_pid ?e"
      "ae_ppid ?e" "ae_uid ?e" "ae_starttime ?e" "ae_labels ?e" b]
  consider b' where "?r = Ok b'" | err b' where "?r = Err (err, b')" | "?r = Panic" by (cases ?r) auto
  then show ?thesis
  proof cases
    case (1 b')
    then show ?thesis using step [of b'] by (simp add: sample_al_handler_def)
  next
    case (2 err b')
    then show ?thesis using step [of b' err] by (simp add: sample_al_handler_def)
  next
    case 3
    then show ?thesis by (simp add: sample_al_handler_def alb_steps.al_none)
  qed
qed

theorem apps_lookup_dispatch_decodes_witness:
  "case dispatch_apps_lookup sample_al_request (replicate 90 9) sample_al_handler of
      Ok (n, resp') \<Rightarrow> n \<le> length (replicate 90 (9 :: u8)) \<and> length resp' = length (replicate 90 (9 :: u8)) \<and>
        (\<exists>v w. apps_lookup_request_decode sample_al_request = Ok v \<and> apps_lookup_response_decode (take n resp') = Ok w \<and>
          alr_item_count w = alq_item_count v \<and>
          (\<forall>i < unat (alr_item_count w). \<exists>iv. apps_lookup_response_item w (word_of_nat i) = Ok iv))
    | Err err \<Rightarrow> True
    | Panic \<Rightarrow> False"
  by (rule apps_lookup_dispatch_decodes) (simp_all add: sample_al_handler_steps sample_al_request_def ISIZE_MAX_def)

text \<open>A list of pids survives the request encoding. Every list of pids that fits the buffer is encoded in
  16 bytes plus 16 per pid, the payload decodes, and \<open>item(i)\<close> is the i-th pid; a request that does not fit
  is refused with Overflow.\<close>

lemma apps_request_reads_back:
  assumes len: "length buf < 2 ^ 32"
  shows "(16 + length pids * 16 \<le> length buf \<longrightarrow>
      (\<exists>buf' v. encode_apps_lookup_request pids buf = Ok (16 + length pids * 16, buf') \<and>
        apps_lookup_request_decode (take (16 + length pids * 16) buf') = Ok v \<and> alq_item_count v = word_of_nat (length pids) \<and>
        (\<forall>i < length pids. apps_lookup_request_item v (word_of_nat i) = Ok (pids ! i)))) \<and>
    (\<not> 16 + length pids * 16 \<le> length buf \<longrightarrow> encode_apps_lookup_request pids buf = Err Overflow)"
proof (intro conjI impI)
  let ?n = "16 + length pids * 16"
  assume fit: "?n \<le> length buf"
  obtain buf' where e: "encode_apps_lookup_request pids buf = Ok (?n, buf')" "length buf' = length buf"
      "take 16 buf' = lookup_req_wire (word_of_nat (length pids))" "packed_final buf' 16 (map al_key pids)"
    using encode_apps_lookup_request_ok [OF fit len] by auto
  let ?b = "take ?n buf'"
  have h: "take 16 ?b = lookup_req_wire (word_of_nat (length pids))" using e(3) by simp
  have f: "packed_final ?b 16 (map al_key pids)" using e(4) by (intro packed_final_take) simp_all
  have l: "length ?b < 2 ^ 32" using e(2) len by simp
  obtain v where v: "apps_lookup_request_decode ?b = Ok v" "alq_item_count v = word_of_nat (length pids)" "alq_pids v = pids"
    using apps_lookup_request_final [OF h f l] by blast
  have un: "unat (word_of_nat (length pids) :: u32) = length pids" using fit len by simp
  have "apps_lookup_request_item v (word_of_nat i) = Ok (pids ! i)" if "i < length pids" for i
  proof -
    have ui: "unat (word_of_nat i :: u32) = i" using that fit len by simp
    have "alq_pid v i = pids ! i" using arg_cong [OF v(3), of "\<lambda>ps. ps ! i"] that v(2) un by (simp add: alq_pids_def)
    then show ?thesis
      using apps_lookup_request_pid [OF v(1), of "word_of_nat i"] l ui un v(2) that by (simp add: ISIZE_MAX_def)
  qed
  then show "\<exists>buf' v. encode_apps_lookup_request pids buf = Ok (?n, buf') \<and>
      apps_lookup_request_decode (take ?n buf') = Ok v \<and> alq_item_count v = word_of_nat (length pids) \<and>
      (\<forall>i < length pids. apps_lookup_request_item v (word_of_nat i) = Ok (pids ! i))"
    using e(1) v(1,2) by blast
next
  assume "\<not> 16 + length pids * 16 \<le> length buf"
  then show "encode_apps_lookup_request pids buf = Err Overflow"
    by (auto simp: encode_apps_lookup_request_def al_sizes checked_add_def checked_mul_def Let_def)
qed

text \<open>Reading process lookup messages never panics, whatever bytes the peer sent. Every index of an accepted
  request has a pid. Every item of an accepted response decodes, its strings are NUL-terminated windows of
  the payload, a KNOWN item has a command name, no command name is longer than 15 bytes, and every label
  it announces can be read.\<close>

lemma apps_views_readable:
  assumes l: "length buf \<le> ISIZE_MAX"
  shows "apps_lookup_request_decode buf \<noteq> Panic \<and> apps_lookup_response_decode buf \<noteq> Panic \<and>
    (\<forall>q i. apps_lookup_request_decode buf = Ok q \<longrightarrow>
       apps_lookup_request_item q i = (if i < alq_item_count q then Ok (alq_pid q (unat i)) else Err OutOfBounds)) \<and>
    (\<forall>v i. apps_lookup_response_decode buf = Ok v \<longrightarrow>
       (i < alr_item_count v \<longrightarrow> (\<exists>iv. apps_lookup_response_item v i = Ok iv \<and>
          str_view_ok (ali_comm iv) \<and> str_view_ok (ali_cgroup_path iv) \<and> str_view_ok (ali_cgroup_name iv) \<and>
          unat (sv_len (ali_comm iv)) \<le> 15 \<and> (ali_status iv = PID_LOOKUP_KNOWN \<longrightarrow> 0 < unat (sv_len (ali_comm iv))) \<and>
          (\<forall>j. unat j < unat (ali_label_count iv) \<longrightarrow> (\<exists>lv. apps_lookup_item_label iv j = Ok lv)))) \<and>
       (\<not> i < alr_item_count v \<longrightarrow> apps_lookup_response_item v i = Err OutOfBounds))"
proof (intro conjI allI impI)
  show "apps_lookup_request_decode buf \<noteq> Panic" using apps_lookup_request_decode_ok(1) [OF l] .
  show "apps_lookup_response_decode buf \<noteq> Panic" using alresp.resp_decode_ok(1) [OF l] .
  show "apps_lookup_request_item q i = (if i < alq_item_count q then Ok (alq_pid q (unat i)) else Err OutOfBounds)"
    if "apps_lookup_request_decode buf = Ok q" for q i
    using apps_lookup_request_pid [OF that l, of i]
    by (simp add: word_less_nat_alt) (simp add: apps_lookup_request_item_def word_le_nat_alt not_less)
  fix v i assume d: "apps_lookup_response_decode buf = Ok v"
  show "\<exists>iv. apps_lookup_response_item v i = Ok iv \<and>
          str_view_ok (ali_comm iv) \<and> str_view_ok (ali_cgroup_path iv) \<and> str_view_ok (ali_cgroup_name iv) \<and>
          unat (sv_len (ali_comm iv)) \<le> 15 \<and> (ali_status iv = PID_LOOKUP_KNOWN \<longrightarrow> 0 < unat (sv_len (ali_comm iv))) \<and>
          (\<forall>j. unat j < unat (ali_label_count iv) \<longrightarrow> (\<exists>lv. apps_lookup_item_label iv j = Ok lv))" if "i < alr_item_count v"
  proof -
    have i: "unat i < unat (alr_item_count v)" using that by (simp add: word_less_nat_alt)
    let ?item = "sub buf (16 + unat (alr_item_count v) * 8 + dir_off buf 16 (unat i)) (dir_len buf 16 (unat i))"
    note e = alresp.item_facts [OF d l i refl]
    obtain iv where iv: "decode_apps_item ?item = Ok iv" using e(2) by blast
    have "length ?item \<le> ISIZE_MAX" using l by simp
    note r = decode_apps_item_readable [OF iv this]
    show ?thesis using e(1) iv r by auto
  qed
  show "apps_lookup_response_item v i = Err OutOfBounds" if "\<not> i < alr_item_count v"
    using that by (rule alresp.item_out_of_bounds)
qed

definition sample_al_response :: bytes where
  "sample_al_response = lookup_hdr_wire 1 5 @ dir_wire [(0, length (al_wire sample_al_answer))] @ al_wire sample_al_answer"

lemma sample_al_length: "length (al_wire sample_al_answer) = 92"
  by (simp add: sample_al_answer_def length_al_wire length_label_block al8_def)

lemma sample_al_entry_ok: "al_entry_ok sample_al_answer"
  using sample_al_answer_ok
  by (auto simp: al_entry_ok_def al_answer_ok_def al_strings_ok_def sample_al_length) (simp_all add: sample_al_answer_def)

lemma sample_al_response_decodes:
  "\<exists>v. apps_lookup_response_decode sample_al_response = Ok v \<and> alr_item_count v = 1"
proof -
  let ?xs = "[al_wire sample_al_answer]"
  have "packed_final sample_al_response 16 ?xs"
    by (simp add: packed_final_def sample_al_response_def append_windows pack_def pack_step_def al8_def)
  moreover have "take 16 sample_al_response = lookup_hdr_wire (word_of_nat (length ?xs)) 5"
    by (simp add: sample_al_response_def)
  moreover have "length sample_al_response < 2 ^ 32"
    by (simp add: sample_al_response_def sample_al_length)
  ultimately show ?thesis
    using alresp.final_decode(1) [OF _ _ _ _ refl, of sample_al_response ?xs 5]
      decode_apps_item_wire [OF sample_al_entry_ok] by (auto simp: length_al_wire)
qed

text \<open>A raw response re-encodes validated process items unchanged: any list of raw items that decode and fit
  the buffer is encoded with the given generation, the payload decodes, and \<open>raw_item(i)\<close> is byte for byte
  the i-th item.\<close>

lemma apps_raw_items_kept:
  assumes len: "length buf < 2 ^ 32" and fit: "16 + length items * 8 + length (pack_data items) \<le> length buf"
    and ok: "\<forall>x \<in> set items. \<exists>w. decode_apps_item x = Ok w"
  shows "\<exists>n buf' v. encode_apps_lookup_raw_response items g buf = Ok (n, buf') \<and> n \<le> length buf \<and>
    apps_lookup_response_decode (take n buf') = Ok v \<and> alr_item_count v = word_of_nat (length items) \<and> alr_generation v = g \<and>
    (\<forall>i < length items. apps_lookup_raw_item v (word_of_nat i) = Ok (items ! i))"
proof -
  have it: "60 \<le> length x \<and> (\<exists>w. decode_apps_item x = Ok w)" if "x \<in> set items" for x
    using ok that decode_apps_item_facts(1) by blast
  have val: "validate_apps_lookup_raw_item x = Ok ()" if "decode_apps_item x = Ok w" for x w
    using that by (simp add: validate_apps_lookup_raw_item_def)
  show ?thesis
    unfolding encode_apps_lookup_raw_response_def al_sizes using it val by (intro alresp.raw_roundtrip [OF len fit])
qed

end
