(* ===== verification/Service_Common.thy ===== *)
theory Service_Common
  imports Lookup_Common
begin

text \<open>
  Helpers shared by the service clients and servers (\<open>service/raw/common.rs\<close>, \<open>service/raw/dispatch.rs\<close>):
  logical lookup limits, the power-of-two growth of payload capacities, the single-request dispatcher
  and the lock-free update of the learned payload capacity, which several session threads run at once.
\<close>

section \<open>Limits of logical lookups\<close>

definition SERVER_POLL_TIMEOUT_MS :: u32 where "SERVER_POLL_TIMEOUT_MS = 100"
definition CLIENT_SHM_ATTACH_RETRY_INTERVAL_MS :: u64 where "CLIENT_SHM_ATTACH_RETRY_INTERVAL_MS = 5"
definition CLIENT_SHM_ATTACH_RETRY_TIMEOUT_MS :: u64 where "CLIENT_SHM_ATTACH_RETRY_TIMEOUT_MS = 5000"
definition CACHE_RESPONSE_BUF_SIZE :: usize where "CACHE_RESPONSE_BUF_SIZE = 65536"
definition LOOKUP_LOGICAL_ITEMS_DEFAULT :: u32 where "LOOKUP_LOGICAL_ITEMS_DEFAULT = 65536"
definition LOOKUP_LOGICAL_SUBCALLS_DEFAULT :: u32 where "LOOKUP_LOGICAL_SUBCALLS_DEFAULT = 4096"
definition LOOKUP_LOGICAL_RESPONSE_BYTES_DEFAULT :: u32 where
  "LOOKUP_LOGICAL_RESPONSE_BYTES_DEFAULT = 64 * 1024 * 1024"

record lookup_logical_config =
  llc_max_items :: u32
  llc_max_subcalls :: u32
  llc_max_response_bytes :: u32

definition lookup_logical_config_default :: lookup_logical_config where
  "lookup_logical_config_default =
     \<lparr>llc_max_items = LOOKUP_LOGICAL_ITEMS_DEFAULT, llc_max_subcalls = LOOKUP_LOGICAL_SUBCALLS_DEFAULT,
      llc_max_response_bytes = LOOKUP_LOGICAL_RESPONSE_BYTES_DEFAULT\<rparr>"

definition lookup_logical_config_normalize :: "lookup_logical_config \<Rightarrow> lookup_logical_config" where
  "lookup_logical_config_normalize c =
     (let defaults = lookup_logical_config_default in
      \<lparr>llc_max_items = (if llc_max_items c = 0 then llc_max_items defaults else llc_max_items c),
       llc_max_subcalls = (if llc_max_subcalls c = 0 then llc_max_subcalls defaults else llc_max_subcalls c),
       llc_max_response_bytes =
         (if llc_max_response_bytes c = 0 then llc_max_response_bytes defaults else llc_max_response_bytes c)\<rparr>)"

section \<open>Capacities\<close>

definition next_power_of_2_u32 :: "u32 \<Rightarrow> u32" where
  "next_power_of_2_u32 n =
     (if n < 16 then 16
      else if n > push_bit 31 1 then push_bit 31 1
      else
        let v = n - 1;
            v = v OR drop_bit 1 v;
            v = v OR drop_bit 2 v;
            v = v OR drop_bit 4 v;
            v = v OR drop_bit 8 v;
            v = v OR drop_bit 16 v
        in v + 1)"

text \<open>\<open>ensure_client_scratch\<close> grows the vector and lends its first \<open>needed\<close> bytes; the vector it leaves behind is
  the model's result.\<close>

definition ensure_client_scratch :: "bytes \<Rightarrow> usize \<Rightarrow> bytes" where
  "ensure_client_scratch buf needed = (if length buf < needed then buf @ replicate (needed - length buf) 0 else buf)"

fun lookup_raw_response_loop :: "usize \<Rightarrow> bytes list \<Rightarrow> usize result" where
  "lookup_raw_response_loop data [] = Ok data"
| "lookup_raw_response_loop data (item # items) =
     (let data = align8 data in
      rbind (ok_or (checked_add data (length item)) Overflow) (\<lambda>data.
      lookup_raw_response_loop data items))"

definition lookup_raw_response_size :: "usize \<Rightarrow> usize \<Rightarrow> bytes list \<Rightarrow> usize result" where
  "lookup_raw_response_size hdr_size item_count items =
     rbind (ok_or (checked_mul item_count LOOKUP_DIR_ENTRY_SIZE) Overflow) (\<lambda>dir_size.
     rbind (ok_or (checked_add hdr_size dir_size) Overflow) (\<lambda>data.
     lookup_raw_response_loop data items))"

section \<open>Dispatch\<close>

datatype dispatch_error = DE_BadEnvelope | DE_Overflow | DE_HandlerFailed

fun dispatch_error_from_protocol :: "nipc_error \<Rightarrow> dispatch_error" where
  "dispatch_error_from_protocol Overflow = DE_Overflow"
| "dispatch_error_from_protocol HandlerFailed = DE_HandlerFailed"
| "dispatch_error_from_protocol _ = DE_BadEnvelope"

text \<open>A dispatch handler reads the request and writes the response buffer it is lent; the state after a failure
  is part of the error, since the caller keeps using the buffer.\<close>

type_synonym dispatch_handler =
  "bytes \<Rightarrow> bytes \<Rightarrow> (dispatch_error \<times> bytes, usize \<times> bytes) outcome"

definition dispatch_single_internal ::
  "u16 \<Rightarrow> dispatch_handler option \<Rightarrow> u16 \<Rightarrow> bytes \<Rightarrow> bytes \<Rightarrow> (dispatch_error \<times> bytes, usize \<times> bytes) outcome" where
  "dispatch_single_internal expected_method_code handler method_code request response_buf =
     (if method_code \<noteq> expected_method_code then Err (DE_HandlerFailed, response_buf)
      else
        case handler of
          Some dispatch \<Rightarrow>
            (case dispatch request response_buf of
               Ok (n, buf) \<Rightarrow> if n \<le> length response_buf then Ok (n, buf) else Err (DE_Overflow, buf)
             | Err (err, buf) \<Rightarrow> Err (err, buf)
             | Panic \<Rightarrow> Panic)
        | None \<Rightarrow> Err (DE_HandlerFailed, response_buf))"

definition method_supported_internal :: "u16 \<Rightarrow> dispatch_handler option \<Rightarrow> u16 \<Rightarrow> bool" where
  "method_supported_internal expected_method_code handler method_code \<longleftrightarrow>
     handler \<noteq> None \<and> method_code = expected_method_code"

section \<open>The learned payload capacity\<close>

text \<open>
  \<open>server_note_payload_capacity\<close> raises a shared atomic to \<open>grown\<close> with a compare-and-swap loop. A thread is
  about to load the atomic, in the loop with the value it saw last, or done. \<open>compare_exchange_weak\<close> may fail
  although the value matches, and it returns the value it observed.
\<close>

datatype note_pc = Note_load | Note_loop u32 | Note_done

record note_thread =
  nt_grown :: u32
  nt_pc :: note_pc

definition server_note_payload_capacity :: "u32 \<Rightarrow> u32 \<Rightarrow> note_thread" where
  "server_note_payload_capacity payload_len ceiling =
     \<lparr>nt_grown = min (next_power_of_2_u32 payload_len) ceiling, nt_pc = Note_load\<rparr>"

inductive note_thread_step :: "note_thread \<Rightarrow> u32 \<Rightarrow> note_thread \<Rightarrow> u32 \<Rightarrow> bool" where
  note_load: "nt_pc t = Note_load \<Longrightarrow> note_thread_step t target (t\<lparr>nt_pc := Note_loop target\<rparr>) target"
| note_leave: "nt_pc t = Note_loop current \<Longrightarrow> \<not> nt_grown t > current \<Longrightarrow>
    note_thread_step t target (t\<lparr>nt_pc := Note_done\<rparr>) target"
| note_swap: "nt_pc t = Note_loop current \<Longrightarrow> nt_grown t > current \<Longrightarrow> target = current \<Longrightarrow>
    note_thread_step t target (t\<lparr>nt_pc := Note_done\<rparr>) (nt_grown t)"
| note_retry: "nt_pc t = Note_loop current \<Longrightarrow> nt_grown t > current \<Longrightarrow>
    note_thread_step t target (t\<lparr>nt_pc := Note_loop target\<rparr>) target"

text \<open>Any number of session threads on one atomic: in every step one of them moves.\<close>

inductive note_steps :: "note_thread list \<Rightarrow> u32 \<Rightarrow> note_thread list \<Rightarrow> u32 \<Rightarrow> bool" where
  note_refl: "note_steps ts target ts target"
| note_step: "note_steps ts target ts1 target1 \<Longrightarrow> i < length ts1 \<Longrightarrow>
    note_thread_step (ts1 ! i) target1 t target2 \<Longrightarrow> note_steps ts target (ts1[i := t]) target2"

inductive_cases note_thread_stepE: "note_thread_step t target t' target'"


section \<open>Powers of two\<close>

definition smears :: "u32 \<Rightarrow> nat \<Rightarrow> u32 \<Rightarrow> bool" where
  "smears v s w \<longleftrightarrow> (\<forall>i. bit w i \<longleftrightarrow> (\<exists>j < s. bit v (i + j)))"

lemma smears_step:
  assumes "smears v s w" "t = s + s"
  shows "smears v t (w OR drop_bit s w)"
  unfolding smears_def
proof
  fix i
  have "bit (w OR drop_bit s w) i \<longleftrightarrow> (\<exists>j < s. bit v (i + j)) \<or> (\<exists>j < s. bit v (i + (s + j)))"
    using assms(1) by (simp add: smears_def bit_or_iff bit_drop_bit_eq add_ac)
  also have "\<dots> \<longleftrightarrow> (\<exists>j < s + s. bit v (i + j))"
  proof
    assume "\<exists>j < s + s. bit v (i + j)"
    then obtain j where "j < s + s" "bit v (i + j)" by blast
    then show "(\<exists>j < s. bit v (i + j)) \<or> (\<exists>j < s. bit v (i + (s + j)))"
      by (cases "j < s") (blast, intro disjI2 exI [of _ "j - s"], simp)
  next
    assume "(\<exists>j < s. bit v (i + j)) \<or> (\<exists>j < s. bit v (i + (s + j)))"
    then show "\<exists>j < s + s. bit v (i + j)" by (metis add_less_cancel_left trans_less_add1)
  qed
  finally show "bit (w OR drop_bit s w) i \<longleftrightarrow> (\<exists>j < t. bit v (i + j))" unfolding assms(2) .
qed

lemma smears_32:
  assumes "smears v 32 w" "2 ^ k \<le> unat v" "unat v < 2 ^ Suc k" "Suc k < 32"
  shows "unat w = 2 ^ Suc k - 1"
proof -
  have b: "bit v j \<longleftrightarrow> odd (unat v div 2 ^ j)" for j
  proof -
    have "bit (unat v) j = bit v j" by (simp add: bit_unsigned_iff)
    then show ?thesis using bit_iff_odd [of "unat v" j] by simp
  qed
  have hi: "\<not> bit v j" if "k < j" for j
  proof -
    have "unat v < 2 ^ j" using assms(3) power_increasing [of "Suc k" j "2 :: nat"] that by simp
    then show ?thesis by (simp add: b)
  qed
  have "unat v div 2 ^ k = 1" using assms(2,3) by (intro div_nat_eqI) simp_all
  then have top: "bit v k" by (simp add: b)
  have "bit w i \<longleftrightarrow> i \<le> k" for i
  proof
    assume "bit w i"
    then obtain j where "bit v (i + j)" using assms(1) by (auto simp: smears_def)
    then show "i \<le> k" using hi [of "i + j"] by (meson le_add1 not_le order.strict_trans1)
  next
    assume "i \<le> k"
    then show "bit w i" using assms(1,4) top by (auto simp: smears_def intro!: exI [of _ "k - i"])
  qed
  then have "unat w = mask (Suc k)"
    by (intro bit_eqI) (simp add: bit_unsigned_iff bit_mask_iff less_Suc_eq_le)
  then show ?thesis by (simp add: mask_eq_exp_minus_1)
qed

definition next_power_of_2_ref :: "nat \<Rightarrow> nat" where
  "next_power_of_2_ref n = (case find (\<lambda>p. n \<le> p) (map (\<lambda>k. 2 ^ k) [4..<32]) of Some p \<Rightarrow> p | None \<Rightarrow> 2 ^ 31)"

lemma find_append_none: "find P xs = None \<Longrightarrow> find P (xs @ ys) = find P ys"
  by (induction xs) (simp_all split: if_splits)

lemma find_power:
  assumes "a \<le> k" "k < b" "n \<le> 2 ^ k" "a < k \<Longrightarrow> 2 ^ (k - 1) < n"
  shows "find (\<lambda>p. n \<le> p) (map (\<lambda>k. 2 ^ k) [a..<b]) = Some (2 ^ k :: nat)"
proof -
  have "[a..<b] = [a..<k] @ k # [Suc k..<b]" using assms(1,2) by (metis le_add_diff_inverse less_imp_le_nat upt_add_eq_append upt_conv_Cons)
  moreover have "find (\<lambda>p. n \<le> p) (map (\<lambda>k. 2 ^ k) [a..<k]) = None"
  proof -
    have "\<not> n \<le> 2 ^ j" if "a \<le> j" "j < k" for j
    proof -
      have "(2 :: nat) ^ j \<le> 2 ^ (k - 1)" using that by (intro power_increasing) simp_all
      moreover have "2 ^ (k - 1) < n" using assms(4) that by simp
      ultimately show ?thesis by linarith
    qed
    then show ?thesis by (auto simp: find_None_iff)
  qed
  ultimately show ?thesis using assms(3) by (simp add: find_append_none)
qed

lemma bracket_power: "0 < n \<Longrightarrow> \<exists>k. 2 ^ k \<le> n \<and> n < (2 :: nat) ^ Suc k"
  using ex_power_ivl1 [of 2 n] by (auto simp: Suc_le_eq)

lemma next_power_of_2_bits:
  assumes "16 \<le> unat n" "unat n \<le> 2 ^ 31"
  shows "\<exists>k. 4 \<le> k \<and> k < 32 \<and> unat (next_power_of_2_u32 n) = 2 ^ k \<and> unat n \<le> 2 ^ k \<and> 2 ^ (k - 1) < unat n"
proof -
  let ?v = "n - 1"
  have v: "unat ?v = unat n - 1" using assms(1) by (intro unat_minus_one) auto
  obtain k where k: "2 ^ k \<le> unat ?v" "unat ?v < 2 ^ Suc k" using bracket_power [of "unat ?v"] v assms(1) by auto
  have k3: "3 \<le> k"
  proof (rule ccontr)
    assume "\<not> 3 \<le> k"
    then have "(2 :: nat) ^ Suc k \<le> 2 ^ 3" by (intro power_increasing) simp_all
    then show False using k(2) v assms(1) by simp
  qed
  have k31: "Suc k < 32"
  proof (rule ccontr)
    assume "\<not> Suc k < 32"
    then have "(2 :: nat) ^ 31 \<le> 2 ^ k" by (intro power_increasing) simp_all
    then show False using k(1) v assms(2) by simp
  qed
  define w where "w = (let v = ?v OR drop_bit 1 ?v; v = v OR drop_bit 2 v; v = v OR drop_bit 4 v; v = v OR drop_bit 8 v
      in v OR drop_bit 16 v)"
  have "smears ?v 1 ?v" by (simp add: smears_def)
  then have "smears ?v 32 w" unfolding w_def Let_def by (intro smears_step [where s = 16] smears_step [where s = 8]
      smears_step [where s = 4] smears_step [where s = 2] smears_step [where s = 1]) simp_all
  then have w: "unat w = 2 ^ Suc k - 1" using k k31 by (rule smears_32)
  have p: "(2 :: nat) ^ Suc k \<le> 2 ^ 31" using k31 by (intro power_increasing) simp_all
  have "next_power_of_2_u32 n = w + 1"
    using assms by (simp add: next_power_of_2_u32_def w_def Let_def word_less_nat_alt)
  moreover have "unat (w + 1) = 2 ^ Suc k" using w p by (simp add: unat_word_ariths)
  ultimately show ?thesis using k v k3 k31 assms(1) by (intro exI [of _ "Suc k"]) auto
qed

text \<open>C28: the bit-smearing \<open>next_power_of_2_u32\<close> computes the smallest power of two that is at least its argument,
  and never less than 16 or more than \<open>2^31\<close>.\<close>

theorem next_power_of_2_correct: "unat (next_power_of_2_u32 n) = next_power_of_2_ref (unat n)"
proof -
  consider "unat n < 16" | "16 \<le> unat n" "unat n \<le> 2 ^ 31" | "2 ^ 31 < unat n" by linarith
  then show ?thesis
  proof cases
    case 1
    then show ?thesis
      using find_power [of 4 4 32 "unat n"] by (simp add: next_power_of_2_u32_def next_power_of_2_ref_def word_less_nat_alt)
  next
    case 2
    then obtain k where "4 \<le> k" "k < 32" "unat (next_power_of_2_u32 n) = 2 ^ k" "unat n \<le> 2 ^ k" "2 ^ (k - 1) < unat n"
      using next_power_of_2_bits by blast
    then show ?thesis using find_power [of 4 k 32 "unat n"] by (simp add: next_power_of_2_ref_def)
  next
    case 3
    have "\<not> unat n \<le> 2 ^ k" if "k < 32" for k
      using 3 power_increasing [of k 31 "2 :: nat"] that by simp
    then have "find (\<lambda>p. unat n \<le> p) (map (\<lambda>k. 2 ^ k) [4..<32]) = None" by (auto simp: find_None_iff simp del: upt_rec_numeral)
    then show ?thesis using 3 by (simp add: next_power_of_2_u32_def next_power_of_2_ref_def word_less_nat_alt)
  qed
qed

lemma next_power_of_2_bounds: "16 \<le> unat (next_power_of_2_u32 n)" "unat (next_power_of_2_u32 n) \<le> 2 ^ 31"
    "unat n \<le> 2 ^ 31 \<Longrightarrow> unat n \<le> unat (next_power_of_2_u32 n)" "\<exists>k. unat (next_power_of_2_u32 n) = 2 ^ k"
proof -
  consider "unat n < 16" | "16 \<le> unat n" "unat n \<le> 2 ^ 31" | "2 ^ 31 < unat n" by linarith
  then have "16 \<le> unat (next_power_of_2_u32 n) \<and> unat (next_power_of_2_u32 n) \<le> 2 ^ 31 \<and>
    (unat n \<le> 2 ^ 31 \<longrightarrow> unat n \<le> unat (next_power_of_2_u32 n)) \<and> (\<exists>k. unat (next_power_of_2_u32 n) = 2 ^ k)"
  proof cases
    case 1
    then have "unat (next_power_of_2_u32 n) = 2 ^ 4" by (simp add: next_power_of_2_u32_def word_less_nat_alt)
    then show ?thesis using 1 by (intro conjI exI [of _ 4]) simp_all
  next
    case 2
    then obtain k where k: "4 \<le> k" "k < 32" "unat (next_power_of_2_u32 n) = 2 ^ k" "unat n \<le> 2 ^ k"
      using next_power_of_2_bits by blast
    then have "(2 :: nat) ^ 4 \<le> 2 ^ k" "(2 :: nat) ^ k \<le> 2 ^ 31" by (intro power_increasing; simp)+
    then show ?thesis using k by auto
  next
    case 3
    then have "unat (next_power_of_2_u32 n) = 2 ^ 31" by (simp add: next_power_of_2_u32_def word_less_nat_alt)
    then show ?thesis using 3 by (intro conjI exI [of _ 31]) simp_all
  qed
  then show "16 \<le> unat (next_power_of_2_u32 n)" "unat (next_power_of_2_u32 n) \<le> 2 ^ 31"
    "unat n \<le> 2 ^ 31 \<Longrightarrow> unat n \<le> unat (next_power_of_2_u32 n)" "\<exists>k. unat (next_power_of_2_u32 n) = 2 ^ k" by blast+
qed

section \<open>Sizes of raw responses\<close>

lemma lookup_raw_response_loop_ok:
  assumes "base mod 8 = 0" "base + length (pack_data (xs @ ys)) + 7 \<le> USIZE_MAX"
  shows "lookup_raw_response_loop (base + length (pack_data xs)) ys = Ok (base + length (pack_data (xs @ ys)))"
  using assms
proof (induction ys arbitrary: xs)
  case Nil
  then show ?case by simp
next
  case (Cons y ys)
  have b: "base + al8 (length (pack_data xs)) + length y \<le> base + length (pack_data (xs @ y # ys))"
    using pack_data_step [of "xs @ y # ys" xs y ys] by simp
  have al: "align8 (base + length (pack_data xs)) = base + al8 (length (pack_data xs))"
    using Cons.prems pack_data_le [of xs "y # ys"] by (subst align8_al8) (simp_all add: al8_add)
  have n: "base + al8 (length (pack_data xs)) + length y = base + length (pack_data (xs @ [y]))"
    by (simp add: length_pack_data_snoc del: pack_data_snoc)
  have "checked_add (base + al8 (length (pack_data xs))) (length y) = Some (base + length (pack_data (xs @ [y])))"
    using b n Cons.prems(2) by (simp add: checked_ok)
  then show ?case
    using Cons.IH [of "xs @ [y]"] Cons.prems by (simp add: al del: pack_data_snoc)
qed

lemma lookup_raw_response_size_ok:
  assumes "16 + length items * 8 + length (pack_data items) + 7 \<le> USIZE_MAX"
  shows "lookup_raw_response_size 16 (length items) items = Ok (16 + length items * 8 + length (pack_data items))"
proof -
  have "(16 + length items * 8) mod 8 = 0" by (simp add: mod_simps)
  then show ?thesis
    using lookup_raw_response_loop_ok [of "16 + length items * 8" "[]" items] assms
    by (simp add: lookup_raw_response_size_def checked_ok LOOKUP_DIR_ENTRY_SIZE_def)
qed

section \<open>Concurrent growth of the payload capacity\<close>

definition note_pc_ok :: "u32 \<Rightarrow> note_thread \<Rightarrow> bool" where
  "note_pc_ok target t \<longleftrightarrow>
     (case nt_pc t of Note_load \<Rightarrow> True | Note_loop current \<Rightarrow> current \<le> target | Note_done \<Rightarrow> nt_grown t \<le> target)"

definition note_inv :: "u32 \<Rightarrow> note_thread list \<Rightarrow> note_thread list \<Rightarrow> u32 \<Rightarrow> bool" where
  "note_inv init ts0 ts target \<longleftrightarrow>
     map nt_grown ts = map nt_grown ts0 \<and> init \<le> target \<and> target \<in> insert init (set (map nt_grown ts)) \<and>
     (\<forall>t \<in> set ts. note_pc_ok target t)"

lemma note_thread_step_facts:
  assumes "note_thread_step t target t' target'"
    "note_pc_ok target t"
  shows "nt_grown t' = nt_grown t" "target \<le> target'" "target' \<in> {target, nt_grown t}"
    "note_pc_ok target' t'"
  using assms by (auto simp: note_pc_ok_def elim!: note_thread_stepE)

lemma note_inv_steps:
  "note_steps ts target ts' target' \<Longrightarrow> \<forall>t \<in> set ts. nt_pc t = Note_load \<Longrightarrow> note_inv target ts ts' target'"
proof (induction rule: note_steps.induct)
  case (note_refl ts target)
  then show ?case by (simp add: note_inv_def note_pc_ok_def)
next
  case (note_step ts target ts1 target1 i t target2)
  then have inv: "note_inv target ts ts1 target1" by simp
  let ?t = "ts1 ! i"
  have i: "?t \<in> set ts1" using note_step.hyps(2) by simp
  have pc: "note_pc_ok target1 ?t"
    using inv i by (simp add: note_inv_def)
  note f = note_thread_step_facts [OF note_step.hyps(3) pc]
  have g: "map nt_grown (ts1[i := t]) = map nt_grown ts1"
    using f(1) note_step.hyps(2) by (simp add: map_update) (metis list_update_id nth_map)
  have "note_pc_ok target2 s"
    if "s \<in> set (ts1[i := t])" for s
  proof -
    have "s = t \<or> s \<in> set ts1" using that set_update_subset_insert by fastforce
    then show ?thesis
    proof
      assume "s \<in> set ts1"
      then have "note_pc_ok target1 s"
        using inv by (simp add: note_inv_def)
      then show ?thesis using f(2) by (auto simp: note_pc_ok_def split: note_pc.splits)
    qed (use f(4) in simp)
  qed
  moreover have "target2 \<in> insert target (set (map nt_grown (ts1[i := t])))"
  proof -
    have "target1 \<in> insert target (set (map nt_grown ts1))" using inv unfolding note_inv_def by blast
    then show ?thesis using f(3) i unfolding g by auto
  qed
  ultimately show ?case using inv g f(2) unfolding note_inv_def by auto
qed

text \<open>C19: the capacity update is lock-free and loses no update. Whatever the interleaving of session threads that
  note payload sizes, and however often the weak compare-and-swap fails spuriously, the shared capacity
  never shrinks and is never raised above the ceiling, and once all of them are done it is the largest
  of its old value and what the threads wanted it to be.\<close>

theorem note_payload_capacity_max:
  assumes run: "note_steps (map (\<lambda>len. server_note_payload_capacity len ceiling) lens) target ts target'"
  shows "target \<le> target' \<and> target' \<le> max target ceiling \<and>
    ((\<forall>t \<in> set ts. nt_pc t = Note_done) \<longrightarrow>
       target' = fold (\<lambda>len c. max (min (next_power_of_2_u32 len) ceiling) c) lens target)"
proof -
  let ?g = "\<lambda>len. min (next_power_of_2_u32 len) ceiling"
  have inv: "note_inv target (map (\<lambda>len. server_note_payload_capacity len ceiling) lens) ts target'"
    using note_inv_steps [OF run] by (simp add: server_note_payload_capacity_def)
  then have gs: "map nt_grown ts = map ?g lens" and lo: "target \<le> target'"
    by (simp_all add: note_inv_def server_note_payload_capacity_def comp_def)
  have "target' \<in> insert target (set (map nt_grown ts))" using inv unfolding note_inv_def by blast
  then have mem: "target' \<in> insert target (set (map ?g lens))" unfolding gs .
  have hi: "target' \<le> max target ceiling" using mem by (auto simp: le_max_iff_disj)
  have f: "fold (\<lambda>len c. max (?g len) c) lens a = Max (insert a (set (map ?g lens)))" for a
    using Max.set_eq_fold [of a "map ?g lens"] by (simp add: fold_map comp_def)
  have "target' = fold (\<lambda>len c. max (?g len) c) lens target" if "\<forall>t \<in> set ts. nt_pc t = Note_done"
  proof -
    have "\<forall>t \<in> set ts. nt_grown t \<le> target'" using inv that by (auto simp: note_inv_def note_pc_ok_def)
    then have "\<forall>x \<in> set (map ?g lens). x \<le> target'" unfolding gs [symmetric] by simp
    then have "Max (insert target (set (map ?g lens))) = target'" using lo mem by (intro Max_eqI) auto
    then show ?thesis by (simp add: f)
  qed
  with lo hi show ?thesis by blast
qed

theorem note_payload_capacity_max_witness:
  "\<exists>ts target'. note_steps (map (\<lambda>len. server_note_payload_capacity len 1024) [100, 200]) 64 ts target' \<and>
     (\<forall>t \<in> set ts. nt_pc t = Note_done) \<and> target' = 256"
proof -
  define a b where "a = server_note_payload_capacity 100 1024" and "b = server_note_payload_capacity 200 1024"
  have g: "nt_grown a = 128" "nt_grown b = 256" "nt_pc a = Note_load" "nt_pc b = Note_load"
    by (simp_all add: a_def b_def server_note_payload_capacity_def next_power_of_2_u32_def Let_def)
  note r = note_steps.note_step
  have 1: "note_steps [a, b] 64 [a\<lparr>nt_pc := Note_loop 64\<rparr>, b] 64"
    using r [OF note_refl [of "[a, b]" 64], of 0] g note_load [of a 64] by simp
  have 2: "note_steps [a, b] 64 [a\<lparr>nt_pc := Note_loop 64\<rparr>, b\<lparr>nt_pc := Note_loop 64\<rparr>] 64"
    using r [OF 1, of 1] g note_load [of b 64] by simp
  have 3: "note_steps [a, b] 64 [a\<lparr>nt_pc := Note_loop 64\<rparr>, b\<lparr>nt_pc := Note_done\<rparr>] 256"
    using r [OF 2, of 1] g note_swap [of "b\<lparr>nt_pc := Note_loop 64\<rparr>" 64 64] by simp
  have 4: "note_steps [a, b] 64 [a\<lparr>nt_pc := Note_loop 256\<rparr>, b\<lparr>nt_pc := Note_done\<rparr>] 256"
    using r [OF 3, of 0] g note_retry [of "a\<lparr>nt_pc := Note_loop 64\<rparr>" 64 256] by simp
  have 5: "note_steps [a, b] 64 [a\<lparr>nt_pc := Note_done\<rparr>, b\<lparr>nt_pc := Note_done\<rparr>] 256"
    using r [OF 4, of 0] g note_leave [of "a\<lparr>nt_pc := Note_loop 256\<rparr>" 256 256] by simp
  have "note_steps (map (\<lambda>len. server_note_payload_capacity len 1024) [100, 200]) 64
      [a\<lparr>nt_pc := Note_done\<rparr>, b\<lparr>nt_pc := Note_done\<rparr>] 256" using 5 by (simp add: a_def b_def)
  then show ?thesis using note_payload_capacity_max [of 1024 "[100, 200]" 64] by fastforce
qed

section \<open>One request, one handler\<close>

lemma dispatch_single_no_panic:
  assumes "\<And>req buf. handler req buf \<noteq> Panic"
  shows "dispatch_single_internal expected (Some handler) code req buf \<noteq> Panic"
  using assms by (auto simp: dispatch_single_internal_def split: outcome.splits)

lemma dispatch_single_bounds:
  "dispatch_single_internal expected handler code req buf = Ok (n, buf') \<Longrightarrow>
     n \<le> length buf \<and> code = expected \<and> method_supported_internal expected handler code"
  by (auto simp: dispatch_single_internal_def method_supported_internal_def
      split: if_splits option.splits outcome.splits prod.splits)

end
