(* ===== verification/Utf8.thy ===== *)
theory Utf8
  imports Wire_Prelude
begin

text \<open>
  The parts of the standard library's UTF-8 handling that the cache relies on: \<open>core::str::from_utf8\<close>, which
  accepts exactly well-formed byte sequences, and \<open>String::from_utf8_lossy\<close>, which replaces every maximal
  ill-formed prefix of a sequence by U+FFFD. A \<open>String\<close> is the list of its bytes.
\<close>

definition utf8_cont :: "u8 \<Rightarrow> bool" where
  "utf8_cont b \<longleftrightarrow> 0x80 \<le> b \<and> b \<le> 0xBF"

text \<open>The second bytes a three- and a four-byte sequence may have.\<close>

definition utf8_second3 :: "u8 \<Rightarrow> u8 \<Rightarrow> bool" where
  "utf8_second3 b c \<longleftrightarrow>
     (if b = 0xE0 then 0xA0 \<le> c \<and> c \<le> 0xBF else if b = 0xED then 0x80 \<le> c \<and> c \<le> 0x9F else utf8_cont c)"

definition utf8_second4 :: "u8 \<Rightarrow> u8 \<Rightarrow> bool" where
  "utf8_second4 b c \<longleftrightarrow>
     (if b = 0xF0 then 0x90 \<le> c \<and> c \<le> 0xBF else if b = 0xF4 then 0x80 \<le> c \<and> c \<le> 0x8F else utf8_cont c)"

text \<open>How many of the bytes in \<open>tail\<close> continue the sequence that \<open>b\<close> starts: whether it is complete, and the
  number of bytes to consume.\<close>

fun utf8_tail :: "(u8 \<Rightarrow> bool) list \<Rightarrow> nat \<Rightarrow> bytes \<Rightarrow> bool \<times> nat" where
  "utf8_tail [] n rest = (True, n)"
| "utf8_tail (p # ps) n [] = (False, n)"
| "utf8_tail (p # ps) n (c # rest) = (if p c then utf8_tail ps (n + 1) rest else (False, n))"

definition utf8_first :: "u8 \<Rightarrow> bytes \<Rightarrow> bool \<times> nat" where
  "utf8_first b rest =
     (if b < 0x80 then (True, 1)
      else if 0xC2 \<le> b \<and> b \<le> 0xDF then utf8_tail [utf8_cont] 1 rest
      else if 0xE0 \<le> b \<and> b \<le> 0xEF then utf8_tail [utf8_second3 b, utf8_cont] 1 rest
      else if 0xF0 \<le> b \<and> b \<le> 0xF4 then utf8_tail [utf8_second4 b, utf8_cont, utf8_cont] 1 rest
      else (False, 1))"

lemma utf8_tail_ge: "n \<le> snd (utf8_tail ps n rest)"
proof (induction ps n rest rule: utf8_tail.induct)
  case (3 p ps n c rest)
  then show ?case by (auto dest: Suc_leD)
qed simp_all

lemma utf8_first_pos: "1 \<le> snd (utf8_first b rest)"
  unfolding utf8_first_def by (auto intro: utf8_tail_ge)

function from_utf8 :: "bytes \<Rightarrow> bool" where
  "from_utf8 [] = True"
| "from_utf8 (b # rest) =
     (case utf8_first b rest of (ok, n) \<Rightarrow> ok \<and> from_utf8 (drop n (b # rest)))"
  by pat_completeness auto
termination
proof (relation "measure length", goal_cases)
  case (2 b rest ok n)
  then show ?case using utf8_first_pos [of b rest] by (cases "utf8_first b rest") auto
qed simp

function from_utf8_lossy :: "bytes \<Rightarrow> bytes" where
  "from_utf8_lossy [] = []"
| "from_utf8_lossy (b # rest) =
     (case utf8_first b rest of (ok, n) \<Rightarrow>
        (if ok then take n (b # rest) else [0xEF, 0xBF, 0xBD]) @ from_utf8_lossy (drop n (b # rest)))"
  by pat_completeness auto
termination
proof (relation "measure length", goal_cases)
  case (2 b rest ok n)
  then show ?case using utf8_first_pos [of b rest] by (cases "utf8_first b rest") auto
qed simp

lemma from_utf8_lossy_id: "from_utf8 xs \<Longrightarrow> from_utf8_lossy xs = xs"
  by (induction xs rule: from_utf8.induct) (auto split: prod.splits)

end
