(* ===== verification/Cgroups_Cache.thy ===== *)
theory Cgroups_Cache
  imports Snapshot Service_Common Utf8
begin

text \<open>
  The client-side snapshot cache (\<open>service/raw/cgroups_cache.rs\<close>): a local copy of the last successful
  snapshot with an open-addressing hash table over it. The probing loops may not end on a full table, so
  they are partial functions: \<open>None\<close> is a loop that never returns, \<open>Some Panic\<close> an index out of range.
  The client the cache drives is a parameter: \<open>refresh\<close>, \<open>call_snapshot\<close> and the elapsed time since the
  cache was created.
\<close>

section \<open>Items, buckets and the cache\<close>

record cgroups_cache_item =
  cci_hash :: u32
  cci_options :: u32
  cci_enabled :: u32
  cci_name :: bytes
  cci_path :: bytes

record cgroups_hash_bucket =
  chb_index :: u32
  chb_used :: bool

definition cgroups_hash_bucket_default :: cgroups_hash_bucket where
  "cgroups_hash_bucket_default = \<lparr>chb_index = 0, chb_used = False\<rparr>"

definition cache_hash_name :: "bytes \<Rightarrow> u32" where
  "cache_hash_name name = foldl (\<lambda>h b. (push_bit 5 h + h) + ucast b) 5381 name"

record 'c cgroups_cache =
  cc_client :: 'c
  cc_items :: "cgroups_cache_item list"
  cc_buckets :: "cgroups_hash_bucket list"
  cc_systemd_enabled :: u32
  cc_generation :: u64
  cc_populated :: bool
  cc_refresh_success_count :: u32
  cc_refresh_failure_count :: u32
  cc_last_refresh_ts :: u64

definition cgroups_cache_new :: "'c \<Rightarrow> 'c cgroups_cache" where
  "cgroups_cache_new client =
     \<lparr>cc_client = client, cc_items = [], cc_buckets = [], cc_systemd_enabled = 0, cc_generation = 0, cc_populated = False,
      cc_refresh_success_count = 0, cc_refresh_failure_count = 0, cc_last_refresh_ts = 0\<rparr>"

section \<open>Refresh\<close>

text \<open>\<open>as_str\<close> fails on bytes that are not UTF-8; the cache then keeps the lossy conversion.\<close>

definition str_view_as_str :: "str_view \<Rightarrow> ('e, bytes option) outcome" where
  "str_view_as_str v =
     rbind (slice_rng (sv_bytes v) 0 (unat (sv_len v))) (\<lambda>s. Ok (if from_utf8 s then Some s else None))"

definition cache_string :: "str_view \<Rightarrow> bytes result" where
  "cache_string v =
     rbind (str_view_as_str v) (\<lambda>r. case r of
       Some s \<Rightarrow> Ok s
     | None \<Rightarrow> rbind (str_view_as_bytes v) (\<lambda>b. Ok (from_utf8_lossy b)))"

text \<open>The items of a view, in order; \<open>Ok None\<close> when one of them does not decode.\<close>

fun cache_collect :: "cgroups_response_view \<Rightarrow> nat \<Rightarrow> nat \<Rightarrow> cgroups_cache_item list option result" where
  "cache_collect view i 0 = Ok (Some [])"
| "cache_collect view i (Suc left) =
     (case cgroups_response_item view (word_of_nat i) of
        Ok iv \<Rightarrow>
          rbind (cache_string (civ_name iv)) (\<lambda>name.
          rbind (cache_string (civ_path iv)) (\<lambda>path.
          rbind (cache_collect view (i + 1) left) (\<lambda>rest.
          Ok (map_option (\<lambda>items. \<lparr>cci_hash = civ_hash iv, cci_options = civ_options iv, cci_enabled = civ_enabled iv,
                                  cci_name = name, cci_path = path\<rparr> # items) rest))))
      | Err _ \<Rightarrow> Ok None
      | Panic \<Rightarrow> Panic)"

partial_function (option) cache_free_slot :: "cgroups_hash_bucket list \<Rightarrow> u32 \<Rightarrow> u32 \<Rightarrow> u32 result option" where
  "cache_free_slot buckets msk slot =
     (if \<not> unat slot < length buckets then Some Panic
      else if chb_used (buckets ! unat slot) then cache_free_slot buckets msk ((slot + 1) AND msk)
      else Some (Ok slot))"

fun cache_fill :: "cgroups_hash_bucket list \<Rightarrow> u32 \<Rightarrow> nat \<Rightarrow> cgroups_cache_item list \<Rightarrow> cgroups_hash_bucket list result option" where
  "cache_fill buckets msk i [] = Some (Ok buckets)"
| "cache_fill buckets msk i (item # items) =
     (case cache_free_slot buckets msk ((cci_hash item XOR cache_hash_name (cci_name item)) AND msk) of
        None \<Rightarrow> None
      | Some (Ok slot) \<Rightarrow>
          cache_fill (buckets[unat slot := \<lparr>chb_index = word_of_nat i, chb_used = True\<rparr>]) msk (i + 1) items
      | Some (Err e) \<Rightarrow> Some (Err e)
      | Some Panic \<Rightarrow> Some Panic)"

definition cache_build :: "cgroups_cache_item list \<Rightarrow> cgroups_hash_bucket list result option" where
  "cache_build new_items =
     (if new_items \<noteq> [] then
        let bcount = unat (next_power_of_2_u32 (word_of_nat (length new_items) * 2));
            buckets = replicate bcount cgroups_hash_bucket_default;
            msk = word_of_nat (bcount - 1)
        in cache_fill buckets msk 0 new_items
      else Some (Ok []))"

definition cache_refresh_failed :: "'c cgroups_cache \<Rightarrow> bool \<times> 'c cgroups_cache" where
  "cache_refresh_failed c = (False, c\<lparr>cc_refresh_failure_count := cc_refresh_failure_count c + 1\<rparr>)"

definition cache_refresh ::
  "('c \<Rightarrow> 'c) \<Rightarrow> ('c \<Rightarrow> cgroups_response_view result \<times> 'c) \<Rightarrow> u64 \<Rightarrow> 'c cgroups_cache \<Rightarrow>
   (bool \<times> 'c cgroups_cache) result option" where
  "cache_refresh refresh call_snapshot elapsed_ms c =
     (let c = c\<lparr>cc_client := refresh (cc_client c)\<rparr> in
      case call_snapshot (cc_client c) of (r, client) \<Rightarrow>
        let c = c\<lparr>cc_client := client\<rparr> in
        case r of
          Ok view \<Rightarrow>
            (case cache_collect view 0 (unat (crv_item_count view)) of
               Ok (Some new_items) \<Rightarrow>
                 (case cache_build new_items of
                    None \<Rightarrow> None
                  | Some (Ok buckets) \<Rightarrow>
                      Some (Ok (True, c\<lparr>cc_items := new_items, cc_buckets := buckets,
                                        cc_systemd_enabled := crv_systemd_enabled view,
                                        cc_generation := crv_generation view, cc_populated := True,
                                        cc_refresh_success_count := cc_refresh_success_count c + 1,
                                        cc_last_refresh_ts := elapsed_ms\<rparr>))
                  | Some (Err e) \<Rightarrow> Some (Err e)
                  | Some Panic \<Rightarrow> Some Panic)
             | Ok None \<Rightarrow> Some (Ok (cache_refresh_failed c))
             | Err e \<Rightarrow> Some (Err e)
             | Panic \<Rightarrow> Some Panic)
        | Err _ \<Rightarrow> Some (Ok (cache_refresh_failed c))
        | Panic \<Rightarrow> Some Panic)"

section \<open>Lookup, status, close\<close>

partial_function (option) cache_probe ::
  "cgroups_cache_item list \<Rightarrow> cgroups_hash_bucket list \<Rightarrow> u32 \<Rightarrow> u32 \<Rightarrow> bytes \<Rightarrow> u32 \<Rightarrow> cgroups_cache_item option result option" where
  "cache_probe items buckets msk hash name slot =
     (if \<not> unat slot < length buckets then Some Panic
      else if \<not> chb_used (buckets ! unat slot) then Some (Ok None)
      else
        let idx = unat (chb_index (buckets ! unat slot)) in
        if \<not> idx < length items then Some Panic
        else
          let item = items ! idx in
          if cci_hash item = hash \<and> cci_name item = name then Some (Ok (Some item))
          else cache_probe items buckets msk hash name ((slot + 1) AND msk))"

definition cache_lookup :: "u32 \<Rightarrow> bytes \<Rightarrow> 'c cgroups_cache \<Rightarrow> cgroups_cache_item option result option" where
  "cache_lookup hash name c =
     (if \<not> cc_populated c then Some (Ok None)
      else if cc_buckets c \<noteq> [] then
        let msk = word_of_nat (length (cc_buckets c) - 1);
            slot = (hash XOR cache_hash_name name) AND msk
        in cache_probe (cc_items c) (cc_buckets c) msk hash name slot
      else Some (Ok (find (\<lambda>item. cci_hash item = hash \<and> cci_name item = name) (cc_items c))))"

definition cache_ready :: "'c cgroups_cache \<Rightarrow> bool" where
  "cache_ready c = cc_populated c"

record 's cgroups_cache_status =
  ccs_populated :: bool
  ccs_item_count :: u32
  ccs_systemd_enabled :: u32
  ccs_generation :: u64
  ccs_refresh_success_count :: u32
  ccs_refresh_failure_count :: u32
  ccs_connection_state :: 's
  ccs_last_refresh_ts :: u64

definition cache_status :: "('c \<Rightarrow> 's) \<Rightarrow> 'c cgroups_cache \<Rightarrow> 's cgroups_cache_status" where
  "cache_status state c =
     \<lparr>ccs_populated = cc_populated c, ccs_item_count = word_of_nat (length (cc_items c)),
      ccs_systemd_enabled = cc_systemd_enabled c, ccs_generation = cc_generation c,
      ccs_refresh_success_count = cc_refresh_success_count c, ccs_refresh_failure_count = cc_refresh_failure_count c,
      ccs_connection_state = state (cc_client c), ccs_last_refresh_ts = cc_last_refresh_ts c\<rparr>"

definition cache_close :: "('c \<Rightarrow> 'c) \<Rightarrow> 'c cgroups_cache \<Rightarrow> 'c cgroups_cache" where
  "cache_close close c =
     c\<lparr>cc_items := [], cc_buckets := [], cc_populated := False, cc_client := close (cc_client c)\<rparr>"


section \<open>Probing\<close>

text \<open>The table has \<open>2^k\<close> slots; \<open>probe k s j\<close> is the slot looked at after \<open>j\<close> steps from slot \<open>s\<close>.\<close>

definition probe :: "nat \<Rightarrow> nat \<Rightarrow> nat \<Rightarrow> nat" where
  "probe k s j = (s + j) mod 2 ^ k"

lemma and_msk:
  assumes "k < 32"
  shows "unat (w AND word_of_nat (2 ^ k - 1) :: u32) = unat w mod 2 ^ k"
proof -
  have "(word_of_nat (2 ^ k - 1) :: u32) = mask k" by (simp add: mask_eq_exp_minus_1 of_nat_diff)
  then have "w AND word_of_nat (2 ^ k - 1) = take_bit k w" by (simp add: take_bit_eq_mask)
  moreover have "unat (take_bit k w) = take_bit k (unat w)" by (rule unsigned_take_bit_eq)
  ultimately show ?thesis by (simp only: take_bit_eq_mod)
qed

lemma next_slot:
  assumes "k < 32" "unat (slot :: u32) = probe k s j"
  shows "unat ((slot + 1) AND word_of_nat (2 ^ k - 1)) = probe k s (Suc j)"
proof -
  have "probe k s j < 2 ^ k" by (simp add: probe_def)
  moreover have "(2 :: nat) ^ k \<le> 2 ^ 31" using assms(1) by (intro power_increasing) simp_all
  ultimately have "unat (slot + 1) = unat slot + 1" using assms(2) by (simp add: unat_word_ariths)
  then show ?thesis using and_msk [OF assms(1)] assms(2) by (simp add: probe_def mod_Suc_eq)
qed

lemma probe_lt [simp]: "probe k s j < 2 ^ k"
  by (simp add: probe_def)

lemma probe_covers: "t < 2 ^ k \<Longrightarrow> \<exists>j < 2 ^ k. probe k s j = t"
proof -
  assume t: "t < 2 ^ k"
  let ?n = "2 ^ k :: nat"
  have e: "(s + (t + (?n - s mod ?n)) mod ?n) mod ?n = (s mod ?n + (t + (?n - s mod ?n))) mod ?n"
    by (simp only: mod_simps)
  have "s mod ?n < ?n" by simp
  then have "s mod ?n + (t + (?n - s mod ?n)) = t + ?n" by linarith
  with e have "probe k s ((t + (?n - s mod ?n)) mod ?n) = t" using t by (simp add: probe_def)
  then show ?thesis by (intro exI [of _ "(t + (?n - s mod ?n)) mod ?n"]) simp
qed

text \<open>Walking over used slots.\<close>

lemma cache_free_slot_walk:
  assumes "k < 32" "length T = 2 ^ k" "\<And>e. e < d \<Longrightarrow> chb_used (T ! probe k s (j + e))" "unat slot = probe k s j"
  shows "\<exists>slot'. unat slot' = probe k s (j + d) \<and>
     cache_free_slot T (word_of_nat (2 ^ k - 1)) slot = cache_free_slot T (word_of_nat (2 ^ k - 1)) slot'"
  using assms
proof (induction d arbitrary: j slot)
  case 0
  then show ?case by auto
next
  case (Suc d)
  let ?m = "word_of_nat (2 ^ k - 1) :: u32"
  have u: "chb_used (T ! unat slot)" using Suc.prems(3) [of 0] Suc.prems(4) by simp
  have step: "cache_free_slot T ?m slot = cache_free_slot T ?m ((slot + 1) AND ?m)"
    using u Suc.prems(2,4) by (subst cache_free_slot.simps) simp
  have "\<exists>slot'. unat slot' = probe k s (Suc j + d) \<and> cache_free_slot T ?m ((slot + 1) AND ?m) = cache_free_slot T ?m slot'"
  proof (rule Suc.IH [OF assms(1,2)])
    fix e assume "e < d"
    then show "chb_used (T ! probe k s (Suc j + e))" using Suc.prems(3) [of "Suc e"] by simp
  qed (rule next_slot [OF assms(1) Suc.prems(4)])
  then show ?case using step by simp
qed

lemma cache_free_slot_ok:
  assumes k: "k < 32" and T: "length T = 2 ^ k" and s: "unat slot = s" "s < 2 ^ k"
    and free: "\<exists>t < 2 ^ k. \<not> chb_used (T ! t)"
  shows "\<exists>d slot'. d < 2 ^ k \<and> cache_free_slot T (word_of_nat (2 ^ k - 1)) slot = Some (Ok slot') \<and> unat slot' = probe k s d \<and>
     \<not> chb_used (T ! probe k s d) \<and> (\<forall>e < d. chb_used (T ! probe k s e))"
proof -
  obtain t where t: "t < 2 ^ k" "\<not> chb_used (T ! t)" using free by blast
  obtain j where j: "j < 2 ^ k" "\<not> chb_used (T ! probe k s j)" using probe_covers [OF t(1), of s] t(2) by auto
  define d where "d = (LEAST d. \<not> chb_used (T ! probe k s d))"
  have d: "\<not> chb_used (T ! probe k s d)" using j(2) unfolding d_def by (rule LeastI)
  have used: "chb_used (T ! probe k s e)" if "e < d" for e using that not_less_Least d_def by blast
  have "d \<le> j" unfolding d_def using j(2) by (rule Least_le)
  then have dl: "d < 2 ^ k" using j(1) by simp
  have u0: "\<And>e. e < d \<Longrightarrow> chb_used (T ! probe k s (0 + e))" using used by simp
  have "unat slot = probe k s 0" using s by (simp add: probe_def)
  from cache_free_slot_walk [OF k T u0 this] obtain slot' where s': "unat slot' = probe k s d"
      "cache_free_slot T (word_of_nat (2 ^ k - 1)) slot = cache_free_slot T (word_of_nat (2 ^ k - 1)) slot'"
    by auto
  have "cache_free_slot T (word_of_nat (2 ^ k - 1)) slot' = Some (Ok slot')"
    using d s'(1) T by (subst cache_free_slot.simps) simp
  then show ?thesis using s' d used dl by (intro exI [of _ d] exI [of _ slot']) simp
qed

lemma cache_probe_walk:
  assumes "k < 32" "length T = 2 ^ k" "unat slot = probe k s j"
    and "\<And>e. e < d \<Longrightarrow> chb_used (T ! probe k s (j + e)) \<and> unat (chb_index (T ! probe k s (j + e))) < length items \<and>
       \<not> (cci_hash (items ! unat (chb_index (T ! probe k s (j + e)))) = h \<and>
          cci_name (items ! unat (chb_index (T ! probe k s (j + e)))) = name)"
  shows "\<exists>slot'. unat slot' = probe k s (j + d) \<and>
     cache_probe items T (word_of_nat (2 ^ k - 1)) h name slot = cache_probe items T (word_of_nat (2 ^ k - 1)) h name slot'"
  using assms
proof (induction d arbitrary: j slot)
  case 0
  then show ?case by auto
next
  case (Suc d)
  let ?m = "word_of_nat (2 ^ k - 1) :: u32"
  have step: "cache_probe items T ?m h name slot = cache_probe items T ?m h name ((slot + 1) AND ?m)"
    using Suc.prems(2,3) Suc.prems(4) [of 0] by (subst cache_probe.simps) (auto simp: Let_def)
  have "\<exists>slot'. unat slot' = probe k s (Suc j + d) \<and>
      cache_probe items T ?m h name ((slot + 1) AND ?m) = cache_probe items T ?m h name slot'"
  proof (rule Suc.IH [OF assms(1,2)])
    fix e assume "e < d"
    then show "chb_used (T ! probe k s (Suc j + e)) \<and> unat (chb_index (T ! probe k s (Suc j + e))) < length items \<and>
       \<not> (cci_hash (items ! unat (chb_index (T ! probe k s (Suc j + e)))) = h \<and>
          cci_name (items ! unat (chb_index (T ! probe k s (Suc j + e)))) = name)"
      using Suc.prems(4) [of "Suc e"] by simp
  qed (rule next_slot [OF assms(1) Suc.prems(3)])
  then show ?case using step by simp
qed

section \<open>The table\<close>

definition cache_key :: "u32 \<Rightarrow> bytes \<Rightarrow> u32" where
  "cache_key hash name = hash XOR cache_hash_name name"

definition cache_home :: "nat \<Rightarrow> cgroups_cache_item \<Rightarrow> nat" where
  "cache_home k item = unat (cache_key (cci_hash item) (cci_name item)) mod 2 ^ k"

abbreviation slot_index :: "cgroups_hash_bucket list \<Rightarrow> nat \<Rightarrow> nat" where
  "slot_index T t \<equiv> unat (chb_index (T ! t))"

text \<open>Item \<open>i\<close> sits \<open>d\<close> steps behind its home; the slots before it are used, and items with the same home that
  are met before it come before it in the item list.\<close>

definition table_entry :: "nat \<Rightarrow> cgroups_cache_item list \<Rightarrow> cgroups_hash_bucket list \<Rightarrow> nat \<Rightarrow> nat \<Rightarrow> bool" where
  "table_entry k items T i d \<longleftrightarrow>
     (let s = cache_home k (items ! i) in
      chb_used (T ! probe k s d) \<and> slot_index T (probe k s d) = i \<and>
      (\<forall>e < d. chb_used (T ! probe k s e) \<and>
         (cache_home k (items ! slot_index T (probe k s e)) = s \<longrightarrow> slot_index T (probe k s e) < i)))"

definition table_ok :: "nat \<Rightarrow> cgroups_cache_item list \<Rightarrow> nat \<Rightarrow> cgroups_hash_bucket list \<Rightarrow> bool" where
  "table_ok k items m T \<longleftrightarrow> length T = 2 ^ k \<and> card {t. t < 2 ^ k \<and> chb_used (T ! t)} \<le> m \<and>
     (\<forall>t < 2 ^ k. chb_used (T ! t) \<longrightarrow> slot_index T t < m) \<and> (\<forall>i < m. \<exists>d < 2 ^ k. table_entry k items T i d)"

lemma table_ok_free:
  assumes "table_ok k items m T" "m < 2 ^ k"
  shows "\<exists>t < 2 ^ k. \<not> chb_used (T ! t)"
proof (rule ccontr)
  assume "\<not> ?thesis"
  then have "{t. t < 2 ^ k \<and> chb_used (T ! t)} = {..< 2 ^ k}" by auto
  then show False using assms by (simp add: table_ok_def)
qed

lemma table_ok_insert:
  assumes ok: "table_ok k items m T" and k: "k < 32" and m: "m < length items" "m < 2 ^ k" and item: "item = items ! m"
  shows "\<exists>slot. cache_free_slot T (word_of_nat (2 ^ k - 1)) (cache_key (cci_hash item) (cci_name item) AND word_of_nat (2 ^ k - 1)) =
       Some (Ok slot) \<and>
     table_ok k items (Suc m) (T[unat slot := \<lparr>chb_index = word_of_nat m, chb_used = True\<rparr>])"
proof -
  let ?s = "cache_home k item"
  have T: "length T = 2 ^ k" using ok by (simp add: table_ok_def)
  have sl: "unat (cache_key (cci_hash item) (cci_name item) AND word_of_nat (2 ^ k - 1)) = ?s"
    using and_msk [OF k] by (simp add: cache_home_def)
  have s: "?s < 2 ^ k" by (simp add: cache_home_def)
  obtain d slot where d: "d < 2 ^ k"
      "cache_free_slot T (word_of_nat (2 ^ k - 1)) (cache_key (cci_hash item) (cci_name item) AND word_of_nat (2 ^ k - 1)) = Some (Ok slot)"
      "unat slot = probe k ?s d" "\<not> chb_used (T ! probe k ?s d)" "\<forall>e < d. chb_used (T ! probe k ?s e)"
    using cache_free_slot_ok [OF k T sl s table_ok_free [OF ok m(2)]] by blast
  let ?t = "probe k ?s d" and ?T = "T[unat slot := \<lparr>chb_index = word_of_nat m, chb_used = True\<rparr>]"
  have t: "?t < 2 ^ k" by simp
  have "(2 :: nat) ^ k \<le> 2 ^ 31" using k by (intro power_increasing) simp_all
  then have um: "unat (word_of_nat m :: u32) = m" using m(2) by simp
  have new: "?T ! ?t = \<lparr>chb_index = word_of_nat m, chb_used = True\<rparr>" using d(3) T t by simp
  have old: "?T ! x = T ! x" if "chb_used (T ! x)" for x using that d(3,4) by (metis nth_list_update_neq)
  have other: "?T ! x = T ! x" if "x \<noteq> ?t" for x using that d(3) by simp
  have "card {t. t < 2 ^ k \<and> chb_used (?T ! t)} \<le> Suc m"
  proof -
    have "{t. t < 2 ^ k \<and> chb_used (?T ! t)} \<subseteq> insert ?t {t. t < 2 ^ k \<and> chb_used (T ! t)}" using other by auto
    then have "card {t. t < 2 ^ k \<and> chb_used (?T ! t)} \<le> card (insert ?t {t. t < 2 ^ k \<and> chb_used (T ! t)})"
      by (intro card_mono) simp_all
    then show ?thesis using ok by (auto simp: table_ok_def card_insert_if split: if_splits)
  qed
  moreover have "slot_index ?T x < Suc m" if "x < 2 ^ k" "chb_used (?T ! x)" for x
  proof (cases "x = ?t")
    case True
    then show ?thesis using new um by simp
  next
    case False
    then show ?thesis using ok that other [OF False] by (auto simp: table_ok_def less_Suc_eq)
  qed
  moreover have "\<exists>d < 2 ^ k. table_entry k items ?T i d" if "i < Suc m" for i
  proof (cases "i = m")
    case True
    have "table_entry k items ?T m d"
      using d(5) new um old ok item by (auto simp: table_entry_def table_ok_def Let_def)
    then show ?thesis using True d(1) by blast
  next
    case False
    then have "i < m" using that by simp
    then obtain d' where "d' < 2 ^ k" "table_entry k items T i d'" using ok unfolding table_ok_def by blast
    then show ?thesis using old by (auto simp: table_entry_def Let_def intro!: exI [of _ d'])
  qed
  ultimately have "table_ok k items (Suc m) ?T" using T by (simp add: table_ok_def)
  then show ?thesis using d(2) by blast
qed

lemma cache_fill_ok:
  assumes "table_ok k items m T" "k < 32" "length items < 2 ^ k" "m + length left = length items" "left = drop m items"
  shows "\<exists>T'. cache_fill T (word_of_nat (2 ^ k - 1)) m left = Some (Ok T') \<and> table_ok k items (length items) T'"
  using assms
proof (induction left arbitrary: m T)
  case Nil
  then show ?case by simp
next
  case (Cons item left)
  have m: "m < length items" "m < 2 ^ k" using Cons.prems(3,4) by simp_all
  have it: "item = items ! m" "left = drop (Suc m) items"
    using Cons.prems(5) m(1) by (metis Cons_nth_drop_Suc list.inject)+
  obtain slot where s: "cache_free_slot T (word_of_nat (2 ^ k - 1)) (cache_key (cci_hash item) (cci_name item) AND word_of_nat (2 ^ k - 1)) =
       Some (Ok slot)" "table_ok k items (Suc m) (T[unat slot := \<lparr>chb_index = word_of_nat m, chb_used = True\<rparr>])"
    using table_ok_insert [OF Cons.prems(1,2) m it(1)] by blast
  have "\<exists>T'. cache_fill (T[unat slot := \<lparr>chb_index = word_of_nat m, chb_used = True\<rparr>]) (word_of_nat (2 ^ k - 1)) (Suc m) left =
      Some (Ok T') \<and> table_ok k items (length items) T'"
    using Cons.IH [OF s(2) assms(2,3) _ it(2)] Cons.prems(4) by simp
  then show ?case using s(1) by (simp add: cache_key_def)
qed

lemma cache_probe_ok:
  assumes ok: "table_ok k items (length items) T" and k: "k < 32" and n: "length items < 2 ^ k"
  shows "cache_probe items T (word_of_nat (2 ^ k - 1)) h name (cache_key h name AND word_of_nat (2 ^ k - 1)) =
     Some (Ok (find (\<lambda>item. cci_hash item = h \<and> cci_name item = name) items))"
proof -
  let ?P = "\<lambda>item. cci_hash item = h \<and> cci_name item = name" and ?m = "word_of_nat (2 ^ k - 1) :: u32"
  let ?s = "unat (cache_key h name) mod 2 ^ k" and ?slot = "cache_key h name AND ?m"
  have T: "length T = 2 ^ k" using ok by (simp add: table_ok_def)
  have idx: "slot_index T t < length items" if "t < 2 ^ k" "chb_used (T ! t)" for t using ok that by (simp add: table_ok_def)
  have s0: "unat ?slot = probe k ?s 0" using and_msk [OF k] by (simp add: probe_def)
  have walk: "\<exists>slot'. unat slot' = probe k ?s d \<and> cache_probe items T ?m h name ?slot = cache_probe items T ?m h name slot'"
    if "\<And>e. e < d \<Longrightarrow> chb_used (T ! probe k ?s e) \<and> \<not> ?P (items ! slot_index T (probe k ?s e))" for d
    using cache_probe_walk [OF k T s0, of d items h name] that idx by simp
  show ?thesis
  proof (cases "find ?P items")
    case None
    then have no: "\<not> ?P (items ! i)" if "i < length items" for i using that by (auto simp: find_None_iff)
    obtain t where t: "t < 2 ^ k" "\<not> chb_used (T ! t)" using table_ok_free [OF ok n] by blast
    obtain j where j: "\<not> chb_used (T ! probe k ?s j)" using probe_covers [OF t(1), of ?s] t(2) by auto
    define d where "d = (LEAST d. \<not> chb_used (T ! probe k ?s d))"
    have d: "\<not> chb_used (T ! probe k ?s d)" using j unfolding d_def by (rule LeastI)
    have "chb_used (T ! probe k ?s e)" if "e < d" for e using that not_less_Least d_def by blast
    then obtain slot' where "unat slot' = probe k ?s d" "cache_probe items T ?m h name ?slot = cache_probe items T ?m h name slot'"
      using walk [of d] no idx by auto
    moreover from this(1) have "cache_probe items T ?m h name slot' = Some (Ok None)"
      using d T by (subst cache_probe.simps) simp
    ultimately show ?thesis using None by simp
  next
    case (Some item)
    then obtain i where i: "i < length items" "?P (items ! i)" "item = items ! i" "\<forall>j < i. \<not> ?P (items ! j)"
      by (auto simp: find_Some_iff)
    have hm: "cache_home k x = ?s" if "?P x" for x using that by (simp add: cache_home_def)
    obtain d where d: "d < 2 ^ k" "table_entry k items T i d" using ok i(1) by (auto simp: table_ok_def)
    then have at: "chb_used (T ! probe k ?s d)" "slot_index T (probe k ?s d) = i"
      and before: "\<And>e. e < d \<Longrightarrow> chb_used (T ! probe k ?s e) \<and>
         (cache_home k (items ! slot_index T (probe k ?s e)) = ?s \<longrightarrow> slot_index T (probe k ?s e) < i)"
      using hm [OF i(2)] by (simp_all add: table_entry_def Let_def)
    have "chb_used (T ! probe k ?s e) \<and> \<not> ?P (items ! slot_index T (probe k ?s e))" if "e < d" for e
      using before [OF that] hm i(4) by blast
    then obtain slot' where "unat slot' = probe k ?s d" "cache_probe items T ?m h name ?slot = cache_probe items T ?m h name slot'"
      using walk by blast
    moreover from this(1) have "cache_probe items T ?m h name slot' = Some (Ok (Some item))"
      using at i T by (subst cache_probe.simps) (simp add: Let_def)
    ultimately show ?thesis using Some by simp
  qed
qed

section \<open>Collecting the items of a snapshot\<close>

lemma cache_string_ok: "str_view_ok w \<Longrightarrow> cache_string w = Ok (from_utf8_lossy (butlast (sv_bytes w)))"
  using str_view_ok_as_bytes [of w, where 'e = nipc_error]
  by (simp add: cache_string_def str_view_as_str_def str_view_as_bytes_def from_utf8_lossy_id)

definition cache_item_of :: "cgroups_item_view \<Rightarrow> cgroups_cache_item" where
  "cache_item_of iv = \<lparr>cci_hash = civ_hash iv, cci_options = civ_options iv, cci_enabled = civ_enabled iv,
     cci_name = from_utf8_lossy (butlast (sv_bytes (civ_name iv))), cci_path = from_utf8_lossy (butlast (sv_bytes (civ_path iv)))\<rparr>"

text \<open>The reference: the snapshot's items, if all of them decode.\<close>

fun snapshot_items :: "cgroups_response_view \<Rightarrow> nat \<Rightarrow> nat \<Rightarrow> cgroups_item_view list option" where
  "snapshot_items view i 0 = Some []"
| "snapshot_items view i (Suc left) =
     (case cgroups_response_item view (word_of_nat i) of
        Ok iv \<Rightarrow> map_option (\<lambda>ivs. iv # ivs) (snapshot_items view (i + 1) left)
      | _ \<Rightarrow> None)"

lemma cache_collect_ok:
  assumes d: "cgroups_response_decode buf = Ok view"
  shows "cache_collect view i n = Ok (map_option (map cache_item_of) (snapshot_items view i n))"
proof (induction n arbitrary: i)
  case 0
  then show ?case by simp
next
  case (Suc n)
  note np = cgroups_response_item_views(1) [OF d, of "word_of_nat i"]
  show ?case
  proof (cases "cgroups_response_item view (word_of_nat i)")
    case (Ok iv)
    then have "str_view_ok (civ_name iv)" "str_view_ok (civ_path iv)" using cgroups_response_item_views(2) [OF d] by blast+
    then show ?thesis using Ok Suc by (auto simp: cache_string_ok cache_item_of_def option.map_comp comp_def)
  qed (use np in auto)
qed

lemma length_snapshot_items: "snapshot_items view i n = Some ivs \<Longrightarrow> length ivs = n"
  by (induction n arbitrary: i ivs) (auto split: outcome.splits)

lemma cache_build_ok:
  assumes "items \<noteq> []" "length items < 2 ^ 30"
  shows "\<exists>k T. k < 32 \<and> length items < 2 ^ k \<and> cache_build items = Some (Ok T) \<and> table_ok k items (length items) T"
proof -
  let ?w = "word_of_nat (length items) * 2 :: u32"
  have w: "unat ?w = length items * 2" using assms(2) by (simp add: unat_word_ariths)
  obtain k where k: "unat (next_power_of_2_u32 ?w) = 2 ^ k" using next_power_of_2_bounds(4) by blast
  have lt: "length items * 2 \<le> 2 ^ k" using next_power_of_2_bounds(3) [of ?w] assms(2) w k by simp
  have k31: "k < 32"
  proof (rule ccontr)
    assume "\<not> k < 32"
    then have "(2 :: nat) ^ 32 \<le> 2 ^ k" by (intro power_increasing) simp_all
    then show False using next_power_of_2_bounds(2) [of ?w] k by simp
  qed
  have n: "length items < 2 ^ k" using lt assms(1) by (cases items) auto
  let ?T = "replicate (2 ^ k) cgroups_hash_bucket_default"
  have "table_ok k items 0 ?T" by (simp add: table_ok_def cgroups_hash_bucket_default_def)
  then obtain T where "cache_fill ?T (word_of_nat (2 ^ k - 1)) 0 items = Some (Ok T)" "table_ok k items (length items) T"
    using cache_fill_ok [OF _ k31 n, of 0 ?T items] by auto
  then have "cache_build items = Some (Ok T)" using assms(1) k by (simp add: cache_build_def Let_def)
  with k31 n \<open>table_ok k items (length items) T\<close> show ?thesis by blast
qed

section \<open>The cache refines a list of items\<close>

text \<open>
  What a cache promises to its user: it holds the items of the last snapshot that was read successfully,
  if there was one, and a lookup is a search through them. \<open>cache_repr\<close> relates a cache to that list.
\<close>

definition cache_repr :: "'c cgroups_cache \<Rightarrow> cgroups_cache_item list option \<Rightarrow> bool" where
  "cache_repr c spec \<longleftrightarrow>
     (case spec of
        None \<Rightarrow> \<not> cc_populated c
      | Some items \<Rightarrow> cc_populated c \<and> cc_items c = items \<and>
          (if items = [] then cc_buckets c = []
           else \<exists>k < 32. length items < 2 ^ k \<and> table_ok k items (length items) (cc_buckets c)))"

lemma cache_lookup_repr:
  assumes "cache_repr c spec"
  shows "cache_lookup h name c =
     Some (Ok (Option.bind spec (find (\<lambda>item. cci_hash item = h \<and> cci_name item = name))))"
proof (cases spec)
  case None
  then show ?thesis using assms by (simp add: cache_repr_def cache_lookup_def)
next
  case (Some items)
  show ?thesis
  proof (cases "items = []")
    case True
    then show ?thesis using assms Some by (simp add: cache_repr_def cache_lookup_def)
  next
    case False
    then obtain k where k: "k < 32" "length items < 2 ^ k" "table_ok k items (length items) (cc_buckets c)"
      using assms Some by (auto simp: cache_repr_def)
    have l: "length (cc_buckets c) = 2 ^ k" using k(3) by (simp add: table_ok_def)
    then have "cc_buckets c \<noteq> []" by (metis length_0_conv power_not_zero zero_neq_numeral)
    then show ?thesis
      using assms Some cache_probe_ok [OF k(3,1,2), of h name] l
      by (simp add: cache_repr_def cache_lookup_def Let_def cache_key_def)
  qed
qed

text \<open>The steps of the specification: a refresh replaces the list when it succeeds, closing forgets it.\<close>

definition spec_refresh :: "cgroups_response_view result \<Rightarrow> cgroups_cache_item list option \<Rightarrow> bool \<times> cgroups_cache_item list option" where
  "spec_refresh r spec =
     (case r of
        Ok view \<Rightarrow> (case snapshot_items view 0 (unat (crv_item_count view)) of
                      Some ivs \<Rightarrow> (True, Some (map cache_item_of ivs)) | None \<Rightarrow> (False, spec))
      | _ \<Rightarrow> (False, spec))"

definition snapshot_source :: "('c \<Rightarrow> cgroups_response_view result \<times> 'c) \<Rightarrow> bool" where
  "snapshot_source call \<longleftrightarrow>
     (\<forall>cl. fst (call cl) \<noteq> Panic \<and>
       (\<forall>view. fst (call cl) = Ok view \<longrightarrow> (\<exists>buf. length buf < 2 ^ 32 \<and> cgroups_response_decode buf = Ok view)))"

lemma decoded_item_count:
  assumes "cgroups_response_decode buf = Ok view" "length buf < 2 ^ 32"
  shows "unat (crv_item_count view) < 2 ^ 30"
  using assms by (auto simp: cgroups_response_decode_ok cgroups_view_of_def)

lemma cache_refresh_repr:
  assumes src: "snapshot_source call" and r: "cache_repr c spec"
  shows "\<exists>c'. cache_refresh rf call ms c = Some (Ok (fst (spec_refresh (fst (call (rf (cc_client c)))) spec), c')) \<and>
     cache_repr c' (snd (spec_refresh (fst (call (rf (cc_client c)))) spec)) \<and> cc_client c' = snd (call (rf (cc_client c)))"
proof -
  obtain res cl where call: "call (rf (cc_client c)) = (res, cl)" by fastforce
  have np: "res \<noteq> Panic" using src call unfolding snapshot_source_def by (metis fst_conv)
  show ?thesis
  proof (cases res)
    case (Err e)
    then show ?thesis
      using call r by (auto simp: cache_refresh_def cache_refresh_failed_def spec_refresh_def cache_repr_def split: option.splits)
  next
    case Panic
    then show ?thesis using np by simp
  next
    case (Ok view)
    obtain buf where buf: "length buf < 2 ^ 32" "cgroups_response_decode buf = Ok view"
      using src call Ok unfolding snapshot_source_def by (metis fst_conv)
    let ?n = "unat (crv_item_count view)"
    have col: "cache_collect view 0 ?n = Ok (map_option (map cache_item_of) (snapshot_items view 0 ?n))"
      by (rule cache_collect_ok [OF buf(2)])
    show ?thesis
    proof (cases "snapshot_items view 0 ?n")
      case None
      then show ?thesis
        using call r Ok col
        by (auto simp: cache_refresh_def cache_refresh_failed_def spec_refresh_def cache_repr_def split: option.splits)
    next
      case (Some ivs)
      let ?items = "map cache_item_of ivs"
      have n: "length ?items < 2 ^ 30"
        using length_snapshot_items [OF Some] decoded_item_count [OF buf(2,1)] by simp
      show ?thesis
      proof (cases "?items = []")
        case True
        then show ?thesis
          using call Ok col Some
          by (simp add: cache_refresh_def spec_refresh_def cache_repr_def cache_build_def Let_def)
      next
        case False
        obtain k T where "k < 32" "length ?items < 2 ^ k" "cache_build ?items = Some (Ok T)" "table_ok k ?items (length ?items) T"
          using cache_build_ok [OF False n] by blast
        then show ?thesis
          using call Ok col Some False
          by (auto simp: cache_refresh_def spec_refresh_def cache_repr_def Let_def)
      qed
    qed
  qed
qed

text \<open>A history of the cache: refreshes, each at some elapsed time, and closes.\<close>

datatype cache_op = Cache_refresh u64 | Cache_close

fun cache_run ::
  "('c \<Rightarrow> 'c) \<Rightarrow> ('c \<Rightarrow> cgroups_response_view result \<times> 'c) \<Rightarrow> ('c \<Rightarrow> 'c) \<Rightarrow> cache_op list \<Rightarrow> 'c cgroups_cache \<Rightarrow>
   'c cgroups_cache result option" where
  "cache_run rf call cl [] c = Some (Ok c)"
| "cache_run rf call cl (Cache_refresh ms # ops) c =
     (case cache_refresh rf call ms c of
        None \<Rightarrow> None
      | Some (Ok (_, c)) \<Rightarrow> cache_run rf call cl ops c
      | Some (Err e) \<Rightarrow> Some (Err e)
      | Some Panic \<Rightarrow> Some Panic)"
| "cache_run rf call cl (Cache_close # ops) c = cache_run rf call cl ops (cache_close cl c)"

fun spec_run ::
  "('c \<Rightarrow> 'c) \<Rightarrow> ('c \<Rightarrow> cgroups_response_view result \<times> 'c) \<Rightarrow> ('c \<Rightarrow> 'c) \<Rightarrow> cache_op list \<Rightarrow>
   'c \<times> cgroups_cache_item list option \<Rightarrow> cgroups_cache_item list option" where
  "spec_run rf call cl [] (client, spec) = spec"
| "spec_run rf call cl (Cache_refresh ms # ops) (client, spec) =
     (case call (rf client) of (r, client) \<Rightarrow> spec_run rf call cl ops (client, snd (spec_refresh r spec)))"
| "spec_run rf call cl (Cache_close # ops) (client, spec) = spec_run rf call cl ops (cl client, None)"

lemma cache_run_repr:
  assumes "snapshot_source call" "cache_repr c spec"
  shows "\<exists>c'. cache_run rf call cl ops c = Some (Ok c') \<and> cache_repr c' (spec_run rf call cl ops (cc_client c, spec))"
  using assms(2)
proof (induction ops arbitrary: c spec)
  case Nil
  then show ?case by simp
next
  case (Cons op ops)
  show ?case
  proof (cases op)
    case (Cache_refresh ms)
    obtain c' where c': "cache_refresh rf call ms c = Some (Ok (fst (spec_refresh (fst (call (rf (cc_client c)))) spec), c'))"
        "cache_repr c' (snd (spec_refresh (fst (call (rf (cc_client c)))) spec))" "cc_client c' = snd (call (rf (cc_client c)))"
      using cache_refresh_repr [OF assms(1) Cons.prems] by blast
    show ?thesis using Cons.IH [OF c'(2)] c'(1,3) Cache_refresh by (simp add: case_prod_unfold)
  next
    case Cache_close
    have "cache_repr (cache_close cl c) None" by (simp add: cache_repr_def cache_close_def)
    from Cons.IH [OF this] show ?thesis using Cache_close by (simp add: cache_close_def)
  qed
qed

text \<open>C8: the cache implements a search through the last good snapshot. After any history of refreshes and closes,
  with any outcome of the snapshot calls, the hash table has been built without a panic, every lookup
  returns (its probing loop ends), and its result is the first item of the last successfully read
  snapshot with that hash and name; a failed refresh changes nothing, and a cache that was never filled
  or was closed finds nothing.\<close>

theorem cache_refines_snapshot:
  assumes "snapshot_source call"
  shows "\<exists>c. cache_run rf call cl ops (cgroups_cache_new client) = Some (Ok c) \<and>
    (let spec = spec_run rf call cl ops (client, None) in
     cache_ready c = (spec \<noteq> None) \<and>
     (\<forall>h name. cache_lookup h name c =
        Some (Ok (Option.bind spec (find (\<lambda>item. cci_hash item = h \<and> cci_name item = name))))))"
proof -
  have "cache_repr (cgroups_cache_new client) None" by (simp add: cache_repr_def cgroups_cache_new_def)
  then obtain c where c: "cache_run rf call cl ops (cgroups_cache_new client) = Some (Ok c)"
      "cache_repr c (spec_run rf call cl ops (client, None))"
    using cache_run_repr [OF assms, of "cgroups_cache_new client" None rf cl ops] by (auto simp: cgroups_cache_new_def)
  have "cache_ready c = (spec_run rf call cl ops (client, None) \<noteq> None)"
    using c(2) by (auto simp: cache_repr_def cache_ready_def split: option.splits)
  then show ?thesis using c cache_lookup_repr [OF c(2)] by auto
qed

definition sample_call :: "nat \<Rightarrow> cgroups_response_view result \<times> nat" where
  "sample_call n = (if n = 0 then Ok (cgroups_view_of sample_snapshot) else Err Timeout, n + 1)"

lemma sample_call_source: "snapshot_source sample_call"
proof -
  obtain v where "cgroups_response_decode sample_snapshot = Ok v" using sample_snapshot_decodes by blast
  then have "cgroups_response_decode sample_snapshot = Ok (cgroups_view_of sample_snapshot)"
    by (auto simp: cgroups_response_decode_ok)
  moreover have "length sample_snapshot < 2 ^ 32" by (simp add: sample_snapshot_def sample_entry_def)
  ultimately show ?thesis by (auto simp: snapshot_source_def sample_call_def split: if_splits)
qed

lemma sample_call_spec:
  "spec_run (\<lambda>n. n) sample_call (\<lambda>n. n) [Cache_refresh 5, Cache_refresh 9] (0, None) = Some [cache_item_of (entry_view sample_entry)]"
proof -
  obtain v where v: "cgroups_response_decode sample_snapshot = Ok v" "cgroups_response_item v 0 = Ok (entry_view sample_entry)"
    using sample_snapshot_decodes by blast
  then have e: "v = cgroups_view_of sample_snapshot" by (simp add: cgroups_response_decode_ok)
  have "crv_item_count v = 1"
    by (simp add: e cgroups_view_of_def sample_snapshot_def cgroups_hdr_wire_def rd_append_right rd_here rd_append_left)
  then show ?thesis using v(2) by (simp add: sample_call_def spec_refresh_def e)
qed

theorem cache_refines_snapshot_witness:
  "\<exists>c item. cache_run (\<lambda>n. n) sample_call (\<lambda>n. n) [Cache_refresh 5, Cache_refresh 9] (cgroups_cache_new 0) = Some (Ok c) \<and>
     cache_lookup 7 [97, 98] c = Some (Ok (Some item)) \<and> cci_path item = [47] \<and> cache_lookup 7 [97] c = Some (Ok None)"
proof -
  let ?item = "cache_item_of (entry_view sample_entry)"
  have i: "cci_hash ?item = 7" "cci_name ?item = [97, 98]" "cci_path ?item = [47]"
    by (simp_all add: cache_item_of_def entry_view_def sample_entry_def utf8_first_def)
  obtain c where c: "cache_run (\<lambda>n. n) sample_call (\<lambda>n. n) [Cache_refresh 5, Cache_refresh 9] (cgroups_cache_new 0) = Some (Ok c)"
      "\<And>h name. cache_lookup h name c = Some (Ok (find (\<lambda>item. cci_hash item = h \<and> cci_name item = name) [?item]))"
    using cache_refines_snapshot [OF sample_call_source, of "\<lambda>n. n" "\<lambda>n. n" "[Cache_refresh 5, Cache_refresh 9]" 0] sample_call_spec
    by auto
  then show ?thesis using i by (intro exI [of _ c] exI [of _ ?item]) simp
qed

end
