(* ===== verification/Posix_IO.thy ===== *)
theory Posix_IO
  imports Envelope
begin

text \<open>
  Low-level socket I/O of the Unix transport (\<open>transport/posix.rs\<close>). The operating system is a parameter: a
  record of the calls the code makes, each a function on an abstract system state \<open>'os\<close>. Programs that use
  it thread that state; a wait loop that never ends has the value \<open>None\<close>.
\<close>

section \<open>Programs with a state\<close>

type_synonym ('s, 'e, 'a) io = "'s \<Rightarrow> (('e, 'a) outcome \<times> 's) option"

definition io_ret :: "'a \<Rightarrow> ('s, 'e, 'a) io" where
  "io_ret a s = Some (Ok a, s)"

definition io_err :: "'e \<Rightarrow> ('s, 'e, 'a) io" where
  "io_err e s = Some (Err e, s)"

definition io_lift :: "('e, 'a) outcome \<Rightarrow> ('s, 'e, 'a) io" where
  "io_lift r s = Some (r, s)"

definition io_bind :: "('s, 'e, 'a) io \<Rightarrow> ('a \<Rightarrow> ('s, 'e, 'b) io) \<Rightarrow> ('s, 'e, 'b) io" where
  "io_bind m f s =
     (case m s of
        None \<Rightarrow> None
      | Some (Ok a, s) \<Rightarrow> f a s
      | Some (Err e, s) \<Rightarrow> Some (Err e, s)
      | Some (Panic, s) \<Rightarrow> Some (Panic, s))"

text \<open>A call of the system, a change of the state, and a read of it.\<close>

definition io_call :: "('s \<Rightarrow> 'a \<times> 's) \<Rightarrow> ('s, 'e, 'a) io" where
  "io_call f s = (case f s of (a, s) \<Rightarrow> Some (Ok a, s))"

definition io_get :: "('s \<Rightarrow> 'a) \<Rightarrow> ('s, 'e, 'a) io" where
  "io_get f s = Some (Ok (f s), s)"

definition io_mod :: "('s \<Rightarrow> 's) \<Rightarrow> ('s, 'e, unit) io" where
  "io_mod f s = Some (Ok (), f s)"

text \<open>\<open>match m { Ok(v) => Ok(v), Err(e) => { h(e); Err(e) } }\<close> and \<open>map_err\<close>.\<close>

definition io_on_err :: "('s, 'e, 'a) io \<Rightarrow> ('e \<Rightarrow> ('s, 'e, 'a) io) \<Rightarrow> ('s, 'e, 'a) io" where
  "io_on_err m h s =
     (case m s of
        Some (Err e, s) \<Rightarrow> h e s
      | r \<Rightarrow> r)"

text \<open>A program on one component of a state.\<close>

definition io_snd :: "('t, 'e, 'a) io \<Rightarrow> ('s \<times> 't, 'e, 'a) io" where
  "io_snd m st = (case st of (s, t) \<Rightarrow> map_option (\<lambda>(r, t). (r, (s, t))) (m t))"

lemmas io_defs = io_ret_def io_err_def io_lift_def io_call_def io_get_def io_mod_def

lemma io_bind_cong [fundef_cong]:
  "m s = m' s' \<Longrightarrow> (\<And>a t. m' s' = Some (Ok a, t) \<Longrightarrow> f a t = f' a t) \<Longrightarrow> io_bind m f s = io_bind m' f' s'"
  by (auto simp: io_bind_def split: option.splits outcome.splits)

lemma io_bind_simps [simp]:
  "io_bind (io_ret a) f s = f a s" "io_bind (io_err e) f s = Some (Err e, s)"
  "io_bind (io_get g) f s = f (g s) s"
  "io_bind (io_lift (Ok a)) f s = f a s" "io_bind (io_lift (Err e)) f s = Some (Err e, s)" "io_bind (io_lift Panic) f s = Some (Panic, s)"
  by (simp_all add: io_bind_def io_defs)

lemma io_bind_mod [simp]: "io_bind (io_mod g) f s = f () (g s)"
  by (simp add: io_bind_def io_defs)

lemma io_bind_call: "g s = (a, t) \<Longrightarrow> io_bind (io_call g) f s = f a t"
  by (simp add: io_bind_def io_call_def)

lemma io_bind_Ok: "m s = Some (Ok a, t) \<Longrightarrow> io_bind m f s = f a t"
  by (simp add: io_bind_def)

lemma io_bind_Err: "m s = Some (Err e, t) \<Longrightarrow> io_bind m f s = Some (Err e, t)"
  by (simp add: io_bind_def)

lemma io_snd_simp [simp]: "io_snd m (s, t) = map_option (\<lambda>(r, t). (r, (s, t))) (m t)"
  by (simp add: io_snd_def)

lemma io_on_err_simps [simp]:
  "m s = Some (Ok a, t) \<Longrightarrow> io_on_err m h s = Some (Ok a, t)"
  "m s = Some (Err e, t) \<Longrightarrow> io_on_err m h s = h e t"
  by (simp_all add: io_on_err_def)

text \<open>\<open>io_post m s Q\<close>: if \<open>m\<close> returns when started in \<open>s\<close>, its result and final state satisfy \<open>Q\<close>. The rules compute it
  over the structure of a program.\<close>

definition io_post :: "('s, 'e, 'a) io \<Rightarrow> 's \<Rightarrow> (('e, 'a) outcome \<Rightarrow> 's \<Rightarrow> bool) \<Rightarrow> bool" where
  "io_post m s Q \<longleftrightarrow> (case m s of None \<Rightarrow> True | Some (r, t) \<Rightarrow> Q r t)"

named_theorems io_posts

lemma io_post_prim [io_posts]:
  "io_post (io_ret a) s Q \<longleftrightarrow> Q (Ok a) s" "io_post (io_err e) s Q \<longleftrightarrow> Q (Err e) s" "io_post (io_lift r) s Q \<longleftrightarrow> Q r s"
  by (simp_all add: io_post_def io_defs)

lemma io_post_get [io_posts]: "io_post (io_get f) s Q \<longleftrightarrow> Q (Ok (f s)) s"
  by (simp add: io_post_def io_defs)

lemma io_post_mod [io_posts]: "io_post (io_mod f) s Q \<longleftrightarrow> Q (Ok ()) (f s)"
  by (simp add: io_post_def io_defs)

lemma io_post_call [io_posts]: "io_post (io_call f) s Q \<longleftrightarrow> (case f s of (a, t) \<Rightarrow> Q (Ok a) t)"
  by (simp add: io_post_def io_defs split: prod.splits)

lemma io_post_bind [io_posts]:
  "io_post (io_bind m f) s Q \<longleftrightarrow>
     io_post m s (\<lambda>r t. case r of Ok a \<Rightarrow> io_post (f a) t Q | Err e \<Rightarrow> Q (Err e) t | Panic \<Rightarrow> Q Panic t)"
  by (auto simp: io_post_def io_bind_def split: option.splits outcome.splits)

lemma io_post_on_err [io_posts]:
  "io_post (io_on_err m h) s Q \<longleftrightarrow> io_post m s (\<lambda>r t. case r of Err e \<Rightarrow> io_post (h e) t Q | _ \<Rightarrow> Q r t)"
  by (auto simp: io_post_def io_on_err_def split: option.splits outcome.splits)

lemma io_post_snd [io_posts]: "io_post (io_snd m) st Q \<longleftrightarrow> io_post m (snd st) (\<lambda>r t. Q r (fst st, t))"
  by (auto simp: io_post_def io_snd_def split: option.splits prod.splits)

lemma io_post_if [io_posts]: "io_post (if b then m else m') s Q \<longleftrightarrow> (if b then io_post m s Q else io_post m' s Q)"
  by simp

lemma io_post_prod [io_posts]: "io_post (case p of (a, b) \<Rightarrow> f a b) s Q \<longleftrightarrow> (case p of (a, b) \<Rightarrow> io_post (f a b) s Q)"
  by (simp split: prod.split)

lemma io_post_mono: "io_post m s Q \<Longrightarrow> (\<And>r t. Q r t \<Longrightarrow> Q' r t) \<Longrightarrow> io_post m s Q'"
  by (auto simp: io_post_def split: option.splits)

lemma io_postD: "io_post m s Q \<Longrightarrow> m s = Some (r, t) \<Longrightarrow> Q r t"
  by (simp add: io_post_def)

text \<open>Programs that do not panic.\<close>

abbreviation no_panic_io :: "('s, 'e, 'a) io \<Rightarrow> 's \<Rightarrow> bool" where
  "no_panic_io m s \<equiv> io_post m s (\<lambda>r _. r \<noteq> Panic)"

lemma no_panic_bind: "no_panic_io m s \<Longrightarrow> (\<And>a t. no_panic_io (f a) t) \<Longrightarrow> no_panic_io (io_bind m f) s"
  unfolding io_post_bind by (rule io_post_mono) (auto split: outcome.splits)

lemma no_panic_on_err: "no_panic_io m s \<Longrightarrow> (\<And>e t. no_panic_io (h e) t) \<Longrightarrow> no_panic_io (io_on_err m h) s"
  unfolding io_post_on_err by (rule io_post_mono) (auto split: outcome.splits)

lemma no_panic_case_prod: "(\<And>a b. no_panic_io (f a b) s) \<Longrightarrow> no_panic_io (case p of (a, b) \<Rightarrow> f a b) s"
  by (cases p) simp

lemma no_panic_prims:
  "no_panic_io (io_ret a) s" "no_panic_io (io_err e) s" "no_panic_io (io_call g) s" "no_panic_io (io_get k) s"
  by (auto simp: io_posts split: prod.splits)

lemma no_panic_lift: "r \<noteq> Panic \<Longrightarrow> no_panic_io (io_lift r) s"
  by (simp add: io_posts)

lemma no_panic_mod: "no_panic_io (io_mod g) s"
  by (simp add: io_posts)

lemma no_panic_if: "(b \<Longrightarrow> no_panic_io m s) \<Longrightarrow> (\<not> b \<Longrightarrow> no_panic_io m' s) \<Longrightarrow> no_panic_io (if b then m else m') s"
  by simp

lemmas no_panic_intros = no_panic_bind no_panic_on_err no_panic_case_prod no_panic_prims no_panic_lift no_panic_mod no_panic_if

section \<open>The operating system\<close>

text \<open>Results of \<open>libc\<close> calls are signed; \<open>px_recv\<close> also yields the bytes the kernel wrote into the buffer. Instants
  are in nanoseconds. \<open>px_abort\<close> is the load of the caller's abort flag. File removal yields 0 or an errno.\<close>

record 'os posix =
  px_errno :: "'os \<Rightarrow> int"
  px_sendmsg :: "int \<Rightarrow> bytes list \<Rightarrow> 'os \<Rightarrow> int \<times> 'os"
  px_send :: "int \<Rightarrow> bytes \<Rightarrow> 'os \<Rightarrow> int \<times> 'os"
  px_recv :: "int \<Rightarrow> nat \<Rightarrow> 'os \<Rightarrow> (int \<times> bytes) \<times> 'os"
  px_poll :: "int \<Rightarrow> int \<Rightarrow> 'os \<Rightarrow> int \<times> 'os"
  px_now :: "'os \<Rightarrow> nat \<times> 'os"
  px_abort :: "'os \<Rightarrow> bool \<times> 'os"
  px_sndbuf :: "int \<Rightarrow> 'os \<Rightarrow> (int \<times> int) \<times> 'os"
  px_socket :: "'os \<Rightarrow> int \<times> 'os"
  px_connect :: "int \<Rightarrow> bytes \<Rightarrow> 'os \<Rightarrow> int \<times> 'os"
  px_bind :: "int \<Rightarrow> bytes \<Rightarrow> 'os \<Rightarrow> int \<times> 'os"
  px_listen :: "int \<Rightarrow> int \<Rightarrow> 'os \<Rightarrow> int \<times> 'os"
  px_accept :: "int \<Rightarrow> 'os \<Rightarrow> int \<times> 'os"
  px_close :: "int \<Rightarrow> 'os \<Rightarrow> 'os"
  px_exists :: "bytes \<Rightarrow> 'os \<Rightarrow> bool \<times> 'os"
  px_remove_file :: "bytes \<Rightarrow> 'os \<Rightarrow> int \<times> 'os"
  px_remove_dir :: "bytes \<Rightarrow> 'os \<Rightarrow> int \<times> 'os"

definition ENOENT :: int where "ENOENT = 2"
definition EINTR :: int where "EINTR = 4"
definition EISDIR :: int where "EISDIR = 21"

text \<open>Transport errors; the texts of the diagnostic variants are left out.\<close>

datatype uds_error =
    Uds_PathTooLong | Uds_Socket int | Uds_Connect int | Uds_Accept int | Uds_Send int | Uds_Recv int
  | Uds_Timeout | Uds_Aborted | Uds_Handshake | Uds_AuthFailed | Uds_NoProfile | Uds_Incompatible
  | Uds_Protocol | Uds_AddrInUse | Uds_Chunk | Uds_Alloc | Uds_LimitExceeded | Uds_BadParam
  | Uds_DuplicateMsgId u64 | Uds_UnknownMsgId u64

type_synonym ('os, 'a) uds_io = "('os, uds_error, 'a) io"

section \<open>Sending and receiving packets\<close>

definition raw_send_iov :: "'os posix \<Rightarrow> int \<Rightarrow> bytes \<Rightarrow> bytes \<Rightarrow> ('os, unit) uds_io" where
  "raw_send_iov px fd hdr payload =
     (let total = length hdr + length payload;
          iov = (if payload = [] then [hdr] else [hdr, payload]) in
      io_bind (io_call (px_sendmsg px fd iov)) (\<lambda>n.
      if n < 0 \<or> nat n \<noteq> total then io_bind (io_get (px_errno px)) (\<lambda>e. io_err (Uds_Send e))
      else io_ret ()))"

definition raw_send :: "'os posix \<Rightarrow> int \<Rightarrow> bytes \<Rightarrow> ('os, unit) uds_io" where
  "raw_send px fd data =
     io_bind (io_call (px_send px fd data)) (\<lambda>n.
     if n < 0 \<or> nat n \<noteq> length data then io_bind (io_get (px_errno px)) (\<lambda>e. io_err (Uds_Send e))
     else io_ret ())"

text \<open>The value of \<open>raw_recv\<close> is the number of bytes and the buffer after the call.\<close>

definition raw_recv :: "'os posix \<Rightarrow> int \<Rightarrow> bytes \<Rightarrow> ('os, usize \<times> bytes) uds_io" where
  "raw_recv px fd buf =
     io_bind (io_call (px_recv px fd (length buf))) (\<lambda>(n, data).
     if n \<le> 0 then io_bind (io_get (px_errno px)) (\<lambda>e. io_err (Uds_Recv (if n = 0 then 0 else e)))
     else io_ret (nat n, upd buf 0 data))"

section \<open>Waiting with a deadline and an abort flag\<close>

record receive_wait =
  rw_deadline :: "nat option"
  rw_abort :: bool

definition receive_wait_new :: "'os posix \<Rightarrow> u32 \<Rightarrow> bool \<Rightarrow> ('os, receive_wait) uds_io" where
  "receive_wait_new px timeout_ms abort =
     (if timeout_ms \<noteq> 0 then
        io_bind (io_call (px_now px)) (\<lambda>now.
        io_ret \<lparr>rw_deadline = Some (now + unat timeout_ms * 1000000), rw_abort = abort\<rparr>)
      else io_ret \<lparr>rw_deadline = None, rw_abort = abort\<rparr>)"

definition receive_wait_aborted :: "'os posix \<Rightarrow> receive_wait \<Rightarrow> ('os, bool) uds_io" where
  "receive_wait_aborted px wait = (if rw_abort wait then io_call (px_abort px) else io_ret False)"

definition I32_MAX :: nat where "I32_MAX = 2147483647"

definition poll_timeout_ms :: "'os posix \<Rightarrow> receive_wait \<Rightarrow> ('os, int) uds_io" where
  "poll_timeout_ms px wait =
     io_bind (receive_wait_aborted px wait) (\<lambda>aborted.
     if aborted then io_err Uds_Aborted
     else
       io_bind
         (case rw_deadline wait of
            Some deadline \<Rightarrow>
              io_bind (io_call (px_now px)) (\<lambda>now.
              if now \<ge> deadline then io_err Uds_Timeout
              else io_ret (Some (min ((deadline - now) div 1000000) I32_MAX)))
          | None \<Rightarrow> io_ret None) (\<lambda>wait_ms.
       let wait_ms = (if rw_abort wait then Some (case wait_ms of None \<Rightarrow> 100 | Some ms \<Rightarrow> min ms 100) else wait_ms) in
       io_ret (case wait_ms of None \<Rightarrow> -1 | Some ms \<Rightarrow> int ms)))"

text \<open>The state is written out, since the loop is a partial function of it.\<close>

partial_function (option) wait_fd_readable :: "'os posix \<Rightarrow> int \<Rightarrow> receive_wait \<Rightarrow> 'os \<Rightarrow> ((uds_error, unit) outcome \<times> 'os) option" where
  "wait_fd_readable px fd wait os =
     (case poll_timeout_ms px wait os of
        None \<Rightarrow> None
      | Some (Err e, os) \<Rightarrow> Some (Err e, os)
      | Some (Panic, os) \<Rightarrow> Some (Panic, os)
      | Some (Ok timeout, os) \<Rightarrow>
          (case px_poll px fd timeout os of (rc, os) \<Rightarrow>
             if rc < 0 then
               if px_errno px os = EINTR then wait_fd_readable px fd wait os
               else Some (Err (Uds_Recv (px_errno px os)), os)
             else
               io_bind (receive_wait_aborted px wait) (\<lambda>aborted.
               if aborted then io_err Uds_Aborted
               else if rc = 0 then io_err Uds_Timeout
               else io_ret ()) os))"

definition raw_recv_with_wait :: "'os posix \<Rightarrow> int \<Rightarrow> bytes \<Rightarrow> receive_wait \<Rightarrow> ('os, usize \<times> bytes) uds_io" where
  "raw_recv_with_wait px fd buf wait = io_bind (wait_fd_readable px fd wait) (\<lambda>_. raw_recv px fd buf)"

definition raw_recv_control :: "'os posix \<Rightarrow> int \<Rightarrow> bytes \<Rightarrow> bool \<Rightarrow> receive_wait \<Rightarrow> ('os, usize \<times> bytes) uds_io" where
  "raw_recv_control px fd buf controlled wait =
     (if controlled then raw_recv_with_wait px fd buf wait else raw_recv px fd buf)"

section \<open>What a receive yields\<close>

text \<open>The documented contract of \<open>recv\<close>: it writes as many bytes as it reports, at most the length it was given.\<close>

definition recv_bounded :: "'os posix \<Rightarrow> bool" where
  "recv_bounded px \<longleftrightarrow>
     (\<forall>fd len os. case px_recv px fd len os of ((n, data), os') \<Rightarrow> n > 0 \<longrightarrow> nat n \<le> len \<and> length data = nat n)"

definition packet_post :: "bytes \<Rightarrow> (uds_error, usize \<times> bytes) outcome \<Rightarrow> bool" where
  "packet_post buf r \<longleftrightarrow>
     (case r of Ok (n, buf') \<Rightarrow> 0 < n \<and> n \<le> length buf \<and> length buf' = length buf | Err e \<Rightarrow> True | Panic \<Rightarrow> False)"

lemma raw_recv_post:
  assumes "recv_bounded px"
  shows "io_post (raw_recv px fd buf) os (\<lambda>r _. packet_post buf r)"
proof -
  obtain n data os' where r: "px_recv px fd (length buf) os = ((n, data), os')" by (metis surj_pair)
  then have "n > 0 \<longrightarrow> nat n \<le> length buf \<and> length data = nat n"
    using assms [unfolded recv_bounded_def, THEN spec, of fd, THEN spec, of "length buf", THEN spec, of os] by simp
  then show ?thesis by (auto simp: raw_recv_def io_posts r packet_post_def)
qed

text \<open>After a receive, the packet is inside the buffer.\<close>

lemma no_panic_recv:
  assumes "recv_bounded px"
    and "\<And>n buf' t. n \<le> length buf' \<Longrightarrow> no_panic_io (f (n, buf')) t"
  shows "no_panic_io (io_bind (raw_recv px fd buf) f) os"
  unfolding io_post_bind
proof (rule io_post_mono [OF raw_recv_post [OF assms(1)]])
  fix r t assume "packet_post buf r"
  then show "case r of Ok a \<Rightarrow> no_panic_io (f a) t | Err e \<Rightarrow> Err e \<noteq> Panic | Panic \<Rightarrow> Panic \<noteq> Panic"
    using assms(2) by (auto simp: packet_post_def split: outcome.splits)
qed

lemma receive_wait_aborted_no_panic: "io_post (receive_wait_aborted px wait) os (\<lambda>r _. r \<noteq> Panic)"
  by (simp add: receive_wait_aborted_def io_posts split: prod.splits)

lemma poll_timeout_ms_no_panic: "io_post (poll_timeout_ms px wait) os (\<lambda>r _. r \<noteq> Panic)"
  by (auto simp: poll_timeout_ms_def receive_wait_aborted_def io_posts Let_def split: prod.splits option.splits)

lemma wait_fd_readable_no_panic: "fst y \<noteq> Panic" if "wait_fd_readable px fd wait os = Some y"
proof (rule wait_fd_readable.raw_induct [where P = "\<lambda>px fd wait os y. fst y \<noteq> Panic", OF _ that], goal_cases)
  case (1 f px fd wait os y)
  show ?case
    using 1(2) poll_timeout_ms_no_panic [of px wait os] 1(1)
    by (auto simp: io_post_def receive_wait_aborted_def io_bind_def io_defs split: option.splits outcome.splits prod.splits if_splits)
qed

lemma raw_recv_control_post:
  assumes "recv_bounded px"
  shows "io_post (raw_recv_control px fd buf controlled wait) os (\<lambda>r _. packet_post buf r)"
proof -
  have "io_post (wait_fd_readable px fd wait) os (\<lambda>r _. r \<noteq> Panic)"
    using wait_fd_readable_no_panic [of px fd wait os] by (auto simp: io_post_def split: option.splits)
  then have "io_post (raw_recv_with_wait px fd buf wait) os (\<lambda>r _. packet_post buf r)"
    unfolding raw_recv_with_wait_def io_post_bind
    by (rule io_post_mono) (auto simp: raw_recv_post [OF assms] packet_post_def [of _ "Err _"] split: outcome.splits)
  then show ?thesis using raw_recv_post [OF assms] by (simp add: raw_recv_control_def)
qed

section \<open>A concrete system\<close>

text \<open>A system with one socket, connected to itself: what is sent waits to be received. It shows that the
  assumptions made of the operating system can hold.\<close>

definition loop_px :: "bytes list posix" where
  "loop_px = \<lparr>px_errno = (\<lambda>q. 0),
     px_sendmsg = (\<lambda>fd iov q. (int (length (concat iov)), q @ [concat iov])),
     px_send = (\<lambda>fd data q. (int (length data), q @ [data])),
     px_recv = (\<lambda>fd len q. case q of [] \<Rightarrow> ((0, []), q) | p # ps \<Rightarrow> ((int (min len (length p)), take len p), ps)),
     px_poll = (\<lambda>fd timeout q. (if q = [] then 0 else 1, q)),
     px_now = (\<lambda>q. (0, q)), px_abort = (\<lambda>q. (False, q)),
     px_sndbuf = (\<lambda>fd q. ((0, 212992), q)), px_socket = (\<lambda>q. (3, q)),
     px_connect = (\<lambda>fd path q. (0, q)), px_bind = (\<lambda>fd path q. (0, q)), px_listen = (\<lambda>fd backlog q. (0, q)),
     px_accept = (\<lambda>fd q. (4, q)), px_close = (\<lambda>fd q. q), px_exists = (\<lambda>path q. (False, q)),
     px_remove_file = (\<lambda>path q. (0, q)), px_remove_dir = (\<lambda>path q. (0, q))\<rparr>"

lemma loop_px_recv_bounded: "recv_bounded loop_px"
  by (auto simp: recv_bounded_def loop_px_def split: list.splits prod.splits)

text \<open>C38: A wait with an abort flag polls in slices of 100 ms, and a slice without data already ends it with \<open>Timeout\<close>,
  however far the deadline is.\<close>

theorem wait_slice_timeout:
  assumes "rw_abort wait" "rw_deadline wait = Some deadline" "now + 100000000 \<le> deadline"
    and "px_abort px os = (False, os1)" "px_now px os1 = (now, os2)"
    and "px_poll px fd 100 os2 = (0, os3)" "px_abort px os3 = (False, os4)"
  shows "wait_fd_readable px fd wait os = Some (Err Uds_Timeout, os4)"
proof -
  have "100 \<le> (deadline - now) div 1000000" using assms(3) by (simp add: less_eq_div_iff_mult_less_eq)
  then have "poll_timeout_ms px wait os = Some (Ok 100, os2)"
    using assms(1-5) by (simp add: poll_timeout_ms_def receive_wait_aborted_def io_bind_call io_bind_def io_call_def io_ret_def I32_MAX_def min_def)
  then show ?thesis
    using assms(1,6,7) by (subst wait_fd_readable.simps) (simp add: receive_wait_aborted_def io_bind_call [where g = "px_abort px", OF assms(7)] io_err_def)
qed

theorem wait_slice_timeout_witness:
  "wait_fd_readable loop_px 4 \<lparr>rw_deadline = Some 30000000000, rw_abort = True\<rparr> [] = Some (Err Uds_Timeout, [])"
  by (rule wait_slice_timeout [where deadline = 30000000000 and now = 0]) (simp_all add: loop_px_def)

end
