(* ===== verification/Uds_Session.thy ===== *)
theory Uds_Session
  imports Posix_IO Batch
begin

text \<open>
  A connected Unix SEQPACKET session (\<open>transport/posix.rs\<close>, \<open>UdsSession\<close>): directional limits, the in-flight
  message ids of a client, and \<open>send\<close> and \<open>receive\<close>, which split a message that does not fit a packet into
  chunks and put it together again. Session operations run on the session and the system state.
\<close>

section \<open>Configuration and session state\<close>

definition DEFAULT_BATCH_ITEMS :: u32 where "DEFAULT_BATCH_ITEMS = 1"
definition DEFAULT_PACKET_SIZE_FALLBACK :: u32 where "DEFAULT_PACKET_SIZE_FALLBACK = 65536"
definition HELLO_PAYLOAD_SIZE :: usize where "HELLO_PAYLOAD_SIZE = 44"
definition HELLO_ACK_PAYLOAD_SIZE :: usize where "HELLO_ACK_PAYLOAD_SIZE = 48"
definition DEFAULT_BACKLOG :: int where "DEFAULT_BACKLOG = 16"

datatype role = Role_Client | Role_Server

record uds_session =
  us_fd :: int
  us_role :: role
  us_max_request_payload_bytes :: u32
  us_max_request_batch_items :: u32
  us_max_response_payload_bytes :: u32
  us_max_response_batch_items :: u32
  us_packet_size :: u32
  us_selected_profile :: u32
  us_session_id :: u64
  us_recv_buf :: bytes
  us_pkt_buf :: bytes
  us_inflight_ids :: "u64 set"

type_synonym ('os, 'a) session_io = "(uds_session \<times> 'os, uds_error, 'a) io"

definition fail_all_inflight :: "uds_session \<Rightarrow> uds_session" where
  "fail_all_inflight s = (if us_role s = Role_Client then s\<lparr>us_inflight_ids := {}\<rparr> else s)"

definition received_payload :: "uds_session \<Rightarrow> usize \<Rightarrow> ('e, bytes) outcome" where
  "received_payload s len = slice_rng (us_recv_buf s) 0 len"

abbreviation on_session :: "(uds_session \<Rightarrow> uds_session) \<Rightarrow> ('os, unit) session_io" where
  "on_session f \<equiv> io_mod (\<lambda>(s, os). (f s, os))"

abbreviation of_session :: "(uds_session \<Rightarrow> 'a) \<Rightarrow> ('os, 'a) session_io" where
  "of_session f \<equiv> io_get (\<lambda>(s, os). f s)"

section \<open>Send\<close>

definition encode_packet_header :: "header \<Rightarrow> ('e, bytes) outcome" where
  "encode_packet_header hdr = rbind (header_encode hdr (replicate HEADER_SIZE 0)) (\<lambda>(_, hdr_buf). Ok hdr_buf)"

definition U32_MAX :: nat where "U32_MAX = 4294967295"

text \<open>The loop over the continuation chunks; \<open>left\<close> is the number of chunks still to send.\<close>

fun send_chunks :: "'os posix \<Rightarrow> int \<Rightarrow> u64 \<Rightarrow> usize \<Rightarrow> u32 \<Rightarrow> usize \<Rightarrow> bytes \<Rightarrow> usize \<Rightarrow> u32 \<Rightarrow> nat \<Rightarrow> ('os, unit) uds_io" where
  "send_chunks px fd message_id total_msg chunk_count chunk_payload_budget payload offset ci 0 = io_ret ()"
| "send_chunks px fd message_id total_msg chunk_count chunk_payload_budget payload offset ci (Suc left) =
     (let remaining = usize_sub (length payload) offset;
          this_chunk = min remaining chunk_payload_budget;
          chk = \<lparr>chk_magic = MAGIC_CHUNK, chk_version = VERSION, chk_flags = 0, chk_message_id = message_id,
                 chk_total_message_len = word_of_nat total_msg, chk_chunk_index = ci, chk_chunk_count = chunk_count,
                 chk_chunk_payload_len = word_of_nat this_chunk\<rparr> in
      io_bind (io_lift (chunk_header_encode chk (replicate HEADER_SIZE 0))) (\<lambda>(_, chk_buf).
      io_bind (io_lift (slice_rng payload offset (offset + this_chunk))) (\<lambda>part.
      io_bind (raw_send_iov px fd chk_buf part) (\<lambda>_.
      send_chunks px fd message_id total_msg chunk_count chunk_payload_budget payload (offset + this_chunk) (ci + 1) left))))"

definition send_inner :: "'os posix \<Rightarrow> uds_session \<Rightarrow> header \<Rightarrow> bytes \<Rightarrow> ('os, unit) uds_io" where
  "send_inner px s hdr payload =
     (let total_msg = HEADER_SIZE + length payload in
      if total_msg > U32_MAX then io_err Uds_BadParam
      else if total_msg \<le> unat (us_packet_size s) then
        io_bind (io_lift (encode_packet_header hdr)) (\<lambda>hdr_buf. raw_send_iov px (us_fd s) hdr_buf payload)
      else
        let chunk_payload_budget = usize_sub (unat (us_packet_size s)) HEADER_SIZE in
        if chunk_payload_budget = 0 then io_err Uds_BadParam
        else
          let first_chunk_payload = min (length payload) chunk_payload_budget;
              remaining_after_first = length payload - first_chunk_payload;
              continuation_chunks =
                (if remaining_after_first > 0 then 1 + (remaining_after_first - 1) div chunk_payload_budget else 0);
              chunk_count = 1 + word_of_nat continuation_chunks :: u32 in
          io_bind (io_lift (encode_packet_header hdr)) (\<lambda>hdr_buf.
          io_bind (io_lift (slice_rng payload 0 first_chunk_payload)) (\<lambda>part.
          io_bind (raw_send_iov px (us_fd s) hdr_buf part) (\<lambda>_.
          send_chunks px (us_fd s) (hdr_message_id hdr) total_msg chunk_count chunk_payload_budget payload
            first_chunk_payload 1 (unat chunk_count - 1)))))"

text \<open>\<open>send\<close> fills the envelope fields of the caller's header; the header it leaves behind is its value.\<close>

definition session_limits :: "uds_session \<Rightarrow> u32 \<times> u32" where
  "session_limits s =
     (if us_role s = Role_Client then (us_max_request_payload_bytes s, us_max_request_batch_items s)
      else (us_max_response_payload_bytes s, us_max_response_batch_items s))"

definition fill_envelope :: "header \<Rightarrow> bytes \<Rightarrow> header" where
  "fill_envelope hdr payload =
     hdr\<lparr>hdr_magic := MAGIC_MSG, hdr_version := VERSION, hdr_header_len := HEADER_LEN,
        hdr_payload_len := word_of_nat (length payload)\<rparr>"

definition uds_send :: "'os posix \<Rightarrow> header \<Rightarrow> bytes \<Rightarrow> ('os, header) session_io" where
  "uds_send px hdr payload =
     io_bind (of_session (\<lambda>s. s)) (\<lambda>s.
     if us_fd s < 0 then io_err Uds_BadParam
     else
       case session_limits s of (max_payload, max_items) \<Rightarrow>
       if length payload > unat max_payload \<or> length payload > U32_MAX - HEADER_SIZE then io_err Uds_LimitExceeded
       else if hdr_item_count hdr > max_items then io_err Uds_LimitExceeded
       else
         let tracked = (us_role s = Role_Client \<and> hdr_kind hdr = KIND_REQUEST); msg_id = hdr_message_id hdr in
         if tracked \<and> msg_id \<in> us_inflight_ids s then io_err (Uds_DuplicateMsgId msg_id)
         else
           io_bind (on_session (\<lambda>s. if tracked then s\<lparr>us_inflight_ids := insert msg_id (us_inflight_ids s)\<rparr> else s)) (\<lambda>_.
           let hdr = fill_envelope hdr payload in
           io_on_err
             (io_bind (io_snd (send_inner px s hdr payload)) (\<lambda>_. io_ret hdr))
             (\<lambda>err.
                io_bind (on_session (\<lambda>s.
                  if tracked then
                    case err of
                      Uds_Send _ \<Rightarrow> fail_all_inflight s
                    | _ \<Rightarrow> s\<lparr>us_inflight_ids := us_inflight_ids s - {msg_id}\<rparr>
                  else s)) (\<lambda>_.
                io_err err))))"

section \<open>Receive\<close>

definition validate_batch :: "header \<Rightarrow> bytes \<Rightarrow> (uds_error, unit) outcome" where
  "validate_batch hdr payload =
     (if hdr_flags hdr AND FLAG_BATCH \<noteq> 0 \<and> hdr_item_count hdr > 1 then
        let dir_bytes = usize_wrap (unat (hdr_item_count hdr) * 8); dir_aligned = align8 dir_bytes in
        if length payload < dir_aligned then Err Uds_Protocol
        else
          rbind (slice_rng payload 0 dir_bytes) (\<lambda>dir.
          map_err (\<lambda>_. Uds_Protocol)
            (batch_dir_validate dir (hdr_item_count hdr) (word_of_nat (length payload - dir_aligned))))
      else Ok ())"

lemma chunk_header_decode_progress: "chunk_header_decode buf = Ok chk \<Longrightarrow> chk_chunk_payload_len chk \<noteq> 0"
  by (simp add: chk.decode_iff chunk_header_valid_def)

text \<open>The loop that reads continuation chunks until the payload is complete. Every accepted chunk carries at least
  one byte, so the loop ends.\<close>

definition check_chunk :: "header \<Rightarrow> u32 \<Rightarrow> u32 \<Rightarrow> usize \<Rightarrow> usize \<Rightarrow> usize \<Rightarrow> chunk_header \<Rightarrow> (uds_error, usize) outcome" where
  "check_chunk hdr ci expected_chunk_count total_msg assembled cn chk =
     (if chk_message_id chk \<noteq> hdr_message_id hdr then Err Uds_Chunk
      else if chk_chunk_index chk \<noteq> ci then Err Uds_Chunk
      else if chk_chunk_count chk \<noteq> expected_chunk_count then Err Uds_Chunk
      else if chk_total_message_len chk \<noteq> word_of_nat total_msg then Err Uds_Chunk
      else
        let chunk_data = cn - HEADER_SIZE in
        if chunk_data \<noteq> unat (chk_chunk_payload_len chk) then Err Uds_Chunk
        else if assembled + chunk_data > unat (hdr_payload_len hdr) then Err Uds_Chunk
        else Ok chunk_data)"

lemma check_chunk_progress:
  assumes "map_err g (chunk_header_decode pkt) = Ok chk" "check_chunk hdr ci ecc total_msg assembled cn chk = Ok d"
  shows "0 < d \<and> assembled + d \<le> unat (hdr_payload_len hdr)"
proof -
  have "chk_chunk_payload_len chk \<noteq> 0" using assms(1) by (auto simp: map_err_eq_Ok dest: chunk_header_decode_progress)
  then have "unat (chk_chunk_payload_len chk) \<noteq> 0" by (simp add: unat_eq_0)
  then show ?thesis using assms(2) by (auto simp: check_chunk_def Let_def split: if_splits)
qed

function receive_chunks ::
  "'os posix \<Rightarrow> header \<Rightarrow> u32 \<Rightarrow> usize \<Rightarrow> bool \<Rightarrow> receive_wait \<Rightarrow> u32 \<Rightarrow> usize \<Rightarrow> uds_session \<times> 'os \<Rightarrow>
   ((uds_error, unit) outcome \<times> (uds_session \<times> 'os)) option" where
  "receive_chunks px hdr expected_chunk_count total_msg controlled wait ci assembled st =
     (if \<not> assembled < unat (hdr_payload_len hdr) then io_ret () st
      else
        io_bind (of_session (\<lambda>s. s)) (\<lambda>s.
        io_bind (io_on_err (io_snd (raw_recv_control px (us_fd s) (us_pkt_buf s) controlled wait))
                   (\<lambda>err. io_bind (on_session fail_all_inflight) (\<lambda>_. io_err err))) (\<lambda>received.
        io_bind (on_session (\<lambda>s. s\<lparr>us_pkt_buf := snd received\<rparr>)) (\<lambda>_.
        io_bind (io_lift (if fst received < HEADER_SIZE then Err Uds_Chunk else Ok ())) (\<lambda>_.
          io_bind (io_lift (slice_rng (snd received) 0 (fst received))) (\<lambda>pkt.
          io_bind (io_lift (map_err (\<lambda>_. Uds_Chunk) (chunk_header_decode pkt))) (\<lambda>chk.
          io_bind (io_lift (check_chunk hdr ci expected_chunk_count total_msg assembled (fst received) chk)) (\<lambda>chunk_data.
          io_bind (io_lift (slice_rng (snd received) HEADER_SIZE (HEADER_SIZE + chunk_data))) (\<lambda>part.
          io_bind (of_session us_recv_buf) (\<lambda>recv_buf.
          io_bind (io_lift (copy_from_slice recv_buf assembled (assembled + chunk_data) part)) (\<lambda>recv_buf.
          io_bind (on_session (\<lambda>s. s\<lparr>us_recv_buf := recv_buf\<rparr>)) (\<lambda>_.
          receive_chunks px hdr expected_chunk_count total_msg controlled wait (ci + 1) (assembled + chunk_data)))))))))))) st)"
  by pat_completeness auto
termination
proof (relation "measure (\<lambda>(px, hdr, ecc, total_msg, controlled, wait, ci, assembled, st). unat (hdr_payload_len hdr) - assembled)",
    goal_cases)
  case 1
  then show ?case by simp
next
  case prems: (2 px hdr ecc total_msg controlled wait ci assembled st)
  then show ?case using check_chunk_progress by (fastforce simp: io_defs)
qed

declare receive_chunks.simps [simp del]

text \<open>The value: the header, the payload, and whether the payload is in the session's receive buffer; the caller's
  buffer after the call comes with it.\<close>

record received =
  rcv_hdr :: header
  rcv_payload :: bytes
  rcv_in_session :: bool
  rcv_buf :: bytes

text \<open>The checks on a received header; a response's id leaves the in-flight set with \<open>track_received\<close>.\<close>

definition track_received :: "uds_session \<Rightarrow> header \<Rightarrow> uds_session" where
  "track_received s hdr =
     (if us_role s = Role_Client \<and> hdr_kind hdr = KIND_RESPONSE
      then s\<lparr>us_inflight_ids := us_inflight_ids s - {hdr_message_id hdr}\<rparr> else s)"

definition check_received :: "uds_session \<Rightarrow> header \<Rightarrow> (uds_error, unit) outcome" where
  "check_received s hdr =
     (let max_payload = (if us_role s = Role_Server then us_max_request_payload_bytes s else us_max_response_payload_bytes s);
          max_batch = (if us_role s = Role_Server then us_max_request_batch_items s else us_max_response_batch_items s) in
      if hdr_payload_len hdr > max_payload then Err Uds_LimitExceeded
      else if hdr_item_count hdr > max_batch then Err Uds_LimitExceeded
      else if us_role s = Role_Client \<and> hdr_kind hdr = KIND_RESPONSE \<and> hdr_message_id hdr \<notin> us_inflight_ids s
      then Err (Uds_UnknownMsgId (hdr_message_id hdr))
      else Ok ())"

definition grow :: "bytes \<Rightarrow> usize \<Rightarrow> bytes" where
  "grow buf n = (if length buf < n then buf @ replicate (n - length buf) 0 else buf)"

lemma length_grow [simp]: "length (grow buf n) = max n (length buf)"
  by (simp add: grow_def)

text \<open>The chunked branch: the first packet brought \<open>n\<close> bytes into \<open>buf\<close>.\<close>

definition receive_chunked ::
  "'os posix \<Rightarrow> bytes \<Rightarrow> usize \<Rightarrow> header \<Rightarrow> bool \<Rightarrow> receive_wait \<Rightarrow> ('os, received) session_io" where
  "receive_chunked px buf n hdr controlled wait =
     (let first_payload_bytes = n - HEADER_SIZE; needed = unat (hdr_payload_len hdr) in
      io_bind (on_session (\<lambda>s. s\<lparr>us_recv_buf := grow (us_recv_buf s) needed\<rparr>)) (\<lambda>_.
      io_bind (of_session (\<lambda>s. s)) (\<lambda>s.
      io_bind (io_lift (slice_rng buf HEADER_SIZE (HEADER_SIZE + first_payload_bytes))) (\<lambda>part.
      io_bind (io_lift (copy_from_slice (us_recv_buf s) 0 first_payload_bytes part)) (\<lambda>recv_buf.
      let chunk_payload_budget = usize_sub (unat (us_packet_size s)) HEADER_SIZE;
          remaining_after_first = unat (hdr_payload_len hdr) - first_payload_bytes;
          expected_continuations =
            (if remaining_after_first > 0 \<and> chunk_payload_budget > 0
             then 1 + (remaining_after_first - 1) div chunk_payload_budget else 0);
          expected_chunk_count = 1 + word_of_nat expected_continuations :: u32 in
      io_bind (on_session (\<lambda>s. s\<lparr>us_recv_buf := recv_buf, us_pkt_buf := grow (us_pkt_buf s) (unat (us_packet_size s))\<rparr>)) (\<lambda>_.
      io_bind (receive_chunks px hdr expected_chunk_count (HEADER_SIZE + needed) controlled wait 1 first_payload_bytes) (\<lambda>_.
      io_bind (of_session us_recv_buf) (\<lambda>recv_buf.
      io_bind (io_lift (slice_rng recv_buf 0 needed)) (\<lambda>payload.
      io_bind (io_lift (validate_batch hdr payload)) (\<lambda>_.
      io_ret \<lparr>rcv_hdr = hdr, rcv_payload = payload, rcv_in_session = True, rcv_buf = buf\<rparr>))))))))))"

text \<open>What follows the first packet, once its header is accepted.\<close>

definition receive_body ::
  "'os posix \<Rightarrow> bytes \<Rightarrow> usize \<Rightarrow> header \<Rightarrow> bool \<Rightarrow> receive_wait \<Rightarrow> ('os, received) session_io" where
  "receive_body px buf n hdr controlled wait =
     (let total_msg = HEADER_SIZE + unat (hdr_payload_len hdr) in
      if total_msg > U32_MAX then io_err Uds_Protocol
      else if n > total_msg then io_err Uds_Protocol
      else if n = total_msg then
        io_bind (io_lift (slice_rng buf HEADER_SIZE (HEADER_SIZE + unat (hdr_payload_len hdr)))) (\<lambda>payload.
        io_bind (io_lift (validate_batch hdr payload)) (\<lambda>_.
        io_ret \<lparr>rcv_hdr = hdr, rcv_payload = payload, rcv_in_session = False, rcv_buf = buf\<rparr>))
      else receive_chunked px buf n hdr controlled wait)"

definition receive_message :: "'os posix \<Rightarrow> bytes \<Rightarrow> bool \<Rightarrow> receive_wait \<Rightarrow> ('os, received) session_io" where
  "receive_message px buf controlled wait =
     io_bind (of_session (\<lambda>s. s)) (\<lambda>s.
     io_bind (io_on_err (io_snd (raw_recv_control px (us_fd s) buf controlled wait))
                (\<lambda>err. io_bind (on_session fail_all_inflight) (\<lambda>_. io_err err))) (\<lambda>(n, buf).
     if n < HEADER_SIZE then io_err Uds_Protocol
     else
       io_bind (io_lift (slice_rng buf 0 n)) (\<lambda>pkt.
       io_bind (io_lift (map_err (\<lambda>_. Uds_Protocol) (header_decode pkt))) (\<lambda>hdr.
       io_bind (io_lift (check_received s hdr)) (\<lambda>_.
       io_bind (on_session (\<lambda>s. track_received s hdr)) (\<lambda>_.
       receive_body px buf n hdr controlled wait))))))"

definition uds_receive_with_control :: "'os posix \<Rightarrow> bytes \<Rightarrow> u32 \<Rightarrow> bool \<Rightarrow> ('os, received) session_io" where
  "uds_receive_with_control px buf timeout_ms abort =
     io_bind (of_session us_fd) (\<lambda>fd.
     if fd < 0 then io_err Uds_BadParam
     else
       io_bind (io_snd (receive_wait_new px timeout_ms abort)) (\<lambda>wait.
       receive_message px buf (timeout_ms \<noteq> 0 \<or> abort) wait))"

definition uds_receive :: "'os posix \<Rightarrow> bytes \<Rightarrow> ('os, received) session_io" where
  "uds_receive px buf = uds_receive_with_control px buf 0 False"

definition uds_session_drop :: "'os posix \<Rightarrow> uds_session \<times> 'os \<Rightarrow> uds_session \<times> 'os" where
  "uds_session_drop px st =
     (case st of (s, os) \<Rightarrow> if us_fd s \<ge> 0 then (s\<lparr>us_fd := -1\<rparr>, px_close px (us_fd s) os) else (s, os))"

end
