(* ===== verification/Uds_Channel.thy ===== *)
theory Uds_Channel
  imports Uds_Session
begin

text \<open>
  The Unix session as a message channel. The packets of a message are described by a reference definition; \<open>send\<close>
  produces exactly these packets, and \<open>receive\<close> on the peer's side turns them back into the message, for messages
  of one packet and for chunked ones.
\<close>

section \<open>Packets of a message\<close>

function chop :: "nat \<Rightarrow> 'a list \<Rightarrow> 'a list list" where
  "chop b xs = (if xs = [] \<or> b = 0 then [] else take b xs # chop b (drop b xs))"
  by pat_completeness auto
termination by (relation "measure (\<lambda>(b, xs). length xs)") auto

declare chop.simps [simp del]

lemma chop_Nil [simp]: "chop b [] = []"
  by (simp add: chop.simps)

lemma chop_Cons: "xs \<noteq> [] \<Longrightarrow> 0 < b \<Longrightarrow> chop b xs = take b xs # chop b (drop b xs)"
  by (subst chop.simps) simp

lemma concat_chop [simp]: "0 < b \<Longrightarrow> concat (chop b xs) = xs"
  by (induction b xs rule: chop.induct) (subst chop.simps, auto)

lemma chop_parts: "0 < b \<Longrightarrow> part \<in> set (chop b xs) \<Longrightarrow> part \<noteq> [] \<and> length part \<le> b"
proof (induction b xs rule: chop.induct)
  case (1 b xs)
  then show ?case by (cases "xs = []") (auto simp: chop_Cons)
qed

lemma length_chop: "0 < b \<Longrightarrow> xs \<noteq> [] \<Longrightarrow> length (chop b xs) = 1 + (length xs - 1) div b"
proof (induction b xs rule: chop.induct)
  case (1 b xs)
  show ?case
  proof (cases "length xs \<le> b")
    case True
    then have "(length xs - 1) div b = 0" using 1 by (cases xs) auto
    then show ?thesis using 1 True by (simp add: chop_Cons)
  next
    case False
    then have "length (chop b (drop b xs)) = 1 + (length xs - b - 1) div b" using 1 by simp
    moreover have "(length xs - 1) div b = 1 + (length xs - b - 1) div b"
      using False 1(2) by (subst div_if) (auto simp: le_div_geq)
    ultimately show ?thesis using 1 by (simp add: chop_Cons)
  qed
qed

definition chunk_hdr :: "header \<Rightarrow> bytes \<Rightarrow> nat \<Rightarrow> nat \<Rightarrow> bytes \<Rightarrow> chunk_header" where
  "chunk_hdr hdr payload n i part =
     \<lparr>chk_magic = MAGIC_CHUNK, chk_version = VERSION, chk_flags = 0, chk_message_id = hdr_message_id hdr,
      chk_total_message_len = word_of_nat (32 + length payload), chk_chunk_index = word_of_nat i,
      chk_chunk_count = word_of_nat n, chk_chunk_payload_len = word_of_nat (length part)\<rparr>"

fun chunk_packets :: "header \<Rightarrow> bytes \<Rightarrow> nat \<Rightarrow> nat \<Rightarrow> bytes list \<Rightarrow> bytes list" where
  "chunk_packets hdr payload n i [] = []"
| "chunk_packets hdr payload n i (part # parts) =
     (chunk_header_wire (chunk_hdr hdr payload n i part) @ part) # chunk_packets hdr payload n (Suc i) parts"

definition message_packets :: "nat \<Rightarrow> header \<Rightarrow> bytes \<Rightarrow> bytes list" where
  "message_packets packet_size hdr payload =
     (if 32 + length payload \<le> packet_size then [header_wire hdr @ payload]
      else let b = packet_size - 32; parts = chop b (drop b payload) in
        (header_wire hdr @ take b payload) # chunk_packets hdr payload (1 + length parts) 1 parts)"

section \<open>A reliable SEQPACKET socket\<close>

text \<open>
  What is assumed of the system: \<open>sendmsg\<close> accepts the whole packet and the socket keeps packet boundaries and
  order; \<open>recv\<close> returns the next packet, cut to the size of the buffer. \<open>out\<close> and \<open>inc\<close> are the packets sent on and
  waiting at the socket.
\<close>

definition seqpacket_out :: "'os posix \<Rightarrow> int \<Rightarrow> ('os \<Rightarrow> bytes list) \<Rightarrow> bool" where
  "seqpacket_out px fd out \<longleftrightarrow>
     (\<forall>iov os. \<exists>os'. px_sendmsg px fd iov os = (int (length (concat iov)), os') \<and> out os' = out os @ [concat iov])"

definition seqpacket_in :: "'os posix \<Rightarrow> int \<Rightarrow> ('os \<Rightarrow> bytes list) \<Rightarrow> bool" where
  "seqpacket_in px fd inc \<longleftrightarrow>
     (\<forall>len os p ps. inc os = p # ps \<longrightarrow>
        (\<exists>os'. px_recv px fd len os = ((int (min len (length p)), take len p), os') \<and> inc os' = ps))"

lemma raw_send_iov_ok:
  assumes "seqpacket_out px fd out"
  shows "\<exists>os'. raw_send_iov px fd hdr payload os = Some (Ok (), os') \<and> out os' = out os @ [hdr @ payload]"
proof -
  let ?iov = "if payload = [] then [hdr] else [hdr, payload]"
  have c: "concat ?iov = hdr @ payload" by simp
  obtain os' where "px_sendmsg px fd ?iov os = (int (length (concat ?iov)), os')" "out os' = out os @ [concat ?iov]"
    using assms unfolding seqpacket_out_def by blast
  then show ?thesis unfolding c by (simp add: raw_send_iov_def Let_def io_bind_call io_ret_def nat_int_add)
qed

lemma raw_recv_ok:
  assumes "seqpacket_in px fd inc" "inc os = p # ps" "p \<noteq> []" "length p \<le> length buf"
  shows "\<exists>os'. raw_recv px fd buf os = Some (Ok (length p, upd buf 0 p), os') \<and> inc os' = ps"
proof -
  obtain os' where "px_recv px fd (length buf) os = ((int (length p), p), os')" "inc os' = ps"
    using assms unfolding seqpacket_in_def by (metis min_absorb2 take_all)
  then show ?thesis using assms(3) by (simp add: raw_recv_def io_bind_call io_ret_def)
qed

section \<open>Sending\<close>

lemma header_encode_new: "header_encode hdr (replicate HEADER_SIZE 0) = Ok (HEADER_SIZE, header_wire hdr)"
  by (simp add: header_encode_def header_wire_def HEADER_SIZE_def append_windows)

lemma chunk_header_encode_new: "chunk_header_encode chk (replicate HEADER_SIZE 0) = Ok (HEADER_SIZE, chunk_header_wire chk)"
  by (simp add: chunk_header_encode_def chunk_header_wire_def HEADER_SIZE_def append_windows)

lemma encode_packet_header_ok: "encode_packet_header hdr = Ok (header_wire hdr)"
  by (simp add: encode_packet_header_def header_encode_new)

lemma send_chunks_ok:
  assumes "seqpacket_out px fd out" "0 < b" "offset \<le> length payload" "left = length (chop b (drop offset payload))"
  shows "\<exists>os'. send_chunks px fd (hdr_message_id hdr) (32 + length payload) (word_of_nat n) b payload offset
                 (word_of_nat i) left os = Some (Ok (), os') \<and>
               out os' = out os @ chunk_packets hdr payload n i (chop b (drop offset payload))"
  using assms(3,4)
proof (induction left arbitrary: offset i os)
  case 0
  then have "chop b (drop offset payload) = []" by simp
  then show ?case by (simp add: io_ret_def)
next
  case (Suc left)
  let ?rest = "drop offset payload" and ?m = "min (length payload - offset) b"
  have ne: "?rest \<noteq> []" using Suc.prems by (auto)
  have le: "offset + ?m \<le> length payload" using Suc.prems(1) by linarith
  have ch: "chop b ?rest = take b ?rest # chop b (drop (offset + ?m) payload)"
    using chop_Cons [OF ne assms(2)] by (cases "length payload - offset \<le> b") (auto simp: min_def add.commute)
  have part: "slice_rng payload offset (offset + ?m) = Ok (take b ?rest)"
    using Suc.prems by (auto simp: slice_rng_def sub_def min_def)
  let ?chk = "chunk_hdr hdr payload n i (take b ?rest)"
  obtain os1 where s1: "raw_send_iov px fd (chunk_header_wire ?chk) (take b ?rest) os = Some (Ok (), os1)"
    "out os1 = out os @ [chunk_header_wire ?chk @ take b ?rest]"
    using raw_send_iov_ok [OF assms(1)] by blast
  obtain os2 where s2:
    "send_chunks px fd (hdr_message_id hdr) (32 + length payload) (word_of_nat n) b payload (offset + ?m)
       (word_of_nat (Suc i)) left os1 = Some (Ok (), os2)"
    "out os2 = out os1 @ chunk_packets hdr payload n (Suc i) (chop b (drop (offset + ?m) payload))"
    using Suc.IH [of "offset + ?m" "Suc i" os1] Suc.prems ch le by auto
  have c: "chunk_hdr hdr payload n i (take b ?rest) =
     \<lparr>chk_magic = MAGIC_CHUNK, chk_version = VERSION, chk_flags = 0, chk_message_id = hdr_message_id hdr,
      chk_total_message_len = word_of_nat (32 + length payload), chk_chunk_index = word_of_nat i,
      chk_chunk_count = word_of_nat n, chk_chunk_payload_len = word_of_nat ?m\<rparr>"
    by (simp add: chunk_hdr_def)
  have "send_chunks px fd (hdr_message_id hdr) (32 + length payload) (word_of_nat n) b payload offset (word_of_nat i)
          (Suc left) os = Some (Ok (), os2)"
    using s2(1) Suc.prems(1) unfolding send_chunks.simps Let_def usize_sub_le [OF Suc.prems(1)] c [symmetric] part chunk_header_encode_new
    by (simp add: io_bind_Ok [where m = "raw_send_iov _ _ _ _", OF s1(1)] add.commute)
  then show ?case using s1(2) s2(2) unfolding ch by auto
qed

theorem send_inner_packets:
  assumes "seqpacket_out px (us_fd s) out" "32 < unat (us_packet_size s)" "32 + length payload \<le> U32_MAX"
  shows "\<exists>os'. send_inner px s hdr payload os = Some (Ok (), os') \<and>
               out os' = out os @ message_packets (unat (us_packet_size s)) hdr payload"
proof (cases "32 + length payload \<le> unat (us_packet_size s)")
  case True
  then show ?thesis
    using raw_send_iov_ok [OF assms(1), of "header_wire hdr" payload os] assms(3)
    by (simp add: send_inner_def HEADER_SIZE_def encode_packet_header_ok message_packets_def Let_def not_less)
next
  case False
  let ?b = "unat (us_packet_size s) - 32"
  let ?parts = "chop ?b (drop ?b payload)"
  have b: "0 < ?b" "?b < length payload" using assms(2) False by auto
  have len: "length ?parts = 1 + (length payload - ?b - 1) div ?b"
    using length_chop [OF b(1), of "drop ?b payload"] b(2) by simp
  have "(length payload - ?b - 1) div ?b \<le> length payload - ?b - 1" by (rule div_le_dividend)
  then have "length ?parts \<le> length payload" using len b by linarith
  then have small: "Suc (length ?parts) < 2 ^ 32" using assms(3) unfolding U32_MAX_def by simp
  have cc: "1 + word_of_nat (length ?parts) = (word_of_nat (1 + length ?parts) :: u32)" by simp
  have un: "unat (word_of_nat (1 + length ?parts) :: u32) - 1 = length ?parts"
    using small by (simp add: unsigned_of_nat take_bit_nat_eq_self del: of_nat_Suc of_nat_add)
  obtain os1 where s1: "raw_send_iov px (us_fd s) (header_wire hdr) (take ?b payload) os = Some (Ok (), os1)"
    "out os1 = out os @ [header_wire hdr @ take ?b payload]"
    using raw_send_iov_ok [OF assms(1)] by blast
  obtain os2 where s2: "send_chunks px (us_fd s) (hdr_message_id hdr) (32 + length payload) (word_of_nat (1 + length ?parts)) ?b
      payload ?b (word_of_nat 1) (length ?parts) os1 = Some (Ok (), os2)"
    "out os2 = out os1 @ chunk_packets hdr payload (1 + length ?parts) 1 ?parts"
    using send_chunks_ok [OF assms(1) b(1), of ?b payload "length ?parts"] b(2) by fastforce
  have "send_inner px s hdr payload os = Some (Ok (), os2)"
    using False assms(2,3) b s2(1) un
    by (simp add: send_inner_def Let_def HEADER_SIZE_def encode_packet_header_ok slice_rng_def sub_def min_absorb2
        len io_bind_Ok [where m = "raw_send_iov _ _ _ _", OF s1(1)] del: One_nat_def)
  then show ?thesis using s1(2) s2(2) False by (simp add: message_packets_def Let_def)
qed

section \<open>Receiving\<close>

text \<open>The receive path of a session works through \<open>raw_recv_control\<close> alone; it delivers when it hands over the next
  waiting packet. Without a deadline or abort flag this is the socket's \<open>recv\<close>; with them, it holds while the
  socket polls readable, the flag is down and the deadline lies ahead.\<close>

definition recv_delivers :: "'os posix \<Rightarrow> int \<Rightarrow> ('os \<Rightarrow> bytes list) \<Rightarrow> bool \<Rightarrow> receive_wait \<Rightarrow> bool" where
  "recv_delivers px fd inc controlled wait \<longleftrightarrow>
     (\<forall>os p ps buf. inc os = p # ps \<longrightarrow> p \<noteq> [] \<longrightarrow> length p \<le> length buf \<longrightarrow>
        (\<exists>os'. raw_recv_control px fd buf controlled wait os = Some (Ok (length p, upd buf 0 p), os') \<and> inc os' = ps))"

lemma recv_delivers_plain: "seqpacket_in px fd inc \<Longrightarrow> recv_delivers px fd inc False wait"
  by (simp add: recv_delivers_def raw_recv_control_def raw_recv_ok)

lemma recv_deliversD:
  assumes "recv_delivers px fd inc controlled wait" "inc os = p # ps" "p \<noteq> []" "length p \<le> length buf"
  shows "\<exists>os'. raw_recv_control px fd buf controlled wait os = Some (Ok (length p, upd buf 0 p), os') \<and> inc os' = ps"
  using assms unfolding recv_delivers_def by blast

text \<open>One continuation packet.\<close>

lemma chunk_hdr_valid:
  assumes "part \<noteq> []" "length part < 2 ^ 32"
  shows "chunk_header_valid (chunk_hdr hdr payload n i part)"
proof -
  have "unat (word_of_nat (length part) :: u32) = length part" using assms(2) by simp
  then have "(word_of_nat (length part) :: u32) \<noteq> 0" using assms(1) by (metis length_0_conv unat_eq_0)
  then show ?thesis by (simp add: chunk_header_valid_def chunk_hdr_def)
qed

lemma length_chunk_header_wire [simp]: "length (chunk_header_wire c) = 32"
  using chk.length_wire [of c] by (simp add: HEADER_SIZE_def)

lemma length_header_wire [simp]: "length (header_wire h) = 32"
  using hdr.length_wire [of h] by (simp add: HEADER_SIZE_def)

lemma check_chunk_ok:
  assumes "hdr_payload_len hdr = word_of_nat (length payload)" "32 + length payload \<le> U32_MAX"
    "assembled + length part \<le> length payload"
  shows "check_chunk hdr (word_of_nat i) (word_of_nat n) (32 + length payload) assembled (32 + length part)
           (chunk_hdr hdr payload n i part) = Ok (length part)"
proof -
  have "length part < 2 ^ 32" "length payload < 2 ^ 32" using assms by (auto simp: U32_MAX_def)
  then show ?thesis using assms by (simp add: check_chunk_def chunk_hdr_def HEADER_SIZE_def Let_def)
qed

lemma sub_upd_tail: "sub (upd buf 0 (xs @ ys)) (length xs) (length ys) = ys"
  by (simp add: upd_0 sub_def)

lemma receive_chunks_ok:
  assumes link: "recv_delivers px fd inc controlled wait"
    and len: "hdr_payload_len hdr = word_of_nat (length payload)" "32 + length payload \<le> U32_MAX"
    and "us_fd s = fd" "b + 32 \<le> length (us_pkt_buf s)" "length payload \<le> length (us_recv_buf s)"
    and "\<forall>part \<in> set parts. part \<noteq> [] \<and> length part \<le> b"
    and "assembled + length (concat parts) = length payload"
    and "inc os = chunk_packets hdr payload n i parts @ rest"
  shows "\<exists>s' os'. receive_chunks px hdr (word_of_nat n) (32 + length payload) controlled wait (word_of_nat i) assembled (s, os)
            = Some (Ok (), (s', os')) \<and> inc os' = rest
          \<and> s' = s\<lparr>us_pkt_buf := us_pkt_buf s', us_recv_buf := upd (us_recv_buf s) assembled (concat parts)\<rparr>"
  using assms(4-)
proof (induction parts arbitrary: s os i assembled)
  case Nil
  have "unat (hdr_payload_len hdr) = length payload" using len by (simp add: U32_MAX_def)
  then show ?case using Nil by (subst receive_chunks.simps) (auto simp: io_ret_def)
next
  case (Cons part parts)
  let ?p = "chunk_header_wire (chunk_hdr hdr payload n i part) @ part" and ?m = "length part"
  have pl: "unat (hdr_payload_len hdr) = length payload" using len by (simp add: U32_MAX_def)
  have part: "part \<noteq> []" "?m \<le> b" "assembled + ?m \<le> length payload" using Cons.prems by auto
  have less: "assembled < length payload" using part by (cases part) auto
  have fits: "length ?p \<le> length (us_pkt_buf s)" using Cons.prems part by simp
  obtain os1 where r: "raw_recv_control px fd (us_pkt_buf s) controlled wait os = Some (Ok (32 + ?m, upd (us_pkt_buf s) 0 ?p), os1)"
    and inc1: "inc os1 = chunk_packets hdr payload n (Suc i) parts @ rest"
    using recv_deliversD [OF link, of os ?p _ "us_pkt_buf s"] Cons.prems(6) fits part(1) by auto
  have dec: "chunk_header_decode ?p = Ok (chunk_hdr hdr payload n i part)"
    using part len by (intro chk.decode_wire chunk_hdr_valid) (auto simp: U32_MAX_def)
  have pkt: "slice_rng (upd (us_pkt_buf s) 0 ?p) 0 (32 + ?m) = Ok ?p"
    using fits by (simp add: slice_rng_def)
  have body: "slice_rng (upd (us_pkt_buf s) 0 ?p) 32 (32 + ?m) = Ok part"
    using fits sub_upd_tail [of "us_pkt_buf s" "chunk_header_wire (chunk_hdr hdr payload n i part)" part]
    by (simp add: slice_rng_def)
  have copy: "copy_from_slice (us_recv_buf s) assembled (assembled + ?m) part = Ok (upd (us_recv_buf s) assembled part)"
    using part Cons.prems(3) by (simp add: copy_from_slice_def)
  let ?s1 = "s\<lparr>us_pkt_buf := upd (us_pkt_buf s) 0 ?p, us_recv_buf := upd (us_recv_buf s) assembled part\<rparr>"
  obtain s2 os2 where ih: "receive_chunks px hdr (word_of_nat n) (32 + length payload) controlled wait (word_of_nat (Suc i))
        (assembled + ?m) (?s1, os1) = Some (Ok (), (s2, os2))" "inc os2 = rest"
      "s2 = ?s1\<lparr>us_pkt_buf := us_pkt_buf s2, us_recv_buf := upd (us_recv_buf ?s1) (assembled + ?m) (concat parts)\<rparr>"
    using Cons.IH [of ?s1 "assembled + ?m" os1 "Suc i"] Cons.prems fits part inc1 by auto
  have "receive_chunks px hdr (word_of_nat n) (32 + length payload) controlled wait (word_of_nat i) assembled (s, os)
          = Some (Ok (), (s2, os2))"
    using less ih(1) Cons.prems(1)
    by (subst receive_chunks.simps)
       (simp add: pl r io_bind_Ok HEADER_SIZE_def pkt dec body check_chunk_ok [OF len part(3)] copy add.commute [of "word_of_nat i" 1])
  moreover have "upd (upd (us_recv_buf s) assembled part) (assembled + ?m) (concat parts)
      = upd (us_recv_buf s) assembled (concat (part # parts))"
    using Cons.prems by (simp add: upd_upd_append)
  ultimately show ?case using ih(2,3) by (auto intro!: exI [of _ s2])
qed

section \<open>A message across the link\<close>

text \<open>The two ends of a session: opposite roles, the same negotiated limits and packet size.\<close>

definition session_peers :: "uds_session \<Rightarrow> uds_session \<Rightarrow> bool" where
  "session_peers a b \<longleftrightarrow> us_role a \<noteq> us_role b \<and> us_packet_size a = us_packet_size b \<and>
     us_max_request_payload_bytes a = us_max_request_payload_bytes b \<and>
     us_max_request_batch_items a = us_max_request_batch_items b \<and>
     us_max_response_payload_bytes a = us_max_response_payload_bytes b \<and>
     us_max_response_batch_items a = us_max_response_batch_items b"

definition sendable :: "uds_session \<Rightarrow> header \<Rightarrow> bytes \<Rightarrow> bool" where
  "sendable s hdr payload \<longleftrightarrow> us_fd s \<ge> 0 \<and> length payload \<le> unat (fst (session_limits s)) \<and>
     length payload \<le> U32_MAX - HEADER_SIZE \<and> hdr_item_count hdr \<le> snd (session_limits s) \<and>
     \<not> (us_role s = Role_Client \<and> hdr_kind hdr = KIND_REQUEST \<and> hdr_message_id hdr \<in> us_inflight_ids s)"

definition track_sent :: "uds_session \<Rightarrow> header \<Rightarrow> uds_session" where
  "track_sent s hdr =
     (if us_role s = Role_Client \<and> hdr_kind hdr = KIND_REQUEST
      then s\<lparr>us_inflight_ids := insert (hdr_message_id hdr) (us_inflight_ids s)\<rparr> else s)"

lemma fill_envelope_simps [simp]:
  "hdr_message_id (fill_envelope hdr payload) = hdr_message_id hdr" "hdr_kind (fill_envelope hdr payload) = hdr_kind hdr"
  "hdr_item_count (fill_envelope hdr payload) = hdr_item_count hdr" "hdr_flags (fill_envelope hdr payload) = hdr_flags hdr"
  "hdr_payload_len (fill_envelope hdr payload) = word_of_nat (length payload)"
  by (simp_all add: fill_envelope_def)

lemma fill_envelope_valid:
  "KIND_REQUEST \<le> hdr_kind hdr \<Longrightarrow> hdr_kind hdr \<le> KIND_CONTROL \<Longrightarrow> header_valid (fill_envelope hdr payload)"
  by (simp add: header_valid_def fill_envelope_def)

lemma uds_send_ok:
  assumes "seqpacket_out px (us_fd s) out" "32 < unat (us_packet_size s)" "sendable s hdr payload"
  shows "\<exists>os'. uds_send px hdr payload (s, os) = Some (Ok (fill_envelope hdr payload), (track_sent s hdr, os')) \<and>
           out os' = out os @ message_packets (unat (us_packet_size s)) (fill_envelope hdr payload) payload"
proof -
  have le: "32 + length payload \<le> U32_MAX" using assms(3) by (simp add: sendable_def HEADER_SIZE_def U32_MAX_def)
  obtain os' where s: "send_inner px s (fill_envelope hdr payload) payload os = Some (Ok (), os')"
    "out os' = out os @ message_packets (unat (us_packet_size s)) (fill_envelope hdr payload) payload"
    using send_inner_packets [OF assms(1,2) le] by blast
  have "uds_send px hdr payload (s, os) = Some (Ok (fill_envelope hdr payload), (track_sent s hdr, os'))"
    using assms(3) unfolding sendable_def uds_send_def
    by (auto simp: case_prod_beta Let_def io_on_err_def io_bind_def io_ret_def io_get_def io_mod_def s(1) track_sent_def)
  then show ?thesis using s(2) by blast
qed

definition receivable :: "uds_session \<Rightarrow> header \<Rightarrow> bytes \<Rightarrow> bool" where
  "receivable s hdr payload \<longleftrightarrow> header_valid hdr \<and> hdr_payload_len hdr = word_of_nat (length payload) \<and>
     32 + length payload \<le> U32_MAX \<and> check_received s hdr = Ok () \<and> validate_batch hdr payload = Ok ()"

lemma receivable_checks:
  "check_received s hdr = Ok ()" "validate_batch hdr payload = Ok ()" "32 + length payload \<le> U32_MAX"
  if "receivable s hdr payload"
  using that by (auto simp: receivable_def)

lemma track_received_simps [simp]:
  "us_fd (track_received s hdr) = us_fd s" "us_packet_size (track_received s hdr) = us_packet_size s"
  "us_recv_buf (track_received s hdr) = us_recv_buf s" "us_pkt_buf (track_received s hdr) = us_pkt_buf s"
  by (simp_all add: track_received_def)

lemma message_packets_first:
  "\<exists>ps. message_packets k hdr payload = (header_wire hdr @ take (k - 32) payload) # ps" if "32 < k"
  using that by (cases "32 + length payload \<le> k") (auto simp: message_packets_def Let_def)

lemma buffers_only: "s' = s\<lparr>us_pkt_buf := x, us_recv_buf := y\<rparr> \<Longrightarrow> s' = s\<lparr>us_pkt_buf := us_pkt_buf s', us_recv_buf := us_recv_buf s'\<rparr>"
  by simp

lemma receive_first:
  assumes ok: "receivable s hdr payload" and link: "recv_delivers px (us_fd s) inc ctl wait"
    and inc: "inc os = (header_wire hdr @ part) # ps" and fits: "32 + length part \<le> length buf"
  obtains os1 where "inc os1 = ps"
    "raw_recv_control px (us_fd s) buf ctl wait os = Some (Ok (32 + length part, upd buf 0 (header_wire hdr @ part)), os1)"
    "slice_rng (upd buf 0 (header_wire hdr @ part)) 0 (32 + length part) = (Ok (header_wire hdr @ part) :: (uds_error, bytes) outcome)"
    "slice_rng (upd buf 0 (header_wire hdr @ part)) 32 (32 + length part) = (Ok part :: (uds_error, bytes) outcome)"
    "header_decode (header_wire hdr @ part) = Ok hdr" "unat (hdr_payload_len hdr) = length payload"
proof -
  have ne: "header_wire hdr @ part \<noteq> []" by (metis append_is_Nil_conv length_header_wire list.size(3) zero_neq_numeral)
  have len: "length (header_wire hdr @ part) = 32 + length part" by simp
  obtain os1 where "inc os1 = ps" "raw_recv_control px (us_fd s) buf ctl wait os
      = Some (Ok (32 + length part, upd buf 0 (header_wire hdr @ part)), os1)"
    using recv_deliversD [OF link inc ne, of buf] fits unfolding len by blast
  moreover have "header_decode (header_wire hdr @ part) = Ok hdr"
    using ok by (intro hdr.decode_wire) (simp add: receivable_def)
  moreover have "sub (upd buf 0 (header_wire hdr @ part)) 32 (length part) = part"
    using sub_upd_tail [of buf "header_wire hdr" part] by simp
  moreover have "unat (hdr_payload_len hdr) = length payload" using ok by (simp add: receivable_def U32_MAX_def)
  ultimately show ?thesis using fits that by (simp add: slice_rng_def)
qed

lemma receive_single:
  assumes ok: "receivable s hdr payload" and link: "recv_delivers px (us_fd s) inc ctl wait"
    and inc: "inc os = (header_wire hdr @ payload) # rest" and fits: "32 + length payload \<le> length buf"
  shows "\<exists>r os'. receive_message px buf ctl wait (s, os) = Some (Ok r, (track_received s hdr, os'))
          \<and> rcv_hdr r = hdr \<and> rcv_payload r = payload \<and> inc os' = rest"
proof -
  obtain os1 where r: "inc os1 = rest"
      "raw_recv_control px (us_fd s) buf ctl wait os = Some (Ok (32 + length payload, upd buf 0 (header_wire hdr @ payload)), os1)"
      "slice_rng (upd buf 0 (header_wire hdr @ payload)) 0 (32 + length payload) = (Ok (header_wire hdr @ payload) :: (uds_error, bytes) outcome)"
      "slice_rng (upd buf 0 (header_wire hdr @ payload)) 32 (32 + length payload) = (Ok payload :: (uds_error, bytes) outcome)"
      "header_decode (header_wire hdr @ payload) = Ok hdr" "unat (hdr_payload_len hdr) = length payload"
    using receive_first [OF ok link inc fits] .
  let ?r = "\<lparr>rcv_hdr = hdr, rcv_payload = payload, rcv_in_session = False, rcv_buf = upd buf 0 (header_wire hdr @ payload)\<rparr>"
  have "receive_message px buf ctl wait (s, os) = Some (Ok ?r, (track_received s hdr, os1))"
    unfolding receive_message_def receive_body_def using receivable_checks [OF ok]
    by (simp add: r io_bind_Ok HEADER_SIZE_def Let_def io_ret_def)
  then show ?thesis using r(1) by auto
qed

lemma receive_chunked_ok:
  assumes len: "hdr_payload_len hdr = word_of_nat (length payload)" "32 + length payload \<le> U32_MAX"
    and val: "validate_batch hdr payload = Ok ()" and link: "recv_delivers px (us_fd s) inc ctl wait"
    and k: "32 < unat (us_packet_size s)" "unat (us_packet_size s) < 32 + length payload"
    and b: "b = unat (us_packet_size s) - 32"
    and part: "slice_rng buf 32 (32 + b) = (Ok (take b payload) :: (uds_error, bytes) outcome)"
    and inc: "inc os = chunk_packets hdr payload (1 + length (chop b (drop b payload))) 1 (chop b (drop b payload)) @ rest"
  shows "\<exists>r s' os'. receive_chunked px buf (32 + b) hdr ctl wait (s, os) = Some (Ok r, (s', os'))
          \<and> rcv_hdr r = hdr \<and> rcv_payload r = payload \<and> inc os' = rest
          \<and> s' = s\<lparr>us_pkt_buf := us_pkt_buf s', us_recv_buf := us_recv_buf s'\<rparr>"
proof -
  let ?parts = "chop b (drop b payload)" and ?n = "length payload"
  have b0: "0 < b" "b < ?n" using k b by auto
  have pl: "unat (hdr_payload_len hdr) = ?n" using len by (simp add: U32_MAX_def)
  define rb where "rb = upd (grow (us_recv_buf s) ?n) 0 (take b payload)"
  define s1 where "s1 = s\<lparr>us_recv_buf := rb, us_pkt_buf := grow (us_pkt_buf s) (unat (us_packet_size s))\<rparr>"
  have lrb: "?n \<le> length rb" using b0 by (simp add: rb_def)
  have copy: "copy_from_slice (grow (us_recv_buf s) ?n) 0 b (take b payload) = Ok rb"
    using b0 by (simp add: copy_from_slice_def rb_def)
  have budget: "usize_sub (unat (us_packet_size s)) 32 = b" using k b by simp
  have cnt: "length ?parts = 1 + (?n - b - 1) div b" using length_chop [OF b0(1), of "drop b payload"] b0(2) by simp
  have pre: "us_fd s1 = us_fd s" "b + 32 \<le> length (us_pkt_buf s1)" "?n \<le> length (us_recv_buf s1)"
      "\<forall>part \<in> set ?parts. part \<noteq> [] \<and> length part \<le> b" "b + length (concat ?parts) = ?n"
      "inc os = chunk_packets hdr payload (1 + length ?parts) 1 ?parts @ rest"
    using lrb inc b0 b k chop_parts [OF b0(1)] by (auto simp: s1_def)
  obtain s2 os2 where r: "receive_chunks px hdr (word_of_nat (1 + length ?parts)) (32 + ?n) ctl wait (word_of_nat 1) b (s1, os)
      = Some (Ok (), (s2, os2))" "inc os2 = rest" "s2 = s1\<lparr>us_pkt_buf := us_pkt_buf s2, us_recv_buf := upd (us_recv_buf s1) b (concat ?parts)\<rparr>"
    using receive_chunks_ok [OF link len, of s1 b ?parts b os "1 + length ?parts" 1 rest] pre by blast
  have "us_recv_buf s2 = upd (grow (us_recv_buf s) ?n) 0 payload"
    using arg_cong [OF r(3), of us_recv_buf] b0 by (simp add: s1_def rb_def upd_upd_append)
  then have pay: "slice_rng (us_recv_buf s2) 0 ?n = (Ok payload :: (uds_error, bytes) outcome)"
    by (simp add: slice_rng_def upd_0 sub_def)
  let ?r = "\<lparr>rcv_hdr = hdr, rcv_payload = payload, rcv_in_session = True, rcv_buf = buf\<rparr>"
  have "receive_chunked px buf (32 + b) hdr ctl wait (s, os) = Some (Ok ?r, (s2, os2))"
    unfolding receive_chunked_def using val r(1) b0 cnt
    by (simp add: HEADER_SIZE_def Let_def pl budget part copy s1_def [symmetric] io_bind_Ok pay io_ret_def)
  moreover have "s2 = s\<lparr>us_pkt_buf := us_pkt_buf s2, us_recv_buf := us_recv_buf s2\<rparr>"
    by (rule buffers_only [where s = s, OF r(3) [unfolded s1_def, simplified]])
  ultimately show ?thesis using r(2) by auto
qed

lemma receive_message_ok:
  assumes ok: "receivable s hdr payload" and link: "recv_delivers px (us_fd s) inc ctl wait"
    and k: "k = unat (us_packet_size s)" "32 < k" and fits: "min (32 + length payload) k \<le> length buf"
    and inc: "inc os = message_packets k hdr payload @ rest"
  shows "\<exists>r s' os'. receive_message px buf ctl wait (s, os) = Some (Ok r, (s', os'))
          \<and> rcv_hdr r = hdr \<and> rcv_payload r = payload \<and> inc os' = rest
          \<and> s' = (track_received s hdr)\<lparr>us_pkt_buf := us_pkt_buf s', us_recv_buf := us_recv_buf s'\<rparr>"
proof (cases "32 + length payload \<le> k")
  case True
  then show ?thesis
    using receive_single [OF ok link, of os rest buf] inc fits by (fastforce simp: message_packets_def)
next
  case False
  define b where "b = unat (us_packet_size s) - 32"
  let ?parts = "chop b (drop b payload)" and ?buf = "upd buf 0 (header_wire hdr @ take b payload)"
  have b: "b < length payload" "length (take b payload) = b" "32 + b \<le> length buf" "32 + b \<noteq> 32 + length payload"
    using False k fits by (auto simp: b_def)
  have inc': "inc os = (header_wire hdr @ take b payload) # chunk_packets hdr payload (1 + length ?parts) 1 ?parts @ rest"
    using inc False k(1) by (simp add: message_packets_def Let_def b_def)
  obtain os1 where r: "inc os1 = chunk_packets hdr payload (1 + length ?parts) 1 ?parts @ rest"
      "raw_recv_control px (us_fd s) buf ctl wait os = Some (Ok (32 + b, ?buf), os1)"
      "slice_rng ?buf 0 (32 + b) = (Ok (header_wire hdr @ take b payload) :: (uds_error, bytes) outcome)"
      "slice_rng ?buf 32 (32 + b) = (Ok (take b payload) :: (uds_error, bytes) outcome)"
      "header_decode (header_wire hdr @ take b payload) = Ok hdr" "unat (hdr_payload_len hdr) = length payload"
    using receive_first [OF ok link inc'] b by (metis (no_types, lifting))
  obtain v s' os' where c: "receive_chunked px ?buf (32 + b) hdr ctl wait (track_received s hdr, os1) = Some (Ok v, (s', os'))"
      "rcv_hdr v = hdr" "rcv_payload v = payload" "inc os' = rest"
      "s' = (track_received s hdr)\<lparr>us_pkt_buf := us_pkt_buf s', us_recv_buf := us_recv_buf s'\<rparr>"
    using receive_chunked_ok [of hdr payload px "track_received s hdr" inc ctl wait b ?buf os1 rest]
      ok link k False r(1,4) b_def by (auto simp: receivable_def)
  have "receive_message px buf ctl wait (s, os) = Some (Ok v, (s', os'))"
    unfolding receive_message_def receive_body_def using receivable_checks [OF ok] b c(1)
    by (simp add: r io_bind_Ok HEADER_SIZE_def Let_def)
  then show ?thesis using c(2-) by blast
qed

text \<open>A message accepted by the sender is acceptable to the receiver, when its id is in flight there and a batch
  payload is well formed; the two are what \<open>send\<close> does not check.\<close>

lemma sendable_receivable:
  assumes "session_peers a b" "sendable a hdr payload" "KIND_REQUEST \<le> hdr_kind hdr" "hdr_kind hdr \<le> KIND_CONTROL"
    and "us_role b = Role_Client \<Longrightarrow> hdr_kind hdr = KIND_RESPONSE \<Longrightarrow> hdr_message_id hdr \<in> us_inflight_ids b"
    and "validate_batch (fill_envelope hdr payload) payload = Ok ()"
  shows "receivable b (fill_envelope hdr payload) payload"
proof -
  have len: "32 + length payload \<le> U32_MAX" using assms(2) by (simp add: sendable_def HEADER_SIZE_def U32_MAX_def)
  have "word_of_nat (length payload) \<le> fst (session_limits a)"
    using assms(2) len by (simp add: sendable_def word_le_nat_alt U32_MAX_def)
  then have "check_received b (fill_envelope hdr payload) = Ok ()"
    using assms(1,2,5) unfolding check_received_def session_peers_def session_limits_def sendable_def
    by (cases "us_role a"; cases "us_role b") (auto simp: Let_def)
  then show ?thesis using fill_envelope_valid assms(3,4,6) len by (simp add: receivable_def)
qed

text \<open>C9: A message sent by one end of a session arrives at the other: on a reliable SEQPACKET socket \<open>send\<close> succeeds,
  and when the packets it put on the wire are what waits at the peer, \<open>receive\<close> there returns the same header and
  payload, consumes exactly these packets, and keeps everything of its session but the in-flight set and its
  buffers. Messages longer than the packet size travel as chunks.\<close>

theorem uds_message_roundtrip:
  assumes "seqpacket_out px (us_fd a) out" "seqpacket_in qx (us_fd b) inc"
    and "session_peers a b" "us_fd b \<ge> 0" "32 < unat (us_packet_size a)"
    and "sendable a hdr payload" "KIND_REQUEST \<le> hdr_kind hdr" "hdr_kind hdr \<le> KIND_CONTROL"
    and "us_role b = Role_Client \<Longrightarrow> hdr_kind hdr = KIND_RESPONSE \<Longrightarrow> hdr_message_id hdr \<in> us_inflight_ids b"
    and "validate_batch (fill_envelope hdr payload) payload = Ok ()"
    and "unat (us_packet_size a) \<le> length buf"
  shows "\<exists>sent osa'.
      uds_send px hdr payload (a, osa) = Some (Ok (fill_envelope hdr payload), (track_sent a hdr, osa')) \<and>
      out osa' = out osa @ sent \<and>
      (\<forall>osb rest. inc osb = sent @ rest \<longrightarrow>
        (\<exists>r b' osb'. uds_receive qx buf (b, osb) = Some (Ok r, (b', osb')) \<and>
           rcv_hdr r = fill_envelope hdr payload \<and> rcv_payload r = payload \<and> inc osb' = rest \<and>
           b' = (track_received b hdr)\<lparr>us_pkt_buf := us_pkt_buf b', us_recv_buf := us_recv_buf b'\<rparr>))"
proof -
  let ?h = "fill_envelope hdr payload" and ?k = "unat (us_packet_size a)"
  have k: "?k = unat (us_packet_size b)" using assms(3) by (simp add: session_peers_def)
  have ok: "receivable b ?h payload" using sendable_receivable assms by blast
  have tr: "track_received b ?h = track_received b hdr" by (simp add: track_received_def)
  have "\<exists>r b' osb'. uds_receive qx buf (b, osb) = Some (Ok r, (b', osb')) \<and> rcv_hdr r = ?h \<and> rcv_payload r = payload \<and>
      inc osb' = rest \<and> b' = (track_received b hdr)\<lparr>us_pkt_buf := us_pkt_buf b', us_recv_buf := us_recv_buf b'\<rparr>"
    if "inc osb = message_packets ?k ?h payload @ rest" for osb rest
    using receive_message_ok [OF ok recv_delivers_plain [OF assms(2)] k assms(5) _ that, of buf "\<lparr>rw_deadline = None, rw_abort = False\<rparr>"]
      assms(4,11) unfolding tr
    by (simp add: uds_receive_def uds_receive_with_control_def receive_wait_new_def io_ret_def io_bind_Ok)
  then show ?thesis using uds_send_ok [OF assms(1,5,6)] by blast
qed

section \<open>Receiving from an arbitrary peer\<close>

text \<open>Nothing is assumed of the packets here: the peer may send anything.\<close>

definition chunk_post :: "uds_session \<Rightarrow> (uds_error, unit) outcome \<Rightarrow> uds_session \<Rightarrow> bool" where
  "chunk_post s r s' \<longleftrightarrow>
     (case r of Ok _ \<Rightarrow> us_inflight_ids s' = us_inflight_ids s \<and> length (us_recv_buf s') = length (us_recv_buf s)
      | Err e \<Rightarrow> True | Panic \<Rightarrow> False)"

lemma check_chunk_post: "check_chunk hdr ci ecc total_msg assembled cn chk = Ok d \<Longrightarrow> d = cn - 32 \<and> assembled + d \<le> unat (hdr_payload_len hdr)"
  by (auto simp: check_chunk_def Let_def HEADER_SIZE_def split: if_splits)

lemma check_chunk_no_panic: "check_chunk hdr ci ecc total_msg assembled cn chk \<noteq> Panic"
  by (simp add: check_chunk_def Let_def)

lemma receive_chunks_post:
  assumes "recv_bounded px" "unat (hdr_payload_len hdr) \<le> length (us_recv_buf s)"
  shows "io_post (receive_chunks px hdr ecc total_msg controlled wait ci assembled) (s, os) (\<lambda>r st. chunk_post s r (fst st))"
  using assms(2)
proof (induction "unat (hdr_payload_len hdr) - assembled" arbitrary: ci assembled s os rule: less_induct)
  case less
  show ?case
  proof (cases "assembled < unat (hdr_payload_len hdr)")
    case False
    then show ?thesis by (simp add: io_post_def receive_chunks.simps io_ret_def chunk_post_def)
  next
    case True
    have step: "case chunk_header_decode (take n buf) of
        Ok chk \<Rightarrow> (case check_chunk hdr ci ecc total_msg assembled n chk of
            Ok d \<Rightarrow> d = n - 32 \<and> 0 < d \<and> assembled + d \<le> unat (hdr_payload_len hdr)
          | Err e \<Rightarrow> True | Panic \<Rightarrow> False)
      | Err e \<Rightarrow> True | Panic \<Rightarrow> False" for n buf
      using chk.decode_no_panic check_chunk_no_panic check_chunk_post check_chunk_progress
      by (fastforce split: outcome.splits)
    show ?thesis
      unfolding io_post_def [of "receive_chunks _ _ _ _ _ _ _ _"]
    proof (subst receive_chunks.simps, simp add: True flip: io_post_def, simp add: io_posts HEADER_SIZE_def cong: outcome.case_cong,
        rule io_post_mono [OF raw_recv_control_post [OF assms(1)]], goal_cases)
      case (1 r os')
      show ?case
      proof (cases r)
        case (Ok a)
        obtain n buf where a: "a = (n, buf)" by (cases a)
        have n: "n \<le> length buf" using 1 Ok a by (simp add: packet_post_def)
        let ?s = "s\<lparr>us_pkt_buf := buf, us_recv_buf := upd (us_recv_buf s) assembled (sub buf 32 (n - 32))\<rparr>"
        have "io_post (receive_chunks px hdr ecc total_msg controlled wait (ci + 1) (assembled + (n - 32))) (?s, os')
                (\<lambda>r st. chunk_post s r (fst st))" if "0 < n - 32" "assembled + (n - 32) \<le> unat (hdr_payload_len hdr)"
        proof -
          have len: "length (us_recv_buf ?s) = length (us_recv_buf s)" using that(2) less.prems n by simp
          then have "chunk_post ?s = chunk_post s" by (intro ext) (simp add: chunk_post_def split: outcome.split)
          moreover have "unat (hdr_payload_len hdr) - (assembled + (n - 32)) < unat (hdr_payload_len hdr) - assembled"
            using that True by linarith
          ultimately show ?thesis using less.hyps [of "assembled + (n - 32)" ?s "ci + 1" os'] less.prems len by simp
        qed
        then show ?thesis using step [of n buf] n less.prems
          by (auto simp: Ok a slice_rng_def copy_from_slice_def sub_def chunk_post_def [of _ "Err _"] split: outcome.splits)
      qed (use 1 in \<open>auto simp: packet_post_def chunk_post_def\<close>)
    qed
  qed
qed

lemma batch_dir_validate_no_panic: "batch_dir_validate buf n p \<noteq> Panic"
  using batch_dir_decode_no_panic [of buf n p] by (cases "batch_dir_decode buf n p") (simp_all add: batch_dir_validate_decode)

lemma validate_batch_no_panic: "validate_batch hdr payload \<noteq> Panic"
proof -
  let ?d = "unat (hdr_item_count hdr) * 8"
  have "?d + 7 \<le> USIZE_MAX" using u32_lt [of "hdr_item_count hdr"] by (simp add: USIZE_MAX_def)
  then have "usize_wrap ?d = ?d" "?d \<le> align8 ?d" using align8_bounds by (auto simp: usize_wrap_def)
  then show ?thesis
    using batch_dir_validate_no_panic by (auto simp: validate_batch_def Let_def slice_rng_def intro!: map_err_no_panic)
qed

definition message_post :: "uds_session \<Rightarrow> header \<Rightarrow> (uds_error, received) outcome \<Rightarrow> uds_session \<Rightarrow> bool" where
  "message_post s hdr r s' \<longleftrightarrow>
     (case r of
        Ok m \<Rightarrow> rcv_hdr m = hdr \<and> length (rcv_payload m) = unat (hdr_payload_len hdr) \<and>
                validate_batch hdr (rcv_payload m) = Ok () \<and> us_inflight_ids s' = us_inflight_ids s
      | Err e \<Rightarrow> True | Panic \<Rightarrow> False)"

lemma message_post_simps [simp]:
  "message_post s hdr (Err e) s'" "\<not> message_post s hdr Panic s'"
  "message_post s hdr (Ok m) s' \<longleftrightarrow> rcv_hdr m = hdr \<and> length (rcv_payload m) = unat (hdr_payload_len hdr) \<and>
     validate_batch hdr (rcv_payload m) = Ok () \<and> us_inflight_ids s' = us_inflight_ids s"
  by (simp_all add: message_post_def)

text \<open>The tail of both branches: the batch check and the returned value.\<close>

lemma deliver_post:
  assumes "length payload = unat (hdr_payload_len hdr)" "us_inflight_ids s' = us_inflight_ids s"
  shows "case validate_batch hdr payload of
      Ok u \<Rightarrow> message_post s hdr (Ok \<lparr>rcv_hdr = hdr, rcv_payload = payload, rcv_in_session = b, rcv_buf = buf\<rparr>) s'
    | Err e \<Rightarrow> message_post s hdr (Err e) s' | Panic \<Rightarrow> message_post s hdr Panic s'"
  using assms validate_batch_no_panic [of hdr payload] by (cases "validate_batch hdr payload") auto

lemma receive_chunked_post:
  assumes "recv_bounded px" "32 \<le> n" "n \<le> length buf" "n - 32 \<le> unat (hdr_payload_len hdr)"
  shows "io_post (receive_chunked px buf n hdr controlled wait) (s, os) (\<lambda>r st. message_post s hdr r (fst st))"
proof -
  let ?len = "unat (hdr_payload_len hdr)"
  have "io_post (receive_chunks px hdr ecc total_msg controlled wait ci assembled) (s', os) (\<lambda>r st.
      case r of Ok _ \<Rightarrow> us_inflight_ids (fst st) = us_inflight_ids s \<and> ?len \<le> length (us_recv_buf (fst st)) | Err e \<Rightarrow> True | Panic \<Rightarrow> False)"
    if "us_inflight_ids s' = us_inflight_ids s" "?len \<le> length (us_recv_buf s')" for ecc total_msg ci assembled s' os
    by (rule io_post_mono [OF receive_chunks_post [OF assms(1) that(2)]]) (use that in \<open>auto simp: chunk_post_def split: outcome.splits\<close>)
  note chunks = this
  have pre: "slice_rng buf 32 n = (Ok (sub buf 32 (n - 32)) :: (uds_error, bytes) outcome)" "32 + (n - 32) = n"
    "copy_from_slice (grow (us_recv_buf s) ?len) 0 (n - 32) (sub buf 32 (n - 32))
       = (Ok (upd (grow (us_recv_buf s) ?len) 0 (sub buf 32 (n - 32))) :: (uds_error, bytes) outcome)"
    using assms by (auto simp: slice_rng_def copy_from_slice_def)
  have "io_post (receive_chunks px hdr ecc (32 + ?len) controlled wait 1 (n - 32))
      (s\<lparr>us_recv_buf := upd (grow (us_recv_buf s) ?len) 0 (sub buf 32 (n - 32)),
         us_pkt_buf := grow (us_pkt_buf s) (unat (us_packet_size s))\<rparr>, os)
      (\<lambda>r t. case r of
         Ok a \<Rightarrow> (case (slice_rng (us_recv_buf (fst t)) 0 ?len :: (uds_error, bytes) outcome) of
             Ok a \<Rightarrow> (case validate_batch hdr a of
                 Ok aa \<Rightarrow> length a = ?len \<and> us_inflight_ids (fst t) = us_inflight_ids s | Err e \<Rightarrow> True | Panic \<Rightarrow> False)
           | Err e \<Rightarrow> True | Panic \<Rightarrow> False)
       | Err e \<Rightarrow> True | Panic \<Rightarrow> False)" for ecc
  proof (rule io_post_mono, rule chunks, goal_cases)
    case (3 r t)
    then show ?case using validate_batch_no_panic by (cases r) (auto simp: slice_rng_def split: outcome.splits)
  qed (use assms in auto)
  then show ?thesis
    unfolding receive_chunked_def
    by (simp add: io_posts Let_def HEADER_SIZE_def pre case_prod_beta cong: outcome.case_cong)
qed

lemma receive_body_post:
  assumes "recv_bounded px" "32 \<le> n" "n \<le> length buf"
  shows "io_post (receive_body px buf n hdr controlled wait) (s, os) (\<lambda>r st. message_post s hdr r (fst st))"
proof (cases "n = 32 + unat (hdr_payload_len hdr)")
  case True
  then show ?thesis
    using assms validate_batch_no_panic
    by (auto simp: receive_body_def io_posts Let_def HEADER_SIZE_def slice_rng_def split: outcome.splits)
next
  case False
  then show ?thesis
    using receive_chunked_post [OF assms, of hdr controlled wait s os]
    by (simp add: receive_body_def io_posts Let_def HEADER_SIZE_def)
qed

lemma check_received_ok:
  "check_received s hdr = Ok () \<longleftrightarrow>
     hdr_payload_len hdr \<le> (if us_role s = Role_Server then us_max_request_payload_bytes s else us_max_response_payload_bytes s) \<and>
     hdr_item_count hdr \<le> (if us_role s = Role_Server then us_max_request_batch_items s else us_max_response_batch_items s) \<and>
     (us_role s = Role_Client \<and> hdr_kind hdr = KIND_RESPONSE \<longrightarrow> hdr_message_id hdr \<in> us_inflight_ids s)"
  by (cases "us_role s") (simp_all add: check_received_def Let_def flip: not_less)

lemma check_received_no_panic: "check_received s hdr \<noteq> Panic"
  by (simp add: check_received_def Let_def)

definition accepted_post :: "uds_session \<Rightarrow> (uds_error, received) outcome \<Rightarrow> uds_session \<Rightarrow> bool" where
  "accepted_post s r s' \<longleftrightarrow>
     (case r of Ok m \<Rightarrow> header_valid (rcv_hdr m) \<and> check_received s (rcv_hdr m) = Ok () \<and>
                        message_post (track_received s (rcv_hdr m)) (rcv_hdr m) r s'
      | Err e \<Rightarrow> True | Panic \<Rightarrow> False)"

lemma accepted_post_simps [simp]: "accepted_post s (Err e) s'" "\<not> accepted_post s Panic s'"
  by (simp_all add: accepted_post_def)

lemma message_accepted:
  "message_post (track_received s hdr) hdr r s' \<Longrightarrow> header_valid hdr \<Longrightarrow> check_received s hdr = Ok () \<Longrightarrow> accepted_post s r s'"
  by (cases r) (auto simp: accepted_post_def)

lemma receive_message_post:
  assumes "recv_bounded px"
  shows "io_post (receive_message px buf controlled wait) (s, os) (\<lambda>r st. accepted_post s r (fst st))"
  unfolding receive_message_def
proof (simp add: io_posts HEADER_SIZE_def cong: outcome.case_cong,
    rule io_post_mono [OF raw_recv_control_post [OF assms]], goal_cases)
  case (1 r os')
  show ?case
  proof (cases r)
    case (Ok a)
    obtain n buf' where a: "a = (n, buf')" by (cases a)
    have n: "n \<le> length buf'" using 1 Ok a by (simp add: packet_post_def)
    have pkt: "slice_rng buf' 0 n = (Ok (take n buf') :: (uds_error, bytes) outcome)"
      using n by (simp add: slice_rng_def sub_def)
    have body: "io_post (receive_body px buf' n hdr controlled wait) (track_received s hdr, os') (\<lambda>r st. accepted_post s r (fst st))"
      if "\<not> n < 32" "header_valid hdr" "check_received s hdr = Ok ()" for hdr
      using that message_accepted by (auto intro!: io_post_mono [OF receive_body_post [OF assms _ n]])
    have "case header_decode (take n buf') of
        Ok hdr \<Rightarrow> header_valid hdr | Err e \<Rightarrow> True | Panic \<Rightarrow> False"
      using hdr.decode_valid hdr.decode_no_panic by (auto split: outcome.splits)
    then show ?thesis
      using body by (auto simp: Ok a pkt io_posts check_received_no_panic split: outcome.splits)
  qed (use 1 in \<open>auto simp: packet_post_def\<close>)
qed

text \<open>C11: Receiving is safe against any peer: whatever arrives, \<open>receive\<close> never panics; a message it returns carries a
  valid header and exactly the announced number of payload bytes, within the negotiated limits of its direction, a
  batch with a directory that is in bounds. A message of kind RESPONSE is returned to a client only for an id in flight,
  which is taken out of the in-flight set; a message of another kind is returned with any id and leaves the set
  alone.\<close>

theorem uds_receive_safe:
  assumes "recv_bounded px" "uds_receive_with_control px buf timeout_ms abort (s, os) = Some (r, (s', os'))"
  shows "case r of
      Ok m \<Rightarrow> header_valid (rcv_hdr m) \<and> length (rcv_payload m) = unat (hdr_payload_len (rcv_hdr m)) \<and>
              hdr_payload_len (rcv_hdr m) \<le> (if us_role s = Role_Server then us_max_request_payload_bytes s else us_max_response_payload_bytes s) \<and>
              hdr_item_count (rcv_hdr m) \<le> (if us_role s = Role_Server then us_max_request_batch_items s else us_max_response_batch_items s) \<and>
              validate_batch (rcv_hdr m) (rcv_payload m) = Ok () \<and>
              (if us_role s = Role_Client \<and> hdr_kind (rcv_hdr m) = KIND_RESPONSE
               then hdr_message_id (rcv_hdr m) \<in> us_inflight_ids s \<and>
                    us_inflight_ids s' = us_inflight_ids s - {hdr_message_id (rcv_hdr m)}
               else us_inflight_ids s' = us_inflight_ids s)
    | Err e \<Rightarrow> True
    | Panic \<Rightarrow> False"
proof -
  have "io_post (uds_receive_with_control px buf timeout_ms abort) (s, os) (\<lambda>r st. accepted_post s r (fst st))"
    by (simp add: uds_receive_with_control_def receive_wait_new_def io_posts receive_message_post [OF assms(1)] split: prod.splits)
  then have "accepted_post s r s'" using assms(2) by (simp add: io_post_def)
  then show ?thesis
    by (cases r) (simp_all add: accepted_post_def check_received_ok track_received_def)
qed

lemma loop_px_seqpacket: "seqpacket_out loop_px fd (\<lambda>q. q)" "seqpacket_in loop_px fd (\<lambda>q. q)"
  by (auto simp: seqpacket_out_def seqpacket_in_def loop_px_def)

definition example_session :: "role \<Rightarrow> uds_session" where
  "example_session role = \<lparr>us_fd = 4, us_role = role, us_max_request_payload_bytes = 1024, us_max_request_batch_items = 1,
     us_max_response_payload_bytes = 1024, us_max_response_batch_items = 1, us_packet_size = 40,
     us_selected_profile = PROFILE_BASELINE, us_session_id = 1, us_recv_buf = [], us_pkt_buf = [], us_inflight_ids = {}\<rparr>"

text \<open>A request of 20 bytes over packets of 40 bytes: three chunks.\<close>

theorem uds_message_roundtrip_witness:
  "case uds_send loop_px (header_default\<lparr>hdr_kind := KIND_REQUEST, hdr_item_count := 1, hdr_message_id := 7\<rparr>) (replicate 20 65)
          (example_session Role_Client, []) of
     Some (Ok hdr, (a, q)) \<Rightarrow>
       (case uds_receive loop_px (replicate 40 0) (example_session Role_Server, q) of
          Some (Ok r, (b, q')) \<Rightarrow> rcv_hdr r = hdr \<and> rcv_payload r = replicate 20 65 \<and> q' = []
        | _ \<Rightarrow> False)
   | _ \<Rightarrow> False"
proof -
  let ?a = "example_session Role_Client" and ?b = "example_session Role_Server" and ?p = "replicate 20 65"
  let ?h = "header_default\<lparr>hdr_kind := KIND_REQUEST, hdr_item_count := 1, hdr_message_id := 7\<rparr>"
  have pre: "session_peers ?a ?b" "us_fd ?b \<ge> 0" "32 < unat (us_packet_size ?a)" "sendable ?a ?h ?p"
      "us_role ?b \<noteq> Role_Client" "validate_batch (fill_envelope ?h ?p) ?p = Ok ()"
      "unat (us_packet_size ?a) \<le> length (replicate 40 (0 :: u8))"
    by (simp_all add: session_peers_def example_session_def sendable_def session_limits_def U32_MAX_def HEADER_SIZE_def
        validate_batch_def header_default_def)
  have k: "KIND_REQUEST \<le> hdr_kind ?h" "hdr_kind ?h \<le> KIND_CONTROL" by (simp_all add: KIND_REQUEST_def KIND_CONTROL_def)
  have nc: "us_role ?b = Role_Client \<Longrightarrow> hdr_kind ?h = KIND_RESPONSE \<Longrightarrow> hdr_message_id ?h \<in> us_inflight_ids ?b"
    by (simp add: example_session_def)
  obtain sent q where s: "uds_send loop_px ?h ?p (?a, []) = Some (Ok (fill_envelope ?h ?p), (track_sent ?a ?h, q))"
      and q: "q = [] @ sent"
      and r: "\<forall>osb rest. osb = sent @ rest \<longrightarrow>
        (\<exists>r b' osb'. uds_receive loop_px (replicate 40 0) (?b, osb) = Some (Ok r, (b', osb')) \<and>
           rcv_hdr r = fill_envelope ?h ?p \<and> rcv_payload r = ?p \<and> osb' = rest \<and>
           b' = (track_received ?b ?h)\<lparr>us_pkt_buf := us_pkt_buf b', us_recv_buf := us_recv_buf b'\<rparr>)"
    using uds_message_roundtrip [OF loop_px_seqpacket pre(1-4) k nc pre(6,7), of "[]"] by blast
  obtain m b' where m: "uds_receive loop_px (replicate 40 0) (?b, q) = Some (Ok m, (b', []))"
      "rcv_hdr m = fill_envelope ?h ?p" "rcv_payload m = ?p"
    using r [THEN spec, of q, THEN spec, of "[]"] q by auto
  show ?thesis unfolding s by (simp only: option.case outcome.case prod.case m)
qed

text \<open>A response to request 7 reaches a client with the requests 7 and 8 in flight.\<close>

definition response_px_state :: "bytes list" where
  "response_px_state = [header_wire (fill_envelope
     (header_default\<lparr>hdr_kind := KIND_RESPONSE, hdr_item_count := 1, hdr_message_id := 7\<rparr>) [65, 66]) @ [65, 66]]"

lemma response_received:
  "\<exists>m s' q. uds_receive_with_control loop_px (replicate 40 0) 0 False
      ((example_session Role_Client)\<lparr>us_inflight_ids := {7, 8}\<rparr>, response_px_state) = Some (Ok m, (s', q)) \<and>
    hdr_kind (rcv_hdr m) = KIND_RESPONSE \<and> hdr_message_id (rcv_hdr m) = 7"
proof -
  let ?h = "fill_envelope (header_default\<lparr>hdr_kind := KIND_RESPONSE, hdr_item_count := 1, hdr_message_id := 7\<rparr>) [65, 66]"
  let ?s = "(example_session Role_Client)\<lparr>us_inflight_ids := {7, 8}\<rparr>"
  have "header_valid ?h" by (rule fill_envelope_valid) (simp_all add: KIND_RESPONSE_def KIND_REQUEST_def KIND_CONTROL_def)
  then have "receivable ?s ?h [65, 66]"
    by (simp add: receivable_def U32_MAX_def check_received_ok example_session_def validate_batch_def header_default_def fill_envelope_def)
  from receive_single [OF this recv_delivers_plain [OF loop_px_seqpacket(2)], of response_px_state "[]" "replicate 40 0"
      "\<lparr>rw_deadline = None, rw_abort = False\<rparr>"]
  show ?thesis
    by (auto simp: response_px_state_def uds_receive_with_control_def receive_wait_new_def io_ret_def io_bind_Ok example_session_def)
qed

theorem uds_receive_safe_witness:
  "case uds_receive_with_control loop_px (replicate 40 0) 0 False
      ((example_session Role_Client)\<lparr>us_inflight_ids := {7, 8}\<rparr>, response_px_state) of
     Some (Ok m, (s', q)) \<Rightarrow> length (rcv_payload m) = unat (hdr_payload_len (rcv_hdr m)) \<and> us_inflight_ids s' = {8}
   | _ \<Rightarrow> False"
proof -
  obtain m s' q where r: "uds_receive_with_control loop_px (replicate 40 0) 0 False
      ((example_session Role_Client)\<lparr>us_inflight_ids := {7, 8}\<rparr>, response_px_state) = Some (Ok m, (s', q))"
      "hdr_kind (rcv_hdr m) = KIND_RESPONSE" "hdr_message_id (rcv_hdr m) = 7"
    using response_received by blast
  have "{7, 8} - {7} = {8 :: u64}" by auto
  then show ?thesis
    using uds_receive_safe [OF loop_px_recv_bounded r(1)] r(2,3) unfolding r(1) by (simp add: example_session_def)
qed

text \<open>C37: The kind of a received message is not checked on the client's side. A client session returns every message of kind
  REQUEST or CONTROL that is well formed and within its response limits, whatever its id, with nothing in flight as well.\<close>

theorem uds_client_takes_any_kind:
  assumes "seqpacket_in px (us_fd s) inc" "us_fd s \<ge> 0" "us_role s = Role_Client"
    and "header_valid hdr" "hdr_kind hdr \<noteq> KIND_RESPONSE"
    and "hdr_payload_len hdr = word_of_nat (length payload)" "32 + length payload \<le> U32_MAX"
    and "hdr_payload_len hdr \<le> us_max_response_payload_bytes s" "hdr_item_count hdr \<le> us_max_response_batch_items s"
    and "validate_batch hdr payload = Ok ()" "32 + length payload \<le> length buf"
    and "inc os = (header_wire hdr @ payload) # rest"
  shows "\<exists>r s' os'. uds_receive px buf (s, os) = Some (Ok r, (s', os')) \<and> rcv_hdr r = hdr \<and> rcv_payload r = payload \<and>
    us_inflight_ids s' = us_inflight_ids s \<and> inc os' = rest"
proof -
  have "receivable s hdr payload" using assms(3-10) by (simp add: receivable_def check_received_ok)
  from receive_single [OF this recv_delivers_plain [OF assms(1)] assms(12,11)]
  obtain r os' where "receive_message px buf False \<lparr>rw_deadline = None, rw_abort = False\<rparr> (s, os) = Some (Ok r, (track_received s hdr, os'))"
      "rcv_hdr r = hdr" "rcv_payload r = payload" "inc os' = rest" by blast
  moreover have "us_inflight_ids (track_received s hdr) = us_inflight_ids s" using assms(5) by (simp add: track_received_def)
  ultimately show ?thesis
    using assms(2) by (simp add: uds_receive_def uds_receive_with_control_def receive_wait_new_def io_ret_def io_bind_Ok)
qed

theorem uds_client_takes_any_kind_witness:
  "\<exists>r s' q. uds_receive loop_px (replicate 40 0) (example_session Role_Client, [header_wire (fill_envelope
       (header_default\<lparr>hdr_kind := KIND_REQUEST, hdr_message_id := 5\<rparr>) [65]) @ [65]]) = Some (Ok r, (s', q)) \<and>
     hdr_kind (rcv_hdr r) = KIND_REQUEST \<and> us_inflight_ids s' = {}"
proof -
  let ?h = "fill_envelope (header_default\<lparr>hdr_kind := KIND_REQUEST, hdr_message_id := 5\<rparr>) [65]"
  have v: "header_valid ?h" by (rule fill_envelope_valid) (simp_all add: KIND_REQUEST_def KIND_CONTROL_def)
  from uds_client_takes_any_kind [OF loop_px_seqpacket(2) _ _ this, of "example_session Role_Client" "[65]" "replicate 40 0"
      "[header_wire ?h @ [65]]" "[]"]
  show ?thesis
    by (auto simp: example_session_def U32_MAX_def validate_batch_def header_default_def fill_envelope_def KIND_REQUEST_def KIND_RESPONSE_def)
qed

end
