(* ===== verification/Uds_Handshake.thy ===== *)
theory Uds_Handshake
  imports Uds_Channel
begin

unbundle bit_operations_syntax

text \<open>
  Connection set-up of the Unix transport (\<open>transport/posix.rs\<close>): configuration, endpoint names and socket paths,
  binding and connecting, recovery of stale endpoints, the listener, and the two sides of the handshake. The main
  results: both sides agree on the outcome of the handshake and on the limits of the session, and the path of every
  accepted endpoint fits the socket address.
\<close>

section \<open>Configuration\<close>

record client_config =
  cc_supported_profiles :: u32
  cc_preferred_profiles :: u32
  cc_max_request_payload_bytes :: u32
  cc_max_request_batch_items :: u32
  cc_max_response_payload_bytes :: u32
  cc_max_response_batch_items :: u32
  cc_auth_token :: u64
  cc_packet_size :: u32

definition client_config_default :: client_config where
  "client_config_default = \<lparr>cc_supported_profiles = PROFILE_BASELINE, cc_preferred_profiles = 0, cc_max_request_payload_bytes = 0,
     cc_max_request_batch_items = 0, cc_max_response_payload_bytes = 0, cc_max_response_batch_items = 0, cc_auth_token = 0,
     cc_packet_size = 0\<rparr>"

record server_config =
  sc_supported_profiles :: u32
  sc_preferred_profiles :: u32
  sc_max_request_payload_bytes :: u32
  sc_max_request_batch_items :: u32
  sc_max_response_payload_bytes :: u32
  sc_max_response_batch_items :: u32
  sc_auth_token :: u64
  sc_packet_size :: u32
  sc_backlog :: int

definition server_config_default :: server_config where
  "server_config_default = \<lparr>sc_supported_profiles = PROFILE_BASELINE, sc_preferred_profiles = 0, sc_max_request_payload_bytes = 0,
     sc_max_request_batch_items = 0, sc_max_response_payload_bytes = 0, sc_max_response_batch_items = 0, sc_auth_token = 0,
     sc_packet_size = 0, sc_backlog = 0\<rparr>"

definition apply_default :: "u32 \<Rightarrow> u32 \<Rightarrow> u32" where
  "apply_default val def = (if val = 0 then def else val)"

text \<open>\<open>u32::leading_zeros\<close>, and the highest set bit of a mask.\<close>

definition leading_zeros :: "u32 \<Rightarrow> nat" where
  "leading_zeros w = length (takeWhile (\<lambda>i. \<not> bit w i) (rev [0..<32]))"

definition highest_bit :: "u32 \<Rightarrow> u32" where
  "highest_bit msk = (if msk = 0 then 0 else push_bit (31 - leading_zeros msk) 1)"

definition detect_packet_size :: "'os posix \<Rightarrow> int \<Rightarrow> ('os, u32) uds_io" where
  "detect_packet_size px fd =
     io_bind (io_call (px_sndbuf px fd)) (\<lambda>(rc, val).
     io_ret (if rc < 0 \<or> val \<le> 0 then DEFAULT_PACKET_SIZE_FALLBACK else word_of_int val))"

section \<open>Service names and socket paths\<close>

text \<open>\<open>struct sockaddr_un\<close> of the platform: its size, the size of \<open>sa_family_t\<close>, and the size of \<open>sun_path\<close>.\<close>

record sockaddr_layout =
  sl_sizeof :: usize
  sl_sizeof_family :: usize
  sl_sun_path :: usize

definition service_name_char :: "u8 \<Rightarrow> bool" where
  "service_name_char c \<longleftrightarrow> (97 \<le> c \<and> c \<le> 122) \<or> (65 \<le> c \<and> c \<le> 90) \<or> (48 \<le> c \<and> c \<le> 57) \<or> c = 46 \<or> c = 95 \<or> c = 45"

definition validate_service_name :: "bytes \<Rightarrow> (uds_error, unit) outcome" where
  "validate_service_name name =
     (if name = [] then Err Uds_BadParam
      else if name = [46] \<or> name = [46, 46] then Err Uds_BadParam
      else if list_all service_name_char name then Ok ()
      else Err Uds_BadParam)"

definition build_socket_path :: "sockaddr_layout \<Rightarrow> bytes \<Rightarrow> bytes \<Rightarrow> (uds_error, bytes) outcome" where
  "build_socket_path lay run_dir service_name =
     rbind (validate_service_name service_name) (\<lambda>_.
     let path = run_dir @ [47] @ service_name @ [46, 115, 111, 99, 107];
         max_sun_path = usize_sub (sl_sizeof lay) (sl_sizeof_family lay) in
     if length path \<ge> max_sun_path then Err Uds_PathTooLong else Ok path)"

text \<open>The unchecked copy of the path and its terminating NUL into \<open>sun_path\<close>. A copy that does not fit is
  undefined behaviour; it has the value \<open>Panic\<close> here.\<close>

definition sun_path_copy :: "sockaddr_layout \<Rightarrow> bytes \<Rightarrow> (uds_error, bytes) outcome" where
  "sun_path_copy lay path =
     (if 0 \<in> set path then Err Uds_PathTooLong
      else
        let path_bytes = path @ [0] in
        if length path_bytes \<le> sl_sun_path lay then Ok (upd (replicate (sl_sun_path lay) 0) 0 path_bytes) else Panic)"

definition bind_unix :: "sockaddr_layout \<Rightarrow> 'os posix \<Rightarrow> int \<Rightarrow> bytes \<Rightarrow> ('os, unit) uds_io" where
  "bind_unix lay px fd path =
     io_bind (io_lift (sun_path_copy lay path)) (\<lambda>addr.
     io_bind (io_call (px_bind px fd addr)) (\<lambda>rc.
     if rc < 0 then io_bind (io_get (px_errno px)) (\<lambda>e. io_err (Uds_Socket e)) else io_ret ()))"

definition connect_unix :: "sockaddr_layout \<Rightarrow> 'os posix \<Rightarrow> int \<Rightarrow> bytes \<Rightarrow> ('os, unit) uds_io" where
  "connect_unix lay px fd path =
     io_bind (io_lift (sun_path_copy lay path)) (\<lambda>addr.
     io_bind (io_call (px_connect px fd addr)) (\<lambda>rc.
     if rc < 0 then io_bind (io_get (px_errno px)) (\<lambda>e. io_err (Uds_Connect e)) else io_ret ()))"

section \<open>Stale endpoint recovery\<close>

datatype stale_result = NotExist | Stale | LiveServer

definition remove_stale :: "'os posix \<Rightarrow> bytes \<Rightarrow> ('os, stale_result) uds_io" where
  "remove_stale px path =
     io_bind (io_call (px_remove_file px path)) (\<lambda>err.
     if err = 0 then io_ret Stale
     else if err = ENOENT then io_ret NotExist
     else if err = EISDIR then
       io_bind (io_call (px_remove_dir px path)) (\<lambda>err. io_ret (if err = 0 then Stale else LiveServer))
     else io_ret LiveServer)"

definition check_and_recover_stale :: "sockaddr_layout \<Rightarrow> 'os posix \<Rightarrow> bytes \<Rightarrow> ('os, stale_result) uds_io" where
  "check_and_recover_stale lay px path =
     io_bind (io_call (px_exists px path)) (\<lambda>present.
     if \<not> present then io_ret NotExist
     else
       io_bind (io_call (px_socket px)) (\<lambda>probe.
       if probe < 0 then io_ret LiveServer
       else
         io_bind
           (io_on_err (io_bind (connect_unix lay px probe path) (\<lambda>_. io_ret LiveServer))
              (\<lambda>err. if err = Uds_Connect ENOENT then io_ret NotExist else remove_stale px path)) (\<lambda>result.
         io_bind (io_mod (px_close px probe)) (\<lambda>_.
         io_ret result))))"

section \<open>Handshake packets\<close>

definition header_version_incompatible :: "bytes \<Rightarrow> u16 \<Rightarrow> ('e, bool) outcome" where
  "header_version_incompatible buf expected_code =
     (if length buf < HEADER_SIZE then Ok False
      else
        rbind (u32_at buf 0) (\<lambda>magic.
        rbind (u16_at buf 4) (\<lambda>version.
        rbind (u16_at buf 6) (\<lambda>header_len.
        rbind (u16_at buf 8) (\<lambda>kind.
        rbind (u16_at buf 12) (\<lambda>code.
        Ok (magic = MAGIC_MSG \<and> version \<noteq> VERSION \<and> header_len = HEADER_LEN \<and> kind = KIND_CONTROL \<and> code = expected_code)))))))"

definition hello_layout_incompatible :: "bytes \<Rightarrow> ('e, bool) outcome" where
  "hello_layout_incompatible buf =
     (if length buf \<ge> 2 then rbind (u16_at buf 0) (\<lambda>v. Ok (v \<noteq> 1)) else Ok False)"

definition hello_ack_layout_incompatible :: "bytes \<Rightarrow> ('e, bool) outcome" where
  "hello_ack_layout_incompatible buf =
     (if length buf \<ge> 2 then rbind (u16_at buf 0) (\<lambda>v. Ok (v \<noteq> 1)) else Ok False)"

definition control_header :: "u16 \<Rightarrow> u16 \<Rightarrow> usize \<Rightarrow> header" where
  "control_header code status len =
     \<lparr>hdr_magic = MAGIC_MSG, hdr_version = VERSION, hdr_header_len = HEADER_LEN, hdr_kind = KIND_CONTROL, hdr_flags = 0,
      hdr_code = code, hdr_transport_status = status, hdr_payload_len = word_of_nat len, hdr_item_count = 1, hdr_message_id = 0\<rparr>"

text \<open>A control packet: the header encoded into the first 32 bytes, the payload copied behind it.\<close>

definition control_packet :: "header \<Rightarrow> bytes \<Rightarrow> ('e, bytes) outcome" where
  "control_packet hdr body =
     (let pkt = replicate (HEADER_SIZE + length body) 0 in
      rbind (header_encode hdr (take HEADER_SIZE pkt)) (\<lambda>(_, h).
      copy_from_slice (upd pkt 0 h) HEADER_SIZE (length pkt) body))"

section \<open>The client's side\<close>

definition client_hello :: "client_config \<Rightarrow> u32 \<Rightarrow> hello" where
  "client_hello config pkt_size =
     \<lparr>hello_layout_version = 1, hello_flags = 0,
      hello_supported_profiles = (if cc_supported_profiles config = 0 then PROFILE_BASELINE else cc_supported_profiles config),
      hello_preferred_profiles = cc_preferred_profiles config,
      hello_max_request_payload_bytes = apply_default (cc_max_request_payload_bytes config) MAX_PAYLOAD_DEFAULT,
      hello_max_request_batch_items = apply_default (cc_max_request_batch_items config) DEFAULT_BATCH_ITEMS,
      hello_max_response_payload_bytes = apply_default (cc_max_response_payload_bytes config) MAX_PAYLOAD_DEFAULT,
      hello_max_response_batch_items = apply_default (cc_max_response_batch_items config) DEFAULT_BATCH_ITEMS,
      hello_auth_token = cc_auth_token config, hello_packet_size = pkt_size\<rparr>"

text \<open>Up to the HELLO packet, and from the HELLO_ACK packet on.\<close>

definition client_send_hello :: "sockaddr_layout \<Rightarrow> 'os posix \<Rightarrow> int \<Rightarrow> bytes \<Rightarrow> client_config \<Rightarrow> ('os, unit) uds_io" where
  "client_send_hello lay px fd path config =
     io_bind (connect_unix lay px fd path) (\<lambda>_.
     io_bind (if cc_packet_size config = 0 then detect_packet_size px fd else io_ret (cc_packet_size config)) (\<lambda>pkt_size.
     io_bind (io_lift (hello_encode (client_hello config pkt_size) (replicate HELLO_PAYLOAD_SIZE 0))) (\<lambda>(_, hello_buf).
     io_bind (io_lift (control_packet (control_header CODE_HELLO STATUS_OK HELLO_PAYLOAD_SIZE) hello_buf)) (\<lambda>pkt.
     raw_send px fd pkt))))"

definition check_ack_status :: "header \<Rightarrow> (uds_error, unit) outcome" where
  "check_ack_status ack_hdr =
     (if hdr_kind ack_hdr \<noteq> KIND_CONTROL \<or> hdr_code ack_hdr \<noteq> CODE_HELLO_ACK then Err Uds_Protocol
      else if hdr_transport_status ack_hdr = STATUS_AUTH_FAILED then Err Uds_AuthFailed
      else if hdr_transport_status ack_hdr = STATUS_UNSUPPORTED then Err Uds_NoProfile
      else if hdr_transport_status ack_hdr = STATUS_INCOMPATIBLE then Err Uds_Incompatible
      else if hdr_transport_status ack_hdr = STATUS_LIMIT_EXCEEDED then Err Uds_LimitExceeded
      else if hdr_transport_status ack_hdr \<noteq> STATUS_OK then Err Uds_Handshake
      else Ok ())"

definition decode_ack :: "bytes \<Rightarrow> (uds_error, hello_ack) outcome" where
  "decode_ack payload =
     (case hello_ack_decode payload of
        Ok ack \<Rightarrow> Ok ack
      | Err e \<Rightarrow> rbind (hello_ack_layout_incompatible payload) (\<lambda>incompatible.
                 Err (if e = BadLayout \<and> incompatible then Uds_Incompatible else Uds_Protocol))
      | Panic \<Rightarrow> Panic)"

definition client_session :: "int \<Rightarrow> hello_ack \<Rightarrow> uds_session" where
  "client_session fd ack =
     \<lparr>us_fd = fd, us_role = Role_Client, us_max_request_payload_bytes = ack_agreed_max_request_payload_bytes ack,
      us_max_request_batch_items = ack_agreed_max_request_batch_items ack,
      us_max_response_payload_bytes = ack_agreed_max_response_payload_bytes ack,
      us_max_response_batch_items = ack_agreed_max_response_batch_items ack,
      us_packet_size = ack_agreed_packet_size ack, us_selected_profile = ack_selected_profile ack,
      us_session_id = ack_session_id ack, us_recv_buf = [], us_pkt_buf = [], us_inflight_ids = {}\<rparr>"

definition client_recv_ack :: "'os posix \<Rightarrow> int \<Rightarrow> ('os, uds_session) uds_io" where
  "client_recv_ack px fd =
     io_bind (raw_recv px fd (replicate 128 0)) (\<lambda>(n, buf).
     io_bind (io_lift (slice_rng buf 0 n)) (\<lambda>pkt.
     io_bind (io_lift (map_err (\<lambda>e. if e = BadVersion then Uds_Incompatible else Uds_Protocol) (header_decode pkt))) (\<lambda>ack_hdr.
     io_bind (io_lift (check_ack_status ack_hdr)) (\<lambda>_.
     if n < HEADER_SIZE + HELLO_ACK_PAYLOAD_SIZE then io_err Uds_Protocol
     else
       io_bind (io_lift (slice_rng buf HEADER_SIZE n)) (\<lambda>payload.
       io_bind (io_lift (decode_ack payload)) (\<lambda>ack.
       if ack_agreed_packet_size ack \<le> word_of_nat HEADER_SIZE then io_err Uds_Protocol
       else io_ret (client_session fd ack)))))))"

definition connect_and_handshake :: "sockaddr_layout \<Rightarrow> 'os posix \<Rightarrow> int \<Rightarrow> bytes \<Rightarrow> client_config \<Rightarrow> ('os, uds_session) uds_io" where
  "connect_and_handshake lay px fd path config =
     io_bind (client_send_hello lay px fd path config) (\<lambda>_. client_recv_ack px fd)"

definition uds_connect :: "sockaddr_layout \<Rightarrow> 'os posix \<Rightarrow> bytes \<Rightarrow> bytes \<Rightarrow> client_config \<Rightarrow> ('os, uds_session) uds_io" where
  "uds_connect lay px run_dir service_name config =
     io_bind (io_lift (build_socket_path lay run_dir service_name)) (\<lambda>path.
     io_bind (io_call (px_socket px)) (\<lambda>fd.
     if fd < 0 then io_bind (io_get (px_errno px)) (\<lambda>e. io_err (Uds_Socket e))
     else
       io_on_err (connect_and_handshake lay px fd path config)
         (\<lambda>err. io_bind (io_mod (px_close px fd)) (\<lambda>_. io_err err))))"

section \<open>The server's side\<close>

definition hello_ack_default :: hello_ack where
  "hello_ack_default = \<lparr>ack_layout_version = 0, ack_flags = 0, ack_server_supported_profiles = 0, ack_intersection_profiles = 0,
     ack_selected_profile = 0, ack_agreed_max_request_payload_bytes = 0, ack_agreed_max_request_batch_items = 0,
     ack_agreed_max_response_payload_bytes = 0, ack_agreed_max_response_batch_items = 0, ack_agreed_packet_size = 0,
     ack_session_id = 0\<rparr>"

definition send_rejection :: "'os posix \<Rightarrow> int \<Rightarrow> u16 \<Rightarrow> ('os, unit) uds_io" where
  "send_rejection px fd status =
     io_bind (io_lift (hello_ack_encode (hello_ack_default\<lparr>ack_layout_version := 1\<rparr>) (replicate HELLO_ACK_PAYLOAD_SIZE 0))) (\<lambda>(_, ack_buf).
     io_bind (io_lift (control_packet (control_header CODE_HELLO_ACK status HELLO_ACK_PAYLOAD_SIZE) ack_buf)) (\<lambda>pkt.
     io_on_err (raw_send px fd pkt) (\<lambda>_. io_ret ())))"

definition reject :: "'os posix \<Rightarrow> int \<Rightarrow> u16 \<Rightarrow> uds_error \<Rightarrow> ('os, 'a) uds_io" where
  "reject px fd status err = io_bind (send_rejection px fd status) (\<lambda>_. io_err err)"

definition server_recv_hello :: "'os posix \<Rightarrow> int \<Rightarrow> ('os, hello) uds_io" where
  "server_recv_hello px fd =
     io_bind (raw_recv px fd (replicate 128 0)) (\<lambda>(n, buf).
     io_bind (io_lift (slice_rng buf 0 n)) (\<lambda>pkt.
     io_bind
       (case header_decode pkt of
          Ok hdr \<Rightarrow> io_ret hdr
        | Err e \<Rightarrow>
            io_bind (io_lift (header_version_incompatible pkt CODE_HELLO)) (\<lambda>incompatible.
            if e = BadVersion \<and> incompatible then reject px fd STATUS_INCOMPATIBLE Uds_Incompatible else io_err Uds_Protocol)
        | Panic \<Rightarrow> io_lift Panic) (\<lambda>hdr.
     if hdr_kind hdr \<noteq> KIND_CONTROL \<or> hdr_code hdr \<noteq> CODE_HELLO then io_err Uds_Protocol
     else
       io_bind (io_lift (slice_rng buf HEADER_SIZE n)) (\<lambda>payload.
       case hello_decode payload of
         Ok hello \<Rightarrow> io_ret hello
       | Err e \<Rightarrow>
           io_bind (io_lift (hello_layout_incompatible payload)) (\<lambda>incompatible.
           if e = BadLayout \<and> incompatible then reject px fd STATUS_INCOMPATIBLE Uds_Incompatible else io_err Uds_Protocol)
       | Panic \<Rightarrow> io_lift Panic))))"

text \<open>The decision of the server, as status and error for a rejection or as the acknowledgement.\<close>

definition negotiate :: "server_config \<Rightarrow> u32 \<Rightarrow> u64 \<Rightarrow> hello \<Rightarrow> (u16 \<times> uds_error, hello_ack) outcome" where
  "negotiate config server_pkt_size session_id hello =
     (let s_req_pay = apply_default (sc_max_request_payload_bytes config) MAX_PAYLOAD_DEFAULT;
          s_resp_pay = apply_default (sc_max_response_payload_bytes config) MAX_PAYLOAD_DEFAULT;
          s_profiles = (if sc_supported_profiles config = 0 then PROFILE_BASELINE else sc_supported_profiles config);
          s_preferred = sc_preferred_profiles config;
          intersection = hello_supported_profiles hello AND s_profiles in
      if intersection = 0 then Err (STATUS_UNSUPPORTED, Uds_NoProfile)
      else if hello_auth_token hello \<noteq> sc_auth_token config then Err (STATUS_AUTH_FAILED, Uds_AuthFailed)
      else
        let preferred_intersection = intersection AND hello_preferred_profiles hello AND s_preferred;
            selected = (if preferred_intersection \<noteq> 0 then highest_bit preferred_intersection else highest_bit intersection) in
        if hello_max_request_payload_bytes hello > s_req_pay then Err (STATUS_LIMIT_EXCEEDED, Uds_LimitExceeded)
        else
          let agreed_pkt = min (hello_packet_size hello) server_pkt_size in
          if agreed_pkt \<le> word_of_nat HEADER_SIZE then Err (STATUS_INCOMPATIBLE, Uds_Incompatible)
          else
            Ok \<lparr>ack_layout_version = 1, ack_flags = 0, ack_server_supported_profiles = s_profiles,
                ack_intersection_profiles = intersection, ack_selected_profile = selected,
                ack_agreed_max_request_payload_bytes = hello_max_request_payload_bytes hello,
                ack_agreed_max_request_batch_items = hello_max_request_batch_items hello,
                ack_agreed_max_response_payload_bytes = s_resp_pay,
                ack_agreed_max_response_batch_items = hello_max_request_batch_items hello,
                ack_agreed_packet_size = agreed_pkt, ack_session_id = session_id\<rparr>)"

definition server_session :: "int \<Rightarrow> hello_ack \<Rightarrow> uds_session" where
  "server_session fd ack =
     \<lparr>us_fd = fd, us_role = Role_Server, us_max_request_payload_bytes = ack_agreed_max_request_payload_bytes ack,
      us_max_request_batch_items = ack_agreed_max_request_batch_items ack,
      us_max_response_payload_bytes = ack_agreed_max_response_payload_bytes ack,
      us_max_response_batch_items = ack_agreed_max_response_batch_items ack,
      us_packet_size = ack_agreed_packet_size ack, us_selected_profile = ack_selected_profile ack,
      us_session_id = ack_session_id ack, us_recv_buf = [], us_pkt_buf = [], us_inflight_ids = {}\<rparr>"

definition server_handshake :: "'os posix \<Rightarrow> int \<Rightarrow> server_config \<Rightarrow> u64 \<Rightarrow> ('os, uds_session) uds_io" where
  "server_handshake px fd config session_id =
     io_bind (if sc_packet_size config = 0 then detect_packet_size px fd else io_ret (sc_packet_size config)) (\<lambda>server_pkt_size.
     io_bind (server_recv_hello px fd) (\<lambda>hello.
     case negotiate config server_pkt_size session_id hello of
       Ok ack \<Rightarrow>
         io_bind (io_lift (hello_ack_encode ack (replicate HELLO_ACK_PAYLOAD_SIZE 0))) (\<lambda>(_, ack_buf).
         io_bind (io_lift (control_packet (control_header CODE_HELLO_ACK STATUS_OK HELLO_ACK_PAYLOAD_SIZE) ack_buf)) (\<lambda>pkt.
         io_bind (raw_send px fd pkt) (\<lambda>_.
         io_ret (server_session fd ack))))
     | Err (status, err) \<Rightarrow> reject px fd status err
     | Panic \<Rightarrow> io_lift Panic))"

section \<open>The listener\<close>

record uds_listener =
  ul_fd :: int
  ul_config :: server_config
  ul_path :: bytes
  ul_next_session_id :: u64

definition uds_listener_bind :: "sockaddr_layout \<Rightarrow> 'os posix \<Rightarrow> bytes \<Rightarrow> bytes \<Rightarrow> server_config \<Rightarrow> ('os, uds_listener) uds_io" where
  "uds_listener_bind lay px run_dir service_name config =
     io_bind (io_lift (build_socket_path lay run_dir service_name)) (\<lambda>path.
     io_bind (check_and_recover_stale lay px path) (\<lambda>stale.
     if stale = LiveServer then io_err Uds_AddrInUse
     else
       io_bind (io_call (px_socket px)) (\<lambda>fd.
       if fd < 0 then io_bind (io_get (px_errno px)) (\<lambda>e. io_err (Uds_Socket e))
       else
         io_bind (io_on_err (bind_unix lay px fd path)
                    (\<lambda>e. io_bind (io_mod (px_close px fd)) (\<lambda>_. io_err e))) (\<lambda>_.
         let backlog = (if sc_backlog config > 0 then sc_backlog config else DEFAULT_BACKLOG) in
         io_bind (io_call (px_listen px fd backlog)) (\<lambda>rc.
         if rc < 0 then
           io_bind (io_get (px_errno px)) (\<lambda>e.
           io_bind (io_mod (px_close px fd)) (\<lambda>_.
           io_bind (io_call (px_remove_file px path)) (\<lambda>_.
           io_err (Uds_Socket e))))
         else io_ret \<lparr>ul_fd = fd, ul_config = config, ul_path = path, ul_next_session_id = 1\<rparr>)))))"

definition set_payload_limits :: "uds_listener \<Rightarrow> u32 \<Rightarrow> u32 \<Rightarrow> uds_listener" where
  "set_payload_limits l max_request_payload_bytes max_response_payload_bytes =
     l\<lparr>ul_config := (ul_config l)\<lparr>sc_max_request_payload_bytes := max_request_payload_bytes,
        sc_max_response_payload_bytes := max_response_payload_bytes\<rparr>\<rparr>"

definition accept_with_config :: "'os posix \<Rightarrow> uds_listener \<Rightarrow> u64 \<Rightarrow> server_config \<Rightarrow> ('os, uds_session) uds_io" where
  "accept_with_config px l session_id config =
     io_bind (io_call (px_accept px (ul_fd l))) (\<lambda>client_fd.
     if client_fd < 0 then io_bind (io_get (px_errno px)) (\<lambda>e. io_err (Uds_Accept e))
     else
       io_on_err (server_handshake px client_fd config session_id)
         (\<lambda>e. io_bind (io_mod (px_close px client_fd)) (\<lambda>_. io_err e)))"

definition uds_accept :: "'os posix \<Rightarrow> (uds_listener \<times> 'os, uds_error, uds_session) io" where
  "uds_accept px =
     io_bind (io_get fst) (\<lambda>l.
     io_bind (io_mod (\<lambda>(l, os). (l\<lparr>ul_next_session_id := ul_next_session_id l + 1\<rparr>, os))) (\<lambda>_.
     io_snd (accept_with_config px l (ul_next_session_id l) (ul_config l))))"

definition uds_listener_drop :: "'os posix \<Rightarrow> uds_listener \<times> 'os \<Rightarrow> uds_listener \<times> 'os" where
  "uds_listener_drop px st =
     (case st of (l, os) \<Rightarrow>
       let (l, os) = (if ul_fd l \<ge> 0 then (l\<lparr>ul_fd := -1\<rparr>, px_close px (ul_fd l) os) else (l, os));
           (present, os) = px_exists px (ul_path l) os in
       (l, if present then snd (px_remove_file px (ul_path l) os) else os))"

section \<open>Profile selection\<close>

lemma takeWhile_rev_upt:
  fixes P :: "nat \<Rightarrow> bool"
  defines "k n \<equiv> length (takeWhile (\<lambda>i. \<not> P i) (rev [0..<n]))"
  assumes "\<exists>i<n. P i"
  shows "P (n - 1 - k n) \<and> (\<forall>j. n - 1 - k n < j \<and> j < n \<longrightarrow> \<not> P j)"
  using assms(2)
proof (induction n)
  case (Suc n)
  show ?case
  proof (cases "P n")
    case False
    then have "\<exists>i<n. P i" using Suc.prems less_antisym by blast
    then have ih: "P (n - 1 - k n) \<and> (\<forall>j. n - 1 - k n < j \<and> j < n \<longrightarrow> \<not> P j)" by (rule Suc.IH)
    have k: "Suc n - 1 - k (Suc n) = n - 1 - k n" using False by (simp add: k_def)
    show ?thesis unfolding k using ih False less_antisym by blast
  qed (auto simp: k_def)
qed simp

lemma highest_bit_bit:
  assumes "msk \<noteq> 0"
  shows "\<exists>i. highest_bit msk = push_bit i 1 \<and> bit msk i \<and> (\<forall>j>i. \<not> bit msk j)"
proof -
  obtain i where i: "bit msk i" using assms by (auto simp: bit_eq_iff)
  have len: "j < 32" if "bit msk j" for j using bit_imp_le_length [OF that] by simp
  have ex: "\<exists>i<32. bit msk i" using i len by blast
  define k where "k = 32 - 1 - leading_zeros msk"
  have "bit msk k \<and> (\<forall>j. k < j \<and> j < 32 \<longrightarrow> \<not> bit msk j)"
    using takeWhile_rev_upt [OF ex] unfolding k_def leading_zeros_def by blast
  moreover have "highest_bit msk = push_bit k 1" using assms by (simp add: highest_bit_def k_def)
  ultimately show ?thesis using len by blast
qed

text \<open>The profile a successful negotiation selects is one profile, supported by both sides; when the two preferences
  meet, it is one that both prefer.\<close>

abbreviation server_profiles :: "server_config \<Rightarrow> u32" where
  "server_profiles config \<equiv> (if sc_supported_profiles config = 0 then PROFILE_BASELINE else sc_supported_profiles config)"

lemma negotiate_selected:
  assumes "negotiate config pkt sid hello = Ok ack"
  shows "\<exists>i. ack_selected_profile ack = push_bit i 1 \<and> bit (hello_supported_profiles hello) i \<and> bit (server_profiles config) i \<and>
            ((hello_supported_profiles hello AND server_profiles config) AND hello_preferred_profiles hello AND sc_preferred_profiles config \<noteq> 0 \<longrightarrow>
             bit (hello_preferred_profiles hello) i \<and> bit (sc_preferred_profiles config) i)"
proof -
  let ?i = "hello_supported_profiles hello AND server_profiles config"
  let ?p = "?i AND hello_preferred_profiles hello AND sc_preferred_profiles config"
  have nz: "?i \<noteq> 0" and sel: "ack_selected_profile ack = (if ?p \<noteq> 0 then highest_bit ?p else highest_bit ?i)"
    using assms unfolding negotiate_def Let_def by (auto split: if_splits)
  obtain i where i: "highest_bit ?i = push_bit i 1" "bit ?i i" using highest_bit_bit [OF nz] by blast
  show ?thesis
  proof (cases "?p = 0")
    case True
    then show ?thesis using i sel unfolding bit_and_iff by (intro exI [of _ i]) simp
  next
    case False
    obtain j where j: "highest_bit ?p = push_bit j 1" "bit ?p j" using highest_bit_bit [OF False] by blast
    then show ?thesis using False sel unfolding bit_and_iff by (intro exI [of _ j]) simp
  qed
qed

section \<open>Handshake packets on the wire\<close>

lemma length_hello_wire [simp]: "length (hello_wire h) = 44"
  using hello.length_wire [of h] by (simp add: HELLO_SIZE_def)

lemma length_hello_ack_wire [simp]: "length (hello_ack_wire h) = 48"
  using ack.length_wire [of h] by (simp add: HELLO_ACK_SIZE_def)

lemma hello_encode_new: "hello_encode h (replicate HELLO_PAYLOAD_SIZE 0) = Ok (HELLO_SIZE, hello_wire h)"
  by (simp add: hello_encode_def hello_wire_def HELLO_SIZE_def HELLO_PAYLOAD_SIZE_def append_windows)

lemma hello_ack_encode_new: "hello_ack_encode h (replicate HELLO_ACK_PAYLOAD_SIZE 0) = Ok (HELLO_ACK_SIZE, hello_ack_wire h)"
  by (simp add: hello_ack_encode_def hello_ack_wire_def HELLO_ACK_SIZE_def HELLO_ACK_PAYLOAD_SIZE_def append_windows)

lemma control_packet_ok: "control_packet hdr body = Ok (header_wire hdr @ body)"
  by (simp add: control_packet_def Let_def HEADER_SIZE_def header_encode_new [unfolded HEADER_SIZE_def] copy_from_slice_def upd_def)

lemma control_header_valid: "header_valid (control_header code status len)"
  by (simp add: header_valid_def control_header_def KIND_REQUEST_def KIND_CONTROL_def)

lemma control_header_simps [simp]:
  "hdr_kind (control_header code status len) = KIND_CONTROL" "hdr_code (control_header code status len) = code"
  "hdr_transport_status (control_header code status len) = status"
  by (simp_all add: control_header_def)

text \<open>One end of a fresh connection: \<open>send\<close> and \<open>recv\<close> keep packet boundaries and order, sending and receiving do not
  disturb each other, and connecting and reading the buffer size move no packets.\<close>

definition seqpacket_end :: "'os posix \<Rightarrow> int \<Rightarrow> ('os \<Rightarrow> bytes list) \<Rightarrow> ('os \<Rightarrow> bytes list) \<Rightarrow> bool" where
  "seqpacket_end px fd inc out \<longleftrightarrow>
     (\<forall>data os. \<exists>os'. px_send px fd data os = (int (length data), os') \<and> out os' = out os @ [data] \<and> inc os' = inc os) \<and>
     (\<forall>len os p ps. inc os = p # ps \<longrightarrow>
        (\<exists>os'. px_recv px fd len os = ((int (min len (length p)), take len p), os') \<and> inc os' = ps \<and> out os' = out os)) \<and>
     (\<forall>addr os. out (snd (px_connect px fd addr os)) = out os) \<and>
     (\<forall>os. out (snd (px_sndbuf px fd os)) = out os \<and> inc (snd (px_sndbuf px fd os)) = inc os)"

lemma raw_send_ok:
  assumes "seqpacket_end px fd inc out"
  obtains os' where "raw_send px fd data os = Some (Ok (), os')" "out os' = out os @ [data]" "inc os' = inc os"
proof -
  obtain os' where "px_send px fd data os = (int (length data), os')" "out os' = out os @ [data]" "inc os' = inc os"
    using assms unfolding seqpacket_end_def by blast
  then show ?thesis using that by (simp add: raw_send_def io_bind_call io_ret_def)
qed

lemma raw_recv_packet:
  assumes "seqpacket_end px fd inc out" "inc os = p # ps" "p \<noteq> []" "length p \<le> length buf"
  obtains os' where "raw_recv px fd buf os = Some (Ok (length p, upd buf 0 p), os')" "inc os' = ps" "out os' = out os"
proof -
  have "\<exists>os'. px_recv px fd (length buf) os = ((int (min (length buf) (length p)), take (length buf) p), os') \<and> inc os' = ps \<and> out os' = out os"
    using assms(1,2) unfolding seqpacket_end_def by blast
  then obtain os' where "px_recv px fd (length buf) os = ((int (length p), p), os')" "inc os' = ps" "out os' = out os"
    using assms(4) by (auto simp: min_def)
  then show ?thesis using assms(3) that by (simp add: raw_recv_def io_bind_call io_ret_def)
qed

lemma packet_size_quiet:
  assumes "seqpacket_end px fd inc out"
  obtains k os' where "(if c = 0 then detect_packet_size px fd else io_ret c) os = Some (Ok k, os')" "out os' = out os" "inc os' = inc os"
proof (cases "c = 0")
  case True
  obtain rc val os' where s: "px_sndbuf px fd os = ((rc, val), os')" by (metis surj_pair)
  have "out os' = out os" "inc os' = inc os" using assms s unfolding seqpacket_end_def by (metis snd_conv)+
  then show ?thesis using True that by (auto simp: detect_packet_size_def io_bind_call s io_ret_def)
qed (auto simp: io_ret_def intro: that)

section \<open>Agreement\<close>

definition hello_packet :: "client_config \<Rightarrow> u32 \<Rightarrow> bytes" where
  "hello_packet config k = header_wire (control_header CODE_HELLO STATUS_OK 44) @ hello_wire (client_hello config k)"

definition ack_packet :: "u16 \<Rightarrow> hello_ack \<Rightarrow> bytes" where
  "ack_packet status ack = header_wire (control_header CODE_HELLO_ACK status 48) @ hello_ack_wire ack"

lemma client_send_hello_packet:
  assumes "seqpacket_end px fd inc out" "client_send_hello lay px fd path config os = Some (Ok (), os')"
  obtains k where "out os' = out os @ [hello_packet config k]"
proof -
  obtain os1 where c: "connect_unix lay px fd path os = Some (Ok (), os1)"
    using assms(2) by (auto simp: client_send_hello_def io_bind_def split: option.splits outcome.splits)
  have o1: "out os1 = out os"
    using c assms(1) unfolding connect_unix_def seqpacket_end_def
    by (auto simp: io_bind_def io_defs split: option.splits outcome.splits prod.splits if_splits) (metis snd_conv)
  obtain k os2 where k: "(if cc_packet_size config = 0 then detect_packet_size px fd else io_ret (cc_packet_size config)) os1
      = Some (Ok k, os2)" "out os2 = out os1" using packet_size_quiet [OF assms(1)] .
  obtain os3 where s: "raw_send px fd (hello_packet config k) os2 = Some (Ok (), os3)" "out os3 = out os2 @ [hello_packet config k]"
    using raw_send_ok [OF assms(1)] .
  have "client_send_hello lay px fd path config os = Some (Ok (), os3)"
    unfolding client_send_hello_def hello_encode_new control_packet_ok
    using c k(1) s(1) by (simp add: io_bind_Ok hello_packet_def HELLO_PAYLOAD_SIZE_def del: if_split)
  then show ?thesis using assms(2) s(2) k(2) o1 that by simp
qed

lemma server_recv_hello_ok:
  assumes "seqpacket_end px fd inc out" "inc os = hello_packet config k # ps"
  obtains os' where "server_recv_hello px fd os = Some (Ok (client_hello config k), os')" "inc os' = ps" "out os' = out os"
proof -
  let ?p = "hello_packet config k" and ?h = "header_wire (control_header CODE_HELLO STATUS_OK 44)"
  have len: "length ?p = 76" by (simp add: hello_packet_def)
  then have ne: "?p \<noteq> []" by auto
  obtain os' where r: "raw_recv px fd (replicate 128 0) os = Some (Ok (76, upd (replicate 128 0) 0 ?p), os')" "inc os' = ps" "out os' = out os"
    using raw_recv_packet [OF assms ne, of "replicate 128 0"] len by auto
  have pkt: "slice_rng (upd (replicate 128 0) 0 ?p) 0 76 = (Ok ?p :: (uds_error, bytes) outcome)"
    using len by (simp add: slice_rng_def)
  have body: "slice_rng (upd (replicate 128 0) 0 ?p) 32 76 = (Ok (hello_wire (client_hello config k)) :: (uds_error, bytes) outcome)"
    using sub_upd_tail [of "replicate 128 0" ?h "hello_wire (client_hello config k)"] by (simp add: slice_rng_def hello_packet_def)
  have "header_decode ?p = Ok (control_header CODE_HELLO STATUS_OK 44)"
    unfolding hello_packet_def by (intro hdr.decode_wire control_header_valid)
  moreover have "hello_decode (hello_wire (client_hello config k)) = Ok (client_hello config k)"
    using hello.decode_wire [of "client_hello config k" "[]"] by (simp add: hello_valid_def client_hello_def)
  ultimately have "server_recv_hello px fd os = Some (Ok (client_hello config k), os')"
    by (simp add: server_recv_hello_def io_bind_Ok r(1) pkt body HEADER_SIZE_def io_ret_def)
  then show ?thesis using r that by blast
qed

text \<open>What the client makes of an acknowledgement.\<close>

definition client_verdict :: "int \<Rightarrow> u16 \<Rightarrow> hello_ack \<Rightarrow> (uds_error, uds_session) outcome" where
  "client_verdict fd status ack =
     rbind (check_ack_status (control_header CODE_HELLO_ACK status 48)) (\<lambda>_.
       if ack_agreed_packet_size ack \<le> 32 then Err Uds_Protocol else Ok (client_session fd ack))"

lemma client_recv_ack_ok:
  assumes "seqpacket_end px fd inc out" "inc os = ack_packet status ack # ps" "hello_ack_valid ack"
  obtains os' where "client_recv_ack px fd os = Some (client_verdict fd status ack, os')" "inc os' = ps"
proof -
  let ?p = "ack_packet status ack" and ?h = "header_wire (control_header CODE_HELLO_ACK status 48)"
  have len: "length ?p = 80" by (simp add: ack_packet_def)
  then have ne: "?p \<noteq> []" by auto
  obtain os' where r: "raw_recv px fd (replicate 128 0) os = Some (Ok (80, upd (replicate 128 0) 0 ?p), os')" "inc os' = ps" "out os' = out os"
    using raw_recv_packet [OF assms(1,2) ne, of "replicate 128 0"] len by auto
  have pkt: "slice_rng (upd (replicate 128 0) 0 ?p) 0 80 = (Ok ?p :: (uds_error, bytes) outcome)"
    using len by (simp add: slice_rng_def)
  have body: "slice_rng (upd (replicate 128 0) 0 ?p) 32 80 = (Ok (hello_ack_wire ack) :: (uds_error, bytes) outcome)"
    using sub_upd_tail [of "replicate 128 0" ?h "hello_ack_wire ack"] by (simp add: slice_rng_def ack_packet_def)
  have "header_decode ?p = Ok (control_header CODE_HELLO_ACK status 48)"
    unfolding ack_packet_def by (intro hdr.decode_wire control_header_valid)
  moreover have "decode_ack (hello_ack_wire ack) = Ok ack"
    using ack.decode_wire [OF assms(3), of "[]"] by (simp add: decode_ack_def)
  ultimately have "client_recv_ack px fd os = Some (client_verdict fd status ack, os')"
    by (cases "check_ack_status (control_header CODE_HELLO_ACK status 48)")
       (simp_all add: client_recv_ack_def client_verdict_def io_bind_Ok r(1) pkt body HEADER_SIZE_def HELLO_ACK_PAYLOAD_SIZE_def io_ret_def io_err_def)
  then show ?thesis using r that by blast
qed

lemma reject_sends:
  assumes "seqpacket_end px fd inc out"
  obtains os' where "reject px fd status err os = Some (Err err, os')" "inc os' = inc os"
    "out os' = out os @ [ack_packet status (hello_ack_default\<lparr>ack_layout_version := 1\<rparr>)]"
proof -
  let ?ack = "hello_ack_default\<lparr>ack_layout_version := 1\<rparr>"
  obtain os' where s: "raw_send px fd (ack_packet status ?ack) os = Some (Ok (), os')"
    "out os' = out os @ [ack_packet status ?ack]" "inc os' = inc os"
    using raw_send_ok [OF assms] .
  have "reject px fd status err os = Some (Err err, os')"
    unfolding reject_def send_rejection_def hello_ack_encode_new control_packet_ok
    using s(1) by (simp add: io_bind_def io_lift_def io_on_err_def io_err_def ack_packet_def HELLO_ACK_PAYLOAD_SIZE_def)
  then show ?thesis using s that by blast
qed

lemmas status_defs = STATUS_OK_def STATUS_UNSUPPORTED_def STATUS_AUTH_FAILED_def STATUS_LIMIT_EXCEEDED_def STATUS_INCOMPATIBLE_def

lemma negotiate_rejection:
  "negotiate config pkt sid hello = Err (status, e) \<Longrightarrow> check_ack_status (control_header CODE_HELLO_ACK status 48) = Err e"
  unfolding negotiate_def Let_def
  by (auto simp: check_ack_status_def status_defs split: if_splits)

lemma negotiate_no_panic: "negotiate config pkt sid hello \<noteq> Panic"
  by (simp add: negotiate_def Let_def)

lemma negotiate_ack:
  assumes "negotiate config pkt sid hello = Ok ack"
  shows "hello_ack_valid ack \<and> 32 < unat (ack_agreed_packet_size ack) \<and> ack_session_id ack = sid"
proof -
  have "ack_layout_version ack = 1 \<and> ack_flags ack = 0 \<and> ack_session_id ack = sid \<and> \<not> ack_agreed_packet_size ack \<le> 32"
    using assms unfolding negotiate_def Let_def by (auto simp: HEADER_SIZE_def split: if_splits)
  then show ?thesis by (simp add: hello_ack_valid_def word_le_nat_alt)
qed

lemma server_handshake_answers:
  assumes "seqpacket_end px fd inc out" "inc os = hello_packet config k # ps"
  obtains pkt os' where "inc os' = ps"
    "case negotiate scfg pkt sid (client_hello config k) of
       Ok ack \<Rightarrow> server_handshake px fd scfg sid os = Some (Ok (server_session fd ack), os') \<and>
                 out os' = out os @ [ack_packet STATUS_OK ack]
     | Err (status, e) \<Rightarrow> server_handshake px fd scfg sid os = Some (Err e, os') \<and>
                 out os' = out os @ [ack_packet status (hello_ack_default\<lparr>ack_layout_version := 1\<rparr>)]
     | Panic \<Rightarrow> False"
proof -
  obtain pkt os1 where k: "(if sc_packet_size scfg = 0 then detect_packet_size px fd else io_ret (sc_packet_size scfg)) os
      = Some (Ok pkt, os1)" "out os1 = out os" "inc os1 = inc os" using packet_size_quiet [OF assms(1)] .
  obtain os2 where h: "server_recv_hello px fd os1 = Some (Ok (client_hello config k), os2)" "inc os2 = ps" "out os2 = out os1"
    using server_recv_hello_ok [OF assms(1)] k(3) assms(2) by metis
  have unf: "server_handshake px fd scfg sid os =
     (case negotiate scfg pkt sid (client_hello config k) of
       Ok ack \<Rightarrow> io_bind (raw_send px fd (ack_packet STATUS_OK ack)) (\<lambda>_. io_ret (server_session fd ack))
     | Err (status, err) \<Rightarrow> reject px fd status err
     | Panic \<Rightarrow> io_lift Panic) os2"
    unfolding server_handshake_def hello_ack_encode_new control_packet_ok
    using k(1) h(1) by (auto simp: io_bind_Ok ack_packet_def HELLO_ACK_PAYLOAD_SIZE_def simp del: if_split split: outcome.splits)
  show ?thesis
  proof (cases "negotiate scfg pkt sid (client_hello config k)")
    case (Ok ack)
    obtain os3 where "raw_send px fd (ack_packet STATUS_OK ack) os2 = Some (Ok (), os3)" "out os3 = out os2 @ [ack_packet STATUS_OK ack]"
      "inc os3 = inc os2" using raw_send_ok [OF assms(1)] .
    then show ?thesis using that [of os3 pkt] Ok unf k h by (simp add: io_bind_Ok io_ret_def)
  next
    case (Err e)
    obtain os3 where "reject px fd (fst e) (snd e) os2 = Some (Err (snd e) :: (uds_error, uds_session) outcome, os3)" "inc os3 = inc os2"
      "out os3 = out os2 @ [ack_packet (fst e) (hello_ack_default\<lparr>ack_layout_version := 1\<rparr>)]" using reject_sends [OF assms(1)] .
    then show ?thesis using that [of os3 pkt] Err unf k h by (simp add: case_prod_beta)
  qed (simp add: negotiate_no_panic)
qed

definition handshake_outcome ::
  "client_config \<Rightarrow> server_config \<Rightarrow> u64 \<Rightarrow> (uds_error, uds_session) outcome \<Rightarrow> (uds_error, uds_session) outcome \<Rightarrow> bool" where
  "handshake_outcome config scfg sid r r' \<longleftrightarrow>
     (case r of
        Ok s \<Rightarrow> (case r' of
            Ok c \<Rightarrow> session_peers c s \<and> us_role c = Role_Client \<and> 32 < unat (us_packet_size c) \<and>
               us_selected_profile c = us_selected_profile s \<and> us_session_id c = sid \<and> us_session_id s = sid \<and>
               (\<exists>i. us_selected_profile s = push_bit i 1 \<and> bit (server_profiles scfg) i \<and>
                  bit (if cc_supported_profiles config = 0 then PROFILE_BASELINE else cc_supported_profiles config) i)
          | _ \<Rightarrow> False)
      | Err e \<Rightarrow> r' = Err e
      | Panic \<Rightarrow> False)"

text \<open>C10: The handshake ends the same way on both sides. When the client's HELLO reaches the server, the server answers
  with one packet, and the client that reads it ends with the server's result: both have a session, with opposite
  roles, the same limits, packet size, profile and session id, the packet size above the header size and the profile
  a single one that both sides support; or both fail with the same error.\<close>

theorem handshake_agreement:
  assumes "seqpacket_end px cfd cinc cout" "seqpacket_end qx sfd sinc sout"
    and "client_send_hello lay px cfd path config osc = Some (Ok (), osc')"
    and "sinc oss = drop (length (cout osc)) (cout osc') @ ps"
  shows "\<exists>r oss' answer. server_handshake qx sfd scfg sid oss = Some (r, oss') \<and> sinc oss' = ps \<and> sout oss' = sout oss @ [answer] \<and>
    (\<forall>os qs. cinc os = answer # qs \<longrightarrow>
      (\<exists>r' os'. client_recv_ack px cfd os = Some (r', os') \<and> cinc os' = qs \<and>
        handshake_outcome config scfg sid r r'))"
proof -
  obtain k where "cout osc' = cout osc @ [hello_packet config k]" using client_send_hello_packet [OF assms(1,3)] .
  then have inc: "sinc oss = hello_packet config k # ps" using assms(4) by simp
  obtain pkt oss' where sh: "sinc oss' = ps"
    "case negotiate scfg pkt sid (client_hello config k) of
       Ok ack \<Rightarrow> server_handshake qx sfd scfg sid oss = Some (Ok (server_session sfd ack), oss') \<and>
                 sout oss' = sout oss @ [ack_packet STATUS_OK ack]
     | Err (status, e) \<Rightarrow> server_handshake qx sfd scfg sid oss = Some (Err e, oss') \<and>
                 sout oss' = sout oss @ [ack_packet status (hello_ack_default\<lparr>ack_layout_version := 1\<rparr>)]
     | Panic \<Rightarrow> False"
    using server_handshake_answers [OF assms(2) inc] .
  show ?thesis
  proof (cases "negotiate scfg pkt sid (client_hello config k)")
    case (Ok ack)
    note ok = negotiate_ack [OF Ok] negotiate_selected [OF Ok]
    have v: "client_verdict cfd STATUS_OK ack = Ok (client_session cfd ack)"
      using ok(1) by (simp add: client_verdict_def check_ack_status_def status_defs word_le_nat_alt)
    have recv: "\<exists>os'. client_recv_ack px cfd os = Some (Ok (client_session cfd ack), os') \<and> cinc os' = qs"
      if "cinc os = ack_packet STATUS_OK ack # qs" for os qs
      using client_recv_ack_ok [OF assms(1) that] ok(1) unfolding v by metis
    have "session_peers (client_session cfd ack) (server_session sfd ack)"
      by (simp add: session_peers_def client_session_def server_session_def)
    then show ?thesis
      using sh Ok ok recv
      by (intro exI [of _ "Ok (server_session sfd ack)"] exI [of _ oss'] exI [of _ "ack_packet STATUS_OK ack"])
         (fastforce simp: handshake_outcome_def client_session_def server_session_def client_hello_def simp del: push_bit_of_1)
  next
    case (Err e)
    have "hello_ack_valid (hello_ack_default\<lparr>ack_layout_version := 1\<rparr>)" by (simp add: hello_ack_valid_def hello_ack_default_def)
    moreover have "client_verdict cfd (fst e) ack = Err (snd e)" for ack
      using negotiate_rejection [of scfg pkt sid "client_hello config k" "fst e" "snd e"] Err by (simp add: client_verdict_def)
    ultimately have recv: "\<exists>os'. client_recv_ack px cfd os = Some (Err (snd e), os') \<and> cinc os' = qs"
      if "cinc os = ack_packet (fst e) (hello_ack_default\<lparr>ack_layout_version := 1\<rparr>) # qs" for os qs
      using client_recv_ack_ok [OF assms(1) that] by metis
    show ?thesis
      using sh Err recv
      by (intro exI [of _ "Err (snd e)"] exI [of _ oss'] exI [of _ "ack_packet (fst e) (hello_ack_default\<lparr>ack_layout_version := 1\<rparr>)"])
         (auto simp: handshake_outcome_def case_prod_beta)
  qed (simp add: negotiate_no_panic)
qed

section \<open>A concrete connection\<close>

text \<open>A system with one socket whose incoming and outgoing packets are the two components of its state.\<close>

definition duplex_px :: "(bytes list \<times> bytes list) posix" where
  "duplex_px = \<lparr>px_errno = (\<lambda>q. 0),
     px_sendmsg = (\<lambda>fd iov (i, q). (int (length (concat iov)), (i, q @ [concat iov]))),
     px_send = (\<lambda>fd data (i, q). (int (length data), (i, q @ [data]))),
     px_recv = (\<lambda>fd len (i, q). case i of [] \<Rightarrow> ((0, []), (i, q)) | p # ps \<Rightarrow> ((int (min len (length p)), take len p), (ps, q))),
     px_poll = (\<lambda>fd timeout (i, q). (if i = [] then 0 else 1, (i, q))),
     px_now = (\<lambda>q. (0, q)), px_abort = (\<lambda>q. (False, q)),
     px_sndbuf = (\<lambda>fd q. ((0, 212992), q)), px_socket = (\<lambda>q. (3, q)),
     px_connect = (\<lambda>fd path q. (0, q)), px_bind = (\<lambda>fd path q. (0, q)), px_listen = (\<lambda>fd backlog q. (0, q)),
     px_accept = (\<lambda>fd q. (4, q)), px_close = (\<lambda>fd q. q), px_exists = (\<lambda>path q. (False, q)),
     px_remove_file = (\<lambda>path q. (0, q)), px_remove_dir = (\<lambda>path q. (0, q))\<rparr>"

lemma duplex_px_end: "seqpacket_end duplex_px fd fst snd"
  by (auto simp: seqpacket_end_def duplex_px_def)

lemma duplex_px_recv_bounded: "recv_bounded duplex_px"
  by (auto simp: recv_bounded_def duplex_px_def split: list.splits prod.splits)

definition linux_layout :: sockaddr_layout where
  "linux_layout = \<lparr>sl_sizeof = 110, sl_sizeof_family = 2, sl_sun_path = 108\<rparr>"

definition bsd_layout :: sockaddr_layout where
  "bsd_layout = \<lparr>sl_sizeof = 106, sl_sizeof_family = 1, sl_sun_path = 104\<rparr>"

lemma duplex_send_hello:
  "client_send_hello linux_layout duplex_px 3 [97] client_config_default ([], []) =
     Some (Ok (), ([], [hello_packet client_config_default 212992]))"
  unfolding client_send_hello_def hello_encode_new control_packet_ok
  by (simp add: connect_unix_def sun_path_copy_def Let_def linux_layout_def io_bind_def io_lift_def io_call_def io_ret_def duplex_px_def
      detect_packet_size_def client_config_default_def raw_send_def hello_packet_def HELLO_PAYLOAD_SIZE_def nat_int_add)

theorem handshake_agreement_witness:
  "case server_handshake duplex_px 4 server_config_default 1 ([hello_packet client_config_default 212992], []) of
     Some (r, (i, answer)) \<Rightarrow>
       (case client_recv_ack duplex_px 3 (answer, []) of
          Some (r', _) \<Rightarrow> handshake_outcome client_config_default server_config_default 1 r r'
        | None \<Rightarrow> False)
   | None \<Rightarrow> False"
proof -
  let ?h = "hello_packet client_config_default 212992"
  have "fst ([?h], []) = drop (length (snd ([], [] :: bytes list))) (snd ([], [?h])) @ []" by simp
  note t = handshake_agreement [OF duplex_px_end duplex_px_end duplex_send_hello this, of 4 server_config_default 1]
  obtain r oss' answer where s: "server_handshake duplex_px 4 server_config_default 1 ([?h], []) = Some (r, oss')"
      "snd oss' = snd ([?h], []) @ [answer]"
    and c: "\<forall>os qs. fst os = answer # qs \<longrightarrow> (\<exists>r' os'. client_recv_ack duplex_px 3 os = Some (r', os') \<and> fst os' = qs \<and>
        handshake_outcome client_config_default server_config_default 1 r r')"
    using t by blast
  obtain r' os' where "client_recv_ack duplex_px 3 ([answer], []) = Some (r', os')" "handshake_outcome client_config_default server_config_default 1 r r'"
    using c [THEN spec, of "([answer], [])", THEN spec, of "[]"] by auto
  then show ?thesis using s by (cases oss') auto
qed

lemma validate_service_name_chars:
  assumes "validate_service_name name = Ok ()"
  shows "name \<noteq> []" "name \<noteq> [46]" "name \<noteq> [46, 46]" "47 \<notin> set name" "0 \<notin> set name"
proof -
  have n: "name \<noteq> []" "name \<noteq> [46]" "name \<noteq> [46, 46]" "list_all service_name_char name"
    using assms by (auto simp: validate_service_name_def split: if_splits)
  moreover have "c \<noteq> 47 \<and> c \<noteq> 0" if "service_name_char c" for c using that by (auto simp: service_name_char_def)
  ultimately show "name \<noteq> []" "name \<noteq> [46]" "name \<noteq> [46, 46]" "47 \<notin> set name" "0 \<notin> set name"
    by (auto simp: list_all_iff)
qed

text \<open>C34: An endpoint is accepted exactly when its name is valid and its path, the directory, the name and \<open>.sock\<close>, is
  shorter than \<open>sockaddr_un\<close> without its family; an accepted name is neither empty nor a dot directory and
  has no separator and no NUL. The unchecked copy of an accepted path leaves \<open>sun_path\<close> exactly when the path is
  NUL-free and at least as long as \<open>sun_path\<close>. So it never does on a platform whose \<open>sockaddr_un\<close> consists of
  the family and \<open>sun_path\<close> alone (Linux); \<open>extra\<close> counts the other bytes, of which FreeBSD and macOS have one.\<close>

theorem socket_path_fits:
  assumes "sl_sizeof lay = sl_sizeof_family lay + extra + sl_sun_path lay"
  shows "(build_socket_path lay run_dir name = Ok path \<longleftrightarrow> validate_service_name name = Ok () \<and>
      path = run_dir @ [47] @ name @ [46, 115, 111, 99, 107] \<and> length path < extra + sl_sun_path lay) \<and>
    (build_socket_path lay run_dir name = Ok path \<longrightarrow>
      name \<noteq> [] \<and> name \<noteq> [46] \<and> name \<noteq> [46, 46] \<and> 47 \<notin> set name \<and> 0 \<notin> set name \<and>
      (sun_path_copy lay path = Panic \<longleftrightarrow> 0 \<notin> set path \<and> sl_sun_path lay \<le> length path) \<and>
      (extra = 0 \<longrightarrow> length path + 1 \<le> sl_sun_path lay \<and> sun_path_copy lay path \<noteq> Panic))"
proof -
  have iff: "build_socket_path lay run_dir name = Ok path \<longleftrightarrow> validate_service_name name = Ok () \<and>
      path = run_dir @ [47] @ name @ [46, 115, 111, 99, 107] \<and> length path < extra + sl_sun_path lay"
    using assms by (auto simp: build_socket_path_def Let_def rbind_eq_Ok split: if_splits)
  moreover have "name \<noteq> [] \<and> name \<noteq> [46] \<and> name \<noteq> [46, 46] \<and> 47 \<notin> set name \<and> 0 \<notin> set name"
    if "build_socket_path lay run_dir name = Ok path" using that iff validate_service_name_chars by blast
  moreover have "sun_path_copy lay path = Panic \<longleftrightarrow> 0 \<notin> set path \<and> sl_sun_path lay \<le> length path"
    by (auto simp: sun_path_copy_def Let_def)
  ultimately show ?thesis by auto
qed

theorem socket_path_fits_witness:
  "case build_socket_path linux_layout [47, 114, 117, 110] [97] of
     Ok path \<Rightarrow> length path + 1 \<le> sl_sun_path linux_layout | _ \<Rightarrow> False"
proof -
  have b: "build_socket_path linux_layout [47, 114, 117, 110] [97] = Ok [47, 114, 117, 110, 47, 97, 46, 115, 111, 99, 107]"
    by (simp add: build_socket_path_def validate_service_name_def service_name_char_def linux_layout_def Let_def)
  show ?thesis using socket_path_fits [of linux_layout 0 "[47, 114, 117, 110]" "[97]"] unfolding b by (simp add: linux_layout_def)
qed

text \<open>C36: On platforms whose \<open>sockaddr_un\<close> starts with a length byte (FreeBSD, macOS) the bound of \<open>build_socket_path\<close> is one too
  large. Every valid name and NUL-free directory whose path is exactly as long as \<open>sun_path\<close> is accepted; the copy
  with its NUL writes one byte beyond \<open>sun_path\<close>, in \<open>bind\<close> and in \<open>connect\<close>, and a client that gets a socket reaches
  that copy.\<close>

theorem socket_path_overflow:
  assumes "sl_sizeof lay = sl_sizeof_family lay + 1 + sl_sun_path lay"
    and "validate_service_name name = Ok ()" "0 \<notin> set run_dir"
    and "path = run_dir @ [47] @ name @ [46, 115, 111, 99, 107]" "length path = sl_sun_path lay"
    and "px_socket px os = (fd, os')" "0 \<le> fd"
  shows "build_socket_path lay run_dir name = Ok path \<and> length (path @ [0]) = sl_sun_path lay + 1 \<and>
    connect_unix lay px s path t = Some (Panic, t) \<and> bind_unix lay px s path t = Some (Panic, t) \<and>
    uds_connect lay px run_dir name config os = Some (Panic, os')"
proof -
  have b: "build_socket_path lay run_dir name = Ok path"
    using assms(1,2,4,5) by (simp add: build_socket_path_def Let_def)
  have "0 \<notin> set name" using validate_service_name_chars [OF assms(2)] by blast
  then have c: "sun_path_copy lay path = Panic" using assms(3-5) by (simp add: sun_path_copy_def Let_def)
  have p: "connect_unix lay px s path t = Some (Panic, t)" "bind_unix lay px s path t = Some (Panic, t)" for s t
    by (simp_all add: connect_unix_def bind_unix_def io_bind_def io_lift_def c)
  have "connect_and_handshake lay px fd path config t = Some (Panic, t)" for t
    by (simp add: connect_and_handshake_def client_send_hello_def io_bind_def p)
  then have "uds_connect lay px run_dir name config os = Some (Panic, os')"
    using assms(6,7) by (simp add: uds_connect_def b io_bind_def io_lift_def io_call_def io_on_err_def)
  then show ?thesis using b p assms(5) by simp
qed

theorem socket_path_overflow_witness:
  "build_socket_path bsd_layout (replicate 97 97) [97] = Ok (replicate 97 97 @ [47, 97, 46, 115, 111, 99, 107]) \<and>
   uds_connect bsd_layout duplex_px (replicate 97 97) [97] client_config_default ([], []) = Some (Panic, ([], []))"
proof -
  have "validate_service_name [97] = Ok ()" by (simp add: validate_service_name_def service_name_char_def)
  from socket_path_overflow [OF _ this _ refl, of bsd_layout "replicate 97 97" duplex_px "([], [])" 3 "([], [])" 0 "([], [])" client_config_default]
  show ?thesis by (simp add: bsd_layout_def duplex_px_def)
qed

section \<open>Connection set-up against an arbitrary peer\<close>

lemma no_panic_bind_lift:
  "r \<noteq> Panic \<Longrightarrow> (\<And>a. r = Ok a \<Longrightarrow> no_panic_io (f a) s) \<Longrightarrow> no_panic_io (io_bind (io_lift r) f) s"
  by (cases r) (simp_all add: io_posts)

lemma no_panic_bind_err: "io_post m s (\<lambda>r _. \<exists>e. r = Err e) \<Longrightarrow> no_panic_io (io_bind m f) s"
  unfolding io_post_bind by (erule io_post_mono) auto

lemma socket_no_panic:
  "sun_path_copy lay path \<noteq> Panic \<Longrightarrow> no_panic_io (connect_unix lay px fd path) os"
  "sun_path_copy lay path \<noteq> Panic \<Longrightarrow> no_panic_io (bind_unix lay px fd path) os"
  by (simp_all add: connect_unix_def bind_unix_def no_panic_intros)

lemma raw_send_no_panic: "no_panic_io (raw_send px fd data) os"
  by (simp add: raw_send_def no_panic_intros)

lemma detect_packet_size_no_panic: "no_panic_io (detect_packet_size px fd) os"
  by (simp add: detect_packet_size_def no_panic_intros)

lemma stale_no_panic:
  "sun_path_copy lay path \<noteq> Panic \<Longrightarrow> no_panic_io (check_and_recover_stale lay px path) os"
  unfolding check_and_recover_stale_def remove_stale_def by (intro no_panic_intros socket_no_panic)

lemma client_send_hello_no_panic:
  "sun_path_copy lay path \<noteq> Panic \<Longrightarrow> no_panic_io (client_send_hello lay px fd path config) os"
  unfolding client_send_hello_def hello_encode_new control_packet_ok
  by (intro no_panic_intros socket_no_panic detect_packet_size_no_panic raw_send_no_panic) simp_all

lemma layout_checks_no_panic:
  "hello_layout_incompatible buf \<noteq> Panic" "hello_ack_layout_incompatible buf \<noteq> Panic" "header_version_incompatible buf code \<noteq> Panic"
  by (auto simp: hello_layout_incompatible_def hello_ack_layout_incompatible_def header_version_incompatible_def HEADER_SIZE_def)

lemma decode_ack_no_panic: "decode_ack payload \<noteq> Panic"
  using ack.decode_no_panic [of payload] layout_checks_no_panic(2) [of payload, where 'b = uds_error]
  by (auto simp: decode_ack_def split: outcome.splits)
     (cases "hello_ack_layout_incompatible payload :: (uds_error, bool) outcome"; simp)

lemma reject_no_panic: "no_panic_io (reject px fd status err) os"
  unfolding reject_def send_rejection_def hello_ack_encode_new control_packet_ok
  by (intro no_panic_intros raw_send_no_panic) simp_all

lemma reject_err: "io_post (reject px fd status err) os (\<lambda>r _. r = Err err)"
proof -
  have "io_post (raw_send px fd pkt) os (\<lambda>r t. case r of Err e \<Rightarrow> True | Ok a \<Rightarrow> True | Panic \<Rightarrow> False)" for pkt
    by (rule io_post_mono [OF raw_send_no_panic]) (auto split: outcome.splits)
  then show ?thesis
    unfolding reject_def send_rejection_def hello_ack_encode_new control_packet_ok
    by (simp add: io_posts cong: outcome.case_cong)
qed

lemma check_ack_status_no_panic: "check_ack_status h \<noteq> Panic"
  by (simp add: check_ack_status_def)

lemma client_recv_ack_no_panic:
  assumes "recv_bounded px"
  shows "no_panic_io (client_recv_ack px fd) os"
  unfolding client_recv_ack_def
proof (rule no_panic_recv [OF assms], unfold prod.case, goal_cases)
  case (1 n buf t)
  have dec: "map_err g (header_decode pkt) \<noteq> Panic" for g :: "nipc_error \<Rightarrow> uds_error" and pkt
    using hdr.decode_no_panic by (rule map_err_no_panic)
  show ?case
    using 1 by (intro no_panic_intros dec check_ack_status_no_panic decode_ack_no_panic) (auto simp: slice_rng_def HEADER_SIZE_def)
qed

lemma server_recv_hello_no_panic:
  assumes "recv_bounded px"
  shows "no_panic_io (server_recv_hello px fd) os"
  unfolding server_recv_hello_def
proof (rule no_panic_recv [OF assms], unfold prod.case, goal_cases)
  case (1 n buf t)
  show ?case
  proof (cases "header_decode (take n buf)")
    case (Ok h)
    then have "32 \<le> n" using hdr.decode_short [of "take n buf"] by (cases "n < 32") (auto simp: HEADER_SIZE_def)
    then have "slice_rng buf 0 n = (Ok (take n buf) :: (uds_error, bytes) outcome)"
      "slice_rng buf HEADER_SIZE n = (Ok (sub buf HEADER_SIZE (n - HEADER_SIZE)) :: (uds_error, bytes) outcome)"
      using 1 by (auto simp: slice_rng_def sub_def HEADER_SIZE_def)
    moreover have "no_panic_io (case hello_decode p of Ok hello \<Rightarrow> io_ret hello
         | Err e \<Rightarrow> io_bind (io_lift (hello_layout_incompatible p)) (\<lambda>incompatible.
             if e = BadLayout \<and> incompatible then reject px fd STATUS_INCOMPATIBLE Uds_Incompatible else io_err Uds_Protocol)
         | Panic \<Rightarrow> io_lift Panic) t" for p t
      using hello.decode_no_panic [of p]
      by (cases "hello_decode p") (auto intro!: no_panic_intros reject_no_panic layout_checks_no_panic)
    ultimately show ?thesis using Ok by (simp add: io_posts)
  next
    case (Err e)
    have "slice_rng buf 0 n = (Ok (take n buf) :: (uds_error, bytes) outcome)" using 1 by (simp add: slice_rng_def sub_def)
    moreover have "io_post (io_bind (io_lift (header_version_incompatible (take n buf) CODE_HELLO)) (\<lambda>incompatible.
        if e = BadVersion \<and> incompatible then reject px fd STATUS_INCOMPATIBLE Uds_Incompatible else io_err Uds_Protocol)) t
        (\<lambda>r _. \<exists>e. r = Err e)"
      using reject_err [of px fd STATUS_INCOMPATIBLE Uds_Incompatible t]
      by (cases "header_version_incompatible (take n buf) CODE_HELLO :: (uds_error, bool) outcome")
         (auto simp: io_posts layout_checks_no_panic intro: io_post_mono)
    ultimately show ?thesis using Err by (intro no_panic_bind_lift) (auto intro!: no_panic_bind_err)
  qed (simp add: hdr.decode_no_panic)
qed

lemma server_handshake_no_panic:
  assumes "recv_bounded px"
  shows "no_panic_io (server_handshake px fd config sid) os"
proof -
  have "no_panic_io (case negotiate config pkt sid h of
       Ok ack \<Rightarrow>
         io_bind (io_lift (hello_ack_encode ack (replicate HELLO_ACK_PAYLOAD_SIZE 0))) (\<lambda>(_, ack_buf).
         io_bind (io_lift (control_packet (control_header CODE_HELLO_ACK STATUS_OK HELLO_ACK_PAYLOAD_SIZE) ack_buf)) (\<lambda>p.
         io_bind (raw_send px fd p) (\<lambda>_.
         io_ret (server_session fd ack))))
     | Err (status, err) \<Rightarrow> reject px fd status err
     | Panic \<Rightarrow> io_lift Panic) t" for pkt h t
    using negotiate_no_panic [of config pkt sid h] unfolding hello_ack_encode_new control_packet_ok
    by (cases "negotiate config pkt sid h") (auto intro!: no_panic_intros raw_send_no_panic reject_no_panic)
  then show ?thesis
    unfolding server_handshake_def
    by (intro no_panic_intros detect_packet_size_no_panic server_recv_hello_no_panic [OF assms])
qed

lemma connect_no_panic:
  "recv_bounded px \<Longrightarrow> sun_path_copy lay path \<noteq> Panic \<Longrightarrow> no_panic_io (connect_and_handshake lay px fd path config) os"
  unfolding connect_and_handshake_def by (intro no_panic_intros client_send_hello_no_panic client_recv_ack_no_panic)

lemma socket_path_safe:
  assumes "sl_sizeof lay = sl_sizeof_family lay + sl_sun_path lay \<or> length run_dir + length name + 6 < sl_sun_path lay"
  shows "case build_socket_path lay run_dir name of Ok path \<Rightarrow> sun_path_copy lay path \<noteq> Panic | Err e \<Rightarrow> True | Panic \<Rightarrow> False"
  using assms by (auto simp: build_socket_path_def validate_service_name_def sun_path_copy_def Let_def)

lemma uds_connect_no_panic:
  assumes "recv_bounded px"
    and "sl_sizeof lay = sl_sizeof_family lay + sl_sun_path lay \<or> length run_dir + length name + 6 < sl_sun_path lay"
  shows "no_panic_io (uds_connect lay px run_dir name cconfig) os"
proof -
  have p: "build_socket_path lay run_dir name \<noteq> Panic"
      "build_socket_path lay run_dir name = Ok path \<Longrightarrow> sun_path_copy lay path \<noteq> Panic" for path
    using socket_path_safe [OF assms(2)] by (auto split: outcome.splits)
  show ?thesis
    unfolding uds_connect_def by (intro no_panic_bind_lift no_panic_intros connect_no_panic [OF assms(1)] p)
qed

text \<open>C12: Setting up a connection is safe against any peer and any results of the system calls, as long as \<open>recv\<close> returns no
  more than it was given room for and the socket path has room: either the platform's \<open>sockaddr_un\<close> consists of the
  family and \<open>sun_path\<close> alone (Linux), where \<open>build_socket_path\<close> rejects every path that does not fit, or the path
  is shorter than \<open>sun_path\<close>. Connecting, binding a listener and
  accepting then neither panic nor write outside the socket address, whatever the names, packets and results are.\<close>

theorem connection_setup_safe:
  assumes "recv_bounded px"
    and "sl_sizeof lay = sl_sizeof_family lay + sl_sun_path lay \<or> length run_dir + length name + 6 < sl_sun_path lay"
  shows "no_panic_io (uds_connect lay px run_dir name cconfig) os \<and>
    no_panic_io (uds_listener_bind lay px run_dir name config) os \<and>
    no_panic_io (uds_accept px) (l, os)"
proof (intro conjI)
  have p: "build_socket_path lay run_dir name \<noteq> Panic"
      "build_socket_path lay run_dir name = Ok path \<Longrightarrow> sun_path_copy lay path \<noteq> Panic" for path
    using socket_path_safe [OF assms(2)] by (auto split: outcome.splits)
  show "no_panic_io (uds_connect lay px run_dir name cconfig) os"
    by (rule uds_connect_no_panic [OF assms])
  show "no_panic_io (uds_listener_bind lay px run_dir name config) os"
    unfolding uds_listener_bind_def Let_def
    by (intro no_panic_bind_lift no_panic_intros stale_no_panic socket_no_panic p)
  show "no_panic_io (uds_accept px) (l, os)"
    unfolding uds_accept_def accept_with_config_def
    by (intro no_panic_intros) (auto simp: io_post_snd intro!: no_panic_intros server_handshake_no_panic [OF assms(1)])
qed

theorem connection_setup_safe_witness:
  "no_panic_io (uds_connect linux_layout duplex_px [47, 114] [97] client_config_default) ([replicate 33 0], []) \<and>
   no_panic_io (uds_listener_bind bsd_layout duplex_px [47, 114] [97] server_config_default) ([], []) \<and>
   no_panic_io (uds_accept duplex_px) (\<lparr>ul_fd = 3, ul_config = server_config_default, ul_path = [97], ul_next_session_id = 1\<rparr>, ([replicate 33 0], []))"
  using connection_setup_safe [OF duplex_px_recv_bounded, of linux_layout "[47, 114]" "[97]"]
    connection_setup_safe [OF duplex_px_recv_bounded, of bsd_layout "[47, 114]" "[97]"]
  by (simp add: linux_layout_def bsd_layout_def)

end
