(* ===== verification/Shm.thy ===== *)
theory Shm
  imports Uds_Handshake Utf8
begin

unbundle bit_operations_syntax

text \<open>
  The shared-memory transport (\<open>transport/shm.rs\<close>): region layout, creating and attaching a region, recovery of
  stale regions, and \<open>send\<close> and \<open>receive\<close>. Memory accesses and system calls go through a parameter, so that whatever
  the peer process does between two accesses is part of the system. An access outside the mapped region is
  undefined behaviour; it has the value \<open>Panic\<close> here.
\<close>

section \<open>Constants and errors\<close>

definition REGION_MAGIC :: u32 where "REGION_MAGIC = 0x4e53484d"
definition REGION_VERSION :: u16 where "REGION_VERSION = 3"
definition REGION_ALIGNMENT :: u32 where "REGION_ALIGNMENT = 64"
definition SHM_HEADER_LEN :: u16 where "SHM_HEADER_LEN = 64"
definition DEFAULT_SPIN_TRIES :: u32 where "DEFAULT_SPIN_TRIES = 128"

definition OFF_REQ_SEQ :: usize where "OFF_REQ_SEQ = 32"
definition OFF_RESP_SEQ :: usize where "OFF_RESP_SEQ = 40"
definition OFF_REQ_LEN :: usize where "OFF_REQ_LEN = 48"
definition OFF_RESP_LEN :: usize where "OFF_RESP_LEN = 52"
definition OFF_REQ_SIGNAL :: usize where "OFF_REQ_SIGNAL = 56"
definition OFF_RESP_SIGNAL :: usize where "OFF_RESP_SIGNAL = 60"

text \<open>Offsets of the plain fields of \<open>RegionHeader\<close>.\<close>

definition OFF_MAGIC :: usize where "OFF_MAGIC = 0"
definition OFF_VERSION :: usize where "OFF_VERSION = 4"
definition OFF_HEADER_LEN :: usize where "OFF_HEADER_LEN = 6"
definition OFF_OWNER_PID :: usize where "OFF_OWNER_PID = 8"
definition OFF_OWNER_GENERATION :: usize where "OFF_OWNER_GENERATION = 12"
definition OFF_REQUEST_OFFSET :: usize where "OFF_REQUEST_OFFSET = 16"
definition OFF_REQUEST_CAPACITY :: usize where "OFF_REQUEST_CAPACITY = 20"
definition OFF_RESPONSE_OFFSET :: usize where "OFF_RESPONSE_OFFSET = 24"
definition OFF_RESPONSE_CAPACITY :: usize where "OFF_RESPONSE_CAPACITY = 28"

lemmas shm_offsets = OFF_REQ_SEQ_def OFF_RESP_SEQ_def OFF_REQ_LEN_def OFF_RESP_LEN_def OFF_REQ_SIGNAL_def OFF_RESP_SIGNAL_def
  OFF_MAGIC_def OFF_VERSION_def OFF_HEADER_LEN_def OFF_OWNER_PID_def OFF_OWNER_GENERATION_def OFF_REQUEST_OFFSET_def
  OFF_REQUEST_CAPACITY_def OFF_RESPONSE_OFFSET_def OFF_RESPONSE_CAPACITY_def

datatype shm_error =
    Shm_PathTooLong | Shm_Open int | Shm_Truncate int | Shm_Mmap int | Shm_BadMagic | Shm_BadVersion | Shm_BadHeader
  | Shm_BadSize | Shm_AddrInUse | Shm_NotReady | Shm_MsgTooLarge | Shm_Timeout | Shm_BadParam | Shm_PeerDead

datatype shm_role = Shm_Server | Shm_Client

section \<open>The system\<close>

text \<open>System calls, and the accesses to mapped memory: a mapping is named by its base address. \<open>sy_errno\<close> is \<open>errno\<close>
  after the last call. \<open>sy_mmap\<close> yields \<open>None\<close> for \<open>MAP_FAILED\<close>; \<open>sy_clock\<close> the seconds and nanoseconds of the
  monotonic clock; \<open>sy_readdir\<close> the entries of a directory, \<open>None\<close> when it cannot be read.\<close>

record 'os shm_sys =
  sy_errno :: "'os \<Rightarrow> int"
  sy_open_excl :: "bytes \<Rightarrow> 'os \<Rightarrow> int \<times> 'os"
  sy_open_rdwr :: "bytes \<Rightarrow> 'os \<Rightarrow> int \<times> 'os"
  sy_open_rdonly :: "bytes \<Rightarrow> 'os \<Rightarrow> int \<times> 'os"
  sy_fstat :: "int \<Rightarrow> 'os \<Rightarrow> (int \<times> usize) \<times> 'os"
  sy_stat :: "bytes \<Rightarrow> 'os \<Rightarrow> (int \<times> usize) \<times> 'os"
  sy_ftruncate :: "int \<Rightarrow> usize \<Rightarrow> 'os \<Rightarrow> int \<times> 'os"
  sy_mmap :: "int \<Rightarrow> usize \<Rightarrow> 'os \<Rightarrow> nat option \<times> 'os"
  sy_munmap :: "nat \<Rightarrow> 'os \<Rightarrow> 'os"
  sy_close :: "int \<Rightarrow> 'os \<Rightarrow> 'os"
  sy_unlink :: "bytes \<Rightarrow> 'os \<Rightarrow> int \<times> 'os"
  sy_rmdir :: "bytes \<Rightarrow> 'os \<Rightarrow> int \<times> 'os"
  sy_readdir :: "bytes \<Rightarrow> 'os \<Rightarrow> bytes list option \<times> 'os"
  sy_kill :: "int \<Rightarrow> 'os \<Rightarrow> int \<times> 'os"
  sy_getpid :: "'os \<Rightarrow> int \<times> 'os"
  sy_clock :: "'os \<Rightarrow> (int \<times> int) \<times> 'os"
  sy_futex_wait :: "nat \<Rightarrow> usize \<Rightarrow> u32 \<Rightarrow> (u64 \<times> u64) option \<Rightarrow> 'os \<Rightarrow> int \<times> 'os"
  sy_futex_wake :: "nat \<Rightarrow> usize \<Rightarrow> 'os \<Rightarrow> 'os"
  sy_load :: "nat \<Rightarrow> usize \<Rightarrow> nat \<Rightarrow> 'os \<Rightarrow> bytes \<times> 'os"
  sy_store :: "nat \<Rightarrow> usize \<Rightarrow> bytes \<Rightarrow> 'os \<Rightarrow> 'os"
  sy_add64 :: "nat \<Rightarrow> usize \<Rightarrow> u64 \<Rightarrow> 'os \<Rightarrow> 'os"
  sy_add32 :: "nat \<Rightarrow> usize \<Rightarrow> u32 \<Rightarrow> 'os \<Rightarrow> 'os"

type_synonym ('os, 'a) shm_io = "('os, shm_error, 'a) io"

definition EPERM :: int where "EPERM = 1"
definition EEXIST :: int where "EEXIST = 17"
definition EMFILE :: int where "EMFILE = 24"
definition ENFILE :: int where "ENFILE = 23"
definition ETIMEDOUT :: int where "ETIMEDOUT = 110"

text \<open>Accesses to a mapping of \<open>sz\<close> bytes.\<close>

definition mem_read :: "'os shm_sys \<Rightarrow> nat \<Rightarrow> usize \<Rightarrow> usize \<Rightarrow> nat \<Rightarrow> ('os, bytes) shm_io" where
  "mem_read sx base sz off n = (if off + n \<le> sz then io_call (sy_load sx base off n) else io_lift Panic)"

definition mem_write :: "'os shm_sys \<Rightarrow> nat \<Rightarrow> usize \<Rightarrow> usize \<Rightarrow> bytes \<Rightarrow> ('os, unit) shm_io" where
  "mem_write sx base sz off data = (if off + length data \<le> sz then io_mod (sy_store sx base off data) else io_lift Panic)"

definition atomic_load_u64 :: "'os shm_sys \<Rightarrow> nat \<Rightarrow> usize \<Rightarrow> usize \<Rightarrow> ('os, u64) shm_io" where
  "atomic_load_u64 sx base sz off = io_bind (mem_read sx base sz off 8) (\<lambda>b. io_ret (u64_from_ne b))"

definition atomic_load_u32 :: "'os shm_sys \<Rightarrow> nat \<Rightarrow> usize \<Rightarrow> usize \<Rightarrow> ('os, u32) shm_io" where
  "atomic_load_u32 sx base sz off = io_bind (mem_read sx base sz off 4) (\<lambda>b. io_ret (u32_from_ne b))"

definition load_u16 :: "'os shm_sys \<Rightarrow> nat \<Rightarrow> usize \<Rightarrow> usize \<Rightarrow> ('os, u16) shm_io" where
  "load_u16 sx base sz off = io_bind (mem_read sx base sz off 2) (\<lambda>b. io_ret (u16_from_ne b))"

definition atomic_store_u32 :: "'os shm_sys \<Rightarrow> nat \<Rightarrow> usize \<Rightarrow> usize \<Rightarrow> u32 \<Rightarrow> ('os, unit) shm_io" where
  "atomic_store_u32 sx base sz off val = mem_write sx base sz off (u32_to_ne val)"

definition atomic_add_u64 :: "'os shm_sys \<Rightarrow> nat \<Rightarrow> usize \<Rightarrow> usize \<Rightarrow> u64 \<Rightarrow> ('os, unit) shm_io" where
  "atomic_add_u64 sx base sz off val = (if off + 8 \<le> sz then io_mod (sy_add64 sx base off val) else io_lift Panic)"

definition atomic_add_u32 :: "'os shm_sys \<Rightarrow> nat \<Rightarrow> usize \<Rightarrow> usize \<Rightarrow> u32 \<Rightarrow> ('os, unit) shm_io" where
  "atomic_add_u32 sx base sz off val = (if off + 4 \<le> sz then io_mod (sy_add32 sx base off val) else io_lift Panic)"

section \<open>Helpers\<close>

definition align64 :: "u32 \<Rightarrow> u32 option" where
  "align64 v =
     (if unat v + unat (REGION_ALIGNMENT - 1) < 2 ^ 32 then Some ((v + (REGION_ALIGNMENT - 1)) AND NOT (REGION_ALIGNMENT - 1)) else None)"

definition u32_checked_add :: "u32 \<Rightarrow> u32 \<Rightarrow> u32 option" where
  "u32_checked_add a b = (if unat a + unat b < 2 ^ 32 then Some (a + b) else None)"

definition shm_validate_service_name :: "bytes \<Rightarrow> (shm_error, unit) outcome" where
  "shm_validate_service_name name =
     (if name = [] then Err Shm_BadParam
      else if name = [46] \<or> name = [46, 46] then Err Shm_BadParam
      else if list_all service_name_char name then Ok ()
      else Err Shm_BadParam)"

text \<open>\<open>Path::join\<close> with a relative file name, and the \<open>016x\<close> format.\<close>

definition path_join :: "bytes \<Rightarrow> bytes \<Rightarrow> bytes" where
  "path_join dir file = (if dir = [] \<or> last dir = 47 then dir @ file else dir @ [47] @ file)"

definition hex_digit :: "nat \<Rightarrow> u8" where
  "hex_digit d = word_of_nat (if d < 10 then 48 + d else 87 + d)"

definition hex016 :: "u64 \<Rightarrow> bytes" where
  "hex016 v = map (\<lambda>i. hex_digit (unat v div 16 ^ i mod 16)) (rev [0..<16])"

definition shm_suffix :: bytes where
  "shm_suffix = [46, 105, 112, 99, 115, 104, 109]"

definition build_shm_path :: "bytes \<Rightarrow> bytes \<Rightarrow> u64 \<Rightarrow> (shm_error, bytes) outcome" where
  "build_shm_path run_dir service_name session_id =
     rbind (shm_validate_service_name service_name) (\<lambda>_.
     let path = path_join run_dir (service_name @ [45] @ hex016 session_id @ shm_suffix) in
     if length path \<ge> 256 then Err Shm_PathTooLong else Ok path)"

definition path_to_cstring :: "bytes \<Rightarrow> (shm_error, bytes) outcome" where
  "path_to_cstring path = (if 0 \<in> set path then Err Shm_BadParam else Ok path)"

definition pid_alive :: "'os shm_sys \<Rightarrow> int \<Rightarrow> ('os, bool) shm_io" where
  "pid_alive sx pid =
     (if pid \<le> 0 then io_ret False
      else
        io_bind (io_call (sy_kill sx pid)) (\<lambda>ret.
        io_bind (io_get (sy_errno sx)) (\<lambda>e.
        io_ret (ret = 0 \<or> e = EPERM))))"

section \<open>Stale region recovery\<close>

datatype shm_stale_result = Shm_NotExist | Shm_Recovered | Shm_LiveServer | Shm_Invalid

definition stale_check_unavailable :: "int \<Rightarrow> bool" where
  "stale_check_unavailable err \<longleftrightarrow> err = EMFILE \<or> err = ENFILE"

definition unlink_stale_path :: "'os shm_sys \<Rightarrow> bytes \<Rightarrow> ('os, bool) shm_io" where
  "unlink_stale_path sx c_path =
     io_bind (io_call (sy_unlink sx c_path)) (\<lambda>rc.
     io_bind (io_get (sy_errno sx)) (\<lambda>e.
     if rc = 0 \<or> e = ENOENT then io_ret True
     else if e = EISDIR then io_bind (io_call (sy_rmdir sx c_path)) (\<lambda>rc. io_ret (rc = 0))
     else io_ret False))"

text \<open>The end of every branch that reclaims the path.\<close>

definition reclaim :: "'os shm_sys \<Rightarrow> bytes \<Rightarrow> shm_stale_result \<Rightarrow> ('os, shm_stale_result) shm_io" where
  "reclaim sx c_path result =
     io_bind (unlink_stale_path sx c_path) (\<lambda>removed. io_ret (if removed then result else Shm_LiveServer))"

text \<open>The owner fields of the mapped header, which is unmapped afterwards.\<close>

definition read_owner :: "'os shm_sys \<Rightarrow> nat \<Rightarrow> ('os, u32 \<times> int \<times> u32) shm_io" where
  "read_owner sx base =
     io_bind (atomic_load_u32 sx base (unat SHM_HEADER_LEN) OFF_MAGIC) (\<lambda>magic.
     if magic \<noteq> REGION_MAGIC then io_bind (io_mod (sy_munmap sx base)) (\<lambda>_. io_ret (magic, 0, 0))
     else
       io_bind (atomic_load_u32 sx base (unat SHM_HEADER_LEN) OFF_OWNER_PID) (\<lambda>owner.
       io_bind (atomic_load_u32 sx base (unat SHM_HEADER_LEN) OFF_OWNER_GENERATION) (\<lambda>gen.
       io_bind (io_mod (sy_munmap sx base)) (\<lambda>_.
       io_ret (magic, sint owner, gen)))))"

definition check_shm_stale :: "'os shm_sys \<Rightarrow> bytes \<Rightarrow> ('os, shm_stale_result) shm_io" where
  "check_shm_stale sx path =
     (case path_to_cstring path of
        Err _ \<Rightarrow> io_ret Shm_NotExist
      | Panic \<Rightarrow> io_lift Panic
      | Ok c_path \<Rightarrow>
          io_bind (io_call (sy_stat sx c_path)) (\<lambda>(rc, st_size).
          if rc \<noteq> 0 then io_ret Shm_NotExist
          else if st_size < unat SHM_HEADER_LEN then reclaim sx c_path Shm_Invalid
          else
            io_bind (io_call (sy_open_rdonly sx c_path)) (\<lambda>fd.
            if fd < 0 then
              io_bind (io_get (sy_errno sx)) (\<lambda>e.
              if e = ENOENT then io_ret Shm_NotExist
              else if stale_check_unavailable e then io_ret Shm_LiveServer
              else reclaim sx c_path Shm_Invalid)
            else
              io_bind (io_call (sy_mmap sx fd (unat SHM_HEADER_LEN))) (\<lambda>map.
              io_bind (io_mod (sy_close sx fd)) (\<lambda>_.
              case map of
                None \<Rightarrow> reclaim sx c_path Shm_Invalid
              | Some base \<Rightarrow>
                  io_bind (read_owner sx base) (\<lambda>(magic, owner, gen).
                  if magic \<noteq> REGION_MAGIC then reclaim sx c_path Shm_Invalid
                  else
                    io_bind (pid_alive sx owner) (\<lambda>alive.
                    if alive \<and> gen \<noteq> 0 then io_ret Shm_LiveServer
                    else reclaim sx c_path Shm_Recovered)))))))"

text \<open>One directory entry of \<open>cleanup_stale\<close>.\<close>

definition starts_with :: "bytes \<Rightarrow> bytes \<Rightarrow> bool" where
  "starts_with name prefix \<longleftrightarrow> take (length prefix) name = prefix"

definition ends_with :: "bytes \<Rightarrow> bytes \<Rightarrow> bool" where
  "ends_with name suffix \<longleftrightarrow> length suffix \<le> length name \<and> drop (length name - length suffix) name = suffix"

definition cleanup_entry :: "'os shm_sys \<Rightarrow> bytes \<Rightarrow> bytes \<Rightarrow> bytes \<Rightarrow> ('os, unit) shm_io" where
  "cleanup_entry sx run_dir service_name name =
     (if \<not> (starts_with name (service_name @ [45]) \<and> ends_with name shm_suffix) then io_ret ()
      else
        case path_to_cstring (path_join run_dir name) of
          Err _ \<Rightarrow> io_ret ()
        | Panic \<Rightarrow> io_lift Panic
        | Ok c_path \<Rightarrow>
            io_bind (io_call (sy_open_rdonly sx c_path)) (\<lambda>fd.
            if fd < 0 then
              io_bind (io_get (sy_errno sx)) (\<lambda>e.
              if \<not> stale_check_unavailable e then io_bind (unlink_stale_path sx c_path) (\<lambda>_. io_ret ()) else io_ret ())
            else
              io_bind (io_call (sy_fstat sx fd)) (\<lambda>(rc, st_size).
              if rc \<noteq> 0 \<or> st_size < unat SHM_HEADER_LEN then
                io_bind (io_mod (sy_close sx fd)) (\<lambda>_.
                io_bind (unlink_stale_path sx c_path) (\<lambda>_. io_ret ()))
              else
                io_bind (io_call (sy_mmap sx fd (unat SHM_HEADER_LEN))) (\<lambda>map.
                io_bind (io_mod (sy_close sx fd)) (\<lambda>_.
                case map of
                  None \<Rightarrow> io_bind (unlink_stale_path sx c_path) (\<lambda>_. io_ret ())
                | Some base \<Rightarrow>
                    io_bind (read_owner sx base) (\<lambda>(magic, owner, gen).
                    if magic \<noteq> REGION_MAGIC then io_bind (unlink_stale_path sx c_path) (\<lambda>_. io_ret ())
                    else
                      io_bind (pid_alive sx owner) (\<lambda>alive.
                      if \<not> alive \<or> gen = 0 then io_bind (unlink_stale_path sx c_path) (\<lambda>_. io_ret ())
                      else io_ret ())))))))"

fun cleanup_entries :: "'os shm_sys \<Rightarrow> bytes \<Rightarrow> bytes \<Rightarrow> bytes list \<Rightarrow> ('os, unit) shm_io" where
  "cleanup_entries sx run_dir service_name [] = io_ret ()"
| "cleanup_entries sx run_dir service_name (name # names) =
     io_bind (if from_utf8 name then cleanup_entry sx run_dir service_name name else io_ret ()) (\<lambda>_.
     cleanup_entries sx run_dir service_name names)"

definition cleanup_stale :: "'os shm_sys \<Rightarrow> bytes \<Rightarrow> bytes \<Rightarrow> ('os, unit) shm_io" where
  "cleanup_stale sx run_dir service_name =
     io_bind (io_call (sy_readdir sx run_dir)) (\<lambda>entries.
     case entries of None \<Rightarrow> io_ret () | Some names \<Rightarrow> cleanup_entries sx run_dir service_name names)"

section \<open>The context\<close>

record shm_context =
  sm_role :: shm_role
  sm_fd :: int
  sm_base :: "nat option"
  sm_region_size :: usize
  sm_request_offset :: u32
  sm_request_capacity :: u32
  sm_response_offset :: u32
  sm_response_capacity :: u32
  sm_local_req_seq :: u64
  sm_local_resp_seq :: u64
  sm_spin_tries :: u32
  sm_owner_generation :: u32
  sm_path :: bytes

definition owner_alive :: "'os shm_sys \<Rightarrow> shm_context \<Rightarrow> ('os, bool) shm_io" where
  "owner_alive sx ctx =
     (case sm_base ctx of
        None \<Rightarrow> io_ret False
      | Some base \<Rightarrow>
          if sm_region_size ctx < unat SHM_HEADER_LEN then io_ret False
          else
            io_bind (atomic_load_u32 sx base (sm_region_size ctx) OFF_OWNER_PID) (\<lambda>pid.
            io_bind (pid_alive sx (sint pid)) (\<lambda>alive.
            if \<not> alive then io_ret False
            else if sm_owner_generation ctx \<noteq> 0 then
              io_bind (atomic_load_u32 sx base (sm_region_size ctx) OFF_OWNER_GENERATION) (\<lambda>cur_gen.
              io_ret (cur_gen = sm_owner_generation ctx))
            else io_ret True)))"

subsection \<open>Creating a region\<close>

text \<open>Offsets, capacities and size of a region; \<open>as usize\<close> of the last is \<open>unat\<close>.\<close>

definition region_layout :: "u32 \<Rightarrow> u32 \<Rightarrow> (shm_error, u32 \<times> u32 \<times> u32 \<times> u32 \<times> usize) outcome" where
  "region_layout req_capacity resp_capacity =
     rbind (ok_or (align64 req_capacity) Shm_BadParam) (\<lambda>req_cap.
     rbind (ok_or (align64 resp_capacity) Shm_BadParam) (\<lambda>resp_cap.
     rbind (ok_or (align64 (ucast SHM_HEADER_LEN)) Shm_BadParam) (\<lambda>req_off.
     rbind (ok_or (Option.bind (u32_checked_add req_off req_cap) align64) Shm_BadParam) (\<lambda>resp_off.
     rbind (ok_or (u32_checked_add resp_off resp_cap) Shm_BadParam) (\<lambda>region_size.
     Ok (req_off, req_cap, resp_off, resp_cap, unat region_size))))))"

definition open_region :: "'os shm_sys \<Rightarrow> bytes \<Rightarrow> bytes \<Rightarrow> ('os, int) shm_io" where
  "open_region sx path c_path =
     io_bind (io_call (sy_open_excl sx c_path)) (\<lambda>fd.
     io_bind (io_get (sy_errno sx)) (\<lambda>e.
     io_bind
       (if fd < 0 \<and> e = EEXIST then
          io_bind (check_shm_stale sx path) (\<lambda>stale.
          if stale = Shm_LiveServer then io_err Shm_AddrInUse
          else
            io_bind (io_call (sy_open_excl sx c_path)) (\<lambda>fd.
            io_bind (io_get (sy_errno sx)) (\<lambda>e.
            if fd < 0 \<and> e = EEXIST then io_err Shm_AddrInUse else io_ret fd)))
        else io_ret fd) (\<lambda>fd.
     if fd < 0 then io_bind (io_get (sy_errno sx)) (\<lambda>e. io_err (Shm_Open e)) else io_ret fd)))"

definition time_generation :: "int \<times> int \<Rightarrow> u32" where
  "time_generation ts = word_of_int (fst ts) XOR word_of_int (drop_bit 10 (snd ts))"

definition write_header :: "'os shm_sys \<Rightarrow> nat \<Rightarrow> usize \<Rightarrow> u32 \<Rightarrow> u32 \<Rightarrow> u32 \<Rightarrow> u32 \<Rightarrow> u32 \<Rightarrow> ('os, unit) shm_io" where
  "write_header sx base sz generation req_off req_cap resp_off resp_cap =
     io_bind (mem_write sx base sz OFF_MAGIC (u32_to_ne REGION_MAGIC)) (\<lambda>_.
     io_bind (mem_write sx base sz OFF_VERSION (u16_to_ne REGION_VERSION)) (\<lambda>_.
     io_bind (mem_write sx base sz OFF_HEADER_LEN (u16_to_ne SHM_HEADER_LEN)) (\<lambda>_.
     io_bind (io_call (sy_getpid sx)) (\<lambda>pid.
     io_bind (mem_write sx base sz OFF_OWNER_PID (u32_to_ne (word_of_int pid))) (\<lambda>_.
     io_bind (mem_write sx base sz OFF_OWNER_GENERATION (u32_to_ne generation)) (\<lambda>_.
     io_bind (mem_write sx base sz OFF_REQUEST_OFFSET (u32_to_ne req_off)) (\<lambda>_.
     io_bind (mem_write sx base sz OFF_REQUEST_CAPACITY (u32_to_ne req_cap)) (\<lambda>_.
     io_bind (mem_write sx base sz OFF_RESPONSE_OFFSET (u32_to_ne resp_off)) (\<lambda>_.
     mem_write sx base sz OFF_RESPONSE_CAPACITY (u32_to_ne resp_cap))))))))))"

definition init_region :: "'os shm_sys \<Rightarrow> bytes \<Rightarrow> int \<Rightarrow> nat \<Rightarrow> u32 \<times> u32 \<times> u32 \<times> u32 \<times> usize \<Rightarrow> ('os, shm_context) shm_io" where
  "init_region sx path fd base layout =
     (case layout of (req_off, req_cap, resp_off, resp_cap, region_size) \<Rightarrow>
        io_bind (mem_write sx base region_size 0 (replicate region_size 0)) (\<lambda>_.
        io_bind (io_call (sy_clock sx)) (\<lambda>ts.
        let generation = time_generation ts in
        io_bind (write_header sx base region_size generation req_off req_cap resp_off resp_cap) (\<lambda>_.
        io_ret \<lparr>sm_role = Shm_Server, sm_fd = fd, sm_base = Some base, sm_region_size = region_size,
                sm_request_offset = req_off, sm_request_capacity = req_cap,
                sm_response_offset = resp_off, sm_response_capacity = resp_cap,
                sm_local_req_seq = 0, sm_local_resp_seq = 0, sm_spin_tries = DEFAULT_SPIN_TRIES,
                sm_owner_generation = generation, sm_path = path\<rparr>))))"

text \<open>A file that could not be sized or mapped is closed and removed.\<close>

definition abandon_region :: "'os shm_sys \<Rightarrow> int \<Rightarrow> bytes \<Rightarrow> (int \<Rightarrow> shm_error) \<Rightarrow> ('os, 'a) shm_io" where
  "abandon_region sx fd c_path err =
     io_bind (io_get (sy_errno sx)) (\<lambda>e.
     io_bind (io_mod (sy_close sx fd)) (\<lambda>_.
     io_bind (io_call (sy_unlink sx c_path)) (\<lambda>_.
     io_err (err e))))"

definition server_create :: "'os shm_sys \<Rightarrow> bytes \<Rightarrow> bytes \<Rightarrow> u64 \<Rightarrow> u32 \<Rightarrow> u32 \<Rightarrow> ('os, shm_context) shm_io" where
  "server_create sx run_dir service_name session_id req_capacity resp_capacity =
     io_bind (io_lift (build_shm_path run_dir service_name session_id)) (\<lambda>path.
     io_bind (io_lift (region_layout req_capacity resp_capacity)) (\<lambda>layout.
     io_bind (io_lift (path_to_cstring path)) (\<lambda>c_path.
     io_bind (open_region sx path c_path) (\<lambda>fd.
     let region_size = snd (snd (snd (snd layout))) in
     io_bind (io_call (sy_ftruncate sx fd region_size)) (\<lambda>rc.
     if rc < 0 then abandon_region sx fd c_path Shm_Truncate
     else
       io_bind (io_call (sy_mmap sx fd region_size)) (\<lambda>base.
       case base of
         None \<Rightarrow> abandon_region sx fd c_path Shm_Mmap
       | Some base \<Rightarrow> init_region sx path fd base layout))))))"

subsection \<open>Attaching to a region\<close>

text \<open>Every rejected header is unmapped and the descriptor closed.\<close>

definition detach :: "'os shm_sys \<Rightarrow> nat \<Rightarrow> int \<Rightarrow> shm_error \<Rightarrow> ('os, 'a) shm_io" where
  "detach sx base fd e =
     io_bind (io_mod (sy_munmap sx base)) (\<lambda>_.
     io_bind (io_mod (sy_close sx fd)) (\<lambda>_.
     io_err e))"

definition areas_misplaced :: "u32 \<Rightarrow> u32 \<Rightarrow> u32 \<Rightarrow> u32 \<Rightarrow> bool" where
  "areas_misplaced req_off req_cap resp_off resp_cap \<longleftrightarrow>
     req_off mod REGION_ALIGNMENT \<noteq> 0 \<or> req_cap mod REGION_ALIGNMENT \<noteq> 0 \<or>
     resp_off mod REGION_ALIGNMENT \<noteq> 0 \<or> resp_cap mod REGION_ALIGNMENT \<noteq> 0 \<or>
     (case Option.bind (u32_checked_add req_off req_cap) align64 of None \<Rightarrow> True | Some least \<Rightarrow> resp_off < least)"

definition attach_mapped :: "'os shm_sys \<Rightarrow> bytes \<Rightarrow> int \<Rightarrow> usize \<Rightarrow> nat \<Rightarrow> ('os, shm_context) shm_io" where
  "attach_mapped sx path fd file_size base =
     io_bind (atomic_load_u32 sx base file_size OFF_MAGIC) (\<lambda>magic.
     io_bind (load_u16 sx base file_size OFF_VERSION) (\<lambda>version.
     io_bind (load_u16 sx base file_size OFF_HEADER_LEN) (\<lambda>hdr_len.
     if magic \<noteq> REGION_MAGIC then detach sx base fd Shm_BadMagic
     else if version \<noteq> REGION_VERSION then detach sx base fd Shm_BadVersion
     else if hdr_len \<noteq> SHM_HEADER_LEN then detach sx base fd Shm_BadHeader
     else
       io_bind (atomic_load_u32 sx base file_size OFF_REQUEST_OFFSET) (\<lambda>req_off.
       io_bind (atomic_load_u32 sx base file_size OFF_REQUEST_CAPACITY) (\<lambda>req_cap.
       io_bind (atomic_load_u32 sx base file_size OFF_RESPONSE_OFFSET) (\<lambda>resp_off.
       io_bind (atomic_load_u32 sx base file_size OFF_RESPONSE_CAPACITY) (\<lambda>resp_cap.
       let header_end = (case align64 (ucast SHM_HEADER_LEN) of Some v \<Rightarrow> v | None \<Rightarrow> ucast SHM_HEADER_LEN) in
       if req_off < header_end \<or> req_cap = 0 \<or> resp_off < header_end \<or> resp_cap = 0 then detach sx base fd Shm_NotReady
       else if areas_misplaced req_off req_cap resp_off resp_cap then detach sx base fd Shm_BadSize
       else if file_size < max (unat req_off + unat req_cap) (unat resp_off + unat resp_cap) then detach sx base fd Shm_BadSize
       else
         io_bind (atomic_load_u64 sx base file_size OFF_REQ_SEQ) (\<lambda>cur_req_seq.
         io_bind (atomic_load_u64 sx base file_size OFF_RESP_SEQ) (\<lambda>cur_resp_seq.
         io_bind (atomic_load_u32 sx base file_size OFF_OWNER_GENERATION) (\<lambda>generation.
         io_ret \<lparr>sm_role = Shm_Client, sm_fd = fd, sm_base = Some base, sm_region_size = file_size,
                 sm_request_offset = req_off, sm_request_capacity = req_cap,
                 sm_response_offset = resp_off, sm_response_capacity = resp_cap,
                 sm_local_req_seq = cur_req_seq, sm_local_resp_seq = cur_resp_seq, sm_spin_tries = DEFAULT_SPIN_TRIES,
                 sm_owner_generation = generation, sm_path = path\<rparr>))))))))))"

definition client_attach :: "'os shm_sys \<Rightarrow> bytes \<Rightarrow> bytes \<Rightarrow> u64 \<Rightarrow> ('os, shm_context) shm_io" where
  "client_attach sx run_dir service_name session_id =
     io_bind (io_lift (build_shm_path run_dir service_name session_id)) (\<lambda>path.
     io_bind (io_lift (path_to_cstring path)) (\<lambda>c_path.
     io_bind (io_call (sy_open_rdwr sx c_path)) (\<lambda>fd.
     if fd < 0 then io_bind (io_get (sy_errno sx)) (\<lambda>e. io_err (Shm_Open e))
     else
       io_bind (io_call (sy_fstat sx fd)) (\<lambda>(rc, file_size).
       if rc < 0 then
         io_bind (io_mod (sy_close sx fd)) (\<lambda>_.
         io_bind (io_get (sy_errno sx)) (\<lambda>e. io_err (Shm_Open e)))
       else if file_size < unat SHM_HEADER_LEN then
         io_bind (io_mod (sy_close sx fd)) (\<lambda>_. io_err Shm_NotReady)
       else
         io_bind (io_call (sy_mmap sx fd file_size)) (\<lambda>base.
         case base of
           None \<Rightarrow>
             io_bind (io_mod (sy_close sx fd)) (\<lambda>_.
             io_bind (io_get (sy_errno sx)) (\<lambda>e. io_err (Shm_Mmap e)))
         | Some base \<Rightarrow> attach_mapped sx path fd file_size base)))))"

subsection \<open>Sending and receiving\<close>

type_synonym 'os shm_st = "shm_context \<times> 'os"

text \<open>Offset and capacity of an area and the offsets of its sequence number, length and signal word.\<close>

type_synonym area = "u32 \<times> u32 \<times> usize \<times> usize \<times> usize"

definition request_area :: "shm_context \<Rightarrow> area" where
  "request_area ctx = (sm_request_offset ctx, sm_request_capacity ctx, OFF_REQ_SEQ, OFF_REQ_LEN, OFF_REQ_SIGNAL)"

definition response_area :: "shm_context \<Rightarrow> area" where
  "response_area ctx = (sm_response_offset ctx, sm_response_capacity ctx, OFF_RESP_SEQ, OFF_RESP_LEN, OFF_RESP_SIGNAL)"

definition send_area :: "shm_context \<Rightarrow> area" where
  "send_area ctx = (case sm_role ctx of Shm_Client \<Rightarrow> request_area ctx | Shm_Server \<Rightarrow> response_area ctx)"

definition receive_area :: "shm_context \<Rightarrow> area" where
  "receive_area ctx = (case sm_role ctx of Shm_Server \<Rightarrow> request_area ctx | Shm_Client \<Rightarrow> response_area ctx)"

definition count_sent :: "shm_context \<Rightarrow> shm_context" where
  "count_sent ctx =
     (case sm_role ctx of
        Shm_Client \<Rightarrow> ctx\<lparr>sm_local_req_seq := sm_local_req_seq ctx + 1\<rparr>
      | Shm_Server \<Rightarrow> ctx\<lparr>sm_local_resp_seq := sm_local_resp_seq ctx + 1\<rparr>)"

definition shm_send :: "'os shm_sys \<Rightarrow> bytes \<Rightarrow> ('os shm_st, shm_error, unit) io" where
  "shm_send sx msg =
     io_bind (io_get fst) (\<lambda>ctx.
     case sm_base ctx of
       None \<Rightarrow> io_err Shm_BadParam
     | Some base \<Rightarrow>
         if msg = [] then io_err Shm_BadParam
         else
           case send_area ctx of (area_offset, area_capacity, seq_off, len_off, sig_off) \<Rightarrow>
             if length msg > unat area_capacity then io_err Shm_MsgTooLarge
             else
               io_bind (io_snd (mem_write sx base (sm_region_size ctx) (unat area_offset) msg)) (\<lambda>_.
               io_bind (io_snd (atomic_store_u32 sx base (sm_region_size ctx) len_off (word_of_nat (length msg)))) (\<lambda>_.
               io_bind (io_snd (atomic_add_u64 sx base (sm_region_size ctx) seq_off 1)) (\<lambda>_.
               io_bind (io_snd (atomic_add_u32 sx base (sm_region_size ctx) sig_off 1)) (\<lambda>_.
               io_bind (io_snd (io_mod (sy_futex_wake sx base sig_off))) (\<lambda>_.
               io_mod (apfst count_sent)))))))"

definition expected_seq :: "shm_context \<Rightarrow> u64" where
  "expected_seq ctx =
     (case sm_role ctx of Shm_Server \<Rightarrow> sm_local_req_seq ctx + 1 | Shm_Client \<Rightarrow> sm_local_resp_seq ctx + 1)"

definition count_received :: "shm_context \<Rightarrow> shm_context" where
  "count_received ctx =
     (case sm_role ctx of
        Shm_Server \<Rightarrow> ctx\<lparr>sm_local_req_seq := expected_seq ctx\<rparr>
      | Shm_Client \<Rightarrow> ctx\<lparr>sm_local_resp_seq := expected_seq ctx\<rparr>)"

text \<open>The copy is unchecked: writing past the buffer is undefined.\<close>

definition copy_out :: "bytes \<Rightarrow> bytes \<Rightarrow> (shm_error, bytes) outcome" where
  "copy_out buf data = (if length data \<le> length buf then Ok (upd buf 0 data) else Panic)"

text \<open>Length of the published message, and the buffer with its copy if it fits.\<close>

definition take_message :: "'os shm_sys \<Rightarrow> nat \<Rightarrow> usize \<Rightarrow> area \<Rightarrow> usize \<Rightarrow> bytes \<Rightarrow> ('os, usize \<times> bytes) shm_io" where
  "take_message sx base sz area max_copy buf =
     (case area of (area_offset, area_capacity, seq_off, len_off, sig_off) \<Rightarrow>
        io_bind (atomic_load_u32 sx base sz len_off) (\<lambda>mlen.
        if unat mlen > 0 \<and> unat mlen \<le> max_copy then
          io_bind (mem_read sx base sz (unat area_offset) (unat mlen)) (\<lambda>data.
          io_bind (io_lift (copy_out buf data)) (\<lambda>buf.
          io_ret (unat mlen, buf)))
        else io_ret (unat mlen, buf)))"

text \<open>Phase 1, for the given number of tries: the message, if it was observed.\<close>

fun spin_receive ::
  "'os shm_sys \<Rightarrow> nat \<Rightarrow> usize \<Rightarrow> area \<Rightarrow> usize \<Rightarrow> bytes \<Rightarrow> u64 \<Rightarrow> nat \<Rightarrow> ('os, (usize \<times> bytes) option) shm_io" where
  "spin_receive sx base sz area max_copy buf seq 0 = io_ret None"
| "spin_receive sx base sz area max_copy buf seq (Suc n) =
     (case area of (area_offset, area_capacity, seq_off, len_off, sig_off) \<Rightarrow>
        io_bind (atomic_load_u64 sx base sz seq_off) (\<lambda>cur.
        if cur \<ge> seq then io_bind (take_message sx base sz area max_copy buf) (\<lambda>m. io_ret (Some m))
        else spin_receive sx base sz area max_copy buf seq n))"

definition clock_ns :: "'os shm_sys \<Rightarrow> ('os, u64) shm_io" where
  "clock_ns sx = io_bind (io_call (sy_clock sx)) (\<lambda>(tv_sec, tv_nsec). io_ret (word_of_int tv_sec * 1000000000 + word_of_int tv_nsec))"

definition receive_deadline_ns :: "'os shm_sys \<Rightarrow> u32 \<Rightarrow> ('os, u64) shm_io" where
  "receive_deadline_ns sx timeout_ms =
     (if timeout_ms > 0 then io_bind (clock_ns sx) (\<lambda>now. io_ret (now + ucast timeout_ms * 1000000)) else io_ret 0)"

definition futex_timeout :: "'os shm_sys \<Rightarrow> u64 \<Rightarrow> ('os, (u64 \<times> u64) option) shm_io" where
  "futex_timeout sx deadline_ns =
     (if deadline_ns > 0 then
        io_bind (clock_ns sx) (\<lambda>now_val.
        if now_val \<ge> deadline_ns then io_err Shm_Timeout
        else let remain = deadline_ns - now_val in io_ret (Some (remain div 1000000000, remain mod 1000000000)))
      else io_ret None)"

text \<open>One round of phase 2: whether the sequence number has advanced.\<close>

definition futex_round :: "'os shm_sys \<Rightarrow> nat \<Rightarrow> usize \<Rightarrow> usize \<Rightarrow> usize \<Rightarrow> u64 \<Rightarrow> u64 \<Rightarrow> ('os, bool) shm_io" where
  "futex_round sx base sz seq_off sig_off seq deadline_ns =
     io_bind (atomic_load_u32 sx base sz sig_off) (\<lambda>sig_val.
     io_bind (atomic_load_u64 sx base sz seq_off) (\<lambda>cur.
     if cur \<ge> seq then io_ret True
     else
       io_bind (futex_timeout sx deadline_ns) (\<lambda>timeout.
       io_bind (io_call (sy_futex_wait sx base sig_off sig_val timeout)) (\<lambda>ret.
       io_bind (io_get (sy_errno sx)) (\<lambda>e.
       if ret < 0 \<and> e = ETIMEDOUT then io_err Shm_Timeout else io_ret False)))))"

partial_function (option) futex_loop ::
  "'os shm_sys \<Rightarrow> nat \<Rightarrow> usize \<Rightarrow> usize \<Rightarrow> usize \<Rightarrow> u64 \<Rightarrow> u64 \<Rightarrow> 'os \<Rightarrow> ((shm_error, unit) outcome \<times> 'os) option" where
  "futex_loop sx base sz seq_off sig_off seq deadline_ns os =
     (case futex_round sx base sz seq_off sig_off seq deadline_ns os of
        None \<Rightarrow> None
      | Some (Ok arrived, os) \<Rightarrow>
          if arrived then Some (Ok (), os) else futex_loop sx base sz seq_off sig_off seq deadline_ns os
      | Some (Err e, os) \<Rightarrow> Some (Err e, os)
      | Some (Panic, os) \<Rightarrow> Some (Panic, os))"

definition await_message ::
  "'os shm_sys \<Rightarrow> nat \<Rightarrow> shm_context \<Rightarrow> usize \<Rightarrow> bytes \<Rightarrow> u32 \<Rightarrow> ('os, usize \<times> bytes) shm_io" where
  "await_message sx base ctx max_copy buf timeout_ms =
     (case receive_area ctx of (area_offset, area_capacity, seq_off, len_off, sig_off) \<Rightarrow>
        io_bind
          (spin_receive sx base (sm_region_size ctx) (receive_area ctx) max_copy buf (expected_seq ctx) (unat (sm_spin_tries ctx)))
          (\<lambda>observed.
           case observed of
             Some m \<Rightarrow> io_ret m
           | None \<Rightarrow>
               io_bind (receive_deadline_ns sx timeout_ms) (\<lambda>deadline_ns.
               io_bind (futex_loop sx base (sm_region_size ctx) seq_off sig_off (expected_seq ctx) deadline_ns) (\<lambda>_.
               take_message sx base (sm_region_size ctx) (receive_area ctx) max_copy buf))))"

definition shm_receive :: "'os shm_sys \<Rightarrow> bytes \<Rightarrow> u32 \<Rightarrow> ('os shm_st, shm_error, usize \<times> bytes) io" where
  "shm_receive sx buf timeout_ms =
     io_bind (io_get fst) (\<lambda>ctx.
     case sm_base ctx of
       None \<Rightarrow> io_err Shm_BadParam
     | Some base \<Rightarrow>
         if buf = [] then io_err Shm_BadParam
         else
           let max_copy = min (length buf) (unat (fst (snd (receive_area ctx)))) in
           io_bind (io_snd (await_message sx base ctx max_copy buf timeout_ms)) (\<lambda>(mlen, buf).
           io_bind (io_mod (apfst count_received)) (\<lambda>_.
           if mlen = 0 then io_err Shm_BadHeader
           else if mlen > max_copy then io_err Shm_MsgTooLarge
           else io_ret (mlen, buf))))"

subsection \<open>Releasing a region\<close>

definition release :: "'os shm_sys \<Rightarrow> ('os shm_st, shm_error, unit) io" where
  "release sx =
     io_bind (io_get fst) (\<lambda>ctx.
     io_bind (case sm_base ctx of None \<Rightarrow> io_ret () | Some base \<Rightarrow> io_snd (io_mod (sy_munmap sx base))) (\<lambda>_.
     io_bind (if sm_fd ctx \<ge> 0 then io_snd (io_mod (sy_close sx (sm_fd ctx))) else io_ret ()) (\<lambda>_.
     io_mod (apfst (\<lambda>ctx. ctx\<lparr>sm_base := None, sm_fd := if sm_fd ctx \<ge> 0 then -1 else sm_fd ctx\<rparr>)))))"

definition shm_close :: "'os shm_sys \<Rightarrow> ('os shm_st, shm_error, unit) io" where
  "shm_close sx = io_bind (release sx) (\<lambda>_. io_mod (apfst (\<lambda>ctx. ctx\<lparr>sm_region_size := 0\<rparr>)))"

definition shm_destroy :: "'os shm_sys \<Rightarrow> ('os shm_st, shm_error, unit) io" where
  "shm_destroy sx =
     io_bind (release sx) (\<lambda>_.
     io_bind (io_get fst) (\<lambda>ctx.
     io_bind
       (if sm_path ctx \<noteq> [] then
          io_bind
            (case path_to_cstring (sm_path ctx) of
               Ok c \<Rightarrow> io_bind (io_snd (io_call (sy_unlink sx c))) (\<lambda>_. io_ret ())
             | _ \<Rightarrow> io_ret ())
            (\<lambda>_. io_mod (apfst (\<lambda>ctx. ctx\<lparr>sm_path := []\<rparr>)))
        else io_ret ()) (\<lambda>_.
     io_mod (apfst (\<lambda>ctx. ctx\<lparr>sm_region_size := 0\<rparr>)))))"

definition shm_drop :: "'os shm_sys \<Rightarrow> ('os shm_st, shm_error, unit) io" where
  "shm_drop sx = io_bind (io_get fst) (\<lambda>ctx. case sm_role ctx of Shm_Server \<Rightarrow> shm_destroy sx | Shm_Client \<Rightarrow> shm_close sx)"

section \<open>Well-formed contexts\<close>

text \<open>A mapped context has both areas behind the header, disjoint, and inside the mapping.\<close>

definition shm_wf :: "shm_context \<Rightarrow> bool" where
  "shm_wf ctx \<longleftrightarrow>
     sm_base ctx \<noteq> None \<longrightarrow>
       64 \<le> unat (sm_request_offset ctx) \<and>
       unat (sm_request_offset ctx) + unat (sm_request_capacity ctx) \<le> unat (sm_response_offset ctx) \<and>
       unat (sm_response_offset ctx) + unat (sm_response_capacity ctx) \<le> sm_region_size ctx"

text \<open>What a load delivers: as many bytes as were asked for.\<close>

definition loads_exact :: "'os shm_sys \<Rightarrow> bool" where
  "loads_exact sx \<longleftrightarrow> (\<forall>base off n os. length (fst (sy_load sx base off n os)) = n)"

lemma unat_and_not_63: "unat ((w :: u32) AND NOT 63) = unat w div 64 * 64"
proof -
  have m: "(63 :: u32) = mask 6" by (simp add: mask_eq_exp_minus_1)
  have p: "w AND NOT (mask 6) = push_bit 6 (drop_bit 6 w)"
    by (rule bit_eqI) (auto simp: bit_simps)
  have w: "unat w < 2 ^ LENGTH(32)" by (rule unsigned_less)
  then have b: "unat w div 64 * 64 < 2 ^ LENGTH(32)"
    using div_times_less_eq_dividend [of "unat w" 64] by linarith
  have "unat (push_bit 6 (drop_bit 6 w)) = take_bit LENGTH(32) (push_bit 6 (drop_bit 6 (unat w)))"
    using w by (simp add: unsigned_push_bit_eq unsigned_drop_bit_eq take_bit_nat_eq_self)
  also have "push_bit 6 (drop_bit 6 (unat w)) = unat w div 64 * 64"
    by (simp add: push_bit_eq_mult drop_bit_eq_div)
  finally show ?thesis using b unfolding m p by (simp add: take_bit_nat_eq_self)
qed

lemma align64_SomeD:
  assumes "align64 v = Some w"
  shows "unat w = (unat v + 63) div 64 * 64" "unat v \<le> unat w"
proof -
  have b: "unat v + 63 < 2 ^ 32" and w: "w = (v + 63) AND NOT 63"
    using assms by (auto simp: align64_def REGION_ALIGNMENT_def split: if_splits)
  have "unat (v + 63) = unat v + 63" using b by (simp add: unat_word_ariths)
  then show a: "unat w = (unat v + 63) div 64 * 64" unfolding w unat_and_not_63 by simp
  show "unat v \<le> unat w" unfolding a by presburger
qed

lemma u32_checked_add_SomeD: "u32_checked_add a b = Some c \<Longrightarrow> unat c = unat a + unat b"
  by (auto simp: u32_checked_add_def unat_word_ariths split: if_splits)

lemma align64_header [simp]: "align64 (ucast SHM_HEADER_LEN) = Some 64"
  by (simp add: align64_def REGION_ALIGNMENT_def SHM_HEADER_LEN_def)

lemma region_layout_OkD:
  assumes "region_layout req resp = Ok (req_off, req_cap, resp_off, resp_cap, sz)"
  shows "req_off = 64" "unat req_off + unat req_cap \<le> unat resp_off" "unat resp_off + unat resp_cap = sz"
    "unat req \<le> unat req_cap" "unat resp \<le> unat resp_cap" "64 \<le> sz"
proof -
  obtain c v where l: "align64 req = Some req_cap" "align64 resp = Some resp_cap" "req_off = 64"
    "u32_checked_add 64 req_cap = Some c" "align64 c = Some resp_off" "u32_checked_add resp_off resp_cap = Some v" "sz = unat v"
    using assms by (auto simp: region_layout_def rbind_eq_Ok ok_or_eq_Ok bind_eq_Some_conv)
  then show "req_off = 64" "unat req_off + unat req_cap \<le> unat resp_off" "unat resp_off + unat resp_cap = sz"
    "unat req \<le> unat req_cap" "unat resp \<le> unat resp_cap" "64 \<le> sz"
    using align64_SomeD(2) [OF l(1)] align64_SomeD(2) [OF l(2)] align64_SomeD(2) [OF l(5)] u32_checked_add_SomeD [OF l(4)]
      u32_checked_add_SomeD [OF l(6)] by simp_all
qed

subsection \<open>Setting up and recovering never touches memory outside a mapping\<close>

lemma io_post_bind_any:
  assumes "no_panic_io m s" and "\<And>e t. Q (Err e) t" and "\<And>a t. io_post (f a) t Q"
  shows "io_post (io_bind m f) s Q"
  unfolding io_post_bind by (rule io_post_mono [OF assms(1)]) (use assms(2,3) in \<open>auto split: outcome.splits\<close>)

lemma no_panic_mem:
  "off + n \<le> sz \<Longrightarrow> no_panic_io (mem_read sx base sz off n) os"
  "off + length data \<le> sz \<Longrightarrow> no_panic_io (mem_write sx base sz off data) os"
  "off + 8 \<le> sz \<Longrightarrow> no_panic_io (atomic_add_u64 sx base sz off v8) os"
  "off + 4 \<le> sz \<Longrightarrow> no_panic_io (atomic_add_u32 sx base sz off v4) os"
  by (simp_all add: mem_read_def mem_write_def atomic_add_u64_def atomic_add_u32_def no_panic_prims no_panic_mod)

lemma no_panic_load:
  "off + 8 \<le> sz \<Longrightarrow> no_panic_io (atomic_load_u64 sx base sz off) os"
  "off + 4 \<le> sz \<Longrightarrow> no_panic_io (atomic_load_u32 sx base sz off) os"
  "off + 2 \<le> sz \<Longrightarrow> no_panic_io (load_u16 sx base sz off) os"
  "off + 4 \<le> sz \<Longrightarrow> no_panic_io (atomic_store_u32 sx base sz off v) os"
  by (auto simp: atomic_load_u64_def atomic_load_u32_def load_u16_def atomic_store_u32_def intro!: no_panic_intros no_panic_mem)

lemma header_bounds: "unat SHM_HEADER_LEN = 64"
  by (simp add: SHM_HEADER_LEN_def)

lemma path_to_cstring_no_panic [simp]: "path_to_cstring p \<noteq> Panic"
  by (simp add: path_to_cstring_def)

lemma build_shm_path_no_panic [simp]: "build_shm_path d n i \<noteq> Panic"
  by (simp add: build_shm_path_def shm_validate_service_name_def Let_def)

lemma region_layout_no_panic [simp]: "region_layout a b \<noteq> Panic"
  by (auto simp: region_layout_def rbind_eq_Panic)

lemma no_panic_pid_alive: "no_panic_io (pid_alive sx pid) os"
  unfolding pid_alive_def by (intro no_panic_intros)

lemma no_panic_unlink_stale_path: "no_panic_io (unlink_stale_path sx p) os"
  unfolding unlink_stale_path_def by (intro no_panic_intros)

lemma no_panic_reclaim: "no_panic_io (reclaim sx p r) os"
  unfolding reclaim_def by (intro no_panic_intros no_panic_unlink_stale_path)

lemma no_panic_read_owner: "no_panic_io (read_owner sx base) os"
  unfolding read_owner_def by (intro no_panic_intros no_panic_load) (simp_all add: header_bounds shm_offsets)

lemmas no_panic_stale = no_panic_intros no_panic_pid_alive no_panic_unlink_stale_path no_panic_reclaim no_panic_read_owner

lemma no_panic_option:
  "(x = None \<Longrightarrow> no_panic_io m s) \<Longrightarrow> (\<And>a. x = Some a \<Longrightarrow> no_panic_io (f a) s) \<Longrightarrow> no_panic_io (case x of None \<Rightarrow> m | Some a \<Rightarrow> f a) s"
  by (simp split: option.splits)

lemma no_panic_outcome:
  "r \<noteq> Panic \<Longrightarrow> (\<And>a. no_panic_io (f a) s) \<Longrightarrow> (\<And>e. no_panic_io (g e) s) \<Longrightarrow>
     no_panic_io (case r of Ok a \<Rightarrow> f a | Err e \<Rightarrow> g e | Panic \<Rightarrow> p) s"
  by (simp split: outcome.splits)

lemma no_panic_check_shm_stale: "no_panic_io (check_shm_stale sx path) os"
  unfolding check_shm_stale_def by (intro no_panic_outcome no_panic_option no_panic_stale path_to_cstring_no_panic)

lemma no_panic_cleanup_entry: "no_panic_io (cleanup_entry sx d n name) os"
  unfolding cleanup_entry_def by (intro no_panic_outcome no_panic_option no_panic_stale path_to_cstring_no_panic)

lemma no_panic_cleanup_entries: "no_panic_io (cleanup_entries sx d n names) os"
  by (induction names arbitrary: os) (auto intro!: no_panic_intros no_panic_cleanup_entry)

lemma no_panic_cleanup_stale: "no_panic_io (cleanup_stale sx d n) os"
  unfolding cleanup_stale_def by (intro no_panic_option no_panic_intros no_panic_cleanup_entries)

lemma no_panic_open_region: "no_panic_io (open_region sx path c) os"
  unfolding open_region_def by (intro no_panic_intros no_panic_check_shm_stale)

lemma no_panic_write_header: "64 \<le> sz \<Longrightarrow> no_panic_io (write_header sx base sz g a b c d) os"
  unfolding write_header_def
  by (intro no_panic_intros no_panic_mem) (simp_all add: shm_offsets u32_to_ne_def u16_to_ne_def)

definition context_post :: "shm_role \<Rightarrow> (shm_error, shm_context) outcome \<Rightarrow> bool" where
  "context_post role r \<longleftrightarrow>
     (case r of Ok ctx \<Rightarrow> shm_wf ctx \<and> sm_base ctx \<noteq> None \<and> sm_role ctx = role | Err e \<Rightarrow> True | Panic \<Rightarrow> False)"

lemma context_post_Err [simp]: "context_post role (Err e)"
  by (simp add: context_post_def)

text \<open>Rules that follow a program to the branch that yields its value.\<close>

lemma io_post_lift_bind:
  "(\<And>a. r = Ok a \<Longrightarrow> io_post (f a) s Q) \<Longrightarrow> (\<And>e. Q (Err e) s) \<Longrightarrow> r \<noteq> Panic \<Longrightarrow> io_post (io_bind (io_lift r) f) s Q"
  by (auto simp: io_posts split: outcome.splits)

lemma io_post_ite: "(b \<Longrightarrow> io_post m s Q) \<Longrightarrow> (\<not> b \<Longrightarrow> io_post m' s Q) \<Longrightarrow> io_post (if b then m else m') s Q"
  by simp

lemma io_post_option:
  "(x = None \<Longrightarrow> io_post m s Q) \<Longrightarrow> (\<And>a. x = Some a \<Longrightarrow> io_post (f a) s Q) \<Longrightarrow> io_post (case x of None \<Rightarrow> m | Some a \<Rightarrow> f a) s Q"
  by (simp split: option.splits)

lemma io_post_pair: "(\<And>a b. p = (a, b) \<Longrightarrow> io_post (f a b) s Q) \<Longrightarrow> io_post (case p of (a, b) \<Rightarrow> f a b) s Q"
  by (cases p) simp

lemma io_post_fail: "Q (Err e) s \<Longrightarrow> io_post (io_err e) s Q"
  by (simp add: io_posts)

lemmas io_post_follow = io_post_lift_bind io_post_bind_any io_post_ite io_post_option io_post_pair io_post_fail
  path_to_cstring_no_panic build_shm_path_no_panic region_layout_no_panic context_post_Err

lemma init_region_post:
  assumes "region_layout req resp = Ok layout"
  shows "io_post (init_region sx path fd base layout) os (\<lambda>r _. context_post Shm_Server r)"
proof -
  obtain ro rc po pc sz where l: "layout = (ro, rc, po, pc, sz)" by (metis surj_pair)
  note layout = region_layout_OkD [OF assms [unfolded l]]
  then show ?thesis
    unfolding init_region_def l Let_def prod.case
    by (intro io_post_follow no_panic_mem no_panic_prims no_panic_write_header)
      (auto simp: io_posts context_post_def shm_wf_def)
qed

lemma server_create_post: "io_post (server_create sx run_dir name sid req resp) os (\<lambda>r _. context_post Shm_Server r)"
  unfolding server_create_def Let_def abandon_region_def
  by (intro io_post_follow no_panic_open_region no_panic_prims no_panic_mod init_region_post)

lemma areas_placedD:
  "\<not> areas_misplaced ro rc po pc \<Longrightarrow> unat ro + unat rc \<le> unat po"
  by (auto simp: areas_misplaced_def word_le_nat_alt word_less_nat_alt bind_eq_Some_conv dest!: align64_SomeD(2) u32_checked_add_SomeD
      split: option.splits Option.bind_splits)

lemma attach_mapped_post:
  assumes "64 \<le> sz"
  shows "io_post (attach_mapped sx path fd sz base) os (\<lambda>r _. context_post Shm_Client r)"
  unfolding attach_mapped_def detach_def Let_def align64_header option.case
  by (intro io_post_follow no_panic_load no_panic_prims no_panic_mod)
    (use assms in \<open>auto simp: io_posts context_post_def shm_wf_def shm_offsets word_less_nat_alt dest!: areas_placedD\<close>)

lemma client_attach_post: "io_post (client_attach sx run_dir name sid) os (\<lambda>r _. context_post Shm_Client r)"
  unfolding client_attach_def
  by (intro io_post_follow no_panic_prims no_panic_mod attach_mapped_post) (simp add: header_bounds)

lemma no_panic_owner_alive: "no_panic_io (owner_alive sx ctx) os"
  unfolding owner_alive_def
  by (intro no_panic_option no_panic_intros no_panic_load no_panic_pid_alive) (simp_all add: header_bounds shm_offsets)

subsection \<open>Sending and receiving stay inside the region and the buffer\<close>

definition area_ok :: "usize \<Rightarrow> area \<Rightarrow> bool" where
  "area_ok sz area \<longleftrightarrow>
     (case area of (area_offset, area_capacity, seq_off, len_off, sig_off) \<Rightarrow>
        64 \<le> unat area_offset \<and> unat area_offset + unat area_capacity \<le> sz \<and>
        seq_off + 8 \<le> 64 \<and> len_off + 4 \<le> 64 \<and> sig_off + 4 \<le> 64)"

lemma areas_ok:
  assumes "shm_wf ctx" "sm_base ctx \<noteq> None"
  shows "area_ok (sm_region_size ctx) (request_area ctx)" "area_ok (sm_region_size ctx) (response_area ctx)"
  using assms by (simp_all add: shm_wf_def area_ok_def request_area_def response_area_def shm_offsets)

lemma send_area_ok: "shm_wf ctx \<Longrightarrow> sm_base ctx \<noteq> None \<Longrightarrow> area_ok (sm_region_size ctx) (send_area ctx)"
  by (simp add: send_area_def areas_ok split: shm_role.splits)

lemma receive_area_ok: "shm_wf ctx \<Longrightarrow> sm_base ctx \<noteq> None \<Longrightarrow> area_ok (sm_region_size ctx) (receive_area ctx)"
  by (simp add: receive_area_def areas_ok split: shm_role.splits)

lemma area_okD:
  assumes "area_ok sz (ao, ac, so, lo, go)"
  shows "64 \<le> sz" "unat ao + unat ac \<le> sz" "so + 8 \<le> sz" "lo + 4 \<le> sz" "go + 4 \<le> sz"
  using assms by (auto simp: area_ok_def)

lemma counted_wf: "shm_wf ctx \<Longrightarrow> shm_wf (count_sent ctx)" "shm_wf ctx \<Longrightarrow> shm_wf (count_received ctx)"
  by (auto simp: shm_wf_def count_sent_def count_received_def split: shm_role.splits)

text \<open>What a receive leaves: at most \<open>max_copy\<close> bytes written at the start of the buffer when the length is in range.\<close>

definition copied_post :: "usize \<Rightarrow> bytes \<Rightarrow> (shm_error, usize \<times> bytes) outcome \<Rightarrow> bool" where
  "copied_post max_copy buf r \<longleftrightarrow>
     (case r of
        Ok (n, buf') \<Rightarrow> length buf' = length buf \<and> drop n buf' = drop n buf \<and> (0 < n \<and> n \<le> max_copy \<or> buf' = buf)
      | Err e \<Rightarrow> True
      | Panic \<Rightarrow> False)"

lemma copied_post_Err [simp]: "copied_post m buf (Err e)"
  by (simp add: copied_post_def)

lemma mem_read_post:
  assumes "loads_exact sx" "off + n \<le> sz"
  shows "io_post (mem_read sx base sz off n) os (\<lambda>r _. case r of Ok data \<Rightarrow> length data = n | Err e \<Rightarrow> False | Panic \<Rightarrow> False)"
  using assms(1) [unfolded loads_exact_def, THEN spec, THEN spec, THEN spec, THEN spec, of base off n os] assms(2)
  by (auto simp: mem_read_def io_posts split: prod.splits)

lemma take_message_post:
  assumes ld: "loads_exact sx" and ok: "area_ok sz area" and m: "max_copy \<le> length buf" "max_copy \<le> unat (fst (snd area))"
  shows "io_post (take_message sx base sz area max_copy buf) os (\<lambda>r _. copied_post max_copy buf r)"
proof -
  obtain ao ac so lo go where area: "area = (ao, ac, so, lo, go)" by (metis surj_pair)
  note ok' = area_okD [OF ok [unfolded area]]
  have copied: "io_post (io_bind (mem_read sx base sz (unat ao) n) (\<lambda>data. io_bind (io_lift (copy_out buf data)) (\<lambda>buf. io_ret (n, buf)))) t
      (\<lambda>r _. copied_post max_copy buf r)" if "0 < n" "n \<le> max_copy" for n t
    unfolding io_post_bind [of "mem_read sx base sz (unat ao) n"]
    by (rule io_post_mono [OF mem_read_post [OF ld]])
      (use that m ok' in \<open>auto simp: area copy_out_def io_posts copied_post_def upd_def split: outcome.splits\<close>)
  show ?thesis
    unfolding take_message_def area prod.case
    by (rule io_post_bind_any [OF no_panic_load(2) [OF ok'(4)]])
      (use copied in \<open>auto simp: io_post_prim copied_post_def\<close>)
qed

lemma spin_receive_post:
  assumes "loads_exact sx" "area_ok sz area" "max_copy \<le> length buf" "max_copy \<le> unat (fst (snd area))"
  shows "io_post (spin_receive sx base sz area max_copy buf seq n) os
    (\<lambda>r _. case r of Ok (Some m) \<Rightarrow> copied_post max_copy buf (Ok m) | Panic \<Rightarrow> False | _ \<Rightarrow> True)"
proof (induction n arbitrary: os)
  case (Suc n)
  obtain ao ac so lo go where area: "area = (ao, ac, so, lo, go)" by (metis surj_pair)
  have "io_post (io_bind (take_message sx base sz area max_copy buf) (\<lambda>m. io_ret (Some m))) t
      (\<lambda>r _. case r of Ok (Some m) \<Rightarrow> copied_post max_copy buf (Ok m) | Panic \<Rightarrow> False | _ \<Rightarrow> True)" for t
    unfolding io_post_bind
    by (rule io_post_mono [OF take_message_post [OF assms]]) (auto simp: io_posts copied_post_def split: outcome.splits)
  then show ?case
    using Suc.IH no_panic_load(1) [OF area_okD(3) [OF assms(2) [unfolded area]]]
    by (auto simp: area intro!: io_post_bind_any)
qed (simp add: io_posts)

lemma no_panic_clock: "no_panic_io (clock_ns sx) os"
  unfolding clock_ns_def by (intro no_panic_intros)

lemma no_panic_futex_round:
  assumes "so + 8 \<le> sz" "go + 4 \<le> sz"
  shows "no_panic_io (futex_round sx base sz so go seq d) os"
  unfolding futex_round_def futex_timeout_def Let_def
  by (intro no_panic_intros no_panic_clock no_panic_load assms)

lemma futex_loop_no_panic:
  assumes "futex_loop sx base sz so go seq d os = Some y"
  shows "so + 8 \<le> sz \<longrightarrow> go + 4 \<le> sz \<longrightarrow> fst y \<noteq> Panic"
proof (rule futex_loop.raw_induct [where P = "\<lambda>sx base sz so go seq d os y. so + 8 \<le> sz \<longrightarrow> go + 4 \<le> sz \<longrightarrow> fst y \<noteq> Panic",
      OF _ assms], goal_cases)
  case (1 f sx base sz so go seq d os y)
  show ?case
    using 1(2) no_panic_futex_round [of so sz go sx base seq d os] 1(1) [of sx base sz so go seq d _ y]
    by (auto simp: io_post_def split: option.splits outcome.splits if_splits)
qed

lemma no_panic_futex_loop: "so + 8 \<le> sz \<Longrightarrow> go + 4 \<le> sz \<Longrightarrow> no_panic_io (futex_loop sx base sz so go seq d) os"
  using futex_loop_no_panic [of sx base sz so go seq d os] by (auto simp: io_post_def split: option.splits)

lemma await_message_post:
  assumes "loads_exact sx" "shm_wf ctx" "sm_base ctx \<noteq> None" "max_copy \<le> length buf" "max_copy \<le> unat (fst (snd (receive_area ctx)))"
  shows "io_post (await_message sx base ctx max_copy buf timeout) os (\<lambda>r _. copied_post max_copy buf r)"
proof -
  obtain ao ac so lo go where area: "receive_area ctx = (ao, ac, so, lo, go)" by (metis surj_pair)
  note ok = receive_area_ok [OF assms(2,3)]
  note ok' = area_okD [OF ok [unfolded area]]
  have slow: "io_post (io_bind (receive_deadline_ns sx timeout) (\<lambda>d.
      io_bind (futex_loop sx base (sm_region_size ctx) so go (expected_seq ctx) d) (\<lambda>_.
      take_message sx base (sm_region_size ctx) (receive_area ctx) max_copy buf))) t (\<lambda>r _. copied_post max_copy buf r)" for t
    by (intro io_post_bind_any copied_post_Err take_message_post assms ok no_panic_futex_loop ok')
      (unfold receive_deadline_ns_def, intro no_panic_intros no_panic_clock)
  show ?thesis
    unfolding await_message_def area prod.case unfolding area [symmetric] io_post_bind [of "spin_receive _ _ _ _ _ _ _ _"]
    by (rule io_post_mono [OF spin_receive_post [OF assms(1) ok assms(4,5)]])
      (use slow in \<open>auto simp: io_post_prim split: outcome.splits option.splits\<close>)
qed

lemma shm_send_post:
  assumes "shm_wf ctx"
  shows "io_post (shm_send sx msg) (ctx, os) (\<lambda>r st. r \<noteq> Panic \<and> shm_wf (fst st))"
proof (cases "sm_base ctx")
  case (Some base)
  obtain ao ac so lo go where area: "send_area ctx = (ao, ac, so, lo, go)" by (metis surj_pair)
  note ok = area_okD [OF send_area_ok [OF assms, unfolded area]]
  have in_bounds: "unat ao + length msg \<le> sm_region_size ctx" if "\<not> unat ac < length msg"
    using ok(2) that Some by simp
  show ?thesis
    using ok counted_wf(1) [OF assms] assms in_bounds
    by (auto simp: shm_send_def io_posts Some area mem_write_def atomic_store_u32_def atomic_add_u64_def atomic_add_u32_def u32_to_ne_def)
qed (use assms in \<open>auto simp: shm_send_def io_posts\<close>)

lemma shm_receive_post:
  assumes "loads_exact sx" "shm_wf ctx"
  shows "io_post (shm_receive sx buf timeout) (ctx, os)
    (\<lambda>r st. shm_wf (fst st) \<and>
       (case r of
          Ok (n, buf') \<Rightarrow> 0 < n \<and> n \<le> length buf \<and> length buf' = length buf \<and> drop n buf' = drop n buf
        | Err e \<Rightarrow> True
        | Panic \<Rightarrow> False))"
proof (cases "sm_base ctx")
  case (Some base)
  let ?m = "min (length buf) (unat (fst (snd (receive_area ctx))))"
  have "io_post (await_message sx base ctx ?m buf timeout) os (\<lambda>r _. copied_post ?m buf r)"
    by (rule await_message_post [OF assms]) (simp_all add: Some)
  then show ?thesis
    using assms(2) counted_wf(2) [OF assms(2)]
    by (auto simp: shm_receive_def io_posts Some Let_def elim!: io_post_mono)
      (auto simp: copied_post_def io_posts split: outcome.splits)
qed (use assms in \<open>auto simp: shm_receive_def io_posts\<close>)

text \<open>What dropping a context does to the system: the region is unmapped, the descriptor closed, and a server unlinks the file.\<close>

definition released :: "'os shm_sys \<Rightarrow> shm_context \<Rightarrow> 'os \<Rightarrow> 'os" where
  "released sx ctx os =
     (let os = (case sm_base ctx of None \<Rightarrow> os | Some base \<Rightarrow> sy_munmap sx base os) in
      if sm_fd ctx \<ge> 0 then sy_close sx (sm_fd ctx) os else os)"

lemma release_run:
  "release sx (ctx, os) =
     Some (Ok (), (ctx\<lparr>sm_base := None, sm_fd := if sm_fd ctx \<ge> 0 then -1 else sm_fd ctx\<rparr>, released sx ctx os))"
  by (cases "sm_base ctx") (simp_all add: release_def released_def io_bind_def io_defs io_snd_def apfst_def)

lemma shm_close_run:
  "shm_close sx (ctx, os) = Some (Ok (),
     (ctx\<lparr>sm_base := None, sm_fd := if sm_fd ctx \<ge> 0 then -1 else sm_fd ctx, sm_region_size := 0\<rparr>, released sx ctx os))"
  by (simp add: shm_close_def io_bind_def release_run io_mod_def)

lemma shm_destroy_run:
  "shm_destroy sx (ctx, os) = Some (Ok (),
     (ctx\<lparr>sm_base := None, sm_fd := if sm_fd ctx \<ge> 0 then -1 else sm_fd ctx, sm_path := [], sm_region_size := 0\<rparr>,
      if sm_path ctx \<noteq> [] \<and> 0 \<notin> set (sm_path ctx) then snd (sy_unlink sx (sm_path ctx) (released sx ctx os)) else released sx ctx os))"
  by (cases "sm_path ctx = []"; cases "0 \<in> set (sm_path ctx)")
    (simp_all add: shm_destroy_def io_bind_def release_run io_defs io_snd_def path_to_cstring_def case_prod_beta)

lemma shm_close_post: "io_post (shm_close sx) (ctx, os) (\<lambda>r st. r = Ok () \<and> sm_base (fst st) = None \<and> shm_wf (fst st))"
  by (simp add: io_post_def shm_close_run shm_wf_def)

lemma shm_destroy_post: "io_post (shm_destroy sx) (ctx, os) (\<lambda>r st. r = Ok () \<and> sm_base (fst st) = None \<and> shm_wf (fst st))"
  by (simp add: io_post_def shm_destroy_run shm_wf_def)

section \<open>A system of files\<close>

text \<open>A system for concrete runs: names refer to numbered files, descriptors and mapped addresses refer to them as well,
  and files, descriptors and addresses take the next free number. A call that fails sets \<open>errno\<close>.\<close>

record file_state =
  fs_dir :: "bytes \<rightharpoonup> nat"
  fs_data :: "nat \<Rightarrow> bytes"
  fs_fds :: "int \<rightharpoonup> nat"
  fs_maps :: "nat \<rightharpoonup> nat"
  fs_next :: nat
  fs_errno :: int

definition no_files :: file_state where
  "no_files = \<lparr>fs_dir = Map.empty, fs_data = (\<lambda>_. []), fs_fds = Map.empty, fs_maps = Map.empty, fs_next = 3, fs_errno = 0\<rparr>"

definition fs_create :: "bytes \<Rightarrow> file_state \<Rightarrow> int \<times> file_state" where
  "fs_create path s =
     (case fs_dir s path of
        Some _ \<Rightarrow> (-1, s\<lparr>fs_errno := EEXIST\<rparr>)
      | None \<Rightarrow> (int (fs_next s),
          s\<lparr>fs_dir := (fs_dir s)(path \<mapsto> fs_next s), fs_data := (fs_data s)(fs_next s := []),
            fs_fds := (fs_fds s)(int (fs_next s) \<mapsto> fs_next s), fs_next := fs_next s + 1\<rparr>))"

definition fs_open :: "bytes \<Rightarrow> file_state \<Rightarrow> int \<times> file_state" where
  "fs_open path s =
     (case fs_dir s path of
        None \<Rightarrow> (-1, s\<lparr>fs_errno := ENOENT\<rparr>)
      | Some i \<Rightarrow> (int (fs_next s), s\<lparr>fs_fds := (fs_fds s)(int (fs_next s) \<mapsto> i), fs_next := fs_next s + 1\<rparr>))"

definition fs_size :: "nat option \<Rightarrow> file_state \<Rightarrow> (int \<times> usize) \<times> file_state" where
  "fs_size file s = (case file of None \<Rightarrow> ((-1, 0), s\<lparr>fs_errno := ENOENT\<rparr>) | Some i \<Rightarrow> ((0, length (fs_data s i)), s))"

definition fs_truncate :: "int \<Rightarrow> usize \<Rightarrow> file_state \<Rightarrow> int \<times> file_state" where
  "fs_truncate fd n s =
     (case fs_fds s fd of
        None \<Rightarrow> (-1, s)
      | Some i \<Rightarrow> (0, s\<lparr>fs_data := (fs_data s)(i := take n (fs_data s i) @ replicate (n - length (fs_data s i)) 0)\<rparr>))"

definition fs_mmap :: "int \<Rightarrow> usize \<Rightarrow> file_state \<Rightarrow> nat option \<times> file_state" where
  "fs_mmap fd n s =
     (case fs_fds s fd of
        None \<Rightarrow> (None, s)
      | Some i \<Rightarrow> (Some (fs_next s), s\<lparr>fs_maps := (fs_maps s)(fs_next s \<mapsto> i), fs_next := fs_next s + 1\<rparr>))"

definition fs_unlink :: "bytes \<Rightarrow> file_state \<Rightarrow> int \<times> file_state" where
  "fs_unlink path s =
     (case fs_dir s path of
        None \<Rightarrow> (-1, s\<lparr>fs_errno := ENOENT\<rparr>)
      | Some _ \<Rightarrow> (0, s\<lparr>fs_dir := (fs_dir s)(path := None)\<rparr>))"

definition fs_load :: "nat \<Rightarrow> usize \<Rightarrow> nat \<Rightarrow> file_state \<Rightarrow> bytes \<times> file_state" where
  "fs_load b off n s =
     (take n (drop off (case fs_maps s b of None \<Rightarrow> [] | Some i \<Rightarrow> fs_data s i) @ replicate n 0), s)"

definition fs_write :: "nat \<Rightarrow> (bytes \<Rightarrow> bytes) \<Rightarrow> file_state \<Rightarrow> file_state" where
  "fs_write b f s = (case fs_maps s b of None \<Rightarrow> s | Some i \<Rightarrow> s\<lparr>fs_data := (fs_data s)(i := f (fs_data s i))\<rparr>)"

definition file_sys :: "file_state shm_sys" where
  "file_sys =
     \<lparr>sy_errno = fs_errno,
      sy_open_excl = fs_create, sy_open_rdwr = fs_open, sy_open_rdonly = fs_open,
      sy_fstat = (\<lambda>fd s. fs_size (fs_fds s fd) s), sy_stat = (\<lambda>path s. fs_size (fs_dir s path) s),
      sy_ftruncate = fs_truncate, sy_mmap = fs_mmap,
      sy_munmap = (\<lambda>b s. s\<lparr>fs_maps := (fs_maps s)(b := None)\<rparr>), sy_close = (\<lambda>fd s. s\<lparr>fs_fds := (fs_fds s)(fd := None)\<rparr>),
      sy_unlink = fs_unlink, sy_rmdir = (\<lambda>_ s. (-1, s)), sy_readdir = (\<lambda>_ s. (None, s)),
      sy_kill = (\<lambda>_ s. (0, s)), sy_getpid = (\<lambda>s. (7, s)), sy_clock = (\<lambda>s. ((1, 0), s)),
      sy_futex_wait = (\<lambda>_ _ _ _ s. (0, s)), sy_futex_wake = (\<lambda>_ _ s. s),
      sy_load = fs_load,
      sy_store = (\<lambda>b off data. fs_write b (\<lambda>d. upd d off data)),
      sy_add64 = (\<lambda>b off v. fs_write b (\<lambda>d. upd d off (u64_to_ne (u64_from_ne (sub d off 8) + v)))),
      sy_add32 = (\<lambda>b off v. fs_write b (\<lambda>d. upd d off (u32_to_ne (u32_from_ne (sub d off 4) + v))))\<rparr>"

lemma file_sys_loads [simp]: "loads_exact file_sys"
  by (auto simp: loads_exact_def file_sys_def fs_load_def)

section \<open>Properties\<close>

lemma io_total_bind: "m s \<noteq> None \<Longrightarrow> (\<And>a t. f a t \<noteq> None) \<Longrightarrow> io_bind m f s \<noteq> None"
  by (auto simp: io_bind_def split: option.splits outcome.splits)

lemma io_total_prims: "io_ret a s \<noteq> None" "io_err e s \<noteq> None" "io_call g s \<noteq> None" "io_lift r s \<noteq> None"
  by (auto simp: io_defs split: prod.splits)

lemma io_total_mod: "io_mod h s \<noteq> None"
  by (simp add: io_defs)

lemma io_total_get: "io_get k s \<noteq> None"
  by (simp add: io_defs)

lemma io_total_if: "(b \<Longrightarrow> m s \<noteq> None) \<Longrightarrow> (\<not> b \<Longrightarrow> m' s \<noteq> None) \<Longrightarrow> (if b then m else m') s \<noteq> None"
  by simp

lemma io_total_option:
  "(x = None \<Longrightarrow> m s \<noteq> None) \<Longrightarrow> (\<And>a. x = Some a \<Longrightarrow> f a s \<noteq> None) \<Longrightarrow> (case x of None \<Rightarrow> m | Some a \<Rightarrow> f a) s \<noteq> None"
  by (simp split: option.splits)

lemma io_total_outcome:
  "(\<And>a. f a s \<noteq> None) \<Longrightarrow> (\<And>e. g e s \<noteq> None) \<Longrightarrow> p s \<noteq> None \<Longrightarrow> (case r of Ok a \<Rightarrow> f a | Err e \<Rightarrow> g e | Panic \<Rightarrow> p) s \<noteq> None"
  by (simp split: outcome.splits)

lemma io_total_pair: "(\<And>a b. f a b s \<noteq> None) \<Longrightarrow> (case p of (a, b) \<Rightarrow> f a b) s \<noteq> None"
  by (cases p) simp

lemmas io_totals = io_total_bind io_total_prims io_total_mod io_total_get io_total_if io_total_option io_total_outcome io_total_pair

lemma server_create_returns: "server_create sx d n sid req resp os \<noteq> None"
  unfolding server_create_def Let_def abandon_region_def init_region_def write_header_def mem_write_def open_region_def check_shm_stale_def
    read_owner_def pid_alive_def reclaim_def unlink_stale_path_def atomic_load_u32_def mem_read_def
  by (intro io_totals)

lemma client_attach_returns: "client_attach sx d n sid os \<noteq> None"
  unfolding client_attach_def attach_mapped_def Let_def detach_def atomic_load_u64_def atomic_load_u32_def load_u16_def mem_read_def
  by (intro io_totals)

text \<open>C16: Whatever the file system and the header of an existing region contain, and whatever another process does meanwhile,
  \<open>server_create\<close> and \<open>client_attach\<close> return, never access memory outside the mapping, and a context they yield is well formed:
  it is mapped, the request area lies behind the 64-byte header, the response area behind the request area, and both inside
  the mapping.\<close>

theorem shm_setup_wf:
  "server_create sx run_dir name sid req resp os \<noteq> None \<and> client_attach sx run_dir name sid os \<noteq> None \<and>
   io_post (server_create sx run_dir name sid req resp) os (\<lambda>r _. context_post Shm_Server r) \<and>
   io_post (client_attach sx run_dir name sid) os (\<lambda>r _. context_post Shm_Client r)"
  by (intro conjI server_create_returns client_attach_returns server_create_post client_attach_post)

text \<open>C17: On a well-formed context, and for every peer that writes to the region at the same time, \<open>send\<close> and \<open>receive\<close> access
  only the mapped region, keep the context well formed, and a message that \<open>receive\<close> delivers is at most as long as the
  caller's buffer and leaves the rest of the buffer unchanged. Dropping the context unmaps the region, if there is one, then
  closes its descriptor, if there is one, and then unlinks its file, if it is the server's and has a path; it does nothing
  else to the system, and leaves a context without mapping, descriptor and size.\<close>

theorem shm_transfer_safe:
  assumes "loads_exact sx" "shm_wf ctx"
  shows "io_post (shm_send sx msg) (ctx, os) (\<lambda>r st. r \<noteq> Panic \<and> shm_wf (fst st)) \<and>
    io_post (shm_receive sx buf timeout) (ctx, os)
      (\<lambda>r st. shm_wf (fst st) \<and>
         (case r of
            Ok (n, buf') \<Rightarrow> 0 < n \<and> n \<le> length buf \<and> length buf' = length buf \<and> drop n buf' = drop n buf
          | Err e \<Rightarrow> True
          | Panic \<Rightarrow> False)) \<and>
    (\<exists>ctx'. shm_drop sx (ctx, os) = Some (Ok (), (ctx',
        let os1 = (case sm_base ctx of None \<Rightarrow> os | Some base \<Rightarrow> sy_munmap sx base os);
            os2 = (if sm_fd ctx \<ge> 0 then sy_close sx (sm_fd ctx) os1 else os1) in
        if sm_role ctx = Shm_Server \<and> sm_path ctx \<noteq> [] \<and> 0 \<notin> set (sm_path ctx)
        then snd (sy_unlink sx (sm_path ctx) os2) else os2)) \<and>
      sm_base ctx' = None \<and> sm_fd ctx' < 0 \<and> sm_region_size ctx' = 0 \<and> shm_wf ctx')"
proof (intro conjI)
  show "\<exists>ctx'. shm_drop sx (ctx, os) = Some (Ok (), (ctx',
        let os1 = (case sm_base ctx of None \<Rightarrow> os | Some base \<Rightarrow> sy_munmap sx base os);
            os2 = (if sm_fd ctx \<ge> 0 then sy_close sx (sm_fd ctx) os1 else os1) in
        if sm_role ctx = Shm_Server \<and> sm_path ctx \<noteq> [] \<and> 0 \<notin> set (sm_path ctx)
        then snd (sy_unlink sx (sm_path ctx) os2) else os2)) \<and>
      sm_base ctx' = None \<and> sm_fd ctx' < 0 \<and> sm_region_size ctx' = 0 \<and> shm_wf ctx'"
    unfolding Let_def released_def [unfolded Let_def, symmetric]
    by (cases "sm_role ctx") (simp_all add: shm_drop_def shm_close_run shm_destroy_run shm_wf_def)
qed (rule shm_send_post [OF assms(2)], rule shm_receive_post [OF assms])

definition demo_context :: shm_context where
  "demo_context =
     \<lparr>sm_role = Shm_Server, sm_fd = 3, sm_base = Some 4, sm_region_size = 192, sm_request_offset = 64, sm_request_capacity = 64,
      sm_response_offset = 128, sm_response_capacity = 64, sm_local_req_seq = 0, sm_local_resp_seq = 0,
      sm_spin_tries = 2, sm_owner_generation = 1, sm_path = [47, 97]\<rparr>"

definition demo_files :: file_state where
  "demo_files = \<lparr>fs_dir = [[47, 97] \<mapsto> 3], fs_data = (\<lambda>_. replicate 192 1), fs_fds = [3 \<mapsto> 3], fs_maps = [4 \<mapsto> 3], fs_next = 5, fs_errno = 0\<rparr>"

lemma demo_context_wf: "shm_wf demo_context"
  by (simp add: shm_wf_def demo_context_def)

text \<open>After the drop the name, the descriptor and the mapping are gone.\<close>

theorem shm_transfer_safe_witness:
  "loads_exact file_sys \<and> shm_wf demo_context \<and>
   io_post (shm_receive file_sys [0, 0] 10) (demo_context, demo_files)
      (\<lambda>r st. shm_wf (fst st) \<and>
         (case r of
            Ok (n, buf') \<Rightarrow> 0 < n \<and> n \<le> length [0, 0 :: u8] \<and> length buf' = length [0, 0 :: u8] \<and> drop n buf' = drop n [0, 0]
          | Err e \<Rightarrow> True
          | Panic \<Rightarrow> False)) \<and>
   (case shm_drop file_sys (demo_context, demo_files) of
      Some (Ok _, (ctx', fs)) \<Rightarrow> fs_maps fs 4 = None \<and> fs_fds fs 3 = None \<and> fs_dir fs [47, 97] = None
    | _ \<Rightarrow> False)"
proof -
  note t = shm_transfer_safe [OF file_sys_loads demo_context_wf, of "[1]" demo_files "[0, 0]" 10]
  obtain ctx' where "shm_drop file_sys (demo_context, demo_files) = Some (Ok (), (ctx',
        let os1 = (case sm_base demo_context of None \<Rightarrow> demo_files | Some base \<Rightarrow> sy_munmap file_sys base demo_files);
            os2 = (if sm_fd demo_context \<ge> 0 then sy_close file_sys (sm_fd demo_context) os1 else os1) in
        if sm_role demo_context = Shm_Server \<and> sm_path demo_context \<noteq> [] \<and> 0 \<notin> set (sm_path demo_context)
        then snd (sy_unlink file_sys (sm_path demo_context) os2) else os2))" using t by blast
  then have "case shm_drop file_sys (demo_context, demo_files) of
      Some (Ok _, (ctx', fs)) \<Rightarrow> fs_maps fs 4 = None \<and> fs_fds fs 3 = None \<and> fs_dir fs [47, 97] = None
    | _ \<Rightarrow> False"
    by (simp add: demo_context_def demo_files_def file_sys_def fs_unlink_def)
  then show ?thesis using t file_sys_loads demo_context_wf by blast
qed

end
