(* ===== verification/Shm_Exchange.thy ===== *)
theory Shm_Exchange
  imports Shm
begin

text \<open>
  A session over shared memory from end to end (\<open>transport/shm.rs\<close>): the region the server creates is the one the client
  attaches to, requests and responses are delivered unchanged, a region of generation zero is taken for stale, and a
  receive with a timeout returns. What the file system, the memory and the clock do is stated as predicates on the
  system parameter of \<open>Shm\<close>.
\<close>

section \<open>A region that only its two users write\<close>

text \<open>The documented effect of the memory accesses on the contents \<open>mem\<close> of a region, through any of the addresses it is mapped
  at. Which these are is a function of \<open>fr\<close>, the part of the system's state that the accesses leave alone.\<close>

definition region_memory :: "'os shm_sys \<Rightarrow> ('os \<Rightarrow> bytes) \<Rightarrow> ('os \<Rightarrow> 'f) \<Rightarrow> ('f \<Rightarrow> nat set) \<Rightarrow> bool" where
  "region_memory sx mem fr bs \<longleftrightarrow>
     (\<forall>b off n os. b \<in> bs (fr os) \<and> off + n \<le> length (mem os) \<longrightarrow> sy_load sx b off n os = (sub (mem os) off n, os)) \<and>
     (\<forall>b off data os. b \<in> bs (fr os) \<and> off + length data \<le> length (mem os) \<longrightarrow>
        mem (sy_store sx b off data os) = upd (mem os) off data \<and> fr (sy_store sx b off data os) = fr os) \<and>
     (\<forall>b off v os. b \<in> bs (fr os) \<and> off + 8 \<le> length (mem os) \<longrightarrow>
        mem (sy_add64 sx b off v os) = upd (mem os) off (u64_to_ne (u64_from_ne (sub (mem os) off 8) + v)) \<and>
        fr (sy_add64 sx b off v os) = fr os) \<and>
     (\<forall>b off v os. b \<in> bs (fr os) \<and> off + 4 \<le> length (mem os) \<longrightarrow>
        mem (sy_add32 sx b off v os) = upd (mem os) off (u32_to_ne (u32_from_ne (sub (mem os) off 4) + v)) \<and>
        fr (sy_add32 sx b off v os) = fr os) \<and>
     (\<forall>b off os. b \<in> bs (fr os) \<longrightarrow> mem (sy_futex_wake sx b off os) = mem os \<and> fr (sy_futex_wake sx b off os) = fr os)"

lemma region_memoryD:
  assumes "region_memory sx mem fr bs" "b \<in> bs (fr os)"
  shows "off + n \<le> length (mem os) \<Longrightarrow> sy_load sx b off n os = (sub (mem os) off n, os)"
    and "off + length data \<le> length (mem os) \<Longrightarrow>
      mem (sy_store sx b off data os) = upd (mem os) off data \<and> fr (sy_store sx b off data os) = fr os"
    and "off + 8 \<le> length (mem os) \<Longrightarrow>
      mem (sy_add64 sx b off v8 os) = upd (mem os) off (u64_to_ne (u64_from_ne (sub (mem os) off 8) + v8)) \<and>
      fr (sy_add64 sx b off v8 os) = fr os"
    and "off + 4 \<le> length (mem os) \<Longrightarrow>
      mem (sy_add32 sx b off v4 os) = upd (mem os) off (u32_to_ne (u32_from_ne (sub (mem os) off 4) + v4)) \<and>
      fr (sy_add32 sx b off v4 os) = fr os"
    and "mem (sy_futex_wake sx b off os) = mem os \<and> fr (sy_futex_wake sx b off os) = fr os"
  using assms unfolding region_memory_def by blast+

lemma region_loads:
  assumes "region_memory sx mem fr bs" "b \<in> bs (fr os)" "sz = length (mem os)"
  shows "off + n \<le> sz \<Longrightarrow> mem_read sx b sz off n os = Some (Ok (sub (mem os) off n), os)"
    and "off + 8 \<le> sz \<Longrightarrow> atomic_load_u64 sx b sz off os = Some (Ok (u64_from_ne (sub (mem os) off 8)), os)"
    and "off + 4 \<le> sz \<Longrightarrow> atomic_load_u32 sx b sz off os = Some (Ok (u32_from_ne (sub (mem os) off 4)), os)"
    and "off + 2 \<le> sz \<Longrightarrow> load_u16 sx b sz off os = Some (Ok (u16_from_ne (sub (mem os) off 2)), os)"
  using region_memoryD(1) [OF assms(1,2)] assms(3)
  by (simp_all add: mem_read_def atomic_load_u64_def atomic_load_u32_def load_u16_def io_bind_def io_defs)

section \<open>Publishing a message\<close>

text \<open>The region after a \<open>send\<close> into an area.\<close>

definition publish :: "bytes \<Rightarrow> area \<Rightarrow> bytes \<Rightarrow> bytes" where
  "publish m area msg =
     (case area of (area_offset, area_capacity, seq_off, len_off, sig_off) \<Rightarrow>
        let m = upd m (unat area_offset) msg;
            m = upd m len_off (u32_to_ne (word_of_nat (length msg)));
            m = upd m seq_off (u64_to_ne (u64_from_ne (sub m seq_off 8) + 1)) in
        upd m sig_off (u32_to_ne (u32_from_ne (sub m sig_off 4) + 1)))"

text \<open>The fields of a direction do not overlap each other.\<close>

definition area_fields :: "area \<Rightarrow> bool" where
  "area_fields area \<longleftrightarrow>
     (case area of (area_offset, area_capacity, seq_off, len_off, sig_off) \<Rightarrow> seq_off + 8 \<le> len_off \<and> len_off + 4 \<le> sig_off)"

lemma area_fields [simp]: "area_fields (request_area ctx)" "area_fields (response_area ctx)"
  by (simp_all add: area_fields_def request_area_def response_area_def shm_offsets)

lemma length_publish:
  assumes "area_ok (length m) area" "length msg \<le> unat (fst (snd area))"
  shows "length (publish m area msg) = length m"
  using assms by (auto simp: publish_def area_ok_def Let_def split: prod.splits)

lemma published:
  assumes "area_ok (length m) area" "area_fields area" "length msg \<le> unat (fst (snd area))"
    and "area = (ao, ac, so, lo, go)"
  shows "sub (publish m area msg) (unat ao) (length msg) = msg"
    and "u64_from_ne (sub (publish m area msg) so 8) = u64_from_ne (sub m so 8) + 1"
    and "unat (u32_from_ne (sub (publish m area msg) lo 4)) = length msg"
proof -
  have l: "length msg < 2 ^ 32" using assms(3,4) u32_lt [of ac] by simp
  show "sub (publish m area msg) (unat ao) (length msg) = msg"
    using assms by (simp add: publish_def area_ok_def area_fields_def Let_def sub_upd_disjoint)
  show "u64_from_ne (sub (publish m area msg) so 8) = u64_from_ne (sub m so 8) + 1"
    using assms by (simp add: publish_def area_ok_def area_fields_def Let_def sub_upd_disjoint)
  show "unat (u32_from_ne (sub (publish m area msg) lo 4)) = length msg"
    using assms l by (simp add: publish_def area_ok_def area_fields_def Let_def sub_upd_disjoint)
qed

text \<open>A publication leaves everything else of the region alone.\<close>

lemma publish_frame:
  assumes "area_ok (length m) area" "length msg \<le> unat (fst (snd area))" "area = (ao, ac, so, lo, go)"
    and "off + n \<le> so \<or> so + 8 \<le> off" "off + n \<le> lo \<or> lo + 4 \<le> off" "off + n \<le> go \<or> go + 4 \<le> off"
    and "off + n \<le> unat ao \<or> unat ao + unat ac \<le> off" "off + n \<le> length m"
  shows "sub (publish m area msg) off n = sub m off n"
  using assms(1-6,8) disjE [OF assms(7), of "off + n \<le> unat ao \<or> unat ao + length msg \<le> off"] by (simp add: publish_def area_ok_def Let_def sub_upd_disjoint)

lemma shm_send_ok:
  assumes rm: "region_memory sx mem fr bs" and b: "sm_base ctx = Some b" "b \<in> bs (fr os)"
    and wf: "shm_wf ctx" "sm_region_size ctx = length (mem os)"
    and msg: "msg \<noteq> []" "length msg \<le> unat (fst (snd (send_area ctx)))"
  shows "\<exists>os'. shm_send sx msg (ctx, os) = Some (Ok (), (count_sent ctx, os')) \<and> mem os' = publish (mem os) (send_area ctx) msg \<and>
    fr os' = fr os"
proof -
  obtain ao ac so lo go where area: "send_area ctx = (ao, ac, so, lo, go)" by (metis surj_pair)
  have ok: "area_ok (length (mem os)) (ao, ac, so, lo, go)" using send_area_ok [OF wf(1)] b area wf(2) by simp
  note bounds = area_okD [OF ok]
  have m: "unat ao + length msg \<le> length (mem os)" "\<not> unat ac < length msg" using msg(2) bounds(2) by (simp_all add: area)
  let ?os1 = "sy_store sx b (unat ao) msg os"
  let ?os2 = "sy_store sx b lo (u32_to_ne (word_of_nat (length msg))) ?os1"
  let ?os3 = "sy_add64 sx b so 1 ?os2"
  let ?os4 = "sy_add32 sx b go 1 ?os3"
  note acc = region_memoryD [OF rm]
  have 1: "mem ?os1 = upd (mem os) (unat ao) msg \<and> fr ?os1 = fr os" by (rule acc(2) [OF b(2) m(1)])
  then have 2: "mem ?os2 = upd (mem ?os1) lo (u32_to_ne (word_of_nat (length msg))) \<and> fr ?os2 = fr ?os1"
    using bounds m b(2) by (intro acc(2)) simp_all
  from 1 2 have 3: "mem ?os3 = upd (mem ?os2) so (u64_to_ne (u64_from_ne (sub (mem ?os2) so 8) + 1)) \<and> fr ?os3 = fr ?os2"
    using bounds m b(2) by (intro acc(3)) simp_all
  from 1 2 3 have 4: "mem ?os4 = upd (mem ?os3) go (u32_to_ne (u32_from_ne (sub (mem ?os3) go 4) + 1)) \<and> fr ?os4 = fr ?os3"
    using bounds m b(2) by (intro acc(4)) simp_all
  have "mem (sy_futex_wake sx b go ?os4) = publish (mem os) (send_area ctx) msg \<and> fr (sy_futex_wake sx b go ?os4) = fr os"
    using 1 2 3 4 acc(5) [of b ?os4 go] b(2) by (simp add: publish_def area Let_def)
  moreover have "shm_send sx msg (ctx, os) = Some (Ok (), (count_sent ctx, sy_futex_wake sx b go ?os4))"
    using m bounds msg(1)
    by (simp add: shm_send_def b area wf(2) mem_write_def atomic_store_u32_def atomic_add_u64_def atomic_add_u32_def io_bind_def io_defs io_snd_def)
  ultimately show ?thesis by blast
qed

section \<open>Receiving a published message\<close>

lemma shm_receive_ok:
  assumes rm: "region_memory sx mem fr bs" and b: "sm_base ctx = Some b" "b \<in> bs (fr os)"
    and wf: "shm_wf ctx" "sm_region_size ctx = length (mem os)" "0 < unat (sm_spin_tries ctx)"
    and area: "receive_area ctx = (ao, ac, so, lo, go)"
    and pub: "u64_from_ne (sub (mem os) so 8) = expected_seq ctx" "unat (u32_from_ne (sub (mem os) lo 4)) = length msg"
      "sub (mem os) (unat ao) (length msg) = msg"
    and msg: "msg \<noteq> []" "length msg \<le> unat ac" "length msg \<le> length buf"
  shows "shm_receive sx buf timeout (ctx, os) = Some (Ok (length msg, upd buf 0 msg), (count_received ctx, os))"
proof -
  note bounds = area_okD [OF receive_area_ok [OF wf(1), unfolded area]]
  note ld = region_loads [OF rm b(2) wf(2)]
  have bounds': "lo + 4 \<le> sm_region_size ctx" "so + 8 \<le> sm_region_size ctx" "unat ao + length msg \<le> sm_region_size ctx"
    using bounds(2,3,4) b msg(2) by simp_all
  have take: "take_message sx b (sm_region_size ctx) (ao, ac, so, lo, go) m buf os = Some (Ok (length msg, upd buf 0 msg), os)"
    if "length msg \<le> m" for m
    using ld(3) [OF bounds'(1)] ld(1) [OF bounds'(3)] pub msg that
    by (simp add: take_message_def io_bind_def io_defs copy_out_def)
  obtain n where n: "unat (sm_spin_tries ctx) = Suc n" using wf(3) gr0_implies_Suc by blast
  have "await_message sx b ctx (min (length buf) (unat ac)) buf timeout os = Some (Ok (length msg, upd buf 0 msg), os)"
    using ld(2) [OF bounds'(2)] take [of "min (length buf) (unat ac)"] pub msg
    by (simp add: await_message_def area n io_bind_def io_defs)
  moreover have "buf \<noteq> []" using msg by auto
  ultimately show ?thesis
    using msg by (simp add: shm_receive_def b area Let_def io_bind_def io_defs io_snd_def)
qed

section \<open>Two ends of one region\<close>

text \<open>A server and a client whose contexts describe the same region with contents \<open>m\<close>, at rest: neither direction holds a
  message that its receiver has not taken.\<close>

definition linked :: "nat set \<Rightarrow> shm_context \<Rightarrow> shm_context \<Rightarrow> bytes \<Rightarrow> bool" where
  "linked bases srv cli m \<longleftrightarrow>
     sm_role srv = Shm_Server \<and> sm_role cli = Shm_Client \<and> shm_wf srv \<and> shm_wf cli \<and>
     (case sm_base srv of None \<Rightarrow> False | Some b \<Rightarrow> b \<in> bases) \<and> (case sm_base cli of None \<Rightarrow> False | Some b \<Rightarrow> b \<in> bases) \<and>
     sm_region_size srv = length m \<and> sm_region_size cli = length m \<and>
     request_area srv = request_area cli \<and> response_area srv = response_area cli \<and>
     sm_spin_tries srv > 0 \<and> sm_spin_tries cli > 0 \<and>
     sm_local_req_seq srv = u64_from_ne (sub m OFF_REQ_SEQ 8) \<and>
     sm_local_resp_seq cli = u64_from_ne (sub m OFF_RESP_SEQ 8)"

lemma count_simps:
  "sm_role (count_sent c) = sm_role c" "sm_base (count_sent c) = sm_base c" "sm_region_size (count_sent c) = sm_region_size c"
  "request_area (count_sent c) = request_area c" "response_area (count_sent c) = response_area c"
  "sm_spin_tries (count_sent c) = sm_spin_tries c"
  "sm_role (count_received c) = sm_role c" "sm_base (count_received c) = sm_base c" "sm_region_size (count_received c) = sm_region_size c"
  "request_area (count_received c) = request_area c" "response_area (count_received c) = response_area c"
  "sm_spin_tries (count_received c) = sm_spin_tries c"
  by (simp_all add: count_sent_def count_received_def request_area_def response_area_def split: shm_role.splits)

lemma seqs_counted:
  "sm_role c = Shm_Server \<Longrightarrow> sm_local_req_seq (count_received c) = expected_seq c"
  "sm_role c = Shm_Client \<Longrightarrow> sm_local_resp_seq (count_received c) = expected_seq c"
  "sm_role c = Shm_Server \<Longrightarrow> sm_local_req_seq (count_sent c) = sm_local_req_seq c"
  "sm_role c = Shm_Client \<Longrightarrow> sm_local_resp_seq (count_sent c) = sm_local_resp_seq c"
  by (simp_all add: count_sent_def count_received_def)

text \<open>A message published by one end is received by the other.\<close>

lemma transfer:
  assumes rm: "region_memory sx mem fr bs"
    and snd: "sm_base s = Some b" "b \<in> bs (fr os)" "shm_wf s" "sm_region_size s = length (mem os)"
    and rcv: "sm_base r = Some b'" "b' \<in> bs (fr os)" "shm_wf r" "sm_region_size r = length (mem os)" "sm_spin_tries r > 0"
    and area: "send_area s = receive_area r" "area_fields (receive_area r)" "receive_area r = (ao, ac, so, lo, go)"
    and seq: "expected_seq r = u64_from_ne (sub (mem os) so 8) + 1"
    and msg: "msg \<noteq> []" "length msg \<le> unat ac" "length msg \<le> length buf"
  shows "\<exists>os'. shm_send sx msg (s, os) = Some (Ok (), (count_sent s, os')) \<and> mem os' = publish (mem os) (receive_area r) msg \<and> fr os' = fr os \<and>
    shm_receive sx buf timeout (r, os') = Some (Ok (length msg, upd buf 0 msg), (count_received r, os'))"
proof -
  have ok: "area_ok (length (mem os)) (receive_area r)" using receive_area_ok [OF rcv(3)] rcv by simp
  have len: "length msg \<le> unat (fst (snd (receive_area r)))" using msg(2) area(3) by simp
  obtain os' where os': "shm_send sx msg (s, os) = Some (Ok (), (count_sent s, os'))" "mem os' = publish (mem os) (receive_area r) msg"
      "fr os' = fr os"
    using shm_send_ok [OF rm snd msg(1)] len area(1) by auto
  note pub = published [OF ok area(2) len area(3), folded os'(2)]
  have "length (mem os') = length (mem os)" unfolding os'(2) by (rule length_publish [OF ok len])
  then have "shm_receive sx buf timeout (r, os') = Some (Ok (length msg, upd buf 0 msg), (count_received r, os'))"
    using pub seq rcv msg os'(3) by (intro shm_receive_ok [OF rm rcv(1) _ rcv(3) _ _ area(3)]) (simp_all add: unat_gt_0 word_neq_0_conv)
  then show ?thesis using os' by blast
qed

lemma linkedD:
  assumes "linked bases srv cli m"
  obtains b b' where "sm_base srv = Some b" "b \<in> bases" "sm_base cli = Some b'" "b' \<in> bases"
    "sm_role srv = Shm_Server" "sm_role cli = Shm_Client" "shm_wf srv" "shm_wf cli" "sm_region_size srv = length m" "sm_region_size cli = length m"
    "request_area srv = request_area cli" "response_area srv = response_area cli" "sm_spin_tries srv > 0" "sm_spin_tries cli > 0"
    "expected_seq srv = u64_from_ne (sub m OFF_REQ_SEQ 8) + 1" "expected_seq cli = u64_from_ne (sub m OFF_RESP_SEQ 8) + 1"
  using assms by (auto simp: linked_def expected_seq_def split: option.splits)

text \<open>A request travels to the server and leaves the response direction alone.\<close>

lemma request_transfer:
  assumes rm: "region_memory sx mem fr bs" and l: "linked (bs (fr os)) srv cli (mem os)"
    and msg: "msg \<noteq> []" "length msg \<le> unat (sm_request_capacity srv)" "length msg \<le> length buf"
  shows "\<exists>os'. shm_send sx msg (cli, os) = Some (Ok (), (count_sent cli, os')) \<and>
    shm_receive sx buf timeout (srv, os') = Some (Ok (length msg, upd buf 0 msg), (count_received srv, os')) \<and>
    fr os' = fr os \<and> linked (bs (fr os')) (count_received srv) (count_sent cli) (mem os')"
proof -
  obtain b b' where d: "sm_base srv = Some b" "b \<in> bs (fr os)" "sm_base cli = Some b'" "b' \<in> bs (fr os)"
    "sm_role srv = Shm_Server" "sm_role cli = Shm_Client" "shm_wf srv" "shm_wf cli" "sm_region_size srv = length (mem os)" "sm_region_size cli = length (mem os)"
    "request_area srv = request_area cli" "response_area srv = response_area cli" "sm_spin_tries srv > 0" "sm_spin_tries cli > 0"
    "expected_seq srv = u64_from_ne (sub (mem os) OFF_REQ_SEQ 8) + 1" "expected_seq cli = u64_from_ne (sub (mem os) OFF_RESP_SEQ 8) + 1"
    using l by (rule linkedD)
  have area: "receive_area srv = request_area srv" "send_area cli = request_area srv"
    by (simp_all add: receive_area_def send_area_def d)
  have ok: "area_ok (length (mem os)) (request_area srv)" using areas_ok(1) [OF d(7)] d by simp
  obtain os' where os': "shm_send sx msg (cli, os) = Some (Ok (), (count_sent cli, os'))" "mem os' = publish (mem os) (receive_area srv) msg"
    "fr os' = fr os" "shm_receive sx buf timeout (srv, os') = Some (Ok (length msg, upd buf 0 msg), (count_received srv, os'))"
    using transfer [OF rm d(3,4,8,10) d(1,2,7,9,13) _ _ area(1) [unfolded request_area_def [of srv]] d(15) msg, of timeout]
    by (auto simp: area)
  have len: "length msg \<le> unat (fst (snd (request_area srv)))" using msg(2) by (simp add: request_area_def)
  have "sub (mem os') OFF_RESP_SEQ 8 = sub (mem os) OFF_RESP_SEQ 8"
    unfolding os'(2) area using ok by (intro publish_frame [OF ok len request_area_def]) (auto simp: shm_offsets area_ok_def request_area_def)
  moreover have "u64_from_ne (sub (mem os') OFF_REQ_SEQ 8) = expected_seq srv"
    unfolding os'(2) area d(15) by (rule published(2) [OF ok area_fields(1) len request_area_def])
  moreover have "length (mem os') = length (mem os)" unfolding os'(2) area by (rule length_publish [OF ok len])
  ultimately have "linked (bs (fr os')) (count_received srv) (count_sent cli) (mem os')"
    using d os'(3) by (auto simp: linked_def count_simps seqs_counted counted_wf expected_seq_def)
  then show ?thesis using os' by blast
qed

lemma response_transfer:
  assumes rm: "region_memory sx mem fr bs" and l: "linked (bs (fr os)) srv cli (mem os)"
    and msg: "msg \<noteq> []" "length msg \<le> unat (sm_response_capacity cli)" "length msg \<le> length buf"
  shows "\<exists>os'. shm_send sx msg (srv, os) = Some (Ok (), (count_sent srv, os')) \<and>
    shm_receive sx buf timeout (cli, os') = Some (Ok (length msg, upd buf 0 msg), (count_received cli, os')) \<and>
    fr os' = fr os \<and> linked (bs (fr os')) (count_sent srv) (count_received cli) (mem os')"
proof -
  obtain b b' where d: "sm_base srv = Some b" "b \<in> bs (fr os)" "sm_base cli = Some b'" "b' \<in> bs (fr os)"
    "sm_role srv = Shm_Server" "sm_role cli = Shm_Client" "shm_wf srv" "shm_wf cli" "sm_region_size srv = length (mem os)" "sm_region_size cli = length (mem os)"
    "request_area srv = request_area cli" "response_area srv = response_area cli" "sm_spin_tries srv > 0" "sm_spin_tries cli > 0"
    "expected_seq srv = u64_from_ne (sub (mem os) OFF_REQ_SEQ 8) + 1" "expected_seq cli = u64_from_ne (sub (mem os) OFF_RESP_SEQ 8) + 1"
    using l by (rule linkedD)
  have area: "receive_area cli = response_area cli" "send_area srv = response_area cli"
    by (simp_all add: receive_area_def send_area_def d)
  have ok: "area_ok (length (mem os)) (response_area cli)" using areas_ok(2) [OF d(8)] d by simp
  obtain os' where os': "shm_send sx msg (srv, os) = Some (Ok (), (count_sent srv, os'))" "mem os' = publish (mem os) (receive_area cli) msg"
    "fr os' = fr os" "shm_receive sx buf timeout (cli, os') = Some (Ok (length msg, upd buf 0 msg), (count_received cli, os'))"
    using transfer [OF rm d(1,2,7,9) d(3,4,8,10,14) _ _ area(1) [unfolded response_area_def [of cli]] d(16) msg, of timeout]
    by (auto simp: area)
  have len: "length msg \<le> unat (fst (snd (response_area cli)))" using msg(2) by (simp add: response_area_def)
  have "sub (mem os') OFF_REQ_SEQ 8 = sub (mem os) OFF_REQ_SEQ 8"
    unfolding os'(2) area using ok by (intro publish_frame [OF ok len response_area_def]) (auto simp: shm_offsets area_ok_def response_area_def)
  moreover have "u64_from_ne (sub (mem os') OFF_RESP_SEQ 8) = expected_seq cli"
    unfolding os'(2) area d(16) by (rule published(2) [OF ok area_fields(2) len response_area_def])
  moreover have "length (mem os') = length (mem os)" unfolding os'(2) area by (rule length_publish [OF ok len])
  ultimately have "linked (bs (fr os')) (count_sent srv) (count_received cli) (mem os')"
    using d os'(3) by (auto simp: linked_def count_simps seqs_counted counted_wf expected_seq_def)
  then show ?thesis using os' by blast
qed

section \<open>Setting up a region\<close>

text \<open>What a file system is seen to hold: the file a name refers to, the contents of a file, the file a descriptor refers to, and the
  file mapped at an address.\<close>

record 'os file_view =
  fv_dir :: "'os \<Rightarrow> bytes \<rightharpoonup> nat"
  fv_data :: "'os \<Rightarrow> nat \<Rightarrow> bytes"
  fv_fds :: "'os \<Rightarrow> int \<rightharpoonup> nat"
  fv_maps :: "'os \<Rightarrow> nat \<rightharpoonup> nat"

definition fv_rest :: "'os file_view \<Rightarrow> 'os \<Rightarrow> (bytes \<rightharpoonup> nat) \<times> (int \<rightharpoonup> nat) \<times> (nat \<rightharpoonup> nat)" where
  "fv_rest v os = (fv_dir v os, fv_fds v os, fv_maps v os)"

definition fv_same :: "'os file_view \<Rightarrow> 'os \<Rightarrow> 'os \<Rightarrow> bool" where
  "fv_same v os os' \<longleftrightarrow> fv_data v os' = fv_data v os \<and> fv_rest v os' = fv_rest v os"

text \<open>The documented effect of the calls that create, open, size and map files, on a system that does not run out of space,
  descriptors or addresses. Creating a file with \<open>O_EXCL\<close> fails with \<open>EEXIST\<close> when the name exists and otherwise makes
  the name refer to an empty file; opening without \<open>O_CREAT\<close> fails with \<open>ENOENT\<close> when it does not, and otherwise refers to
  the file of that name; sizing, measuring and mapping through a descriptor act on the file it refers to.\<close>

definition files_open :: "'os shm_sys \<Rightarrow> 'os file_view \<Rightarrow> bool" where
  "files_open sx v \<longleftrightarrow>
     (\<forall>p os fd os'. sy_open_excl sx p os = (fd, os') \<longrightarrow>
        (case fv_dir v os p of
           Some _ \<Rightarrow> fd < 0 \<and> sy_errno sx os' = EEXIST \<and> fv_same v os os'
         | None \<Rightarrow> fd \<ge> 0 \<and> (\<exists>i. fv_data v os' = (fv_data v os)(i := []) \<and>
             fv_rest v os' = ((fv_dir v os)(p \<mapsto> i), (fv_fds v os)(fd \<mapsto> i), fv_maps v os)))) \<and>
     (\<forall>p os fd os'. sy_open_rdwr sx p os = (fd, os') \<longrightarrow>
        (case fv_dir v os p of
           None \<Rightarrow> fd < 0 \<and> sy_errno sx os' = ENOENT \<and> fv_same v os os'
         | Some i \<Rightarrow> fd \<ge> 0 \<and> fv_data v os' = fv_data v os \<and>
             fv_rest v os' = (fv_dir v os, (fv_fds v os)(fd \<mapsto> i), fv_maps v os)))"

definition files_handle :: "'os shm_sys \<Rightarrow> 'os file_view \<Rightarrow> bool" where
  "files_handle sx v \<longleftrightarrow>
     (\<forall>fd n os i rc os'. sy_ftruncate sx fd n os = (rc, os') \<and> fv_fds v os fd = Some i \<longrightarrow>
        rc = 0 \<and> fv_data v os' = (fv_data v os)(i := take n (fv_data v os i) @ replicate (n - length (fv_data v os i)) 0) \<and>
        fv_rest v os' = fv_rest v os) \<and>
     (\<forall>fd os i rc n os'. sy_fstat sx fd os = ((rc, n), os') \<and> fv_fds v os fd = Some i \<longrightarrow>
        rc = 0 \<and> n = length (fv_data v os i) \<and> fv_same v os os') \<and>
     (\<forall>fd n os i bo os'. sy_mmap sx fd n os = (bo, os') \<and> fv_fds v os fd = Some i \<and> 0 < n \<longrightarrow>
        (\<exists>b. bo = Some b \<and> fv_data v os' = fv_data v os \<and>
           fv_rest v os' = (fv_dir v os, fv_fds v os, (fv_maps v os)(b \<mapsto> i)))) \<and>
     (\<forall>os ts os'. sy_clock sx os = (ts, os') \<longrightarrow> fv_same v os os') \<and>
     (\<forall>os pid os'. sy_getpid sx os = (pid, os') \<longrightarrow> fv_same v os os')"

text \<open>Accesses to an address read and write the file mapped there.\<close>

definition mapped_at :: "nat \<Rightarrow> (bytes \<rightharpoonup> nat) \<times> (int \<rightharpoonup> nat) \<times> (nat \<rightharpoonup> nat) \<Rightarrow> nat set" where
  "mapped_at i rest = {b. snd (snd rest) b = Some i}"

definition shm_files :: "'os shm_sys \<Rightarrow> 'os file_view \<Rightarrow> bool" where
  "shm_files sx v \<longleftrightarrow> files_open sx v \<and> files_handle sx v \<and> (\<forall>i. region_memory sx (\<lambda>os. fv_data v os i) (fv_rest v) (mapped_at i))"

lemma shm_filesD:
  assumes "shm_files sx v"
  shows "region_memory sx (\<lambda>os. fv_data v os i) (fv_rest v) (mapped_at i)"
    and "sy_open_excl sx p os = (fd, os') \<Longrightarrow> fv_dir v os p = None \<Longrightarrow> fd \<ge> 0 \<and> (\<exists>i. fv_data v os' = (fv_data v os)(i := []) \<and>
             fv_rest v os' = ((fv_dir v os)(p \<mapsto> i), (fv_fds v os)(fd \<mapsto> i), fv_maps v os))"
    and "sy_open_rdwr sx p os = (fd, os') \<Longrightarrow> fv_dir v os p = Some i \<Longrightarrow> fd \<ge> 0 \<and> fv_data v os' = fv_data v os \<and>
             fv_rest v os' = (fv_dir v os, (fv_fds v os)(fd \<mapsto> i), fv_maps v os)"
    and "sy_ftruncate sx fd n os = (rc, os') \<Longrightarrow> fv_fds v os fd = Some i \<Longrightarrow>
        rc = 0 \<and> length (fv_data v os' i) = n \<and> fv_rest v os' = fv_rest v os"
    and "sy_fstat sx fd os = ((rc, n), os') \<Longrightarrow> fv_fds v os fd = Some i \<Longrightarrow> rc = 0 \<and> n = length (fv_data v os i) \<and> fv_same v os os'"
    and "sy_mmap sx fd n os = (bo, os') \<Longrightarrow> fv_fds v os fd = Some i \<Longrightarrow> 0 < n \<Longrightarrow>
        \<exists>b. bo = Some b \<and> fv_data v os' = fv_data v os \<and> fv_rest v os' = (fv_dir v os, fv_fds v os, (fv_maps v os)(b \<mapsto> i))"
    and "sy_clock sx os = (ts, os') \<Longrightarrow> fv_same v os os'"
    and "sy_getpid sx os = (pid, os') \<Longrightarrow> fv_same v os os'"
proof -
  have f: "files_open sx v" "files_handle sx v" "\<And>i. region_memory sx (\<lambda>os. fv_data v os i) (fv_rest v) (mapped_at i)"
    using assms unfolding shm_files_def by blast+
  note o = f(1) [unfolded files_open_def] and h = f(2) [unfolded files_handle_def]
  show "region_memory sx (\<lambda>os. fv_data v os i) (fv_rest v) (mapped_at i)" by (rule f(3))
  show "fd \<ge> 0 \<and> (\<exists>i. fv_data v os' = (fv_data v os)(i := []) \<and>
             fv_rest v os' = ((fv_dir v os)(p \<mapsto> i), (fv_fds v os)(fd \<mapsto> i), fv_maps v os))"
    if "sy_open_excl sx p os = (fd, os')" "fv_dir v os p = None"
    using o [THEN conjunct1, rule_format, OF that(1)] that(2) by simp
  show "fd \<ge> 0 \<and> fv_data v os' = fv_data v os \<and> fv_rest v os' = (fv_dir v os, (fv_fds v os)(fd \<mapsto> i), fv_maps v os)"
    if "sy_open_rdwr sx p os = (fd, os')" "fv_dir v os p = Some i"
    using o [THEN conjunct2, rule_format, OF that(1)] that(2) by simp
  show "rc = 0 \<and> length (fv_data v os' i) = n \<and> fv_rest v os' = fv_rest v os"
    if "sy_ftruncate sx fd n os = (rc, os')" "fv_fds v os fd = Some i"
    using h [THEN conjunct1, rule_format, OF conjI [OF that]] by simp
  show "rc = 0 \<and> n = length (fv_data v os i) \<and> fv_same v os os'" if "sy_fstat sx fd os = ((rc, n), os')" "fv_fds v os fd = Some i"
    using h [THEN conjunct2, THEN conjunct1, rule_format, OF conjI [OF that]] .
  show "\<exists>b. bo = Some b \<and> fv_data v os' = fv_data v os \<and> fv_rest v os' = (fv_dir v os, fv_fds v os, (fv_maps v os)(b \<mapsto> i))"
    if "sy_mmap sx fd n os = (bo, os')" "fv_fds v os fd = Some i" "0 < n"
    using h [THEN conjunct2, THEN conjunct2, THEN conjunct1, rule_format, OF conjI [OF that(1) conjI [OF that(2,3)]]] .
  show "fv_same v os os'" if "sy_clock sx os = (ts, os')"
    using h [THEN conjunct2, THEN conjunct2, THEN conjunct2, THEN conjunct1, rule_format, OF that] .
  show "fv_same v os os'" if "sy_getpid sx os = (pid, os')"
    using h [THEN conjunct2, THEN conjunct2, THEN conjunct2, THEN conjunct2, rule_format, OF that] .
qed

text \<open>\<open>io_runs m s Q\<close>: the program returns a value, and value and final state satisfy \<open>Q\<close>.\<close>

definition io_runs :: "('s, 'e, 'a) io \<Rightarrow> 's \<Rightarrow> ('a \<Rightarrow> 's \<Rightarrow> bool) \<Rightarrow> bool" where
  "io_runs m s Q \<longleftrightarrow> (\<exists>a t. m s = Some (Ok a, t) \<and> Q a t)"

lemma runs_bind: "io_runs m s (\<lambda>a t. io_runs (f a) t Q) \<Longrightarrow> io_runs (io_bind m f) s Q"
  by (auto simp: io_runs_def io_bind_def)

lemma runs_ret: "Q a s \<Longrightarrow> io_runs (io_ret a) s Q"
  by (simp add: io_runs_def io_defs)

lemma runs_get: "Q (g s) s \<Longrightarrow> io_runs (io_get g) s Q"
  by (simp add: io_runs_def io_defs)

lemma runs_lift: "r = Ok a \<Longrightarrow> Q a s \<Longrightarrow> io_runs (io_lift r) s Q"
  by (simp add: io_runs_def io_defs)

lemma runs_call: "(\<And>a t. g s = (a, t) \<Longrightarrow> Q a t) \<Longrightarrow> io_runs (io_call g) s Q"
  by (auto simp: io_runs_def io_defs split: prod.splits)

lemma runs_write:
  assumes "region_memory sx mem fr bs" "b \<in> bs (fr os)" "sz = length (mem os)" "off + length data \<le> sz"
    and "\<And>t. mem t = upd (mem os) off data \<Longrightarrow> fr t = fr os \<Longrightarrow> Q () t"
  shows "io_runs (mem_write sx b sz off data) os Q"
  using assms(3-5) region_memoryD(2) [OF assms(1,2), of off data]
  by (simp add: io_runs_def mem_write_def io_defs)

lemma runs_loads:
  assumes "region_memory sx mem fr bs" "b \<in> bs (fr os)" "sz = length (mem os)"
  shows "off + 8 \<le> sz \<Longrightarrow> Q8 (u64_from_ne (sub (mem os) off 8)) os \<Longrightarrow> io_runs (atomic_load_u64 sx b sz off) os Q8"
    and "off + 4 \<le> sz \<Longrightarrow> Q4 (u32_from_ne (sub (mem os) off 4)) os \<Longrightarrow> io_runs (atomic_load_u32 sx b sz off) os Q4"
    and "off + 2 \<le> sz \<Longrightarrow> Q2 (u16_from_ne (sub (mem os) off 2)) os \<Longrightarrow> io_runs (load_u16 sx b sz off) os Q2"
  using region_loads [OF assms] by (auto simp: io_runs_def)

text \<open>What the header of a fresh region holds.\<close>

definition fresh_region :: "u32 \<Rightarrow> u32 \<times> u32 \<times> u32 \<times> u32 \<times> usize \<Rightarrow> bytes \<Rightarrow> bool" where
  "fresh_region generation layout m \<longleftrightarrow>
     (case layout of (req_off, req_cap, resp_off, resp_cap, sz) \<Rightarrow>
        length m = sz \<and>
        sub m OFF_MAGIC 4 = u32_to_ne REGION_MAGIC \<and> sub m OFF_VERSION 2 = u16_to_ne REGION_VERSION \<and>
        sub m OFF_HEADER_LEN 2 = u16_to_ne SHM_HEADER_LEN \<and> sub m OFF_OWNER_GENERATION 4 = u32_to_ne generation \<and>
        sub m OFF_REQUEST_OFFSET 4 = u32_to_ne req_off \<and> sub m OFF_REQUEST_CAPACITY 4 = u32_to_ne req_cap \<and>
        sub m OFF_RESPONSE_OFFSET 4 = u32_to_ne resp_off \<and> sub m OFF_RESPONSE_CAPACITY 4 = u32_to_ne resp_cap \<and>
        u64_from_ne (sub m OFF_REQ_SEQ 8) = 0 \<and> u64_from_ne (sub m OFF_RESP_SEQ 8) = 0)"

lemma sub_replicate: "off + n \<le> sz \<Longrightarrow> sub (replicate sz x) off n = replicate n x"
  by (simp add: sub_def min_def)

lemma u64_zeros: "u64_from_ne (replicate 8 0) = 0"
  by (simp add: u64_from_ne_def replicate_numeral)

lemma zero_fill: "length m = sz \<Longrightarrow> upd m 0 (replicate sz 0) = replicate sz 0"
  by (simp add: upd_def)

definition header_image :: "u32 \<Rightarrow> u32 \<Rightarrow> u32 \<times> u32 \<times> u32 \<times> u32 \<times> usize \<Rightarrow> bytes \<Rightarrow> bytes" where
  "header_image pid generation layout m =
     (case layout of (req_off, req_cap, resp_off, resp_cap, sz) \<Rightarrow>
        let m = upd m OFF_MAGIC (u32_to_ne REGION_MAGIC);
            m = upd m OFF_VERSION (u16_to_ne REGION_VERSION);
            m = upd m OFF_HEADER_LEN (u16_to_ne SHM_HEADER_LEN);
            m = upd m OFF_OWNER_PID (u32_to_ne pid);
            m = upd m OFF_OWNER_GENERATION (u32_to_ne generation);
            m = upd m OFF_REQUEST_OFFSET (u32_to_ne req_off);
            m = upd m OFF_REQUEST_CAPACITY (u32_to_ne req_cap);
            m = upd m OFF_RESPONSE_OFFSET (u32_to_ne resp_off) in
        upd m OFF_RESPONSE_CAPACITY (u32_to_ne resp_cap))"

text \<open>The header fields follow each other without gaps.\<close>

lemma header_image_eq:
  assumes "64 \<le> sz"
  shows "header_image pid generation (req_off, req_cap, resp_off, resp_cap, sz') (replicate sz 0) =
    (u32_to_ne REGION_MAGIC @ u16_to_ne REGION_VERSION @ u16_to_ne SHM_HEADER_LEN @ u32_to_ne pid @ u32_to_ne generation @
     u32_to_ne req_off @ u32_to_ne req_cap @ u32_to_ne resp_off @ u32_to_ne resp_cap) @ replicate (sz - 32) 0" (is "_ = ?h @ _")
proof -
  have "header_image pid generation (req_off, req_cap, resp_off, resp_cap, sz') (replicate sz 0) = upd (replicate sz 0) 0 ?h"
    using assms by (simp add: header_image_def Let_def shm_offsets upd_upd_append)
  moreover have "length ?h = 32" by simp
  ultimately show ?thesis by (simp only: upd_0 drop_replicate)
qed

lemma header_image_fresh:
  assumes "64 \<le> sz" and l: "layout = (req_off, req_cap, resp_off, resp_cap, sz)"
  shows "fresh_region generation layout (header_image pid generation layout (replicate sz 0))"
proof -
  have z: "sub (replicate (sz - 32) 0) k 8 = replicate 8 (0 :: u8)" if "k + 8 \<le> 32" for k
    using that assms(1) by (intro sub_replicate) simp
  show ?thesis
    using assms(1) by (simp add: fresh_region_def l header_image_eq shm_offsets z u64_zeros append_windows) arith
qed

text \<open>Values the system reports as process id and as time.\<close>

definition is_pid :: "'os shm_sys \<Rightarrow> u32 \<Rightarrow> bool" where
  "is_pid sx pid \<longleftrightarrow> (\<exists>os. pid = word_of_int (fst (sy_getpid sx os)))"

definition is_time :: "'os shm_sys \<Rightarrow> int \<times> int \<Rightarrow> bool" where
  "is_time sx ts \<longleftrightarrow> (\<exists>os. ts = fst (sy_clock sx os))"

lemma is_pidI: "sy_getpid sx os = (pid, t) \<Longrightarrow> is_pid sx (word_of_int pid)"
  by (metis is_pid_def fst_conv)

lemma is_timeI: "sy_clock sx os = (ts, t) \<Longrightarrow> is_time sx ts"
  by (metis is_time_def fst_conv)

lemma header_image_pid: "64 \<le> sz \<Longrightarrow> sub (header_image pid g layout (replicate sz 0)) OFF_OWNER_PID 4 = u32_to_ne pid"
  by (simp add: header_image_def Let_def shm_offsets sub_upd_disjoint split: prod.splits)

lemma write_header_runs:
  assumes rm: "region_memory sx mem fr bs" and keep: "\<And>os pid t. sy_getpid sx os = (pid, t) \<Longrightarrow> mem t = mem os \<and> fr t = fr os"
    and b: "b \<in> bs (fr os)" and sz: "64 \<le> sz" "sz = length (mem os)"
    and Q: "\<And>pid t. is_pid sx pid \<Longrightarrow> mem t = header_image pid generation (req_off, req_cap, resp_off, resp_cap, sz) (mem os) \<Longrightarrow>
      fr t = fr os \<Longrightarrow> Q () t"
  shows "io_runs (write_header sx b sz generation req_off req_cap resp_off resp_cap) os Q"
proof -
  have pid: "mem t = mem s \<and> fr t = fr s \<and> is_pid sx (word_of_int p)" if "sy_getpid sx s = (p, t)" for s p t
    using keep [OF that] is_pidI [OF that] by blast
  show ?thesis
    unfolding write_header_def
    by (intro runs_bind runs_call runs_write [OF rm])
      (use sz b in \<open>auto simp: shm_offsets header_image_def Let_def intro!: Q dest!: pid\<close>)
qed

text \<open>A context of either side that fits a fresh region.\<close>

definition fits :: "nat set \<Rightarrow> shm_role \<Rightarrow> u32 \<times> u32 \<times> u32 \<times> u32 \<times> usize \<Rightarrow> shm_context \<Rightarrow> bool" where
  "fits bases role layout ctx \<longleftrightarrow>
     sm_role ctx = role \<and> (case sm_base ctx of None \<Rightarrow> False | Some b \<Rightarrow> b \<in> bases) \<and>
     layout = (sm_request_offset ctx, sm_request_capacity ctx, sm_response_offset ctx, sm_response_capacity ctx, sm_region_size ctx) \<and>
     sm_local_req_seq ctx = 0 \<and> sm_local_resp_seq ctx = 0 \<and> sm_spin_tries ctx = DEFAULT_SPIN_TRIES"

text \<open>What \<open>server_create\<close> leaves.\<close>

definition created :: "'os shm_sys \<Rightarrow> nat set \<Rightarrow> bytes \<Rightarrow> u32 \<times> u32 \<times> u32 \<times> u32 \<times> usize \<Rightarrow> shm_context \<Rightarrow> bytes \<Rightarrow> bool" where
  "created sx bases path layout ctx m \<longleftrightarrow>
     fits bases Shm_Server layout ctx \<and> fresh_region (sm_owner_generation ctx) layout m \<and> sm_path ctx = path \<and>
     (\<exists>ts. is_time sx ts \<and> sm_owner_generation ctx = time_generation ts) \<and>
     (\<exists>pid. is_pid sx pid \<and> sub m OFF_OWNER_PID 4 = u32_to_ne pid)"

lemma init_region_runs:
  assumes rm: "region_memory sx mem fr bs" and pid: "\<And>os pid t. sy_getpid sx os = (pid, t) \<Longrightarrow> mem t = mem os \<and> fr t = fr os"
    and clk: "\<And>os ts t. sy_clock sx os = (ts, t) \<Longrightarrow> mem t = mem os \<and> fr t = fr os"
    and b: "b \<in> bs (fr os)" and sz: "layout = (ro, rc, po, pc, sz)" "64 \<le> sz" "length (mem os) = sz"
  shows "io_runs (init_region sx path fd b layout) os
    (\<lambda>ctx t. created sx (bs (fr os)) path layout ctx (mem t) \<and> fr t = fr os)"
proof -
  have clock: "mem u = mem t \<and> fr u = fr t \<and> is_time sx ts" if "sy_clock sx t = (ts, u)" for t ts u
    using clk [OF that] is_timeI [OF that] by blast
  show ?thesis
    unfolding init_region_def sz(1) prod.case Let_def
    by (intro runs_bind runs_write [OF rm] runs_call runs_ret write_header_runs [OF rm pid])
      (use sz b in \<open>auto simp: created_def fits_def zero_fill header_image_pid intro!: header_image_fresh dest!: clock\<close>)
qed

lemma align64_mod: "align64 v = Some w \<Longrightarrow> w mod REGION_ALIGNMENT = 0"
  using align64_SomeD(1) [of v w] by (simp add: REGION_ALIGNMENT_def word_arith_nat_mod)

lemma region_layout_placed:
  assumes "region_layout req resp = Ok (ro, rc, po, pc, sz)"
  shows "\<not> areas_misplaced ro rc po pc"
proof -
  obtain c v where l: "align64 req = Some rc" "align64 resp = Some pc" "ro = 64"
    "u32_checked_add 64 rc = Some c" "align64 c = Some po" "u32_checked_add po pc = Some v"
    using assms by (auto simp: region_layout_def rbind_eq_Ok bind_eq_Some_conv)
  then show ?thesis
    by (simp add: areas_misplaced_def align64_mod [OF l(1)] align64_mod [OF l(2)] align64_mod [OF l(5)]) (simp add: REGION_ALIGNMENT_def)
qed

lemma attach_mapped_runs:
  assumes rm: "region_memory sx mem fr bs" and b: "b \<in> bs (fr os)"
    and layout: "region_layout req resp = Ok layout" "req \<noteq> 0" "resp \<noteq> 0"
    and fresh: "fresh_region g layout (mem os)" and sz: "sz = length (mem os)"
  shows "io_runs (attach_mapped sx path fd sz b) os (\<lambda>ctx t. fits (bs (fr os)) Shm_Client layout ctx \<and> t = os)"
proof -
  obtain ro rc po pc where l: "layout = (ro, rc, po, pc, sz)"
    using fresh sz by (auto simp: fresh_region_def split: prod.splits)
  note lay = region_layout_OkD [OF layout(1) [unfolded l]]
  have m: "\<not> areas_misplaced ro rc po pc" by (rule region_layout_placed [OF layout(1) [unfolded l]])
  have caps: "rc \<noteq> 0" "pc \<noteq> 0" using lay(4,5) layout(2,3) by (auto simp: unat_eq_0)
  have lts: "\<not> ro < 64" "\<not> po < 64" using lay(1,2) by (simp_all add: word_less_nat_alt)
  have f: "u32_from_ne (sub (mem os) OFF_MAGIC 4) = REGION_MAGIC" "u16_from_ne (sub (mem os) OFF_VERSION 2) = REGION_VERSION"
    "u16_from_ne (sub (mem os) OFF_HEADER_LEN 2) = SHM_HEADER_LEN"
    "u32_from_ne (sub (mem os) OFF_REQUEST_OFFSET 4) = ro" "u32_from_ne (sub (mem os) OFF_REQUEST_CAPACITY 4) = rc"
    "u32_from_ne (sub (mem os) OFF_RESPONSE_OFFSET 4) = po" "u32_from_ne (sub (mem os) OFF_RESPONSE_CAPACITY 4) = pc"
    "u64_from_ne (sub (mem os) OFF_REQ_SEQ 8) = 0" "u64_from_ne (sub (mem os) OFF_RESP_SEQ 8) = 0"
    using fresh by (simp_all add: fresh_region_def l)
  have fit: "\<not> sz < max (unat ro + unat rc) (unat po + unat pc)" using lay(2,3) by simp
  show ?thesis
    unfolding attach_mapped_def Let_def align64_header option.case
    apply (intro runs_bind runs_loads [OF rm b sz])
    subgoal using lay(6) by (simp add: OFF_MAGIC_def)
    subgoal using lay(6) by (simp add: OFF_VERSION_def)
    subgoal using lay(6) by (simp add: OFF_HEADER_LEN_def)
    unfolding f simp_thms if_False
    apply (intro runs_bind runs_loads [OF rm b sz])
    subgoal using lay(6) by (simp add: OFF_REQUEST_OFFSET_def)
    subgoal using lay(6) by (simp add: OFF_REQUEST_CAPACITY_def)
    subgoal using lay(6) by (simp add: OFF_RESPONSE_OFFSET_def)
    subgoal using lay(6) by (simp add: OFF_RESPONSE_CAPACITY_def)
    unfolding f
    using caps lts m fit
    apply (simp only: simp_thms if_False)
    by (intro runs_bind runs_loads [OF rm b sz] runs_ret) (use lay(6) b in \<open>simp_all add: f [unfolded shm_offsets] l shm_offsets fits_def\<close>)
qed

lemma fv_same_parts: "fv_same v os os' \<Longrightarrow> fv_data v os' i = fv_data v os i \<and> fv_rest v os' = fv_rest v os"
  by (simp add: fv_same_def)

lemma fv_rest_parts [simp]:
  "fv_rest v os = (d, f, m) \<longleftrightarrow> fv_dir v os = d \<and> fv_fds v os = f \<and> fv_maps v os = m"
  "fv_rest v os = fv_rest v os' \<longleftrightarrow> fv_dir v os = fv_dir v os' \<and> fv_fds v os = fv_fds v os' \<and> fv_maps v os = fv_maps v os'"
  by (simp_all add: fv_rest_def)

lemma mapped_at_rest [simp]: "b \<in> mapped_at i (fv_rest v os) \<longleftrightarrow> fv_maps v os b = Some i"
  by (simp add: mapped_at_def fv_rest_def)

lemma runs_open_region:
  assumes sf: "shm_files sx v" and new: "fv_dir v os c = None"
    and Q: "\<And>fd i t. fv_fds v t fd = Some i \<Longrightarrow> fv_dir v t c = Some i \<Longrightarrow> 0 \<le> fd \<Longrightarrow> Q fd t"
  shows "io_runs (open_region sx path c) os Q"
proof -
  have o: "0 \<le> fd \<and> (\<exists>i. fv_fds v t fd = Some i \<and> fv_dir v t c = Some i)" if "sy_open_excl sx c os = (fd, t)" for fd t
    using shm_filesD(2) [OF sf that new] by auto
  show ?thesis
    unfolding open_region_def
    by (intro runs_bind runs_call runs_get) (auto simp: io_runs_def io_defs dest!: o intro!: Q)
qed

lemma init_file_runs:
  assumes sf: "shm_files sx v" and b: "fv_maps v os b = Some i"
    and sz: "layout = (ro, rc, po, pc, sz)" "64 \<le> sz" "length (fv_data v os i) = sz"
  shows "io_runs (init_region sx path fd b layout) os
    (\<lambda>ctx t. created sx (mapped_at i (fv_rest v t)) path layout ctx (fv_data v t i) \<and> fv_rest v t = fv_rest v os)"
proof -
  have "io_runs (init_region sx path fd b layout) os
    (\<lambda>ctx t. created sx (mapped_at i (fv_rest v os)) path layout ctx (fv_data v t i) \<and> fv_rest v t = fv_rest v os)"
    using b sz by (intro init_region_runs [OF shm_filesD(1) [OF sf, of i]] fv_same_parts shm_filesD(7,8) [OF sf]) simp_all
  then show ?thesis unfolding io_runs_def by metis
qed

lemma server_create_runs:
  assumes sf: "shm_files sx v" and new: "fv_dir v os path = None"
    and path: "build_shm_path run_dir name sid = Ok path" "0 \<notin> set path" and layout: "region_layout req resp = Ok layout"
  shows "io_runs (server_create sx run_dir name sid req resp) os
    (\<lambda>ctx t. \<exists>i. fv_dir v t path = Some i \<and> created sx (mapped_at i (fv_rest v t)) path layout ctx (fv_data v t i))"
proof -
  obtain ro rc po pc sz where l: "layout = (ro, rc, po, pc, sz)" by (metis surj_pair)
  have sz: "64 \<le> sz" using region_layout_OkD(6) [OF layout [unfolded l]] .
  have c: "path_to_cstring path = Ok path" using path(2) by (simp add: path_to_cstring_def)
  have mapped: "io_runs (case bo of None \<Rightarrow> m | Some base \<Rightarrow> init_region sx path fd base layout) u
      (\<lambda>ctx t. \<exists>i. fv_dir v t path = Some i \<and> created sx (mapped_at i (fv_rest v t)) path layout ctx (fv_data v t i))"
    if fd: "fv_fds v s fd = Some i" "fv_dir v s path = Some i" and calls: "sy_ftruncate sx fd sz s = (r, t)" "sy_mmap sx fd sz t = (bo, u)"
    for bo u t s r fd m i
  proof -
    have t: "length (fv_data v t i) = sz" "fv_rest v t = fv_rest v s" using shm_filesD(4) [OF sf calls(1) fd(1)] by simp_all
    obtain b where b: "bo = Some b" "fv_data v u = fv_data v t" "fv_rest v u = (fv_dir v t, fv_fds v t, (fv_maps v t)(b \<mapsto> i))"
      using shm_filesD(6) [OF sf calls(2)] fd(1) t(2) sz by fastforce
    have "io_runs (init_region sx path fd b layout) u
        (\<lambda>ctx w. created sx (mapped_at i (fv_rest v w)) path layout ctx (fv_data v w i) \<and> fv_rest v w = fv_rest v u)"
      using b t sz by (intro init_file_runs [OF sf _ l]) simp_all
    then show ?thesis using b t fd(2) unfolding io_runs_def by fastforce
  qed
  have nofail: "\<not> r < 0" if "fv_fds v s fd = Some i" "sy_ftruncate sx fd sz s = (r, t)" for r s fd i t
    using shm_filesD(4) [OF sf that(2,1)] by simp
  show ?thesis
    unfolding server_create_def Let_def
    by (intro runs_bind runs_lift [OF path(1)] runs_lift [OF layout] runs_lift [OF c] runs_open_region [OF sf new] runs_call)
      (auto simp: l dest: nofail intro!: runs_bind runs_call mapped [unfolded l])
qed

lemma fits_mono: "fits bases role layout ctx \<Longrightarrow> bases \<subseteq> bases' \<Longrightarrow> fits bases' role layout ctx"
  by (auto simp: fits_def split: option.splits)

lemma client_attach_runs:
  assumes sf: "shm_files sx v" and ex: "fv_dir v os path = Some i"
    and path: "build_shm_path run_dir name sid = Ok path" "0 \<notin> set path"
    and layout: "region_layout req resp = Ok layout" "req \<noteq> 0" "resp \<noteq> 0" and fresh: "fresh_region g layout (fv_data v os i)"
  shows "io_runs (client_attach sx run_dir name sid) os
    (\<lambda>ctx t. fits (mapped_at i (fv_rest v t)) Shm_Client layout ctx \<and> fv_data v t i = fv_data v os i \<and> fv_dir v t = fv_dir v os \<and>
       mapped_at i (fv_rest v os) \<subseteq> mapped_at i (fv_rest v t))"
proof -
  let ?n = "length (fv_data v os i)"
  let ?Q = "\<lambda>ctx t. fits (mapped_at i (fv_rest v t)) Shm_Client layout ctx \<and> fv_data v t i = fv_data v os i \<and> fv_dir v t = fv_dir v os \<and>
       mapped_at i (fv_rest v os) \<subseteq> mapped_at i (fv_rest v t)"
  have c: "path_to_cstring path = Ok path" using path(2) by (simp add: path_to_cstring_def)
  obtain ro rc po pc where l: "layout = (ro, rc, po, pc, ?n)"
    using fresh by (auto simp: fresh_region_def split: prod.splits)
  have sz: "64 \<le> ?n" using region_layout_OkD(6) [OF layout(1) [unfolded l]] .
  have mapped: "io_runs (case bo of None \<Rightarrow> m | Some b \<Rightarrow> attach_mapped sx path fd ?n b) u ?Q"
    if call: "sy_mmap sx fd ?n t = (bo, u)"
      and t: "fv_fds v t fd = Some i" "fv_data v t = fv_data v os" "fv_dir v t = fv_dir v os" "fv_maps v t = fv_maps v os" for bo u t fd m
  proof -
    obtain b where b: "bo = Some b" "fv_data v u = fv_data v t" "fv_rest v u = (fv_dir v t, fv_fds v t, (fv_maps v t)(b \<mapsto> i))"
      using shm_filesD(6) [OF sf call t(1)] sz by fastforce
    have "io_runs (attach_mapped sx path fd ?n b) u (\<lambda>ctx w. fits (mapped_at i (fv_rest v u)) Shm_Client layout ctx \<and> w = u)"
      using b t fresh by (intro attach_mapped_runs [OF shm_filesD(1) [OF sf, of i] _ layout, where g = g]) simp_all
    then show ?thesis using b t unfolding io_runs_def by (auto simp: mapped_at_def fv_rest_def)
  qed
  have opened: "0 \<le> fd \<and> fv_fds v t fd = Some i \<and> fv_data v t = fv_data v os \<and> fv_dir v t = fv_dir v os \<and> fv_maps v t = fv_maps v os"
    if "sy_open_rdwr sx path os = (fd, t)" for fd t
    using shm_filesD(3) [OF sf that ex] by simp
  have stat: "r = 0 \<and> n = length (fv_data v t i) \<and> fv_data v u = fv_data v t \<and> fv_dir v u = fv_dir v t \<and> fv_fds v u = fv_fds v t \<and>
      fv_maps v u = fv_maps v t" if "sy_fstat sx fd t = ((r, n), u)" "fv_fds v t fd = Some i" for fd t u r n
    using shm_filesD(5) [OF sf that] by (simp add: fv_same_def)
  show ?thesis
    unfolding client_attach_def
    by (intro runs_bind runs_lift [OF path(1)] runs_lift [OF c] runs_call)
      (use sz in \<open>auto simp: header_bounds dest!: opened stat intro!: runs_bind runs_call mapped\<close>)
qed

lemma fits_linked:
  assumes "fits bases Shm_Server layout srv" "fits bases Shm_Client layout cli" "fresh_region g layout m" "region_layout req resp = Ok layout"
  shows "linked bases srv cli m"
  using assms region_layout_OkD [of req resp]
  by (auto simp: fits_def fresh_region_def linked_def shm_wf_def request_area_def response_area_def DEFAULT_SPIN_TRIES_def split: option.splits)

section \<open>Concrete runs\<close>

definition demo_path :: bytes where
  "demo_path = [47, 114, 47, 97, 45] @ replicate 15 48 @ [49] @ shm_suffix"

lemma demo_path: "build_shm_path [47, 114] [97] 1 = Ok demo_path" "0 \<notin> set demo_path"
  by (simp_all add: build_shm_path_def shm_validate_service_name_def service_name_char_def path_join_def hex016_def hex_digit_def shm_suffix_def
      demo_path_def upt_conv_Cons replicate_numeral)

lemma demo_layout: "region_layout 64 64 = Ok (64, 64, 128, 64, 192)"
  by (simp add: region_layout_def align64_def u32_checked_add_def REGION_ALIGNMENT_def SHM_HEADER_LEN_def)

text \<open>The system of \<open>Shm\<close> with its files works as documented.\<close>

definition fs_view :: "file_state file_view" where
  "fs_view = \<lparr>fv_dir = fs_dir, fv_data = fs_data, fv_fds = fs_fds, fv_maps = fs_maps\<rparr>"

lemma fs_view_simps [simp]: "fv_dir fs_view = fs_dir" "fv_data fs_view = fs_data" "fv_fds fs_view = fs_fds" "fv_maps fs_view = fs_maps"
  by (simp_all add: fs_view_def)

lemma file_sys_memory: "region_memory file_sys (\<lambda>os. fs_data os i) (fv_rest fs_view) (mapped_at i)"
  by (auto simp: region_memory_def file_sys_def fs_load_def fs_write_def sub_def)

lemma file_sys_open: "files_open file_sys fs_view"
  by (auto simp: files_open_def file_sys_def fs_create_def fs_open_def fv_same_def split: option.splits)

lemma file_sys_handle: "files_handle file_sys fs_view"
  by (auto simp: files_handle_def file_sys_def fs_truncate_def fs_size_def fs_mmap_def fv_same_def split: option.splits)

lemma file_sys_files: "shm_files file_sys fs_view"
  unfolding shm_files_def using file_sys_open file_sys_handle file_sys_memory by simp

section \<open>Properties\<close>

text \<open>C13: On a system whose files and memory work as documented, in which no file has the region's name yet: the server creates
  the region under that name, the client attaches to the file of that name, a request the client sends is delivered to the
  server's buffer unchanged, the response the server sends is delivered to the client's buffer unchanged, and the name still
  refers to the file that both ends have mapped, in step again for the next exchange.\<close>

theorem shm_session_exchange:
  assumes sf: "shm_files sx v" and new: "fv_dir v os path = None"
    and path: "build_shm_path run_dir name sid = Ok path" "0 \<notin> set path"
    and layout: "region_layout req_capacity resp_capacity = Ok layout" "req_capacity \<noteq> 0" "resp_capacity \<noteq> 0"
    and req: "req \<noteq> []" "length req \<le> unat req_capacity" "length req \<le> length buf"
    and resp: "resp \<noteq> []" "length resp \<le> unat resp_capacity" "length resp \<le> length buf'"
  shows "\<exists>srv cli os1 os2 os3 os4 i.
    server_create sx run_dir name sid req_capacity resp_capacity os = Some (Ok srv, os1) \<and>
    client_attach sx run_dir name sid os1 = Some (Ok cli, os2) \<and>
    shm_send sx req (cli, os2) = Some (Ok (), (count_sent cli, os3)) \<and>
    shm_receive sx buf timeout (srv, os3) = Some (Ok (length req, upd buf 0 req), (count_received srv, os3)) \<and>
    shm_send sx resp (count_received srv, os3) = Some (Ok (), (count_sent (count_received srv), os4)) \<and>
    shm_receive sx buf' timeout (count_sent cli, os4) =
      Some (Ok (length resp, upd buf' 0 resp), (count_received (count_sent cli), os4)) \<and>
    fv_dir v os4 path = Some i \<and>
    linked {b. fv_maps v os4 b = Some i} (count_sent (count_received srv)) (count_received (count_sent cli)) (fv_data v os4 i)"
proof -
  obtain srv os1 i where srv: "server_create sx run_dir name sid req_capacity resp_capacity os = Some (Ok srv, os1)"
    "fv_dir v os1 path = Some i" "fits (mapped_at i (fv_rest v os1)) Shm_Server layout srv"
    "fresh_region (sm_owner_generation srv) layout (fv_data v os1 i)"
    using server_create_runs [OF sf new path layout(1)] unfolding io_runs_def created_def by blast
  note rm = shm_filesD(1) [OF sf, of i]
  obtain cli os2 where cli: "client_attach sx run_dir name sid os1 = Some (Ok cli, os2)"
    "fits (mapped_at i (fv_rest v os2)) Shm_Client layout cli" "fv_data v os2 i = fv_data v os1 i" "fv_dir v os2 = fv_dir v os1"
    "mapped_at i (fv_rest v os1) \<subseteq> mapped_at i (fv_rest v os2)"
    using client_attach_runs [OF sf srv(2) path layout srv(4)] unfolding io_runs_def by blast
  have l: "linked (mapped_at i (fv_rest v os2)) srv cli (fv_data v os2 i)"
    unfolding cli(3) by (rule fits_linked [OF fits_mono [OF srv(3) cli(5)] cli(2) srv(4) layout(1)])
  obtain ro rc po pc sz where lay: "layout = (ro, rc, po, pc, sz)" by (metis surj_pair)
  have caps: "sm_request_capacity srv = rc" "sm_response_capacity (count_sent cli) = pc"
    using srv(3) cli(2) by (simp_all add: fits_def lay count_sent_def)
  have room: "length req \<le> unat (sm_request_capacity srv)" "length resp \<le> unat (sm_response_capacity (count_sent cli))"
    using region_layout_OkD(4,5) [OF layout(1) [unfolded lay]] req(2) resp(2) by (simp_all add: caps)
  obtain os3 where os3: "shm_send sx req (cli, os2) = Some (Ok (), (count_sent cli, os3))"
    "shm_receive sx buf timeout (srv, os3) = Some (Ok (length req, upd buf 0 req), (count_received srv, os3))"
    "fv_rest v os3 = fv_rest v os2" "linked (mapped_at i (fv_rest v os3)) (count_received srv) (count_sent cli) (fv_data v os3 i)"
    using request_transfer [OF rm l req(1) room(1) req(3), of timeout] by blast
  obtain os4 where os4: "shm_send sx resp (count_received srv, os3) = Some (Ok (), (count_sent (count_received srv), os4))"
    "shm_receive sx buf' timeout (count_sent cli, os4) = Some (Ok (length resp, upd buf' 0 resp), (count_received (count_sent cli), os4))"
    "fv_rest v os4 = fv_rest v os3"
    "linked (mapped_at i (fv_rest v os4)) (count_sent (count_received srv)) (count_received (count_sent cli)) (fv_data v os4 i)"
    using response_transfer [OF rm os3(4) resp(1) room(2) resp(3), of timeout] by blast
  have "mapped_at i (fv_rest v os4) = {b. fv_maps v os4 b = Some i}" by auto
  moreover have "fv_dir v os4 path = Some i" using srv(2) cli(4) os3(3) os4(3) by simp
  ultimately show ?thesis using srv(1) cli(1) os3(1,2) os4(1,2,4) by metis
qed

theorem shm_session_exchange_witness:
  "\<exists>srv cli os1 os2 os3 os4.
    server_create file_sys [47, 114] [97] 1 64 64 no_files = Some (Ok srv, os1) \<and>
    client_attach file_sys [47, 114] [97] 1 os1 = Some (Ok cli, os2) \<and>
    shm_send file_sys [1, 2, 3] (cli, os2) = Some (Ok (), (count_sent cli, os3)) \<and>
    shm_receive file_sys [0, 0, 0, 0] 10 (srv, os3) = Some (Ok (3, [1, 2, 3, 0]), (count_received srv, os3)) \<and>
    shm_send file_sys [9] (count_received srv, os3) = Some (Ok (), (count_sent (count_received srv), os4)) \<and>
    shm_receive file_sys [0] 10 (count_sent cli, os4) = Some (Ok (1, [9]), (count_received (count_sent cli), os4)) \<and>
    fs_dir os4 demo_path \<noteq> None"
proof -
  have "fv_dir fs_view no_files demo_path = None" by (simp add: no_files_def)
  from shm_session_exchange [OF file_sys_files this demo_path demo_layout, of "[1, 2, 3]" "[0, 0, 0, 0]" "[9]" "[0]" 10]
  show ?thesis by (auto simp: upd_def)
qed

section \<open>A generation of zero\<close>

text \<open>The same system at a moment when the clock yields the generation zero; every process is alive in it.\<close>

definition zero_sys :: "file_state shm_sys" where
  "zero_sys = file_sys\<lparr>sy_clock := \<lambda>os. ((5, 5120), os)\<rparr>"

lemma zero_sys_files: "shm_files zero_sys fs_view"
proof -
  have same: "sy_open_excl zero_sys = sy_open_excl file_sys" "sy_open_rdwr zero_sys = sy_open_rdwr file_sys"
      "sy_errno zero_sys = sy_errno file_sys" "sy_ftruncate zero_sys = sy_ftruncate file_sys" "sy_fstat zero_sys = sy_fstat file_sys"
      "sy_mmap zero_sys = sy_mmap file_sys" "sy_getpid zero_sys = sy_getpid file_sys" "sy_load zero_sys = sy_load file_sys"
      "sy_store zero_sys = sy_store file_sys" "sy_add64 zero_sys = sy_add64 file_sys" "sy_add32 zero_sys = sy_add32 file_sys"
      "sy_futex_wake zero_sys = sy_futex_wake file_sys"
    by (simp_all add: zero_sys_def)
  have "\<forall>os ts os'. sy_clock zero_sys os = (ts, os') \<longrightarrow> fv_same fs_view os os'" by (simp add: zero_sys_def fv_same_def)
  then have "files_handle zero_sys fs_view"
    using file_sys_handle unfolding files_handle_def same by (elim conjE) (intro conjI; assumption)
  moreover have "files_open zero_sys fs_view" using file_sys_open unfolding files_open_def same .
  moreover have "region_memory zero_sys (\<lambda>os. fs_data os i) (fv_rest fs_view) (mapped_at i)" for i
    using file_sys_memory [of i] unfolding region_memory_def same .
  ultimately show ?thesis by (simp add: shm_files_def)
qed

lemma zero_generation: "time_generation (5, 5120) = 0"
  by (simp add: time_generation_def drop_bit_eq_div)

text \<open>C35: \<open>server_create\<close> takes the generation from the clock without excluding zero, and \<open>check_shm_stale\<close> reclaims a region of
  generation zero whether or not its owner is alive: a server whose clock reads 5.00000512 s creates a region, is alive, and
  a stale check of the region's path unlinks it.\<close>

theorem zero_generation_reclaimed:
  "\<exists>srv m m'. server_create zero_sys [47, 114] [97] 1 64 64 no_files = Some (Ok srv, m) \<and> fs_dir m (sm_path srv) \<noteq> None \<and>
     owner_alive zero_sys srv m = Some (Ok True, m) \<and>
     check_shm_stale zero_sys (sm_path srv) m = Some (Ok Shm_Recovered, m') \<and> fs_dir m' (sm_path srv) = None"
proof -
  have new: "fv_dir fs_view no_files demo_path = None" by (simp add: no_files_def)
  obtain srv m i where m: "server_create zero_sys [47, 114] [97] 1 64 64 no_files = Some (Ok srv, m)" "fs_dir m demo_path = Some i"
    "created zero_sys (mapped_at i (fv_rest fs_view m)) demo_path (64, 64, 128, 64, 192) srv (fs_data m i)"
    using server_create_runs [OF zero_sys_files new demo_path demo_layout] unfolding io_runs_def fs_view_simps by blast
  let ?d = "fs_data m i"
  obtain b where b: "sm_base srv = Some b" "fs_maps m b = Some i" using m(3) by (auto simp: created_def fits_def split: option.splits)
  have c: "sm_region_size srv = 192" "sm_owner_generation srv = 0" "sm_path srv = demo_path" "length ?d = 192"
    "sub ?d OFF_MAGIC 4 = u32_to_ne REGION_MAGIC" "sub ?d OFF_OWNER_PID 4 = u32_to_ne 7" "sub ?d OFF_OWNER_GENERATION 4 = u32_to_ne 0"
    using m(3) by (auto simp: created_def fits_def fresh_region_def is_time_def is_pid_def zero_sys_def file_sys_def zero_generation)
  have ld: "sy_load zero_sys x off n s = (sub ?d off n, s)" if "fs_maps s x = Some i" "fs_data s i = ?d" "off + n \<le> 192" for x off n s
    using region_memoryD(1) [OF shm_filesD(1) [OF zero_sys_files, of i], of x s off n] that c(4) by simp
  have zs: "sy_kill zero_sys pid s = (0, s)" "sy_stat zero_sys path s = fs_size (fs_dir s path) s" "sy_open_rdonly zero_sys = fs_open"
    "sy_mmap zero_sys = fs_mmap" "sy_unlink zero_sys = fs_unlink" "sy_munmap zero_sys x s = s\<lparr>fs_maps := (fs_maps s)(x := None)\<rparr>"
    "sy_close zero_sys fd s = s\<lparr>fs_fds := (fs_fds s)(fd := None)\<rparr>" for pid s path x fd
    by (simp_all add: zero_sys_def file_sys_def)
  note calls = pid_alive_def io_bind_def io_defs atomic_load_u32_def mem_read_def ld header_bounds shm_offsets c(5-7) [unfolded shm_offsets] zs
  have "owner_alive zero_sys srv m = Some (Ok True, m)"
    by (simp add: owner_alive_def b c calls)
  moreover have "\<exists>m'. check_shm_stale zero_sys demo_path m = Some (Ok Shm_Recovered, m') \<and> fs_dir m' demo_path = None"
    using demo_path(2) m(2) c(4)
    by (simp add: check_shm_stale_def path_to_cstring_def read_owner_def reclaim_def unlink_stale_path_def fs_size_def fs_open_def fs_mmap_def
        fs_unlink_def calls)
  ultimately show ?thesis using m(1,2) c(3) by auto
qed

section \<open>A receive with a timeout returns\<close>

text \<open>The monotonic clock in nanoseconds since its origin: it fits 64 bits, a memory access takes at most \<open>slack\<close>, and time
  passes in every \<open>futex\<close> call.\<close>

definition advancing_clock :: "'os shm_sys \<Rightarrow> ('os \<Rightarrow> nat) \<Rightarrow> nat \<Rightarrow> bool" where
  "advancing_clock sx now slack \<longleftrightarrow>
     (\<forall>os. now os < 2 ^ 64) \<and>
     (\<forall>os ts os'. sy_clock sx os = (ts, os') \<longrightarrow>
        ts = (int (now os div 1000000000), int (now os mod 1000000000)) \<and> now os \<le> now os') \<and>
     (\<forall>b off n os d os'. sy_load sx b off n os = (d, os') \<longrightarrow> now os \<le> now os' \<and> now os' \<le> now os + slack) \<and>
     (\<forall>b off v t os r os'. sy_futex_wait sx b off v t os = (r, os') \<longrightarrow> now os < now os' \<or> now os' = 2 ^ 64 - 1)"

lemma advancing_clockD:
  assumes "advancing_clock sx now slack"
  shows "now os < 2 ^ 64"
    and "sy_clock sx os = (ts, os') \<Longrightarrow> ts = (int (now os div 1000000000), int (now os mod 1000000000)) \<and> now os \<le> now os'"
    and "sy_load sx b off n os = (d, os') \<Longrightarrow> now os \<le> now os' \<and> now os' \<le> now os + slack"
    and "sy_futex_wait sx b off v t os = (r, os') \<Longrightarrow> now os < now os' \<or> now os' = 2 ^ 64 - 1"
proof -
  note law = assms [unfolded advancing_clock_def]
  show "now os < 2 ^ 64" by (rule law [THEN conjunct1, THEN spec])
  show "ts = (int (now os div 1000000000), int (now os mod 1000000000)) \<and> now os \<le> now os'" if "sy_clock sx os = (ts, os')"
    using law [THEN conjunct2, THEN conjunct1] that by blast
  show "now os \<le> now os' \<and> now os' \<le> now os + slack" if "sy_load sx b off n os = (d, os')"
    using law [THEN conjunct2, THEN conjunct2, THEN conjunct1] that by blast
  show "now os < now os' \<or> now os' = 2 ^ 64 - 1" if "sy_futex_wait sx b off v t os = (r, os')"
    using law [THEN conjunct2, THEN conjunct2, THEN conjunct2] that by blast
qed

lemma clock_value: "(word_of_nat (t div 1000000000) * 1000000000 + word_of_nat (t mod 1000000000) :: u64) = word_of_nat t"
proof -
  have "(word_of_nat t :: u64) = word_of_nat (t div 1000000000 * 1000000000 + t mod 1000000000)" by (simp only: div_mult_mod_eq)
  then show ?thesis by (simp only: of_nat_add of_nat_mult of_nat_numeral)
qed

lemma clock_ns_value:
  assumes "advancing_clock sx now slack"
  shows "\<exists>os'. clock_ns sx os = Some (Ok (word_of_nat (now os)), os') \<and> now os \<le> now os'"
proof -
  obtain ts os' where c: "sy_clock sx os = (ts, os')" by (metis surj_pair)
  from advancing_clockD(2) [OF assms c] show ?thesis
    by (simp add: clock_ns_def io_bind_def io_defs c clock_value)
qed

text \<open>Loads return, and time does not run backwards in them.\<close>

lemma load_total:
  assumes "advancing_clock sx now slack"
  shows "\<exists>r os'. mem_read sx b sz off n os = Some (r, os') \<and> now os \<le> now os' \<and> now os' \<le> now os + slack"
proof -
  obtain d os' where l: "sy_load sx b off n os = (d, os')" by (metis surj_pair)
  from advancing_clockD(3) [OF assms l] show ?thesis by (auto simp: mem_read_def io_defs l)
qed

lemma loads_total:
  assumes "advancing_clock sx now slack"
  shows "\<exists>r os'. atomic_load_u64 sx b sz off os = Some (r, os') \<and> now os \<le> now os' \<and> now os' \<le> now os + slack"
    and "\<exists>r os'. atomic_load_u32 sx b sz off os = Some (r, os') \<and> now os \<le> now os' \<and> now os' \<le> now os + slack"
  using load_total [OF assms, of b sz off 8 os] load_total [OF assms, of b sz off 4 os]
  by (auto simp: atomic_load_u64_def atomic_load_u32_def io_bind_def io_defs split: outcome.splits)

lemma take_message_total: "take_message sx b sz area max_copy buf os \<noteq> None"
  unfolding take_message_def atomic_load_u32_def mem_read_def by (intro io_totals)

lemma spin_receive_total:
  assumes "advancing_clock sx now slack"
  shows "\<exists>r os'. spin_receive sx b sz area max_copy buf seq n os = Some (r, os') \<and> (r = Ok None \<longrightarrow> now os' \<le> now os + n * slack)"
proof (induction n arbitrary: os)
  case (Suc n)
  obtain ao ac so lo go where area: "area = (ao, ac, so, lo, go)" by (metis surj_pair)
  obtain r t where t: "atomic_load_u64 sx b sz so os = Some (r, t)" "now t \<le> now os + slack"
    using loads_total(1) [OF assms] by blast
  obtain y where y: "take_message sx b sz area max_copy buf t = Some y" using take_message_total [of sx b sz area max_copy buf t] by blast
  obtain r' u where u: "spin_receive sx b sz area max_copy buf seq n t = Some (r', u)" "r' = Ok None \<longrightarrow> now u \<le> now t + n * slack"
    using Suc.IH by blast
  show ?case
    using t u y by (cases r; cases y) (auto simp: area io_bind_def io_defs split: outcome.splits)
qed (simp add: io_defs)

text \<open>One round either ends the wait or lets time pass.\<close>

lemma futex_round_total:
  assumes c: "advancing_clock sx now slack" and d: "d < 2 ^ 64"
  shows "\<exists>r os'. futex_round sx b sz so go seq (word_of_nat d) os = Some (r, os') \<and>
    (r = Ok False \<longrightarrow> d = 0 \<or> now os < now os' \<and> now os < d)"
proof -
  obtain r1 t1 where t1: "atomic_load_u32 sx b sz go os = Some (r1, t1)" "now os \<le> now t1" using loads_total(2) [OF c] by blast
  obtain r2 t2 where t2: "atomic_load_u64 sx b sz so t1 = Some (r2, t2)" "now t1 \<le> now t2" using loads_total(1) [OF c] by blast
  obtain t3 where t3: "clock_ns sx t2 = Some (Ok (word_of_nat (now t2)), t3)" "now t2 \<le> now t3" using clock_ns_value [OF c] by blast
  have b: "now t2 < 2 ^ 64" by (rule advancing_clockD(1) [OF c])
  have dl: "(word_of_nat (now t2) \<ge> (word_of_nat d :: u64)) = (now t2 \<ge> d)" "((word_of_nat d :: u64) > 0) = (d > 0)"
    using b d by (simp_all add: word_le_nat_alt word_less_nat_alt unat_of_nat)
  have progress: "now t2 < d \<Longrightarrow> now os < now u" if "sy_futex_wait sx b go v x t3 = (w, u)" for v x w u
    using advancing_clockD(4) [OF c that] t1(2) t2(2) t3(2) d by auto
  have run: "\<exists>r os'. (io_bind (futex_timeout sx (word_of_nat d)) (\<lambda>timeout.
       io_bind (io_call (sy_futex_wait sx b go v timeout)) (\<lambda>ret.
       io_bind (io_get (sy_errno sx)) (\<lambda>e.
       if ret < 0 \<and> e = ETIMEDOUT then io_err Shm_Timeout else io_ret False)))) t2 = Some (r, os') \<and>
    (r = Ok False \<longrightarrow> d = 0 \<or> now os < now os' \<and> now os < d)" for v
    using t1(2) t2(2) progress
    by (auto simp: futex_timeout_def dl io_bind_def io_defs t3 Let_def split: prod.splits)
  show ?thesis
    using run by (auto simp: futex_round_def io_bind_def t1 t2 io_defs split: outcome.splits)
qed

lemma futex_loop_total:
  assumes c: "advancing_clock sx now slack" and d: "0 < d" "d < 2 ^ 64"
  shows "futex_loop sx b sz so go seq (word_of_nat d) os \<noteq> None"
proof (induction "d - now os" arbitrary: os rule: less_induct)
  case less
  obtain r t where t: "futex_round sx b sz so go seq (word_of_nat d) os = Some (r, t)"
    "r = Ok False \<longrightarrow> d = 0 \<or> now os < now t \<and> now os < d"
    using futex_round_total [OF c d(2)] by blast
  have "futex_loop sx b sz so go seq (word_of_nat d) t \<noteq> None" if "r = Ok False"
    using t(2) that d(1) by (intro less) auto
  then show ?case
    by (subst futex_loop.simps) (auto simp: t(1) split: outcome.splits)
qed

lemma await_message_total:
  assumes c: "advancing_clock sx now slack" and tm: "0 < timeout" "now os + unat (sm_spin_tries ctx) * slack + unat timeout * 1000000 < 2 ^ 64"
  shows "await_message sx b ctx max_copy buf timeout os \<noteq> None"
proof -
  obtain ao ac so lo go where area: "receive_area ctx = (ao, ac, so, lo, go)" by (metis surj_pair)
  obtain r t where t: "spin_receive sx b (sm_region_size ctx) (ao, ac, so, lo, go) max_copy buf (expected_seq ctx) (unat (sm_spin_tries ctx)) os = Some (r, t)"
    "r = Ok None \<longrightarrow> now t \<le> now os + unat (sm_spin_tries ctx) * slack"
    using spin_receive_total [OF c] by blast
  obtain u where u: "clock_ns sx t = Some (Ok (word_of_nat (now t)), u)" using clock_ns_value [OF c] by blast
  have deadline: "receive_deadline_ns sx timeout t = Some (Ok (word_of_nat (now t + unat timeout * 1000000)), u)"
    using tm(1) by (simp add: receive_deadline_ns_def io_bind_def io_defs u)
  have pos: "0 < unat timeout" using tm(1) by (simp add: word_less_nat_alt)
  have loop: "futex_loop sx b (sm_region_size ctx) so go (expected_seq ctx) (word_of_nat (now t + unat timeout * 1000000)) u \<noteq> None"
    if "r = Ok None" using t(2) tm(2) that pos by (intro futex_loop_total [OF c]) linarith+
  have "io_bind (receive_deadline_ns sx timeout) (\<lambda>d.
      io_bind (futex_loop sx b (sm_region_size ctx) so go (expected_seq ctx) d) (\<lambda>_.
      take_message sx b (sm_region_size ctx) (ao, ac, so, lo, go) max_copy buf)) t \<noteq> None" if "r = Ok None"
    unfolding io_bind_Ok [where m = "receive_deadline_ns sx timeout", OF deadline] by (intro io_total_bind loop take_message_total that)
  then show ?thesis
    by (auto simp: await_message_def area io_bind_Ok io_bind_def [of "spin_receive _ _ _ _ _ _ _ _"] t(1) io_defs split: outcome.splits option.splits)
qed

text \<open>C18: A \<open>receive\<close> with a timeout returns, whatever the peer does and however often the \<open>futex\<close> call returns without a
  message, as long as time passes in that call and the deadline is within the range of the 64-bit nanosecond clock.\<close>

theorem shm_receive_terminates:
  assumes "advancing_clock sx now slack"
    and "0 < timeout" "now os + unat (sm_spin_tries ctx) * slack + unat timeout * 1000000 < 2 ^ 64"
  shows "\<exists>r st. shm_receive sx buf timeout (ctx, os) = Some (r, st)"
proof (cases "sm_base ctx")
  case (Some b)
  let ?m = "min (length buf) (unat (fst (snd (receive_area ctx))))"
  obtain r t where "await_message sx b ctx ?m buf timeout os = Some (r, t)"
    using await_message_total [OF assms, of b ?m buf] by auto
  then show ?thesis
    by (auto simp: shm_receive_def Some Let_def io_bind_def io_defs io_snd_def split: outcome.splits)
qed (simp add: shm_receive_def io_defs)

text \<open>A system whose state is the time: its memory is all zeros and every \<open>futex\<close> call returns after a millisecond.\<close>

definition tick_sys :: "nat shm_sys" where
  "tick_sys =
     \<lparr>sy_errno = (\<lambda>_. EINTR),
      sy_open_excl = (\<lambda>_ os. (3, os)), sy_open_rdwr = (\<lambda>_ os. (4, os)), sy_open_rdonly = (\<lambda>_ os. (5, os)),
      sy_fstat = (\<lambda>_ os. ((0, 192), os)), sy_stat = (\<lambda>_ os. ((0, 192), os)), sy_ftruncate = (\<lambda>_ n os. (0, os)),
      sy_mmap = (\<lambda>fd _ os. (Some (nat fd), os)), sy_munmap = (\<lambda>_ os. os), sy_close = (\<lambda>_ os. os),
      sy_unlink = (\<lambda>_ os. (0, os)), sy_rmdir = (\<lambda>_ os. (0, os)), sy_readdir = (\<lambda>_ os. (None, os)),
      sy_kill = (\<lambda>_ os. (0, os)), sy_getpid = (\<lambda>os. (7, os)),
      sy_clock = (\<lambda>os. ((int (os mod 2 ^ 64 div 1000000000), int (os mod 2 ^ 64 mod 1000000000)), os)),
      sy_futex_wait = (\<lambda>_ _ _ _ os. (-1, if os mod 2 ^ 64 + 1000000 < 2 ^ 64 then os mod 2 ^ 64 + 1000000 else 2 ^ 64 - 1)),
      sy_futex_wake = (\<lambda>_ _ os. os),
      sy_load = (\<lambda>_ _ n os. (replicate n 0, os)), sy_store = (\<lambda>_ _ _ os. os),
      sy_add64 = (\<lambda>_ _ _ os. os), sy_add32 = (\<lambda>_ _ _ os. os)\<rparr>"

theorem shm_receive_terminates_witness:
  "\<exists>r st. shm_receive tick_sys [0, 0] 10 (demo_context, 0) = Some (r, st)"
proof -
  have "advancing_clock tick_sys (\<lambda>os. os mod 2 ^ 64) 0"
    by (simp add: advancing_clock_def tick_sys_def)
  from shm_receive_terminates [OF this, of 10 0 demo_context "[0, 0]"] show ?thesis
    by (simp add: demo_context_def)
qed
end
