(* ===== verification/Program_Logic.thy ===== *)
theory Program_Logic
  imports Uds_Channel
begin

text \<open>
  Programs of the service layer (\<open>service/raw\<close>). Their state is a pair: the object that runs (a client, a session thread, a
  server) and the system. This theory has the ways such programs run operations of a part of the object and handle
  their errors, and the rules the proofs about them use.
\<close>

section \<open>Parts and attempts\<close>

abbreviation on_fst :: "('c \<Rightarrow> 'c) \<Rightarrow> ('c \<times> 'os, 'e, unit) io" where
  "on_fst f \<equiv> io_mod (apfst f)"

abbreviation of_fst :: "('c \<Rightarrow> 'a) \<Rightarrow> ('c \<times> 'os, 'e, 'a) io" where
  "of_fst f \<equiv> io_get (\<lambda>st. f (fst st))"

text \<open>Running a program for its result: an error of it is a value, for the code to match on.\<close>

definition attempt :: "('s, 'e, 'a) io \<Rightarrow> ('s, 'f, ('e, 'a) outcome) io" where
  "attempt m s =
     (case m s of
        None \<Rightarrow> None
      | Some (Panic, s) \<Rightarrow> Some (Panic, s)
      | Some (r, s) \<Rightarrow> Some (Ok r, s))"

text \<open>A program on a part of the first component, which is put back as the program left it.\<close>

definition on_part :: "('p \<Rightarrow> 'c \<Rightarrow> 'c) \<Rightarrow> 'p \<Rightarrow> ('p \<times> 'os, 'e, 'a) io \<Rightarrow> ('c \<times> 'os, 'e, 'a) io" where
  "on_part put p m st =
     (case st of (c, os) \<Rightarrow> map_option (\<lambda>(r, (p, os)). (r, (put p c, os))) (m (p, os)))"

section \<open>Rules\<close>

text \<open>\<open>prog_rule P m Q E\<close>: started where the first component satisfies \<open>P\<close>, the program does not panic, a value it returns and the component
  then satisfy \<open>Q\<close>, and the component satisfies \<open>E\<close> if it returns an error.\<close>

definition prog_rule ::
  "('c \<Rightarrow> bool) \<Rightarrow> ('c \<times> 'os, 'e, 'a) io \<Rightarrow> ('a \<Rightarrow> 'c \<Rightarrow> bool) \<Rightarrow> ('c \<Rightarrow> bool) \<Rightarrow> bool" where
  "prog_rule P m Q E \<longleftrightarrow>
     (\<forall>st. P (fst st) \<longrightarrow> io_post m st (\<lambda>r st'. case r of Ok a \<Rightarrow> Q a (fst st') | Err e \<Rightarrow> E (fst st') | Panic \<Rightarrow> False))"

abbreviation prog_keeps :: "('c \<Rightarrow> bool) \<Rightarrow> ('c \<times> 'os, 'e, 'a) io \<Rightarrow> bool" where
  "prog_keeps P m \<equiv> prog_rule P m (\<lambda>_. P) P"

lemma prog_ruleD: "prog_rule P m Q E \<Longrightarrow> P c \<Longrightarrow>
    io_post m (c, os) (\<lambda>r st'. case r of Ok a \<Rightarrow> Q a (fst st') | Err e \<Rightarrow> E (fst st') | Panic \<Rightarrow> False)"
  by (simp add: prog_rule_def)

lemma rule_bind:
  assumes "prog_rule P m R E" "\<And>a. prog_rule (R a) (f a) Q E"
  shows "prog_rule P (io_bind m f) Q E"
  unfolding prog_rule_def
proof (intro allI impI, goal_cases)
  case (1 st)
  then have "io_post m st (\<lambda>r st'. case r of Ok a \<Rightarrow> R a (fst st') | Err e \<Rightarrow> E (fst st') | Panic \<Rightarrow> False)"
    using assms(1) by (cases st) (simp add: prog_rule_def)
  then show ?case
    unfolding io_post_bind
  proof (rule io_post_mono, goal_cases)
    case (1 r t)
    then show ?case using assms(2) by (cases r; cases t) (auto simp: prog_rule_def)
  qed
qed

lemma keeps_bind: "prog_keeps P m \<Longrightarrow> (\<And>a. prog_rule P (f a) Q P) \<Longrightarrow> prog_rule P (io_bind m f) Q P"
  by (rule rule_bind)

lemma rule_ret: "(\<And>c. P c \<Longrightarrow> Q a c) \<Longrightarrow> prog_rule P (io_ret a) Q E"
  by (simp add: prog_rule_def io_posts)

lemma rule_err: "(\<And>c. P c \<Longrightarrow> E c) \<Longrightarrow> prog_rule P (io_err e) Q E"
  by (simp add: prog_rule_def io_posts)

lemma rule_lift: "(\<And>a c. r = Ok a \<Longrightarrow> P c \<Longrightarrow> Q a c) \<Longrightarrow> (\<And>c. P c \<Longrightarrow> E c) \<Longrightarrow> r \<noteq> Panic \<Longrightarrow> prog_rule P (io_lift r) Q E"
  by (auto simp: prog_rule_def io_posts split: outcome.splits)

lemma rule_on: "(\<And>c. P c \<Longrightarrow> Q () (f c)) \<Longrightarrow> prog_rule P (on_fst f) Q E"
  by (simp add: prog_rule_def io_posts)

lemma rule_bind_of: "(\<And>c. P c \<Longrightarrow> prog_rule P (f (g c)) Q E) \<Longrightarrow> prog_rule P (io_bind (of_fst g) f) Q E"
  by (auto simp: prog_rule_def io_posts)

lemma rule_of: "(\<And>c. P c \<Longrightarrow> Q (g c) c) \<Longrightarrow> prog_rule P (of_fst g) Q E"
  by (auto simp: prog_rule_def io_posts)

lemma rule_bind_lift:
  "(\<And>a. r = Ok a \<Longrightarrow> prog_rule P (f a) Q E) \<Longrightarrow> (\<And>c. P c \<Longrightarrow> E c) \<Longrightarrow> r \<noteq> Panic \<Longrightarrow> prog_rule P (io_bind (io_lift r) f) Q E"
  by (cases r) (auto simp: prog_rule_def io_posts)

lemma rule_bind_Ok: "prog_rule P (f a) Q E \<Longrightarrow> prog_rule P (io_bind (io_lift (Ok a)) f) Q E"
  by (simp add: prog_rule_def io_posts)

lemma rule_if: "(b \<Longrightarrow> prog_rule P m Q E) \<Longrightarrow> (\<not> b \<Longrightarrow> prog_rule P m' Q E) \<Longrightarrow> prog_rule P (if b then m else m') Q E"
  by simp

lemma rule_option:
  "(x = None \<Longrightarrow> prog_rule P m Q E) \<Longrightarrow> (\<And>a. x = Some a \<Longrightarrow> prog_rule P (f a) Q E) \<Longrightarrow>
     prog_rule P (case x of None \<Rightarrow> m | Some a \<Rightarrow> f a) Q E"
  by (simp split: option.splits)

lemma rule_outcome:
  "(\<And>a. r = Ok a \<Longrightarrow> prog_rule P (f a) Q E) \<Longrightarrow> (\<And>e. r = Err e \<Longrightarrow> prog_rule P (g e) Q E) \<Longrightarrow> r \<noteq> Panic \<Longrightarrow>
     prog_rule P (case r of Ok a \<Rightarrow> f a | Err e \<Rightarrow> g e | Panic \<Rightarrow> p) Q E"
  by (cases r) simp_all

lemma rule_snd: "(\<And>os. no_panic_io m os) \<Longrightarrow> (\<And>a c. P c \<Longrightarrow> Q a c) \<Longrightarrow> (\<And>c. P c \<Longrightarrow> E c) \<Longrightarrow> prog_rule P (io_snd m) Q E"
  unfolding prog_rule_def io_post_snd by (auto intro!: io_post_mono [of m] split: outcome.splits)

lemma keeps_snd: "(\<And>os. no_panic_io m os) \<Longrightarrow> prog_keeps P (io_snd m)"
  by (rule rule_snd)

text \<open>An attempt turns errors into values.\<close>

lemma attempt_post:
  "io_post (attempt m) s Q \<longleftrightarrow> io_post m s (\<lambda>r t. case r of Panic \<Rightarrow> Q Panic t | _ \<Rightarrow> Q (Ok r) t)"
  by (auto simp: io_post_def attempt_def split: option.splits outcome.splits)

lemma rule_attempt:
  assumes "prog_rule P m R E'" "\<And>a. prog_rule (R a) (f (Ok a)) Q E" "\<And>e. prog_rule E' (f (Err e)) Q E"
  shows "prog_rule P (io_bind (attempt m) f) Q E"
  unfolding prog_rule_def
proof (intro allI impI, goal_cases)
  case (1 st)
  then have "io_post m st (\<lambda>r st'. case r of Ok a \<Rightarrow> R a (fst st') | Err e \<Rightarrow> E' (fst st') | Panic \<Rightarrow> False)"
    using assms(1) by (cases st) (simp add: prog_rule_def)
  then show ?case
    unfolding io_post_bind attempt_post
  proof (rule io_post_mono, goal_cases)
    case (1 r t)
    then show ?case using assms(2,3) by (cases r; cases t) (auto simp: prog_rule_def)
  qed
qed

lemma on_part_post: "io_post (on_part put p m) st Q \<longleftrightarrow> io_post m (p, snd st) (\<lambda>r t. Q r (put (fst t) (fst st), snd t))"
  by (auto simp: io_post_def on_part_def split: option.splits prod.splits)

lemma rule_part:
  assumes "\<And>os. io_post m (p, os) (\<lambda>r st. case r of Ok a \<Rightarrow> R a (fst st) | Err e \<Rightarrow> S (fst st) | Panic \<Rightarrow> False)"
    and "\<And>a p c. P c \<Longrightarrow> R a p \<Longrightarrow> Q a (put p c)" "\<And>p c. P c \<Longrightarrow> S p \<Longrightarrow> E (put p c)"
  shows "prog_rule P (on_part put p m) Q E"
  unfolding prog_rule_def on_part_post
proof (intro allI impI, goal_cases)
  case (1 st)
  show ?case
    by (rule io_post_mono [OF assms(1)]) (use 1 assms(2,3) in \<open>auto split: outcome.splits\<close>)
qed

lemma rule_conseq:
  assumes "prog_rule P m Q E" "\<And>c. P' c \<Longrightarrow> P c" "\<And>a c. Q a c \<Longrightarrow> Q' a c" "\<And>c. E c \<Longrightarrow> E' c"
  shows "prog_rule P' m Q' E'"
  unfolding prog_rule_def
proof (intro allI impI, goal_cases)
  case (1 st)
  then have "io_post m st (\<lambda>r st'. case r of Ok a \<Rightarrow> Q a (fst st') | Err e \<Rightarrow> E (fst st') | Panic \<Rightarrow> False)"
    using assms(1,2) by (cases st) (simp add: prog_rule_def)
  then show ?case by (rule io_post_mono) (use assms(3,4) in \<open>auto split: outcome.splits\<close>)
qed

lemma rule_mod: "(\<And>c os. P c \<Longrightarrow> Q () (fst (f (c, os)))) \<Longrightarrow> prog_rule P (io_mod f) Q E"
  by (simp add: prog_rule_def io_posts)

lemma rule_False: "prog_rule P m (\<lambda>_ _. False) E \<Longrightarrow> prog_rule P m Q E"
  by (erule rule_conseq) auto

lemma rule_pair: "(\<And>a b. p = (a, b) \<Longrightarrow> prog_rule P (f a b) Q E) \<Longrightarrow> prog_rule P (case p of (a, b) \<Rightarrow> f a b) Q E"
  by (cases p) simp

lemma rule_fix: "(\<And>n. prog_rule (\<lambda>c. P c \<and> g c = n) m Q E) \<Longrightarrow> prog_rule P m Q E"
  by (simp add: prog_rule_def)

lemma rule_snd_post:
  assumes "\<And>os. io_post m os (\<lambda>r _. case r of Ok a \<Rightarrow> V a | _ \<Rightarrow> False)" "\<And>a. V a \<Longrightarrow> prog_rule P (f a) Q E"
  shows "prog_rule P (io_bind (io_snd m) f) Q E"
proof (rule rule_bind [where R = "\<lambda>a c. P c \<and> V a"])
  show "prog_rule P (io_snd m) (\<lambda>a c. P c \<and> V a) E"
    unfolding prog_rule_def io_post_snd by (auto intro!: io_post_mono [OF assms(1)] split: outcome.splits)
  show "prog_rule (\<lambda>c. P c \<and> V a) (f a) Q E" for a
    using assms(2) [of a] by (auto simp: prog_rule_def)
qed

section \<open>Sessions without panics\<close>

lemma raw_send_iov_no_panic: "no_panic_io (raw_send_iov px fd a b) os"
  unfolding raw_send_iov_def Let_def by (intro no_panic_intros)

lemma send_chunks_no_panic:
  "offset \<le> length payload \<Longrightarrow> no_panic_io (send_chunks px fd mid total_msg cc budget payload offset ci n) os"
proof (induction n arbitrary: offset ci os)
  case (Suc n)
  let ?k = "min (length payload - offset) budget"
  have "slice_rng payload offset (offset + ?k) = (Ok (sub payload offset ?k) :: (uds_error, bytes) outcome)"
    using Suc.prems by (simp add: slice_rng_def)
  then show ?case
    using Suc.prems Suc.IH [of "offset + ?k"]
    by (auto simp: Let_def chunk_header_encode_new io_post_bind [of "io_lift _"] io_post_prim intro!: no_panic_bind raw_send_iov_no_panic)
qed (simp add: no_panic_prims)

lemma send_inner_no_panic: "no_panic_io (send_inner px s hdr payload) os"
proof -
  have "slice_rng payload 0 (min (length payload) b) = (Ok (take b payload) :: (uds_error, bytes) outcome)" for b
    by (simp add: slice_rng_def sub_def min_def)
  then show ?thesis
    unfolding send_inner_def
    by (auto simp: Let_def encode_packet_header_ok io_posts intro!: no_panic_bind [unfolded io_post_bind] raw_send_iov_no_panic send_chunks_no_panic io_post_mono [OF raw_send_iov_no_panic] split: outcome.splits)
qed

lemma uds_send_no_panic: "io_post (uds_send px hdr payload) (s, os) (\<lambda>r st. r \<noteq> Panic)"
  unfolding uds_send_def Let_def
  by (intro no_panic_intros no_panic_mod) (simp_all add: io_post_snd send_inner_no_panic)

text \<open>Where a received message is: in the caller's buffer behind the header, or in the session's receive buffer.\<close>

definition placed :: "nat \<Rightarrow> (uds_error, received) outcome \<Rightarrow> uds_session \<Rightarrow> bool" where
  "placed k r s \<longleftrightarrow>
     (case r of
        Ok m \<Rightarrow> length (rcv_buf m) = k \<and>
          (if rcv_in_session m then slice_rng (us_recv_buf s) 0 (length (rcv_payload m)) = (Ok (rcv_payload m) :: bytes result)
           else slice_rng (rcv_buf m) HEADER_SIZE (HEADER_SIZE + length (rcv_payload m)) = (Ok (rcv_payload m) :: bytes result))
      | _ \<Rightarrow> True)"

lemma io_post_skip: "(\<And>a t. io_post (f a) t Q) \<Longrightarrow> (\<And>e t. Q (Err e) t) \<Longrightarrow> (\<And>t. Q Panic t) \<Longrightarrow> io_post (io_bind m f) s Q"
  unfolding io_post_bind by (auto simp: io_post_def split: option.splits outcome.splits)

lemma placed_fail [simp]: "placed k (Err e) s" "placed k Panic s"
  by (simp_all add: placed_def)

lemma slice_rng_typed: "slice_rng buf a b = (Ok p :: (uds_error, bytes) outcome) \<Longrightarrow> slice_rng buf a b = (Ok p :: bytes result) \<and> length p = b - a"
  by (auto simp: slice_rng_def split: if_splits)

lemma receive_body_placed: "io_post (receive_body px buf n hdr controlled wait) st (\<lambda>r st. placed (length buf) r (fst st))"
proof -
  have tail: "io_post (io_bind (of_session us_recv_buf) (\<lambda>recv_buf.
      io_bind (io_lift (slice_rng recv_buf 0 needed)) (\<lambda>payload.
      io_bind (io_lift (validate_batch hdr payload)) (\<lambda>_.
      io_ret \<lparr>rcv_hdr = hdr, rcv_payload = payload, rcv_in_session = True, rcv_buf = buf\<rparr>)))) t (\<lambda>r st. placed (length buf) r (fst st))"
    for needed t
    by (cases t) (auto simp: io_posts placed_def dest: slice_rng_typed split: outcome.splits)
  have "io_post (receive_chunked px buf n hdr controlled wait) st (\<lambda>r st. placed (length buf) r (fst st))"
    unfolding receive_chunked_def Let_def by (rule tail io_post_skip placed_fail)+
  then show ?thesis
    by (auto simp: receive_body_def Let_def io_posts placed_def dest: slice_rng_typed split: outcome.splits)
qed

lemma receive_message_placed:
  assumes "recv_bounded px"
  shows "io_post (receive_message px buf controlled wait) (s, os) (\<lambda>r st. placed (length buf) r (fst st))"
proof -
  have body: "io_post (io_bind (io_lift pkt) (\<lambda>pkt. io_bind (io_lift (dec pkt)) (\<lambda>hdr. io_bind (io_lift (chk hdr)) (\<lambda>_.
      io_bind (on_session (trk hdr)) (\<lambda>_. receive_body px buf' n hdr controlled wait))))) t (\<lambda>r st. placed (length buf) r (fst st))"
    if "length buf' = length buf" for pkt dec chk trk buf' n t
    unfolding that [symmetric] by (rule receive_body_placed io_post_skip placed_fail)+
  have "io_post (io_snd (raw_recv_control px (us_fd s) buf controlled wait)) (s, os) (\<lambda>r _. packet_post buf r)"
    using raw_recv_control_post [OF assms] by (simp add: io_post_snd)
  then show ?thesis
    unfolding receive_message_def io_post_bind [of "of_session _"] io_post_get prod.case outcome.case
      io_post_bind [of "io_on_err _ _"] io_post_on_err
  proof (rule io_post_mono, goal_cases)
    case (1 r t)
    then show ?case
      by (cases r) (auto simp: packet_post_def io_posts(1) io_post_bind [of "on_session _"] io_post_mod io_post_prim intro: body)
  qed
qed

lemma uds_receive_rule:
  assumes "recv_bounded px"
  shows "io_post (uds_receive_with_control px buf timeout_ms abort) (s, os)
    (\<lambda>r st. r \<noteq> Panic \<and> accepted_post s r (fst st) \<and> placed (length buf) r (fst st))"
proof -
  have "io_post (receive_message px buf c w) (s, t) (\<lambda>r st. r \<noteq> Panic \<and> accepted_post s r (fst st) \<and> placed (length buf) r (fst st))" for c w t
    using receive_message_post [OF assms, of buf c w s t] receive_message_placed [OF assms, of buf c w s t]
    by (auto simp: io_post_def split: option.splits prod.splits)
  then show ?thesis
    by (simp add: uds_receive_with_control_def receive_wait_new_def io_posts split: prod.splits)
qed

lemma header_decode_no_panic: "header_decode b \<noteq> Panic"
  by (rule hdr.decode_no_panic)

lemma header_encode_no_panic: "header_encode hdr buf \<noteq> (Panic :: (usize \<times> bytes) result)"
  by (cases "length buf < HEADER_SIZE") (simp_all add: hdr.encode_ok hdr.encode_short)

end
