(* ===== verification/Client.thy ===== *)
theory Client
  imports Shm_Exchange Service_Common Program_Logic
begin

unbundle bit_operations_syntax

text \<open>
  The client of a service (\<open>service/raw/client.rs\<close>, \<open>client_call.rs\<close> and \<open>client_unix.rs\<close>, the Linux variant): its connection
  state machine, connecting with the upgrade to shared memory, one call over either transport, and the retries of a call.
  The state of a program is the client together with the state of the system.
\<close>

section \<open>The system a client runs on\<close>

text \<open>The socket calls, the shared-memory calls, the shape of \<open>sockaddr_un\<close>, the store to the shared abort flag, and sleeping
  for a number of milliseconds.\<close>

record 'os host =
  ho_px :: "'os posix"
  ho_sx :: "'os shm_sys"
  ho_lay :: sockaddr_layout
  ho_set_abort :: "bool \<Rightarrow> 'os \<Rightarrow> 'os"
  ho_sleep :: "u64 \<Rightarrow> 'os \<Rightarrow> 'os"

section \<open>The client\<close>

definition CLIENT_CALL_TIMEOUT_DEFAULT_MS :: u32 where "CLIENT_CALL_TIMEOUT_DEFAULT_MS = 30000"
definition CLIENT_ABORT_POLL_MS :: u32 where "CLIENT_ABORT_POLL_MS = 100"

datatype client_state = Cs_Disconnected | Cs_Connecting | Cs_Ready | Cs_NotFound | Cs_AuthFailed | Cs_Incompatible | Cs_Broken

record client_status =
  cst_state :: client_state
  cst_connect_count :: u32
  cst_reconnect_count :: u32
  cst_call_count :: u32
  cst_error_count :: u32

record raw_client =
  rc_state :: client_state
  rc_run_dir :: bytes
  rc_service_name :: bytes
  rc_expected_method_code :: u16
  rc_transport_config :: client_config
  rc_session :: "uds_session option"
  rc_shm :: "shm_context option"
  rc_request_buf :: bytes
  rc_send_buf :: bytes
  rc_transport_buf :: bytes
  rc_connect_count :: u32
  rc_reconnect_count :: u32
  rc_call_count :: u32
  rc_error_count :: u32
  rc_call_timeout_ms :: u32
  rc_max_logical_lookup_items :: u32
  rc_max_logical_lookup_subcalls :: u32
  rc_max_logical_lookup_response_bytes :: u32

record raw_call_kind =
  ck_flags :: u16
  ck_item_count :: u32
  ck_check_item_count :: bool

definition call_kind_single :: raw_call_kind where
  "call_kind_single = \<lparr>ck_flags = 0, ck_item_count = 1, ck_check_item_count = False\<rparr>"

definition call_kind_batch :: "u32 \<Rightarrow> raw_call_kind" where
  "call_kind_batch item_count = \<lparr>ck_flags = FLAG_BATCH, ck_item_count = item_count, ck_check_item_count = True\<rparr>"

datatype response_source = TransportBuf | SessionBuf

record response_ref =
  rr_source :: response_source
  rr_len :: usize

type_synonym 'os client_st = "raw_client \<times> 'os"
type_synonym ('os, 'a) client_io = "('os client_st, nipc_error, 'a) io"

abbreviation on_client :: "(raw_client \<Rightarrow> raw_client) \<Rightarrow> ('os client_st, 'e, unit) io" where
  "on_client f \<equiv> io_mod (apfst f)"

abbreviation of_client :: "(raw_client \<Rightarrow> 'a) \<Rightarrow> ('os client_st, 'e, 'a) io" where
  "of_client f \<equiv> io_get (\<lambda>st. f (fst st))"

definition new_bound :: "bytes \<Rightarrow> bytes \<Rightarrow> u16 \<Rightarrow> client_config \<Rightarrow> raw_client" where
  "new_bound run_dir service_name expected_method_code config =
     \<lparr>rc_state = Cs_Disconnected, rc_run_dir = run_dir, rc_service_name = service_name,
      rc_expected_method_code = expected_method_code, rc_transport_config = config, rc_session = None, rc_shm = None,
      rc_request_buf = [], rc_send_buf = [], rc_transport_buf = [],
      rc_connect_count = 0, rc_reconnect_count = 0, rc_call_count = 0, rc_error_count = 0,
      rc_call_timeout_ms = CLIENT_CALL_TIMEOUT_DEFAULT_MS,
      rc_max_logical_lookup_items = llc_max_items lookup_logical_config_default,
      rc_max_logical_lookup_subcalls = llc_max_subcalls lookup_logical_config_default,
      rc_max_logical_lookup_response_bytes = llc_max_response_bytes lookup_logical_config_default\<rparr>"

definition resolved_call_timeout :: "raw_client \<Rightarrow> u32 \<Rightarrow> u32" where
  "resolved_call_timeout c timeout_ms =
     (if timeout_ms \<noteq> 0 then timeout_ms
      else if rc_call_timeout_ms c \<noteq> 0 then rc_call_timeout_ms c
      else CLIENT_CALL_TIMEOUT_DEFAULT_MS)"

definition set_call_timeout :: "u32 \<Rightarrow> raw_client \<Rightarrow> raw_client" where
  "set_call_timeout timeout_ms c =
     c\<lparr>rc_call_timeout_ms := if timeout_ms = 0 then CLIENT_CALL_TIMEOUT_DEFAULT_MS else timeout_ms\<rparr>"

definition set_lookup_logical_config :: "lookup_logical_config \<Rightarrow> raw_client \<Rightarrow> raw_client" where
  "set_lookup_logical_config config c =
     (let config = lookup_logical_config_normalize config in
      c\<lparr>rc_max_logical_lookup_items := llc_max_items config,
        rc_max_logical_lookup_subcalls := llc_max_subcalls config,
        rc_max_logical_lookup_response_bytes := llc_max_response_bytes config\<rparr>)"

definition client_ready :: "raw_client \<Rightarrow> bool" where
  "client_ready c \<longleftrightarrow> rc_state c = Cs_Ready"

definition client_status_of :: "raw_client \<Rightarrow> client_status" where
  "client_status_of c =
     \<lparr>cst_state = rc_state c, cst_connect_count = rc_connect_count c, cst_reconnect_count = rc_reconnect_count c,
      cst_call_count = rc_call_count c, cst_error_count = rc_error_count c\<rparr>"

definition validate_method :: "raw_client \<Rightarrow> u16 \<Rightarrow> unit result" where
  "validate_method c method_code = (if rc_expected_method_code c = method_code then Ok () else Err BadLayout)"

definition session_max_request_payload_bytes :: "raw_client \<Rightarrow> u32" where
  "session_max_request_payload_bytes c =
     (case rc_session c of
        Some session \<Rightarrow> us_max_request_payload_bytes session
      | None \<Rightarrow> cc_max_request_payload_bytes (rc_transport_config c))"

definition session_max_response_payload_bytes :: "raw_client \<Rightarrow> u32" where
  "session_max_response_payload_bytes c =
     (case rc_session c of
        Some session \<Rightarrow> us_max_response_payload_bytes session
      | None \<Rightarrow> cc_max_response_payload_bytes (rc_transport_config c))"

definition client_note_request_capacity :: "u32 \<Rightarrow> raw_client \<Rightarrow> raw_client" where
  "client_note_request_capacity payload_len c =
     (let grown = min (next_power_of_2_u32 payload_len) MAX_PAYLOAD_CAP in
      if grown > cc_max_request_payload_bytes (rc_transport_config c)
      then c\<lparr>rc_transport_config := (rc_transport_config c)\<lparr>cc_max_request_payload_bytes := grown\<rparr>\<rparr> else c)"

definition client_note_response_capacity :: "u32 \<Rightarrow> raw_client \<Rightarrow> raw_client" where
  "client_note_response_capacity payload_len c =
     (let grown = min (next_power_of_2_u32 payload_len) MAX_PAYLOAD_CAP in
      if grown > cc_max_response_payload_bytes (rc_transport_config c)
      then c\<lparr>rc_transport_config := (rc_transport_config c)\<lparr>cc_max_response_payload_bytes := grown\<rparr>\<rparr> else c)"

text \<open>The load of the abort flag, which other threads write, and the stores to it.\<close>

definition abort_requested :: "'os host \<Rightarrow> ('os client_st, 'e, bool) io" where
  "abort_requested h = io_snd (io_call (px_abort (ho_px h)))"

definition client_abort :: "'os host \<Rightarrow> ('os client_st, 'e, unit) io" where
  "client_abort h = io_snd (io_mod (ho_set_abort h True))"

definition clear_abort :: "'os host \<Rightarrow> ('os client_st, 'e, unit) io" where
  "clear_abort h = io_snd (io_mod (ho_set_abort h False))"

text \<open>Instants are nanoseconds; the seconds of one are an \<open>i64\<close>.\<close>

definition lookup_deadline :: "'os host \<Rightarrow> u32 \<Rightarrow> ('os, nat) client_io" where
  "lookup_deadline h timeout_ms =
     io_bind (io_snd (io_call (px_now (ho_px h)))) (\<lambda>now.
     io_bind (of_client (\<lambda>c. now + unat (resolved_call_timeout c timeout_ms) * 1000000)) (\<lambda>deadline.
     if deadline div 1000000000 < 2 ^ 63 then io_ret deadline else io_err Overflow))"

definition lookup_remaining_timeout :: "'os host \<Rightarrow> nat \<Rightarrow> ('os, u32) client_io" where
  "lookup_remaining_timeout h deadline =
     io_bind (abort_requested h) (\<lambda>aborted.
     if aborted then io_err Aborted
     else
       io_bind (io_snd (io_call (px_now (ho_px h)))) (\<lambda>now.
       if now \<ge> deadline then io_err Timeout
       else io_ret (word_of_nat (min (max ((deadline - now) div 1000000) 1) U32_MAX))))"

abbreviation put_session :: "uds_session \<Rightarrow> raw_client \<Rightarrow> raw_client" where
  "put_session s c \<equiv> c\<lparr>rc_session := Some s\<rparr>"

abbreviation put_shm :: "shm_context \<Rightarrow> raw_client \<Rightarrow> raw_client" where
  "put_shm s c \<equiv> c\<lparr>rc_shm := Some s\<rparr>"

definition disconnect :: "'os host \<Rightarrow> ('os client_st, 'e, unit) io" where
  "disconnect h =
     io_bind (of_client rc_shm) (\<lambda>shm.
     io_bind
       (case shm of
          None \<Rightarrow> io_ret ()
        | Some ctx \<Rightarrow> io_bind (attempt (on_part put_shm ctx (shm_close (ho_sx h)))) (\<lambda>_. on_client (\<lambda>c. c\<lparr>rc_shm := None\<rparr>))) (\<lambda>_.
     io_bind (of_client rc_session) (\<lambda>session.
     case session of
       None \<Rightarrow> io_ret ()
     | Some s \<Rightarrow> io_mod (\<lambda>(c, os). (c\<lparr>rc_session := None\<rparr>, snd (uds_session_drop (ho_px h) (s, os)))))))"

definition client_close :: "'os host \<Rightarrow> ('os client_st, 'e, unit) io" where
  "client_close h =
     io_bind (disconnect h) (\<lambda>_.
     io_bind (on_client (\<lambda>c. c\<lparr>rc_state := Cs_Disconnected\<rparr>)) (\<lambda>_.
     clear_abort h))"

section \<open>Connecting\<close>

text \<open>Attaching to the region the server creates, retried until the deadline.\<close>

partial_function (option) attach_retry ::
  "'os host \<Rightarrow> bytes \<Rightarrow> bytes \<Rightarrow> u64 \<Rightarrow> nat \<Rightarrow> 'os \<Rightarrow> ((nipc_error, shm_context option) outcome \<times> 'os) option" where
  "attach_retry h run_dir service_name session_id deadline os =
     (case client_attach (ho_sx h) run_dir service_name session_id os of
        None \<Rightarrow> None
      | Some (Ok ctx, os) \<Rightarrow> Some (Ok (Some ctx), os)
      | Some (Panic, os) \<Rightarrow> Some (Panic, os)
      | Some (Err _, os) \<Rightarrow>
          (case px_now (ho_px h) os of (now, os) \<Rightarrow>
             if now \<ge> deadline then Some (Ok None, os)
             else attach_retry h run_dir service_name session_id deadline
                    (ho_sleep h CLIENT_SHM_ATTACH_RETRY_INTERVAL_MS os)))"

definition shm_profile :: "u32 \<Rightarrow> bool" where
  "shm_profile profile \<longleftrightarrow> profile = PROFILE_SHM_HYBRID \<or> profile = PROFILE_SHM_FUTEX"

definition without_shm :: "client_config \<Rightarrow> client_config" where
  "without_shm config =
     config\<lparr>cc_supported_profiles := cc_supported_profiles config AND NOT (PROFILE_SHM_HYBRID OR PROFILE_SHM_FUTEX),
            cc_preferred_profiles := cc_preferred_profiles config AND NOT (PROFILE_SHM_HYBRID OR PROFILE_SHM_FUTEX)\<rparr>"

fun state_of_connect_error :: "uds_error \<Rightarrow> client_state" where
  "state_of_connect_error (Uds_Connect _) = Cs_NotFound"
| "state_of_connect_error Uds_AuthFailed = Cs_AuthFailed"
| "state_of_connect_error Uds_NoProfile = Cs_Incompatible"
| "state_of_connect_error Uds_Incompatible = Cs_Incompatible"
| "state_of_connect_error _ = Cs_Disconnected"

text \<open>What one attempt comes to: a state, or the start of another attempt without shared memory.\<close>

definition connect_once :: "'os host \<Rightarrow> ('os, client_state option) client_io" where
  "connect_once h =
     io_bind (of_client id) (\<lambda>c.
     io_bind (attempt (io_snd (uds_connect (ho_lay h) (ho_px h) (rc_run_dir c) (rc_service_name c) (rc_transport_config c)))) (\<lambda>r.
     case r of
       Ok session \<Rightarrow>
         if shm_profile (us_selected_profile session) then
           io_bind (io_snd (io_call (px_now (ho_px h)))) (\<lambda>now.
           io_bind (io_snd (attach_retry h (rc_run_dir c) (rc_service_name c) (us_session_id session)
             (now + unat CLIENT_SHM_ATTACH_RETRY_TIMEOUT_MS * 1000000))) (\<lambda>shm.
           case shm of
             Some ctx \<Rightarrow> io_bind (on_client (\<lambda>c. c\<lparr>rc_shm := Some ctx, rc_session := Some session\<rparr>)) (\<lambda>_. io_ret (Some Cs_Ready))
           | None \<Rightarrow>
               io_bind (io_mod (\<lambda>(c, os). (c, snd (uds_session_drop (ho_px h) (session, os))))) (\<lambda>_.
               io_bind (on_client (\<lambda>c. c\<lparr>rc_transport_config := without_shm (rc_transport_config c)\<rparr>)) (\<lambda>_.
               io_bind (of_client (\<lambda>c. cc_supported_profiles (rc_transport_config c))) (\<lambda>supported.
               io_ret (if supported = 0 then Some Cs_Disconnected else None))))))
         else io_bind (on_client (\<lambda>c. c\<lparr>rc_session := Some session\<rparr>)) (\<lambda>_. io_ret (Some Cs_Ready))
     | Err e \<Rightarrow> io_ret (Some (state_of_connect_error e))
     | Panic \<Rightarrow> io_lift Panic))"

partial_function (option) try_connect :: "'os host \<Rightarrow> 'os client_st \<Rightarrow> ((nipc_error, client_state) outcome \<times> 'os client_st) option" where
  "try_connect h st =
     (case connect_once h st of
        None \<Rightarrow> None
      | Some (Ok None, st) \<Rightarrow> try_connect h st
      | Some (Ok (Some state), st) \<Rightarrow> Some (Ok state, st)
      | Some (Err e, st) \<Rightarrow> Some (Err e, st)
      | Some (Panic, st) \<Rightarrow> Some (Panic, st))"

abbreviation set_state :: "client_state \<Rightarrow> ('os client_st, 'e, unit) io" where
  "set_state state \<equiv> on_client (\<lambda>c. c\<lparr>rc_state := state\<rparr>)"

definition connect_into_state :: "'os host \<Rightarrow> ('os, client_state) client_io" where
  "connect_into_state h =
     io_bind (try_connect h) (\<lambda>state.
     io_bind (set_state state) (\<lambda>_. io_ret state))"

definition client_refresh :: "'os host \<Rightarrow> ('os, bool) client_io" where
  "client_refresh h =
     io_bind (of_client rc_state) (\<lambda>old_state.
     io_bind
       (case old_state of
          Cs_Disconnected \<Rightarrow>
            io_bind (set_state Cs_Connecting) (\<lambda>_.
            io_bind (connect_into_state h) (\<lambda>state.
            if state = Cs_Ready then on_client (\<lambda>c. c\<lparr>rc_connect_count := rc_connect_count c + 1\<rparr>) else io_ret ()))
        | Cs_NotFound \<Rightarrow>
            io_bind (set_state Cs_Connecting) (\<lambda>_.
            io_bind (connect_into_state h) (\<lambda>state.
            if state = Cs_Ready then on_client (\<lambda>c. c\<lparr>rc_connect_count := rc_connect_count c + 1\<rparr>) else io_ret ()))
        | Cs_Broken \<Rightarrow>
            io_bind (disconnect h) (\<lambda>_.
            io_bind (set_state Cs_Connecting) (\<lambda>_.
            io_bind (connect_into_state h) (\<lambda>state.
            if state = Cs_Ready then on_client (\<lambda>c. c\<lparr>rc_reconnect_count := rc_reconnect_count c + 1\<rparr>) else io_ret ())))
        | _ \<Rightarrow> io_ret ()) (\<lambda>_.
     of_client (\<lambda>c. rc_state c \<noteq> old_state)))"

text \<open>Leaving the connection broken and counting the error.\<close>

definition fail_broken :: "'os host \<Rightarrow> nipc_error \<Rightarrow> ('os, 'a) client_io" where
  "fail_broken h e =
     io_bind (disconnect h) (\<lambda>_.
     io_bind (on_client (\<lambda>c. c\<lparr>rc_state := Cs_Broken, rc_error_count := rc_error_count c + 1\<rparr>)) (\<lambda>_.
     io_err e))"

definition fail_counted :: "nipc_error \<Rightarrow> ('os, 'a) client_io" where
  "fail_counted e = io_bind (on_client (\<lambda>c. c\<lparr>rc_error_count := rc_error_count c + 1\<rparr>)) (\<lambda>_. io_err e)"

definition reconnect :: "'os host \<Rightarrow> ('os, client_state) client_io" where
  "reconnect h =
     io_bind (disconnect h) (\<lambda>_.
     io_bind (set_state Cs_Broken) (\<lambda>_.
     connect_into_state h))"

definition ensure_ready_for_logical_lookup :: "'os host \<Rightarrow> ('os, unit) client_io" where
  "ensure_ready_for_logical_lookup h =
     io_bind (of_client rc_state) (\<lambda>state.
     if state \<noteq> Cs_Ready then fail_counted BadLayout
     else
       io_bind (abort_requested h) (\<lambda>aborted.
       if aborted then fail_broken h Aborted else io_ret ()))"

definition ensure_lookup_request_capacity :: "'os host \<Rightarrow> usize \<Rightarrow> ('os, bool) client_io" where
  "ensure_lookup_request_capacity h required =
     io_bind (abort_requested h) (\<lambda>aborted.
     if aborted then fail_broken h Aborted
     else if required \<ge> 2 ^ 32 then io_err Overflow
     else
       io_bind (of_client id) (\<lambda>c.
       let max_request_payload_bytes =
             (if cc_max_request_payload_bytes (rc_transport_config c) = 0 then MAX_PAYLOAD_DEFAULT
              else cc_max_request_payload_bytes (rc_transport_config c)) in
       if required > unat max_request_payload_bytes then io_ret False
       else if unat (session_max_request_payload_bytes c) \<ge> required then io_ret True
       else
         let prev_req = session_max_request_payload_bytes c in
         io_bind (reconnect h) (\<lambda>state.
         if state \<noteq> Cs_Ready then fail_counted Overflow
         else
           io_bind (on_client (\<lambda>c. c\<lparr>rc_reconnect_count := rc_reconnect_count c + 1\<rparr>)) (\<lambda>_.
           io_bind (of_client session_max_request_payload_bytes) (\<lambda>now_req.
           if now_req \<le> prev_req \<or> unat now_req < required then fail_broken h Overflow
           else io_ret True)))))"

section \<open>One call\<close>

definition request_scratch :: "usize \<Rightarrow> raw_client \<Rightarrow> raw_client" where
  "request_scratch needed c = c\<lparr>rc_request_buf := ensure_client_scratch (rc_request_buf c) needed\<rparr>"

definition max_receive_message_bytes :: "raw_client \<Rightarrow> usize" where
  "max_receive_message_bytes c =
     (let max_payload = unat (cc_max_response_payload_bytes (rc_transport_config c));
          max_payload =
            (case rc_session c of
               Some session \<Rightarrow> if us_max_response_payload_bytes session > 0 then unat (us_max_response_payload_bytes session) else max_payload
             | None \<Rightarrow> max_payload);
          max_payload = (if max_payload = 0 then CACHE_RESPONSE_BUF_SIZE else max_payload) in
      HEADER_SIZE + max_payload)"

text \<open>The error a failed transport send comes to; a message that is too large is noted for the next connection.\<close>

definition send_failed :: "bool \<Rightarrow> usize \<Rightarrow> ('os, 'a) client_io" where
  "send_failed too_large req_len =
     (if too_large then
        io_bind (on_client (client_note_request_capacity (word_of_nat req_len))) (\<lambda>_. io_err Overflow)
      else io_err Truncated)"

definition shm_send_request :: "'os host \<Rightarrow> shm_context \<Rightarrow> header \<Rightarrow> usize \<Rightarrow> ('os, header) client_io" where
  "shm_send_request h ctx hdr req_len =
     io_bind (of_client session_max_request_payload_bytes) (\<lambda>max_request_payload_bytes.
     if req_len > unat max_request_payload_bytes then send_failed True req_len
     else
       let msg_len = HEADER_SIZE + req_len in
       io_bind (on_client (\<lambda>c. c\<lparr>rc_send_buf := ensure_client_scratch (rc_send_buf c) msg_len\<rparr>)) (\<lambda>_.
       let hdr = hdr\<lparr>hdr_magic := MAGIC_MSG, hdr_version := VERSION, hdr_header_len := HEADER_LEN,
                     hdr_payload_len := word_of_nat req_len\<rparr> in
       io_bind (of_client id) (\<lambda>c.
       io_bind (io_lift (header_encode hdr (take HEADER_SIZE (rc_send_buf c)))) (\<lambda>(_, hdr_buf).
       io_bind (io_lift (if req_len > 0 then slice_rng (rc_request_buf c) 0 req_len else Ok [])) (\<lambda>payload.
       io_bind (on_client (\<lambda>c. c\<lparr>rc_send_buf := upd (upd (rc_send_buf c) 0 hdr_buf) HEADER_SIZE payload\<rparr>)) (\<lambda>_.
       io_bind (of_client (\<lambda>c. take msg_len (rc_send_buf c))) (\<lambda>msg.
       io_bind (attempt (on_part put_shm ctx (shm_send (ho_sx h) msg))) (\<lambda>r.
       case r of
         Ok _ \<Rightarrow> io_ret hdr
       | Err e \<Rightarrow> send_failed (e = Shm_MsgTooLarge) req_len
       | Panic \<Rightarrow> io_lift Panic))))))))"

definition uds_send_request :: "'os host \<Rightarrow> header \<Rightarrow> usize \<Rightarrow> ('os, header) client_io" where
  "uds_send_request h hdr req_len =
     io_bind (of_client id) (\<lambda>c.
     io_bind (io_lift (ok_or (rc_session c) Truncated)) (\<lambda>session.
     io_bind (io_lift (slice_rng (rc_request_buf c) 0 req_len)) (\<lambda>payload.
     io_bind (attempt (on_part put_session session (uds_send (ho_px h) hdr payload))) (\<lambda>r.
     case r of
       Ok hdr \<Rightarrow> io_ret hdr
     | Err e \<Rightarrow> send_failed (e = Uds_LimitExceeded) req_len
     | Panic \<Rightarrow> io_lift Panic))))"

definition transport_send_request_buf :: "'os host \<Rightarrow> header \<Rightarrow> usize \<Rightarrow> ('os, header) client_io" where
  "transport_send_request_buf h hdr req_len =
     io_bind (of_client rc_shm) (\<lambda>shm.
     case shm of Some ctx \<Rightarrow> shm_send_request h ctx hdr req_len | None \<Rightarrow> uds_send_request h hdr req_len)"

definition receive_deadline :: "'os host \<Rightarrow> u32 \<Rightarrow> ('os, nipc_error, nat option) io" where
  "receive_deadline h timeout_ms =
     (if timeout_ms \<noteq> 0 then io_bind (io_call (px_now (ho_px h))) (\<lambda>now. io_ret (Some (now + unat timeout_ms * 1000000)))
      else io_ret None)"

definition receive_wait_slice_ms :: "'os host \<Rightarrow> nat option \<Rightarrow> ('os, nipc_error, u32) io" where
  "receive_wait_slice_ms h deadline =
     io_bind (io_call (px_abort (ho_px h))) (\<lambda>aborted.
     if aborted then io_err Aborted
     else
       io_bind
         (case deadline of
            Some deadline \<Rightarrow>
              io_bind (io_call (px_now (ho_px h))) (\<lambda>now.
              if now \<ge> deadline then io_err Timeout
              else io_ret (Some (max ((deadline - now) div 1000000) 1)))
          | None \<Rightarrow> io_ret None) (\<lambda>wait_ms.
       io_ret (word_of_nat
         (min (case wait_ms of None \<Rightarrow> unat CLIENT_ABORT_POLL_MS | Some ms \<Rightarrow> min ms (unat CLIENT_ABORT_POLL_MS)) U32_MAX))))"

text \<open>One slice of the wait; \<open>None\<close> when it passed without a message.\<close>

definition receive_shm_slice :: "'os host \<Rightarrow> bytes \<Rightarrow> nat option \<Rightarrow> ('os shm_st, nipc_error, (usize \<times> bytes) option) io" where
  "receive_shm_slice h scratch deadline =
     io_bind (io_snd (receive_wait_slice_ms h deadline)) (\<lambda>wait_ms.
     io_bind (attempt (shm_receive (ho_sx h) scratch wait_ms)) (\<lambda>r.
     case r of
       Ok m \<Rightarrow> io_ret (Some m)
     | Err e \<Rightarrow>
         if e = Shm_Timeout then io_ret None
         else if e = Shm_MsgTooLarge then io_err Overflow
         else io_err Truncated
     | Panic \<Rightarrow> io_lift Panic))"

partial_function (option) receive_shm_loop ::
  "'os host \<Rightarrow> bytes \<Rightarrow> nat option \<Rightarrow> 'os shm_st \<Rightarrow> ((nipc_error, usize \<times> bytes) outcome \<times> 'os shm_st) option" where
  "receive_shm_loop h scratch deadline st =
     (case receive_shm_slice h scratch deadline st of
        None \<Rightarrow> None
      | Some (Ok None, st) \<Rightarrow> receive_shm_loop h scratch deadline st
      | Some (Ok (Some m), st) \<Rightarrow> Some (Ok m, st)
      | Some (Err e, st) \<Rightarrow> Some (Err e, st)
      | Some (Panic, st) \<Rightarrow> Some (Panic, st))"

definition receive_posix_shm_with_control :: "'os host \<Rightarrow> bytes \<Rightarrow> u32 \<Rightarrow> ('os shm_st, nipc_error, usize \<times> bytes) io" where
  "receive_posix_shm_with_control h scratch timeout_ms =
     io_bind (io_snd (receive_deadline h timeout_ms)) (\<lambda>deadline.
     receive_shm_loop h scratch deadline)"

fun map_uds_receive_error :: "uds_error \<Rightarrow> nipc_error" where
  "map_uds_receive_error Uds_Timeout = Timeout"
| "map_uds_receive_error Uds_Aborted = Aborted"
| "map_uds_receive_error Uds_LimitExceeded = Overflow"
| "map_uds_receive_error _ = Truncated"

text \<open>The vector after its first \<open>needed\<close> bytes were lent out and came back as \<open>scratch\<close>. After a failed receive the model
  leaves the vector as it was: what the failed receive wrote there is overwritten before it is read again.\<close>

abbreviation return_scratch :: "bytes \<Rightarrow> raw_client \<Rightarrow> raw_client" where
  "return_scratch scratch c \<equiv> c\<lparr>rc_transport_buf := upd (rc_transport_buf c) 0 scratch\<rparr>"

definition shm_receive_response :: "'os host \<Rightarrow> shm_context \<Rightarrow> bytes \<Rightarrow> u32 \<Rightarrow> ('os, header \<times> response_ref) client_io" where
  "shm_receive_response h ctx scratch timeout_ms =
     io_bind (on_part put_shm ctx (receive_posix_shm_with_control h scratch timeout_ms)) (\<lambda>(mlen, scratch).
     io_bind (on_client (return_scratch scratch)) (\<lambda>_.
     if mlen < HEADER_SIZE then io_err Truncated
     else
       io_bind (io_lift (slice_rng scratch 0 mlen)) (\<lambda>msg.
       io_bind (io_lift (header_decode msg)) (\<lambda>hdr.
       io_ret (hdr, \<lparr>rr_source = TransportBuf, rr_len = mlen - HEADER_SIZE\<rparr>)))))"

definition uds_receive_response :: "'os host \<Rightarrow> bytes \<Rightarrow> u32 \<Rightarrow> ('os, header \<times> response_ref) client_io" where
  "uds_receive_response h scratch timeout_ms =
     io_bind (of_client rc_session) (\<lambda>session.
     io_bind (io_lift (ok_or session Truncated)) (\<lambda>session.
     io_bind (attempt (on_part put_session session (uds_receive_with_control (ho_px h) scratch timeout_ms True))) (\<lambda>r.
     io_bind (io_lift (map_err map_uds_receive_error r)) (\<lambda>rcv.
     io_bind (on_client (return_scratch (rcv_buf rcv))) (\<lambda>_.
     io_ret (rcv_hdr rcv,
       \<lparr>rr_source = if rcv_in_session rcv then SessionBuf else TransportBuf, rr_len = length (rcv_payload rcv)\<rparr>))))))"

definition transport_receive :: "'os host \<Rightarrow> u32 \<Rightarrow> ('os, header \<times> response_ref) client_io" where
  "transport_receive h timeout_ms =
     io_bind (of_client max_receive_message_bytes) (\<lambda>needed.
     io_bind (on_client (\<lambda>c. c\<lparr>rc_transport_buf := ensure_client_scratch (rc_transport_buf c) needed\<rparr>)) (\<lambda>_.
     io_bind (of_client (\<lambda>c. take needed (rc_transport_buf c))) (\<lambda>scratch.
     io_bind (of_client rc_shm) (\<lambda>shm.
     case shm of
       Some ctx \<Rightarrow> shm_receive_response h ctx scratch timeout_ms
     | None \<Rightarrow> uds_receive_response h scratch timeout_ms))))"

definition response_payload :: "raw_client \<Rightarrow> response_ref \<Rightarrow> bytes result" where
  "response_payload c response =
     (case rr_source response of
        TransportBuf \<Rightarrow>
          if HEADER_SIZE + rr_len response > length (rc_transport_buf c) then Err Truncated
          else slice_rng (rc_transport_buf c) HEADER_SIZE (HEADER_SIZE + rr_len response)
      | SessionBuf \<Rightarrow> rbind (ok_or (rc_session c) Truncated) (\<lambda>session. received_payload session (rr_len response)))"

definition saturating_mul_2 :: "u32 \<Rightarrow> u32" where
  "saturating_mul_2 v = (if 2 * unat v < 2 ^ 32 then 2 * v else -1)"

definition do_raw_call :: "'os host \<Rightarrow> u16 \<Rightarrow> usize \<Rightarrow> raw_call_kind \<Rightarrow> u32 \<Rightarrow> ('os, response_ref) client_io" where
  "do_raw_call h method_code req_len call timeout_ms =
     io_bind (abort_requested h) (\<lambda>aborted.
     if aborted then io_err Aborted
     else
       io_bind (of_client rc_call_count) (\<lambda>call_count.
       let hdr = header_default\<lparr>hdr_kind := KIND_REQUEST, hdr_code := method_code, hdr_flags := ck_flags call,
                   hdr_item_count := ck_item_count call, hdr_message_id := ucast call_count + 1,
                   hdr_transport_status := STATUS_OK\<rparr> in
       io_bind (transport_send_request_buf h hdr req_len) (\<lambda>hdr.
       io_bind (transport_receive h timeout_ms) (\<lambda>(resp_hdr, response).
       if hdr_kind resp_hdr \<noteq> KIND_RESPONSE then io_err BadKind
       else if hdr_code resp_hdr \<noteq> method_code then io_err BadLayout
       else if hdr_message_id resp_hdr \<noteq> hdr_message_id hdr then io_err BadLayout
       else if hdr_transport_status resp_hdr = STATUS_LIMIT_EXCEEDED then
         io_bind (of_client session_max_response_payload_bytes) (\<lambda>current.
         io_bind (if current > 0 then on_client (client_note_response_capacity (saturating_mul_2 current)) else io_ret ()) (\<lambda>_.
         io_err Overflow))
       else if hdr_transport_status resp_hdr \<noteq> STATUS_OK then io_err BadLayout
       else if ck_check_item_count call \<and> hdr_item_count resp_hdr \<noteq> ck_item_count call then io_err BadItemCount
       else io_ret response))))"

section \<open>A call with its retries\<close>

abbreviation count_call :: "response_ref \<Rightarrow> ('os, response_ref) client_io" where
  "count_call payload \<equiv> io_bind (on_client (\<lambda>c. c\<lparr>rc_call_count := rc_call_count c + 1\<rparr>)) (\<lambda>_. io_ret payload)"

abbreviation count_reconnect :: "('os, unit) client_io" where
  "count_reconnect \<equiv> on_client (\<lambda>c. c\<lparr>rc_reconnect_count := rc_reconnect_count c + 1\<rparr>)"

text \<open>After an error other than a timeout, an abort or an overflow: one reconnect and one more attempt.\<close>

definition retry_once :: "'os host \<Rightarrow> u16 \<Rightarrow> usize \<Rightarrow> raw_call_kind \<Rightarrow> u32 \<Rightarrow> nipc_error \<Rightarrow> ('os, response_ref) client_io" where
  "retry_once h method_code req_len call timeout_ms first_err =
     io_bind (reconnect h) (\<lambda>state.
     if state \<noteq> Cs_Ready then fail_counted first_err
     else
       io_bind count_reconnect (\<lambda>_.
       io_bind (attempt (do_raw_call h method_code req_len call timeout_ms)) (\<lambda>r.
       case r of
         Ok payload \<Rightarrow> count_call payload
       | Err retry_err \<Rightarrow> fail_broken h retry_err
       | Panic \<Rightarrow> io_lift Panic)))"

text \<open>The limits of the session and of the configuration, before and after a reconnect.\<close>

definition payload_limits :: "raw_client \<Rightarrow> u32 list" where
  "payload_limits c =
     [session_max_request_payload_bytes c, session_max_response_payload_bytes c,
      cc_max_request_payload_bytes (rc_transport_config c), cc_max_response_payload_bytes (rc_transport_config c)]"

text \<open>After an overflow: a reconnect, given up unless a limit has grown.\<close>

definition grow_once :: "'os host \<Rightarrow> u32 list \<Rightarrow> nipc_error \<Rightarrow> ('os, unit) client_io" where
  "grow_once h prev first_err =
     io_bind (reconnect h) (\<lambda>state.
     if state \<noteq> Cs_Ready then fail_counted first_err
     else
       io_bind count_reconnect (\<lambda>_.
       io_bind (of_client payload_limits) (\<lambda>limits.
       if list_all2 (\<le>) limits prev then fail_broken h first_err else io_ret ())))"

text \<open>The counter starts at zero and stops the loop at eight; it also stops when started at its maximum, where it wraps.\<close>

lemma retry_step:
  assumes "\<not> 8 \<le> (r :: u32) + 1"
  shows "(if r + 1 = -1 then 9 else 8 - unat (r + 1)) < (if r = -1 then 9 else 8 - unat r)"
proof (cases "r = -1")
  case False
  then have "unat (r + 1) \<noteq> 0" by (simp add: unat_eq_0 eq_neg_iff_add_eq_0)
  then have "unat r \<noteq> 4294967295" by (auto simp: unat_word_ariths)
  then have "unat (r + 1) = Suc (unat r)" using u32_lt [of r] by (simp add: unat_word_ariths)
  moreover have "unat (r + 1) < 8" using assms by (simp add: word_le_nat_alt)
  moreover have "r + 1 \<noteq> -1" using assms by (metis word_order.extremum)
  ultimately show ?thesis using False by simp
qed simp

function raw_call_loop :: "'os host \<Rightarrow> u16 \<Rightarrow> usize \<Rightarrow> raw_call_kind \<Rightarrow> u32 \<Rightarrow> u32 \<Rightarrow> ('os, response_ref) client_io" where
  "raw_call_loop h method_code req_len call timeout_ms overflow_retries =
     io_bind (of_client payload_limits) (\<lambda>prev.
     io_bind (attempt (do_raw_call h method_code req_len call timeout_ms)) (\<lambda>r.
     case r of
       Ok payload \<Rightarrow> count_call payload
     | Err first_err \<Rightarrow>
         if first_err = Timeout \<or> first_err = Aborted then fail_broken h first_err
         else if first_err \<noteq> Overflow then retry_once h method_code req_len call timeout_ms first_err
         else
           io_bind (grow_once h prev first_err) (\<lambda>_.
           if overflow_retries + 1 \<ge> 8 then fail_broken h first_err
           else raw_call_loop h method_code req_len call timeout_ms (overflow_retries + 1))
     | Panic \<Rightarrow> io_lift Panic))"
  by pat_completeness auto

termination
  by (relation "measure (\<lambda>(h, method_code, req_len, call, timeout_ms, overflow_retries).
        if overflow_retries = -1 then 9 else 8 - unat overflow_retries)")
    (use retry_step in auto)

declare raw_call_loop.simps [simp del]

definition raw_call_with_retry_timeout :: "'os host \<Rightarrow> u16 \<Rightarrow> usize \<Rightarrow> raw_call_kind \<Rightarrow> u32 \<Rightarrow> ('os, response_ref) client_io" where
  "raw_call_with_retry_timeout h method_code req_len call timeout_ms =
     io_bind (of_client id) (\<lambda>c.
     if rc_state c \<noteq> Cs_Ready then fail_counted BadLayout
     else
       io_bind (abort_requested h) (\<lambda>aborted.
       if aborted then fail_broken h Aborted
       else raw_call_loop h method_code req_len call (resolved_call_timeout c timeout_ms) 0))"

section \<open>Every operation of the client\<close>

text \<open>A shared-memory context the client holds is well formed; a ready client has a session.\<close>

definition conn_ok :: "raw_client \<Rightarrow> bool" where
  "conn_ok c \<longleftrightarrow> (case rc_shm c of None \<Rightarrow> True | Some ctx \<Rightarrow> shm_wf ctx)"

definition client_inv :: "raw_client \<Rightarrow> bool" where
  "client_inv c \<longleftrightarrow> conn_ok c \<and> (rc_state c = Cs_Ready \<longrightarrow> rc_session c \<noteq> None)"

text \<open>What the system has to guarantee: \<open>recv\<close> and loads yield what was asked for, and \<open>sockaddr_un\<close> is as \<open>build_socket_path\<close>
  assumes.\<close>

definition host_ok :: "'os host \<Rightarrow> bool" where
  "host_ok h \<longleftrightarrow>
     recv_bounded (ho_px h) \<and> loads_exact (ho_sx h) \<and> sl_sizeof (ho_lay h) = sl_sizeof_family (ho_lay h) + sl_sun_path (ho_lay h)"

text \<open>What a single attempt leaves alone: the request and the counts of calls and errors, the state, and whether there is a
  session.\<close>

type_synonym call_view = "bytes \<times> u32 \<times> u32"

definition call_view :: "raw_client \<Rightarrow> call_view" where
  "call_view c = (rc_request_buf c, rc_call_count c, rc_error_count c)"

definition client_at :: "call_view \<Rightarrow> client_state \<Rightarrow> bool \<Rightarrow> raw_client \<Rightarrow> bool" where
  "client_at view state connected c \<longleftrightarrow>
     conn_ok c \<and> call_view c = view \<and> rc_state c = state \<and> (rc_session c \<noteq> None) = connected"

lemma client_at_simps [simp]:
  "client_at q s b (c\<lparr>rc_send_buf := x\<rparr>) = client_at q s b c" "client_at q s b (c\<lparr>rc_transport_buf := x\<rparr>) = client_at q s b c"
  "client_at q s b (c\<lparr>rc_reconnect_count := n\<rparr>) = client_at q s b c" "client_at q s b (c\<lparr>rc_connect_count := n\<rparr>) = client_at q s b c"
  "client_at q s b (c\<lparr>rc_transport_config := x'\<rparr>) = client_at q s b c"
  "client_at q s b c \<Longrightarrow> client_at q s' b (c\<lparr>rc_state := s'\<rparr>)"
  "client_at q s b c \<Longrightarrow> client_at q s True (c\<lparr>rc_session := Some ss\<rparr>)"
  "client_at q s b c \<Longrightarrow> shm_wf ctx \<Longrightarrow> client_at q s b (c\<lparr>rc_shm := Some ctx\<rparr>)"
  by (auto simp: client_at_def conn_ok_def call_view_def)

lemma client_at_shm: "client_at q s b c \<Longrightarrow> rc_shm c = Some ctx \<Longrightarrow> shm_wf ctx"
  by (simp add: client_at_def conn_ok_def)

lemma client_at_req: "client_at q s b c \<Longrightarrow> rc_request_buf c = fst q"
  by (auto simp: client_at_def call_view_def)

lemma note_capacity_at [simp]:
  "client_at q s b (client_note_request_capacity n c) = client_at q s b c"
  "client_at q s b (client_note_response_capacity n c) = client_at q s b c"
  by (simp_all add: client_note_request_capacity_def client_note_response_capacity_def Let_def)

lemma abort_requested_rule: "prog_rule P (abort_requested h) (\<lambda>_. P) E"
  by (simp add: abort_requested_def prog_rule_def io_posts split: prod.splits)

lemma send_failed_rule: "prog_rule (client_at q s b) (send_failed l n) (\<lambda>_ _. False) (client_at q s b)"
  unfolding send_failed_def by (intro rule_if rule_bind [where R = "\<lambda>_. client_at q s b"] rule_on rule_err) simp_all

lemma shm_send_rule:
  "shm_wf ctx \<Longrightarrow> prog_keeps (client_at q s b) (on_part put_shm ctx (shm_send sx msg))"
  by (rule rule_part [where R = "\<lambda>_. shm_wf" and S = shm_wf])
    (auto intro!: io_post_mono [OF shm_send_post] split: outcome.splits)

lemma uds_send_rule: "prog_keeps (client_at q s True) (on_part put_session session (uds_send px hdr payload))"
  by (rule rule_part [where R = "\<lambda>_ _. True" and S = "\<lambda>_. True"])
    (auto intro!: io_post_mono [OF uds_send_no_panic] split: outcome.splits)

lemma slice_request: "slice_rng (rc_request_buf c) 0 n = (Panic :: bytes result) \<Longrightarrow> client_at q s b c \<Longrightarrow> n \<le> length (fst q) \<Longrightarrow> False"
  by (simp add: slice_rng_def client_at_req split: if_splits)

lemma transport_send_rule:
  assumes "req_len \<le> length (fst q)"
  shows "prog_keeps (client_at q s b) (transport_send_request_buf h hdr req_len)"
proof -
  have shm: "prog_keeps (client_at q s b) (shm_send_request h ctx hdr req_len)" if "shm_wf ctx" for ctx
    unfolding shm_send_request_def Let_def
    apply (intro rule_bind_of rule_if rule_False [OF send_failed_rule] keeps_bind [OF rule_on] rule_bind_lift rule_outcome rule_ret rule_pair
        rule_attempt [OF shm_send_rule [OF that]] header_encode_no_panic)
    apply (use assms in \<open>auto dest: slice_request\<close>)
    done
  have uds: "prog_keeps (client_at q s b) (uds_send_request h hdr req_len)"
  proof (cases b)
    case True
    then show ?thesis
      unfolding uds_send_request_def
      apply (simp only:)
      apply (intro rule_bind_of rule_bind_lift rule_attempt [OF uds_send_rule] rule_outcome rule_ret rule_False [OF send_failed_rule])
      apply (use assms in \<open>auto dest: slice_request\<close>)
      done
  next
    case False
    then show ?thesis by (auto simp: uds_send_request_def prog_rule_def io_posts client_at_def)
  qed
  show ?thesis
    unfolding transport_send_request_buf_def
    by (intro rule_bind_of rule_option shm uds) (erule (1) client_at_shm)
qed

text \<open>What a response refers to can be read, and is no longer than the wire allows.\<close>

definition readable :: "response_ref \<Rightarrow> raw_client \<Rightarrow> bool" where
  "readable resp c \<longleftrightarrow> (\<exists>p. response_payload c resp = Ok p \<and> length p = rr_len resp \<and> rr_len resp < 2 ^ 32)"

lemma readable_simps [simp]:
  "readable r (c\<lparr>rc_call_count := n\<rparr>) = readable r c"
  by (cases "rr_source r") (simp_all add: readable_def response_payload_def)

lemma receive_wait_slice_no_panic: "no_panic_io (receive_wait_slice_ms h d) os"
  unfolding receive_wait_slice_ms_def by (intro no_panic_option no_panic_intros)

lemma receive_shm_slice_post:
  assumes "host_ok h" "shm_wf ctx"
  shows "io_post (receive_shm_slice h scratch d) (ctx, os) (\<lambda>r st. shm_wf (fst st) \<and>
    (case r of Ok (Some (n, buf)) \<Rightarrow> n \<le> length scratch \<and> length buf = length scratch | Panic \<Rightarrow> False | _ \<Rightarrow> True))"
proof -
  have ld: "loads_exact (ho_sx h)" using assms(1) by (simp add: host_ok_def)
  have step: "io_post (io_bind (attempt (shm_receive (ho_sx h) scratch w)) (\<lambda>r.
     case r of Ok m \<Rightarrow> io_ret (Some m)
     | Err e \<Rightarrow> if e = Shm_Timeout then io_ret None else if e = Shm_MsgTooLarge then io_err Overflow else io_err Truncated
     | Panic \<Rightarrow> io_lift Panic)) (ctx, t) (\<lambda>r st. shm_wf (fst st) \<and>
    (case r of Ok (Some (n, buf)) \<Rightarrow> n \<le> length scratch \<and> length buf = length scratch | Panic \<Rightarrow> False | _ \<Rightarrow> True))" for w t
    unfolding io_post_bind [of "attempt _"] attempt_post
    by (rule io_post_mono [OF shm_receive_post [OF ld assms(2)]]) (auto simp: io_posts split: outcome.splits)
  show ?thesis
    unfolding receive_shm_slice_def io_post_bind [of "io_snd _"] io_post_snd
    by (rule io_post_mono [OF receive_wait_slice_no_panic]) (use step assms(2) in \<open>auto split: outcome.splits\<close>)
qed

lemma receive_shm_loop_post:
  assumes "receive_shm_loop h scratch d st = Some y"
  shows "host_ok h \<longrightarrow> shm_wf (fst st) \<longrightarrow> shm_wf (fst (snd y)) \<and>
    (case fst y of Ok (n, buf) \<Rightarrow> n \<le> length scratch \<and> length buf = length scratch | Panic \<Rightarrow> False | _ \<Rightarrow> True)"
proof (rule receive_shm_loop.raw_induct [where P = "\<lambda>h scratch d st y. host_ok h \<longrightarrow> shm_wf (fst st) \<longrightarrow> shm_wf (fst (snd y)) \<and>
      (case fst y of Ok (n, buf) \<Rightarrow> n \<le> length scratch \<and> length buf = length scratch | Panic \<Rightarrow> False | _ \<Rightarrow> True)", OF _ assms], goal_cases)
  case (1 f h scratch d st y)
  show ?case
    using 1(2) receive_shm_slice_post [of h "fst st" scratch d "snd st"] 1(1) [of h scratch d _ y]
    by (auto simp: io_post_def split: option.splits outcome.splits)
qed

definition fits_scratch :: "bytes \<Rightarrow> usize \<times> bytes \<Rightarrow> bool" where
  "fits_scratch scratch m \<longleftrightarrow> fst m \<le> length scratch \<and> length (snd m) = length scratch"

lemma receive_posix_shm_post:
  assumes "host_ok h" "shm_wf ctx"
  shows "io_post (receive_posix_shm_with_control h scratch t) (ctx, os)
    (\<lambda>r st. case r of Ok m \<Rightarrow> shm_wf (fst st) \<and> fits_scratch scratch m | Err e \<Rightarrow> shm_wf (fst st) | Panic \<Rightarrow> False)"
proof -
  have "io_post (receive_shm_loop h scratch d) (ctx, u)
    (\<lambda>r st. case r of Ok m \<Rightarrow> shm_wf (fst st) \<and> fits_scratch scratch m | Err e \<Rightarrow> shm_wf (fst st) | Panic \<Rightarrow> False)"
    for d u
    using receive_shm_loop_post [of h scratch d "(ctx, u)"] assms
    by (auto simp: io_post_def fits_scratch_def split: option.splits outcome.splits)
  then show ?thesis
    using assms(2) by (simp add: receive_posix_shm_with_control_def receive_deadline_def io_posts split: prod.splits)
qed

lemma readable_transport:
  "HEADER_SIZE \<le> mlen \<Longrightarrow> mlen \<le> length (rc_transport_buf c) \<Longrightarrow> mlen < HEADER_SIZE + 2 ^ 32 \<Longrightarrow> readable \<lparr>rr_source = TransportBuf, rr_len = mlen - HEADER_SIZE\<rparr> c"
  by (simp add: readable_def response_payload_def slice_rng_def)

lemma shm_receive_response_rule:
  assumes h: "host_ok h" and wf: "shm_wf ctx" and len: "length scratch \<le> n" "length scratch < HEADER_SIZE + 2 ^ 32"
  shows "prog_rule (\<lambda>c. client_at q s b c \<and> length (rc_transport_buf c) = n) (shm_receive_response h ctx scratch t)
    (\<lambda>(hdr, resp) c. client_at q s b c \<and> readable resp c) (client_at q s b)"
  unfolding shm_receive_response_def
proof (rule rule_bind [where R = "\<lambda>m c. client_at q s b c \<and> length (rc_transport_buf c) = n \<and> fits_scratch scratch m"], goal_cases)
  case 1
  show ?case
    by (rule rule_part [where R = "\<lambda>m ctx. shm_wf ctx \<and> fits_scratch scratch m" and S = shm_wf, OF receive_posix_shm_post [OF h wf]]) simp_all
next
  case (2 p)
  obtain mlen buf where p: "p = (mlen, buf)" by fastforce
  let ?R = "\<lambda>c. client_at q s b c \<and> length (rc_transport_buf c) = n \<and> mlen \<le> length buf \<and> length buf = length scratch"
  have store: "prog_rule (\<lambda>c. client_at q s b c \<and> length (rc_transport_buf c) = n \<and> fits_scratch scratch (mlen, buf))
      (on_client (return_scratch buf)) (\<lambda>_. ?R) (client_at q s b)"
    using len by (intro rule_on) (auto simp: fits_scratch_def)
  show ?case
    unfolding p prod.case
  proof (rule rule_bind [OF store], intro rule_if rule_err, goal_cases)
    case 2
    show ?case
    proof (cases "mlen \<le> length buf")
      case True
      then have "slice_rng buf 0 mlen \<noteq> (Panic :: bytes result)" by (simp add: slice_rng_def)
      then show ?thesis
        using 2 len
        by (intro rule_bind_lift rule_ret header_decode_no_panic) (auto intro: readable_transport)
    qed (simp add: prog_rule_def)
  qed simp
qed

lemma placed_readable:
  assumes "placed k (Ok m) ss" "rc_session c = Some ss" "k \<le> length (rc_transport_buf c)" "length (rcv_payload m) < 2 ^ 32"
  shows "readable \<lparr>rr_source = if rcv_in_session m then SessionBuf else TransportBuf, rr_len = length (rcv_payload m)\<rparr>
    (return_scratch (rcv_buf m) c)"
proof (cases "rcv_in_session m")
  case False
  then have "length (rcv_buf m) = k" "HEADER_SIZE + length (rcv_payload m) \<le> k"
    using assms(1) by (auto simp: placed_def slice_rng_def split: if_splits)
  then show ?thesis using False assms(3,4) by (simp add: readable_def response_payload_def slice_rng_def)
qed (use assms in \<open>auto simp: readable_def response_payload_def received_payload_def placed_def\<close>)

lemma accepted_length: "accepted_post s (Ok m) s' \<Longrightarrow> length (rcv_payload m) < 2 ^ 32"
  using u32_lt [of "hdr_payload_len (rcv_hdr m)"] by (simp add: accepted_post_def message_post_def)

lemma max_receive_bound: "max_receive_message_bytes c < HEADER_SIZE + 2 ^ 32"
proof -
  have "unat (w :: u32) < 4294967296" for w using u32_lt [of w] by simp
  then show ?thesis by (auto simp: max_receive_message_bytes_def Let_def CACHE_RESPONSE_BUF_SIZE_def split: option.splits)
qed

lemma uds_receive_response_rule:
  assumes h: "host_ok h" and len: "length scratch \<le> n"
  shows "prog_rule (\<lambda>c. client_at q s b c \<and> length (rc_transport_buf c) = n) (uds_receive_response h scratch t)
    (\<lambda>(hdr, resp) c. client_at q s b c \<and> readable resp c) (client_at q s b)"
proof (cases b)
  case False
  then show ?thesis by (auto simp: uds_receive_response_def prog_rule_def io_posts client_at_def)
next
  case b: True
  let ?P = "\<lambda>c. client_at q s b c \<and> length (rc_transport_buf c) = n"
  have rb: "recv_bounded (ho_px h)" using h by (simp add: host_ok_def)
  have recv: "prog_rule ?P (on_part put_session session (uds_receive_with_control (ho_px h) scratch t True))
      (\<lambda>m c. ?P c \<and> length (rcv_payload m) < 2 ^ 32 \<and> (\<exists>ss. rc_session c = Some ss \<and> placed (length scratch) (Ok m) ss)) ?P" for session
    by (rule rule_part [where R = "\<lambda>m ss. length (rcv_payload m) < 2 ^ 32 \<and> placed (length scratch) (Ok m) ss" and S = "\<lambda>_. True"])
      (use b in \<open>auto intro!: io_post_mono [OF uds_receive_rule [OF rb]] dest: accepted_length split: outcome.splits\<close>)
  show ?thesis
    unfolding uds_receive_response_def
  proof (intro rule_bind_of rule_bind_lift, rule rule_attempt [OF recv], goal_cases)
    case (1 c session m)
    let ?resp = "\<lparr>rr_source = if rcv_in_session m then SessionBuf else TransportBuf, rr_len = length (rcv_payload m)\<rparr>"
    have "prog_rule (\<lambda>c. ?P c \<and> length (rcv_payload m) < 2 ^ 32 \<and> (\<exists>ss. rc_session c = Some ss \<and> placed (length scratch) (Ok m) ss)) (on_client (return_scratch (rcv_buf m)))
        (\<lambda>_ c. client_at q s b c \<and> readable ?resp c) (client_at q s b)"
      by (rule rule_on, elim conjE exE, intro conjI, simp, rule placed_readable) (use len in auto)
    then show ?case
      unfolding map_err.simps by (intro rule_bind_Ok) (rule rule_bind, assumption, intro rule_ret, simp)
  next
    case (2 c session e)
    then show ?case by (intro rule_bind_lift) auto
  qed (use b in \<open>auto\<close>)
qed

abbreviation answered :: "call_view \<Rightarrow> client_state \<Rightarrow> bool \<Rightarrow> response_ref \<Rightarrow> raw_client \<Rightarrow> bool" where
  "answered q s b resp c \<equiv> client_at q s b c \<and> readable resp c"

lemma transport_receive_rule:
  assumes "host_ok h"
  shows "prog_rule (client_at q s b) (transport_receive h t) (\<lambda>(hdr, resp). answered q s b resp) (client_at q s b)"
  unfolding transport_receive_def
proof (intro rule_bind_of, rule keeps_bind [OF rule_on], simp, rule rule_fix [where g = "\<lambda>c. length (rc_transport_buf c)"],
    intro rule_bind_of rule_option, goal_cases)
  case (1 c a n c' c'')
  then show ?case by (intro uds_receive_response_rule [OF assms]) auto
next
  case (2 c a n c' c'' ctx)
  then show ?case using max_receive_bound [of c] by (intro shm_receive_response_rule [OF assms]) (auto dest: client_at_shm)
qed

lemma do_raw_call_rule:
  assumes "host_ok h" "req_len \<le> length (fst q)"
  shows "prog_rule (client_at q s b) (do_raw_call h code req_len kind t) (answered q s b) (client_at q s b)"
  unfolding do_raw_call_def Let_def
  by (intro keeps_bind [OF abort_requested_rule] rule_if rule_err rule_bind_of keeps_bind [OF transport_send_rule [OF assms(2)]]
      rule_bind [OF transport_receive_rule [OF assms(1)]] rule_pair keeps_bind [OF rule_ret] keeps_bind [OF rule_on] rule_ret
      rule_bind [where R = "\<lambda>_. client_at q s b"] rule_on; simp split: prod.splits)

lemma shm_close_rule: "shm_wf ctx \<Longrightarrow> prog_keeps (client_at q s b) (on_part put_shm ctx (shm_close sx))"
  by (rule rule_part [where R = "\<lambda>_. shm_wf" and S = shm_wf])
    (auto intro!: io_post_mono [OF shm_close_post] split: outcome.splits)

lemma client_at_closed [simp]:
  "client_at q s b c \<Longrightarrow> client_at q s b (c\<lparr>rc_shm := None\<rparr>)" "client_at q s b c \<Longrightarrow> client_at q s False (c\<lparr>rc_session := None\<rparr>)"
  by (auto simp: client_at_def conn_ok_def call_view_def)

lemma disconnect_rule: "prog_rule (client_at q s b) (disconnect h) (\<lambda>_. client_at q s False) E"
  unfolding disconnect_def
proof (intro rule_bind_of, rule rule_bind [where R = "\<lambda>_. client_at q s b"], goal_cases)
  case (1 c)
  show ?case
    by (intro rule_option rule_ret rule_attempt [OF shm_close_rule] rule_on) (use 1 in \<open>auto dest: client_at_shm\<close>)
next
  case (2 c a)
  show ?case by (intro rule_bind_of rule_option rule_ret rule_mod) (auto simp: client_at_def conn_ok_def call_view_def)
qed

section \<open>Connecting and retrying\<close>

lemma attach_retry_post:
  assumes "attach_retry h d n sid deadline os = Some y"
  shows "case fst y of Ok r \<Rightarrow> (\<forall>ctx. r = Some ctx \<longrightarrow> shm_wf ctx) | _ \<Rightarrow> False"
proof (rule attach_retry.raw_induct [where P = "\<lambda>h d n sid deadline os y.
      case fst y of Ok r \<Rightarrow> (\<forall>ctx. r = Some ctx \<longrightarrow> shm_wf ctx) | _ \<Rightarrow> False", OF _ assms], goal_cases)
  case (1 f h d n sid deadline os y)
  show ?case
    using 1(2) client_attach_post [of "ho_sx h" d n sid os] 1(1) [of h d n sid deadline _ y]
    by (auto simp: io_post_def context_post_def split: option.splits outcome.splits prod.splits if_splits)
qed

text \<open>The client with some or no session, and what an attempt to connect makes of it.\<close>

definition held :: "call_view \<Rightarrow> client_state \<Rightarrow> raw_client \<Rightarrow> bool" where
  "held q s c \<longleftrightarrow> (\<exists>b. client_at q s b c)"

definition connects :: "call_view \<Rightarrow> client_state \<Rightarrow> client_state option \<Rightarrow> raw_client \<Rightarrow> bool" where
  "connects q s r c \<longleftrightarrow> (\<exists>b. client_at q s b c \<and> (r = Some Cs_Ready \<longrightarrow> b))"

lemma held_connects:
  "held q s c \<Longrightarrow> connects q s None c" "held q s c \<Longrightarrow> connects q s (Some Cs_Disconnected) c"
  "held q s c \<Longrightarrow> connects q s (Some (state_of_connect_error e)) c"
  by (auto simp: held_def connects_def) (cases e; auto)+

lemma held_session:
  "held q s c \<Longrightarrow> connects q s r (c\<lparr>rc_session := Some ss\<rparr>)"
  "held q s c \<Longrightarrow> shm_wf ctx \<Longrightarrow> connects q s r (c\<lparr>rc_shm := Some ctx, rc_session := Some ss\<rparr>)"
  "held q s c \<Longrightarrow> held q s (c\<lparr>rc_transport_config := cfg\<rparr>)"
  by (auto simp: held_def connects_def client_at_def conn_ok_def call_view_def)

lemma attach_retry_io:
  "io_post (attach_retry h d n sid deadline) os (\<lambda>r _. case r of Ok r \<Rightarrow> (\<forall>ctx. r = Some ctx \<longrightarrow> shm_wf ctx) | _ \<Rightarrow> False)"
  using attach_retry_post [of h d n sid deadline os] by (auto simp: io_post_def split: option.splits)

lemma connect_once_rule:
  assumes "host_ok h"
  shows "prog_rule (held q s) (connect_once h) (connects q s) E"
proof -
  have conn: "prog_keeps (held q s) (io_snd (uds_connect (ho_lay h) (ho_px h) d n cfg))" for d n cfg
    using assms by (intro keeps_snd uds_connect_no_panic) (simp_all add: host_ok_def)
  have now: "prog_rule (held q s) (io_snd (io_call (px_now (ho_px h)))) (\<lambda>_. held q s) E"
    by (simp add: prog_rule_def io_posts split: prod.splits)
  have put: "prog_rule (held q s) (io_bind (on_client f) (\<lambda>_. io_ret r)) (connects q s) E" if "\<And>c. held q s c \<Longrightarrow> connects q s r (f c)" for f r
    by (rule rule_bind [where R = "\<lambda>_. connects q s r"], rule rule_on, erule that, intro rule_ret)
  have drop: "prog_rule (held q s) (io_mod (\<lambda>(c, os). (c, g os))) (\<lambda>_. held q s) E" for g
    by (intro rule_mod) simp
  have cfg: "prog_rule (held q s) (on_client (\<lambda>c. c\<lparr>rc_transport_config := f c\<rparr>)) (\<lambda>_. held q s) E" for f
    by (intro rule_on held_session)
  show ?thesis
    unfolding connect_once_def
    apply (intro rule_bind_of rule_attempt [OF conn])
     apply (simp only: outcome.case)
     apply (intro rule_if rule_bind [OF now] rule_snd_post [OF attach_retry_io] rule_option put rule_bind [OF drop] rule_bind [OF cfg]
        rule_bind_of)
    apply (auto intro!: rule_ret intro: held_connects held_session)
    done
qed

lemma try_connect_post:
  assumes "try_connect h st = Some y"
  shows "host_ok h \<longrightarrow> held q s (fst st) \<longrightarrow> (case fst y of Ok r \<Rightarrow> connects q s (Some r) (fst (snd y)) | _ \<Rightarrow> False)"
proof (rule try_connect.raw_induct [where P = "\<lambda>h st y. host_ok h \<longrightarrow> held q s (fst st) \<longrightarrow>
      (case fst y of Ok r \<Rightarrow> connects q s (Some r) (fst (snd y)) | _ \<Rightarrow> False)", OF _ assms], goal_cases)
  case (1 f h st y)
  have "held q s c" if "connects q s r c" for r c using that by (auto simp: connects_def held_def)
  then show ?case
    using 1(2) connect_once_rule [of h q s "\<lambda>_. False"] 1(1) [of h _ y]
    by (cases st) (fastforce simp: prog_rule_def io_post_def split: option.splits outcome.splits)
qed

abbreviation settled :: "call_view \<Rightarrow> client_state \<Rightarrow> raw_client \<Rightarrow> bool" where
  "settled q s c \<equiv> connects q s (Some s) c"

lemma client_at_state: "client_at q s b c \<Longrightarrow> client_at q s' b (c\<lparr>rc_state := s'\<rparr>)"
  by simp

lemma connect_into_state_rule:
  assumes "host_ok h"
  shows "prog_rule (held q s) (connect_into_state h) (settled q) E"
  unfolding connect_into_state_def
proof (rule rule_bind [where R = "\<lambda>r. connects q s (Some r)"], goal_cases)
  case 1
  show ?case
    using try_connect_post [of h _ _ q s] assms
    by (fastforce simp: prog_rule_def io_post_def split: option.splits outcome.splits)
next
  case (2 r)
  show ?case
    by (intro rule_bind [where R = "\<lambda>_. settled q r"] rule_on rule_ret) (auto simp: connects_def intro: client_at_state)
qed

lemma client_at_held: "client_at q s b c \<Longrightarrow> held q s c"
  by (auto simp: held_def)

lemma settled_at: "settled q Cs_Ready c \<longleftrightarrow> client_at q Cs_Ready True c"
  by (auto simp: connects_def)

lemma rule_held: "(\<And>b. prog_rule (client_at q s b) m Q E) \<Longrightarrow> prog_rule (held q s) m Q E"
  by (auto simp: prog_rule_def held_def)

lemma reconnect_rule:
  assumes "host_ok h"
  shows "prog_rule (held q s) (reconnect h) (settled q) E"
  unfolding reconnect_def
  by (intro rule_held rule_bind [OF disconnect_rule] rule_bind [where R = "\<lambda>_. held q Cs_Broken"] connect_into_state_rule [OF assms] rule_on
      client_at_held client_at_state)

text \<open>A failed call leaves the client with a state other than ready, and one more error.\<close>

fun count_ok :: "call_view \<Rightarrow> call_view" where
  "count_ok (req, calls, errors) = (req, calls + 1, errors)"

fun count_error :: "call_view \<Rightarrow> call_view" where
  "count_error (req, calls, errors) = (req, calls, errors + 1)"

definition call_failed :: "call_view \<Rightarrow> raw_client \<Rightarrow> bool" where
  "call_failed q c \<longleftrightarrow> (\<exists>s. s \<noteq> Cs_Ready \<and> held (count_error q) s c)"

lemma client_at_counts:
  "client_at q s b c \<Longrightarrow> client_at (count_ok q) s b (c\<lparr>rc_call_count := rc_call_count c + 1\<rparr>)"
  "client_at q s b c \<Longrightarrow> client_at (count_error q) s b (c\<lparr>rc_error_count := rc_error_count c + 1\<rparr>)"
  "client_at q s b c \<Longrightarrow> client_at (count_error q) Cs_Broken b (c\<lparr>rc_state := Cs_Broken, rc_error_count := rc_error_count c + 1\<rparr>)"
  by (auto simp: client_at_def conn_ok_def call_view_def)

lemma fail_broken_rule: "prog_rule (held q s) (fail_broken h e) (\<lambda>_ _. False) (call_failed q)"
  unfolding fail_broken_def
  by (intro rule_held rule_bind [OF disconnect_rule] rule_bind [where R = "\<lambda>_. call_failed q"] rule_on rule_err)
    (auto simp: call_failed_def held_def dest: client_at_counts)

lemma fail_counted_rule: "s \<noteq> Cs_Ready \<Longrightarrow> prog_rule (held q s) (fail_counted e) (\<lambda>_ _. False) (call_failed q)"
  unfolding fail_counted_def
  by (intro rule_held rule_bind [where R = "\<lambda>_. call_failed q"] rule_on rule_err)
    (auto simp: call_failed_def held_def dest: client_at_counts)

lemma count_call_rule:
  "prog_rule (answered q Cs_Ready True resp) (count_call resp) (answered (count_ok q) Cs_Ready True) E"
  by (intro rule_bind [where R = "\<lambda>_. answered (count_ok q) Cs_Ready True resp"] rule_on rule_ret) (auto intro: client_at_counts)

lemma ready_held: "prog_rule (held q Cs_Ready) m Q E \<Longrightarrow> prog_rule (client_at q Cs_Ready True) m Q E"
  by (erule rule_conseq) (auto intro: client_at_held)

lemma settled_held: "prog_rule (held q s) m Q E \<Longrightarrow> prog_rule (settled q s) m Q E"
  by (erule rule_conseq) (auto simp: connects_def held_def)

lemma settled_ready: "prog_rule (client_at q Cs_Ready True) m Q E \<Longrightarrow> prog_rule (settled q Cs_Ready) m Q E"
  by (simp add: settled_at)

lemma retry_once_rule:
  assumes h: "host_ok h" and len: "req_len \<le> length (fst q)"
  shows "prog_rule (client_at q Cs_Ready True) (retry_once h code req_len kind t e) (answered (count_ok q) Cs_Ready True) (call_failed q)"
  unfolding retry_once_def
proof (rule ready_held, rule rule_bind [OF reconnect_rule [OF h]], rule rule_if, goal_cases)
  case (1 state)
  then show ?case by (intro rule_False [OF settled_held [OF fail_counted_rule]])
next
  case (2 state)
  then show ?case
    by (simp only: simp_thms, intro settled_ready rule_bind [where R = "\<lambda>_. client_at q Cs_Ready True"] rule_on
        rule_attempt [OF do_raw_call_rule [OF h len]]; simp only: outcome.case client_at_simps)
      (intro count_call_rule rule_False [OF ready_held [OF fail_broken_rule]])+
qed

lemma grow_once_rule:
  assumes h: "host_ok h"
  shows "prog_rule (client_at q Cs_Ready True) (grow_once h prev e) (\<lambda>_. client_at q Cs_Ready True) (call_failed q)"
  unfolding grow_once_def
proof (rule ready_held, rule rule_bind [OF reconnect_rule [OF h]], rule rule_if, goal_cases)
  case (1 state)
  then show ?case by (intro rule_False [OF settled_held [OF fail_counted_rule]])
next
  case (2 state)
  then show ?case
    by (simp only: simp_thms, intro settled_ready rule_bind [where R = "\<lambda>_. client_at q Cs_Ready True"] rule_on rule_bind_of rule_if rule_ret
        rule_False [OF ready_held [OF fail_broken_rule]]; simp only: client_at_simps)
qed

lemma raw_call_loop_rule:
  assumes h: "host_ok h" and len: "req_len \<le> length (fst q)"
  shows "prog_rule (client_at q Cs_Ready True) (raw_call_loop h code req_len kind t n) (answered (count_ok q) Cs_Ready True) (call_failed q)"
  using assms
proof (induction h code req_len kind t n rule: raw_call_loop.induct)
  case (1 h code req_len kind t n)
  show ?case
    unfolding raw_call_loop.simps [of h code req_len kind t n]
  proof (intro rule_bind_of rule_attempt [OF do_raw_call_rule [OF 1(2,3)]], goal_cases)
    case (2 c e)
    show ?case
      unfolding outcome.case
      by (intro rule_if rule_False [OF ready_held [OF fail_broken_rule]] retry_once_rule [OF 1(2,3)] rule_bind [OF grow_once_rule [OF 1(2)]]
          1(1) 1(2,3)) simp_all
  qed (simp only: outcome.case, rule count_call_rule)
qed

section \<open>A client in use\<close>

lemma client_inv_at: "client_inv c \<longleftrightarrow> settled (call_view c) (rc_state c) c"
  by (auto simp: client_inv_def connects_def client_at_def)

lemma connects_inv: "connects q s (Some s) c \<Longrightarrow> client_inv c"
  by (auto simp: client_inv_def connects_def client_at_def)

lemma call_failed_inv: "call_failed q c \<Longrightarrow> client_inv c"
  by (auto simp: call_failed_def held_def client_at_def client_inv_def)

lemma rule_inv: "(\<And>q s. prog_rule (settled q s) m (\<lambda>_. client_inv) client_inv) \<Longrightarrow> prog_keeps client_inv m"
  by (auto simp: prog_rule_def client_inv_at [of "fst _"])

lemma raw_call_rule:
  assumes h: "host_ok h" and len: "req_len \<le> length (fst q)"
  shows "prog_rule (settled q s) (raw_call_with_retry_timeout h code req_len kind t) (answered (count_ok q) Cs_Ready True) (call_failed q)"
  unfolding raw_call_with_retry_timeout_def
proof (intro rule_bind_of rule_if rule_bind [OF abort_requested_rule], goal_cases)
  case (1 c)
  then show ?case by (intro rule_False [OF settled_held [OF fail_counted_rule]]) (auto simp: connects_def client_at_def)
next
  case (2 c)
  show ?case by (intro rule_False [OF settled_held [OF fail_broken_rule]])
next
  case (3 c)
  then have "s = Cs_Ready" by (auto simp: connects_def client_at_def)
  then show ?case by (simp only:) (intro settled_ready raw_call_loop_rule [OF h len])
qed

lemma call_keeps_inv:
  assumes "host_ok h" "req_len \<le> length (rc_request_buf c)" "client_inv c"
    and "raw_call_with_retry_timeout h code req_len kind t (c, os) = Some (r, (c', os'))"
  shows "client_inv c'"
  using prog_ruleD [OF raw_call_rule [OF assms(1), of req_len "call_view c" "rc_state c" code kind t], where c = c and os = os] assms(2-)
  by (auto simp: client_inv_at [of c] io_post_def call_view_def settled_at [symmetric] intro: connects_inv call_failed_inv split: outcome.splits)

lemma close_rule: "prog_keeps client_inv (client_close h)"
  unfolding client_close_def clear_abort_def
proof (rule rule_inv, rule settled_held, intro rule_held rule_bind [OF disconnect_rule] rule_bind [where R = "\<lambda>_. client_inv"] rule_on, goal_cases)
  case (1 q s b c)
  then show ?case by (simp add: client_inv_def client_at_def conn_ok_def)
next
  case (2 q s b)
  then show ?case by (intro keeps_snd no_panic_intros)
qed

lemma client_inv_counts [simp]:
  "client_inv (c\<lparr>rc_connect_count := n\<rparr>) = client_inv c" "client_inv (c\<lparr>rc_reconnect_count := n\<rparr>) = client_inv c"
  "client_inv (c\<lparr>rc_request_buf := buf\<rparr>) = client_inv c" "client_inv (c\<lparr>rc_call_timeout_ms := t\<rparr>) = client_inv c"
  by (simp_all add: client_inv_def conn_ok_def)

lemma connect_counted_rule:
  assumes "host_ok h" "\<And>c. client_inv (f c) = client_inv c"
  shows "prog_rule (held q s) (io_bind (set_state Cs_Connecting) (\<lambda>_. io_bind (connect_into_state h) (\<lambda>state.
    if state = Cs_Ready then on_client f else io_ret ()))) (\<lambda>_. client_inv) client_inv"
  by (intro rule_held rule_bind [where R = "\<lambda>_. held q Cs_Connecting"] rule_bind [OF connect_into_state_rule [OF assms(1)]] rule_on
      rule_if rule_ret) (auto simp: assms(2) intro: client_at_held client_at_state connects_inv)

lemma refresh_rule:
  assumes "host_ok h"
  shows "prog_keeps client_inv (client_refresh h)"
  unfolding client_refresh_def
proof (rule rule_inv, rule rule_bind_of, rule rule_bind [where R = "\<lambda>_. client_inv"], goal_cases)
  case (1 q s c)
  have keep: "prog_rule (settled q s) (io_ret ()) (\<lambda>_. client_inv) client_inv"
    by (intro rule_ret) (erule connects_inv)
  note con = connect_counted_rule [OF assms]
  show ?case
    by (cases "rc_state c"; simp only: client_state.case)
      (intro keep settled_held con rule_held rule_bind [OF disconnect_rule] rule_conseq [OF con] client_at_held client_inv_counts; assumption)+
qed (intro rule_of)

lemma fail_inv_rule:
  "prog_rule (settled q s) (fail_broken h e) Q client_inv" "prog_rule (settled q s) (fail_counted e) Q client_inv"
proof -
  show "prog_rule (settled q s) (fail_broken h e) Q client_inv"
    by (rule rule_False, rule rule_conseq [OF settled_held [OF fail_broken_rule]]) (auto intro: call_failed_inv)
  show "prog_rule (settled q s) (fail_counted e) Q client_inv"
    unfolding fail_counted_def
    by (intro rule_bind [where R = "\<lambda>_. client_inv"] rule_on rule_err) (auto dest!: connects_inv simp: client_inv_def conn_ok_def)
qed

lemma count_reconnect_rule: "prog_rule (settled q s) (count_reconnect) (\<lambda>_. settled q s) E"
  by (intro rule_on) (simp add: connects_def)

lemma ensure_ready_rule: "prog_keeps client_inv (ensure_ready_for_logical_lookup h)"
  unfolding ensure_ready_for_logical_lookup_def
  by (rule rule_inv, intro rule_bind_of rule_if fail_inv_rule rule_bind [OF abort_requested_rule] rule_ret) (erule connects_inv)

lemma ensure_capacity_rule:
  assumes "host_ok h"
  shows "prog_keeps client_inv (ensure_lookup_request_capacity h n)"
  unfolding ensure_lookup_request_capacity_def Let_def
  by (rule rule_inv, intro rule_bind_of rule_if fail_inv_rule rule_bind [OF abort_requested_rule] rule_ret rule_err
      rule_bind [OF settled_held [OF reconnect_rule [OF assms]]] rule_bind [OF count_reconnect_rule];
      (erule connects_inv)?)

text \<open>Clients as their owner uses them, one operation after the other; between operations the system may change in any way.
  The request is encoded into the buffer that \<open>request_scratch\<close> lends out.\<close>

inductive client_reachable :: "'os host \<Rightarrow> raw_client \<Rightarrow> bool" for h where
  reach_new: "client_reachable h (new_bound run_dir name code config)"
| reach_timeout: "client_reachable h c \<Longrightarrow> client_reachable h (set_call_timeout t c)"
| reach_config: "client_reachable h c \<Longrightarrow> client_reachable h (set_lookup_logical_config cfg c)"
| reach_scratch: "client_reachable h c \<Longrightarrow> client_reachable h (request_scratch n c)"
| reach_encode: "client_reachable h c \<Longrightarrow> length buf = length (rc_request_buf c) \<Longrightarrow> client_reachable h (c\<lparr>rc_request_buf := buf\<rparr>)"
| reach_refresh: "client_reachable h c \<Longrightarrow> client_refresh h (c, os) = Some (r0, (c', os')) \<Longrightarrow> client_reachable h c'"
| reach_close: "client_reachable h c \<Longrightarrow> client_close h (c, os) = Some (r1 :: unit result, (c', os')) \<Longrightarrow> client_reachable h c'"
| reach_ensure: "client_reachable h c \<Longrightarrow> ensure_ready_for_logical_lookup h (c, os) = Some (r2, (c', os')) \<Longrightarrow> client_reachable h c'"
| reach_capacity: "client_reachable h c \<Longrightarrow> ensure_lookup_request_capacity h n (c, os) = Some (r3, (c', os')) \<Longrightarrow> client_reachable h c'"
| reach_call: "client_reachable h c \<Longrightarrow> req_len \<le> length (rc_request_buf c) \<Longrightarrow>
    raw_call_with_retry_timeout h code req_len kind t (c, os) = Some (r4, (c', os')) \<Longrightarrow> client_reachable h c'"

lemma keeps_inv_step: "prog_keeps client_inv m \<Longrightarrow> client_inv c \<Longrightarrow> m (c, os) = Some (r, (c', os')) \<Longrightarrow> client_inv c'"
  using prog_ruleD [of client_inv m "\<lambda>_. client_inv" client_inv c os] by (cases r) (simp_all add: io_post_def)

lemma reachable_inv:
  assumes "client_reachable h c" "host_ok h"
  shows "client_inv c"
  using assms(1)
proof induction
  case (reach_new run_dir name code config)
  show ?case by (simp add: client_inv_def conn_ok_def new_bound_def)
next
  case (reach_config c cfg)
  then show ?case by (simp add: set_lookup_logical_config_def Let_def client_inv_def conn_ok_def)
next
  case (reach_refresh c os r c' os')
  then show ?case using keeps_inv_step [OF refresh_rule [OF assms(2)]] by blast
next
  case (reach_close c os r c' os')
  then show ?case by (elim keeps_inv_step [OF close_rule, rotated])
next
  case (reach_ensure c os r c' os')
  then show ?case by (elim keeps_inv_step [OF ensure_ready_rule, rotated])
next
  case (reach_capacity c n os r c' os')
  then show ?case using keeps_inv_step [OF ensure_capacity_rule [OF assms(2)]] by blast
next
  case (reach_call c req_len code kind t os r c' os')
  then show ?case using call_keeps_inv [OF assms(2)] by blast
qed (simp_all add: set_call_timeout_def request_scratch_def)

lemma counted_ok:
  "client_at (count_ok (call_view c)) Cs_Ready True c' \<Longrightarrow>
     rc_request_buf c' = rc_request_buf c \<and> client_inv c' \<and> rc_state c' = Cs_Ready \<and> rc_call_count c' = rc_call_count c + 1 \<and>
     rc_error_count c' = rc_error_count c"
  by (simp add: client_at_def client_inv_def call_view_def)

lemma counted_error:
  "call_failed (call_view c) c' \<Longrightarrow>
     rc_request_buf c' = rc_request_buf c \<and> client_inv c' \<and> rc_state c' \<noteq> Cs_Ready \<and> rc_call_count c' = rc_call_count c \<and>
     rc_error_count c' = rc_error_count c + 1"
  by (auto simp: call_failed_def held_def client_at_def client_inv_def call_view_def)

text \<open>C14: A call on a client in use, over either transport and whatever the server, other threads and the system do, does not
  panic. When it returns a response, the client is ready, one more call is counted, and the buffer the response refers to holds as
  many bytes as it says; when it returns an error, one more error is counted and the client is no longer ready.\<close>

theorem client_call_safe:
  assumes "host_ok h" "client_reachable h c" "req_len \<le> length (rc_request_buf c)"
  shows "io_post (raw_call_with_retry_timeout h code req_len kind t) (c, os) (\<lambda>r (c', _).
    rc_request_buf c' = rc_request_buf c \<and> client_inv c' \<and>
    (case r of
       Ok resp \<Rightarrow>
         rc_state c' = Cs_Ready \<and> rc_call_count c' = rc_call_count c + 1 \<and> rc_error_count c' = rc_error_count c \<and>
         (\<exists>payload. response_payload c' resp = Ok payload \<and> length payload = rr_len resp)
     | Err e \<Rightarrow>
         rc_state c' \<noteq> Cs_Ready \<and> rc_call_count c' = rc_call_count c \<and> rc_error_count c' = rc_error_count c + 1
     | Panic \<Rightarrow> False))"
proof -
  have "settled (call_view c) (rc_state c) c"
    using reachable_inv [OF assms(2,1)] by (simp add: client_inv_at)
  note called = prog_ruleD [OF raw_call_rule this, OF assms(1), of req_len code kind t os]
  show ?thesis
  proof (rule io_post_mono [OF called], goal_cases)
    case 1
    show ?case using assms(3) by (simp add: call_view_def)
  next
    case (2 r st)
    then show ?case
      by (cases st; cases r) (auto dest!: counted_ok counted_error simp: readable_def)
  qed
qed

section \<open>A client against a scripted server\<close>

declare attach_retry.simps [code] try_connect.simps [code] receive_shm_loop.simps [code]

text \<open>A host without shared memory, whose socket delivers the packets its state lists.\<close>

definition wire_sys :: "(bytes list \<times> bytes list) shm_sys" where
  "wire_sys =
     \<lparr>sy_errno = (\<lambda>_. EMFILE),
      sy_open_excl = (\<lambda>_ os. (-1, os)), sy_open_rdwr = (\<lambda>_ os. (-1, os)), sy_open_rdonly = (\<lambda>_ os. (-1, os)),
      sy_fstat = (\<lambda>_ os. ((-1, 0), os)), sy_stat = (\<lambda>_ os. ((-1, 0), os)), sy_ftruncate = (\<lambda>_ _ os. (-1, os)),
      sy_mmap = (\<lambda>_ _ os. (None, os)), sy_munmap = (\<lambda>_ os. os), sy_close = (\<lambda>_ os. os),
      sy_unlink = (\<lambda>_ os. (-1, os)), sy_rmdir = (\<lambda>_ os. (-1, os)), sy_readdir = (\<lambda>_ os. (None, os)),
      sy_kill = (\<lambda>_ os. (0, os)), sy_getpid = (\<lambda>os. (7, os)), sy_clock = (\<lambda>os. ((1, 0), os)),
      sy_futex_wait = (\<lambda>_ _ _ _ os. (0, os)), sy_futex_wake = (\<lambda>_ _ os. os),
      sy_load = (\<lambda>_ _ n os. (replicate n 0, os)), sy_store = (\<lambda>_ _ _ os. os), sy_add64 = (\<lambda>_ _ _ os. os), sy_add32 = (\<lambda>_ _ _ os. os)\<rparr>"

definition wire_host :: "(bytes list \<times> bytes list) host" where
  "wire_host = \<lparr>ho_px = duplex_px, ho_sx = wire_sys, ho_lay = linux_layout, ho_set_abort = (\<lambda>_ os. os), ho_sleep = (\<lambda>_ os. os)\<rparr>"

lemma wire_host_ok: "host_ok wire_host"
  using duplex_px_recv_bounded by (auto simp: host_ok_def wire_host_def linux_layout_def loads_exact_def wire_sys_def)

definition wire_ack :: hello_ack where
  "wire_ack = hello_ack_default\<lparr>ack_layout_version := 1, ack_selected_profile := PROFILE_BASELINE,
     ack_agreed_max_request_payload_bytes := 64, ack_agreed_max_request_batch_items := 1,
     ack_agreed_max_response_payload_bytes := 64, ack_agreed_max_response_batch_items := 1,
     ack_agreed_packet_size := 4096, ack_session_id := 1\<rparr>"

abbreviation wire_new :: raw_client where
  "wire_new \<equiv> new_bound [47, 114] [97] METHOD_CGROUPS_LOOKUP client_config_default"

lemma wire_connect:
  obtains os where "uds_connect linux_layout duplex_px [47, 114] [97] client_config_default ([ack_packet STATUS_OK wire_ack], []) =
    Some (Ok (client_session 3 wire_ack), os)"
proof -
  let ?path = "[47, 114, 47, 97, 46, 115, 111, 99, 107]"
  have hello: "client_send_hello linux_layout duplex_px 3 ?path client_config_default ([ack_packet STATUS_OK wire_ack], []) =
      Some (Ok (), ([ack_packet STATUS_OK wire_ack], [hello_packet client_config_default 212992]))"
    unfolding client_send_hello_def hello_encode_new control_packet_ok
    by (simp add: connect_unix_def sun_path_copy_def Let_def linux_layout_def io_bind_def io_lift_def io_call_def io_ret_def duplex_px_def
        detect_packet_size_def client_config_default_def raw_send_def hello_packet_def HELLO_PAYLOAD_SIZE_def nat_int_add)
  have "hello_ack_valid wire_ack" by (simp add: hello_ack_valid_def wire_ack_def hello_ack_default_def)
  then obtain os where "client_recv_ack duplex_px 3 ([ack_packet STATUS_OK wire_ack], [hello_packet client_config_default 212992]) =
      Some (client_verdict 3 STATUS_OK wire_ack, os)"
    using client_recv_ack_ok [OF duplex_px_end, of "([ack_packet STATUS_OK wire_ack], [hello_packet client_config_default 212992])"
        STATUS_OK wire_ack "[]" 3] by (metis fst_conv)
  moreover have "client_verdict 3 STATUS_OK wire_ack = Ok (client_session 3 wire_ack)"
    by (simp add: client_verdict_def check_ack_status_def wire_ack_def hello_ack_default_def status_defs)
  moreover have "build_socket_path linux_layout [47, 114] [97] = Ok ?path"
    by (simp add: build_socket_path_def validate_service_name_def service_name_char_def linux_layout_def)
  moreover have "px_socket duplex_px = Pair 3" by (simp add: duplex_px_def)
  ultimately show thesis
    using hello by (intro that [of os]) (simp add: uds_connect_def connect_and_handshake_def io_on_err_def io_bind_def io_call_def io_lift_def)
qed

lemma wire_refresh:
  obtains os where "client_refresh wire_host (wire_new, ([ack_packet STATUS_OK wire_ack], [])) =
    Some (Ok True, (wire_new\<lparr>rc_state := Cs_Ready, rc_session := Some (client_session 3 wire_ack), rc_connect_count := 1\<rparr>, os))"
proof -
  obtain os where c: "uds_connect linux_layout duplex_px [47, 114] [97] client_config_default ([ack_packet STATUS_OK wire_ack], []) =
      Some (Ok (client_session 3 wire_ack), os)" using wire_connect .
  let ?c = "wire_new\<lparr>rc_state := Cs_Connecting\<rparr>"
  have "connect_once wire_host (?c, ([ack_packet STATUS_OK wire_ack], [])) =
      Some (Ok (Some Cs_Ready), (?c\<lparr>rc_session := Some (client_session 3 wire_ack)\<rparr>, os))"
    using c by (simp add: connect_once_def io_bind_def io_get_def attempt_def io_snd_def wire_host_def new_bound_def shm_profile_def client_session_def
      wire_ack_def hello_ack_default_def PROFILE_BASELINE_def PROFILE_SHM_HYBRID_def PROFILE_SHM_FUTEX_def io_mod_def io_ret_def)
  then have "try_connect wire_host (?c, ([ack_packet STATUS_OK wire_ack], [])) =
      Some (Ok Cs_Ready, (?c\<lparr>rc_session := Some (client_session 3 wire_ack)\<rparr>, os))"
    by (subst try_connect.simps) simp
  then show thesis
    by (intro that [of os]) (simp add: client_refresh_def connect_into_state_def io_bind_def io_get_def io_mod_def io_ret_def new_bound_def)
qed

theorem client_call_safe_witness:
  "\<exists>c os. client_refresh wire_host (wire_new, ([ack_packet STATUS_OK wire_ack], [])) = Some (Ok True, (c, os)) \<and> rc_state c = Cs_Ready \<and>
     io_post (raw_call_with_retry_timeout wire_host METHOD_CGROUPS_LOOKUP 2 call_kind_single 0) (request_scratch 2 c, os) (\<lambda>r (c', _).
       rc_request_buf c' = rc_request_buf (request_scratch 2 c) \<and> client_inv c' \<and>
       (case r of
          Ok resp \<Rightarrow>
            rc_state c' = Cs_Ready \<and> rc_call_count c' = 1 \<and> rc_error_count c' = 0 \<and>
            (\<exists>payload. response_payload c' resp = Ok payload \<and> length payload = rr_len resp)
        | Err e \<Rightarrow> rc_state c' \<noteq> Cs_Ready \<and> rc_call_count c' = 0 \<and> rc_error_count c' = 1
        | Panic \<Rightarrow> False))"
proof -
  let ?c = "wire_new\<lparr>rc_state := Cs_Ready, rc_session := Some (client_session 3 wire_ack), rc_connect_count := 1\<rparr>"
  obtain os where r: "client_refresh wire_host (wire_new, ([ack_packet STATUS_OK wire_ack], [])) = Some (Ok True, (?c, os))"
    using wire_refresh .
  have reach: "client_reachable wire_host (request_scratch 2 ?c)"
    by (intro reach_scratch reach_refresh [OF reach_new r])
  have "2 \<le> length (rc_request_buf (request_scratch 2 ?c))" by (simp add: request_scratch_def ensure_client_scratch_def new_bound_def)
  note call = client_call_safe [OF wire_host_ok reach this, of METHOD_CGROUPS_LOOKUP call_kind_single 0 os]
  have counts: "rc_call_count (request_scratch 2 ?c) = 0" "rc_error_count (request_scratch 2 ?c) = 0"
    by (simp_all add: request_scratch_def new_bound_def)
  show ?thesis
    by (rule exI [of _ ?c], rule exI [of _ os]) (use r call [unfolded counts add_0] in simp)
qed

end
