(* ===== verification/Lookup_Calls.thy ===== *)
theory Lookup_Calls
  imports Client Cgroups_Lookup Apps_Lookup
begin

text \<open>
  The lookup calls of a client (\<open>service/raw/cgroups_lookup.rs\<close> and \<open>service/raw/apps_lookup.rs\<close>). A logical lookup of any number of
  keys is split into requests that fit the session, and the items of the responses are put together into one response. The two
  calls differ in their codecs and in how the next request is cut; what they share is written once, over a record of the codec.
\<close>

section \<open>Cutting requests\<close>

fun cgroups_lookup_request_loop :: "usize \<Rightarrow> bytes list \<Rightarrow> usize result" where
  "cgroups_lookup_request_loop data [] = Ok data"
| "cgroups_lookup_request_loop data (path # paths) =
     rbind (ok_or (map_option (\<lambda>v. v div 8 * 8) (checked_add data 7)) Overflow) (\<lambda>data.
     rbind (ok_or (Option.bind (checked_add data (length path)) (\<lambda>v. checked_add v 1)) Overflow) (\<lambda>data.
     cgroups_lookup_request_loop data paths))"

definition cgroups_lookup_request_size :: "bytes list \<Rightarrow> usize result" where
  "cgroups_lookup_request_size paths =
     rbind (ok_or (checked_mul (length paths) LOOKUP_DIR_ENTRY_SIZE) Overflow) (\<lambda>dir_size.
     rbind (ok_or (checked_add CGROUPS_LOOKUP_REQ_HDR_SIZE dir_size) Overflow) (\<lambda>data.
     cgroups_lookup_request_loop data paths))"

text \<open>The binary search for the longest prefix that fits; its lower bound starts at one, so that \<open>mid\<close> is never zero.\<close>

function cgroups_lookup_search :: "bytes list \<Rightarrow> usize \<Rightarrow> usize \<Rightarrow> usize \<Rightarrow> usize \<Rightarrow> usize \<Rightarrow> (usize \<times> usize) result" where
  "cgroups_lookup_search paths cap lo hi best_count best_size =
     (if lo \<le> hi then
        let mid = lo + (hi - lo) div 2 in
        rbind (slice_rng paths 0 mid) (\<lambda>prefix.
        rbind (cgroups_lookup_request_size prefix) (\<lambda>sz.
        if sz \<le> cap then cgroups_lookup_search paths cap (mid + 1) hi mid sz
        else if mid = 0 then Panic
        else cgroups_lookup_search paths cap lo (mid - 1) best_count best_size))
      else Ok (best_count, best_size))"
  by pat_completeness auto
termination
  by (relation "measure (\<lambda>(paths, cap, lo, hi, best_count, best_size). hi + 1 - lo)") auto

declare cgroups_lookup_search.simps [simp del]

definition cgroups_lookup_next_request_count :: "bytes list \<Rightarrow> u32 \<Rightarrow> (usize \<times> usize) result" where
  "cgroups_lookup_next_request_count paths max_payload =
     (if paths = [] then rbind (cgroups_lookup_request_size []) (\<lambda>sz. Ok (0, sz))
      else
        let cap = unat (if max_payload = 0 then MAX_PAYLOAD_DEFAULT else max_payload) in
        rbind (cgroups_lookup_search paths cap 1 (length paths) 0 0) (\<lambda>(best_count, best_size).
        if best_count = 0 then Err Overflow else Ok (best_count, best_size)))"

definition cgroups_lookup_oversized_request_item :: "bytes \<Rightarrow> bytes result" where
  "cgroups_lookup_oversized_request_item path =
     rbind (ok_or (checked_add CGROUPS_LOOKUP_RESP_HDR_SIZE LOOKUP_DIR_ENTRY_SIZE) Overflow) (\<lambda>sz.
     rbind (ok_or (map_option (\<lambda>v. v div 8 * 8) (checked_add sz 7)) Overflow) (\<lambda>sz.
     rbind (ok_or (Option.bind (checked_add CGROUPS_LOOKUP_ITEM_HDR_SIZE (length path)) (\<lambda>v. checked_add v 2)) Overflow) (\<lambda>item_size.
     rbind (ok_or (checked_add sz item_size) Overflow) (\<lambda>sz.
     if sz > ISIZE_MAX then Panic
     else
       rbind (cgroups_lookup_builder_new (replicate sz 0) 1 0) (\<lambda>builder.
       rbind (map_err fst (clb_add CGROUP_LOOKUP_OVERSIZED_ITEM 0 path [] [] builder)) (\<lambda>builder.
       rbind (clb_finish builder) (\<lambda>(n, buf).
       rbind (slice_rng buf 0 n) (\<lambda>payload.
       rbind (cgroups_lookup_response_decode payload) (\<lambda>view.
       cgroups_lookup_raw_item view 0)))))))))"

definition apps_lookup_request_size :: "usize \<Rightarrow> usize result" where
  "apps_lookup_request_size n =
     rbind (ok_or (checked_mul n LOOKUP_DIR_ENTRY_SIZE) Overflow) (\<lambda>dir_size.
     rbind (ok_or (checked_mul n APPS_LOOKUP_KEY_SIZE) Overflow) (\<lambda>key_size.
     ok_or (Option.bind (checked_add APPS_LOOKUP_REQ_HDR_SIZE dir_size) (\<lambda>v. checked_add v key_size)) Overflow))"

definition apps_lookup_next_request_count :: "usize \<Rightarrow> u32 \<Rightarrow> (usize \<times> usize) result" where
  "apps_lookup_next_request_count remaining max_payload =
     (if remaining = 0 then rbind (apps_lookup_request_size 0) (\<lambda>sz. Ok (0, sz))
      else
        let cap = unat (if max_payload = 0 then MAX_PAYLOAD_DEFAULT else max_payload) in
        rbind (ok_or (checked_add LOOKUP_DIR_ENTRY_SIZE APPS_LOOKUP_KEY_SIZE) Overflow) (\<lambda>per_item.
        if cap < APPS_LOOKUP_REQ_HDR_SIZE \<or> cap - APPS_LOOKUP_REQ_HDR_SIZE < per_item then Err Overflow
        else
          let max_count = (cap - APPS_LOOKUP_REQ_HDR_SIZE) div per_item in
          if max_count = 0 then Err Overflow
          else
            let n = min remaining max_count in
            rbind (apps_lookup_request_size n) (\<lambda>sz. Ok (n, sz))))"

section \<open>The codec of a lookup\<close>

record ('k, 'v, 'r) lookup_method =
  lm_code :: u16
  lm_hdr_size :: usize
  lm_encode_request :: "'k list \<Rightarrow> bytes \<Rightarrow> (usize \<times> bytes) result"
  lm_decode :: "bytes \<Rightarrow> 'r result"
  lm_generation :: "'r \<Rightarrow> u64"
  lm_item_count :: "'r \<Rightarrow> u32"
  lm_item :: "'r \<Rightarrow> u32 \<Rightarrow> 'v result"
  lm_raw_item :: "'r \<Rightarrow> u32 \<Rightarrow> bytes result"
  lm_matches :: "'v \<Rightarrow> 'k \<Rightarrow> bool result"
  lm_exceeded :: "'v \<Rightarrow> bool"
  lm_encode_raw_response :: "bytes list \<Rightarrow> u64 \<Rightarrow> bytes \<Rightarrow> (usize \<times> bytes) result"

definition cgroups_lookup_method :: "(bytes, cgroups_lookup_item_view, cgroups_lookup_response_view) lookup_method" where
  "cgroups_lookup_method =
     \<lparr>lm_code = METHOD_CGROUPS_LOOKUP, lm_hdr_size = CGROUPS_LOOKUP_RESP_HDR_SIZE, lm_encode_request = encode_cgroups_lookup_request,
      lm_decode = cgroups_lookup_response_decode, lm_generation = clr_generation, lm_item_count = clr_item_count,
      lm_item = cgroups_lookup_response_item, lm_raw_item = cgroups_lookup_raw_item,
      lm_matches = (\<lambda>item expected. rbind (str_view_as_bytes (cli_path item)) (\<lambda>path. Ok (path = expected))),
      lm_exceeded = (\<lambda>item. cli_status item = CGROUP_LOOKUP_PAYLOAD_EXCEEDED),
      lm_encode_raw_response = encode_cgroups_lookup_raw_response\<rparr>"

definition apps_lookup_method :: "(u32, apps_lookup_item_view, apps_lookup_response_view) lookup_method" where
  "apps_lookup_method =
     \<lparr>lm_code = METHOD_APPS_LOOKUP, lm_hdr_size = APPS_LOOKUP_RESP_HDR_SIZE, lm_encode_request = encode_apps_lookup_request,
      lm_decode = apps_lookup_response_decode, lm_generation = alr_generation, lm_item_count = alr_item_count,
      lm_item = apps_lookup_response_item, lm_raw_item = apps_lookup_raw_item,
      lm_matches = (\<lambda>item expected. Ok (ali_pid item = expected)),
      lm_exceeded = (\<lambda>item. ali_status item = PID_LOOKUP_PAYLOAD_EXCEEDED),
      lm_encode_raw_response = encode_apps_lookup_raw_response\<rparr>"

section \<open>One request of a lookup\<close>

text \<open>The variables of the loop: the next key, the items so far, the generation of the first response, the number of requests.\<close>

record lookup_progress =
  lp_start :: usize
  lp_raw_items :: "bytes list"
  lp_generation :: "u64 option"
  lp_subcalls :: u32

definition lookup_progress_new :: lookup_progress where
  "lookup_progress_new = \<lparr>lp_start = 0, lp_raw_items = [], lp_generation = None, lp_subcalls = 0\<rparr>"

text \<open>A pass of the loop ends with the response or goes on to the next request.\<close>

datatype 'r lookup_round = Lr_Done 'r | Lr_More lookup_progress

text \<open>The items of a response, up to the first that is marked as exceeding the payload; its index is returned.\<close>

fun collect_items ::
  "('k, 'v, 'r) lookup_method \<Rightarrow> 'r \<Rightarrow> 'k list \<Rightarrow> nat \<Rightarrow> bytes list \<Rightarrow> (bytes list \<times> nat option) result" where
  "collect_items m view [] i raw_items = Ok (raw_items, None)"
| "collect_items m view (expected # keys) i raw_items =
     rbind (lm_item m view (word_of_nat i)) (\<lambda>item.
     rbind (lm_matches m item expected) (\<lambda>same.
     if \<not> same then Err BadLayout
     else if lm_exceeded m item then Ok (raw_items, Some i)
     else
       rbind (lm_raw_item m view (word_of_nat i)) (\<lambda>raw.
       collect_items m view keys (i + 1) (raw_items @ [raw]))))"

text \<open>From the first exceeded item on, every item is an exceeded one for its key.\<close>

fun check_exceeded :: "('k, 'v, 'r) lookup_method \<Rightarrow> 'r \<Rightarrow> 'k list \<Rightarrow> nat \<Rightarrow> unit result" where
  "check_exceeded m view [] i = Ok ()"
| "check_exceeded m view (expected # keys) i =
     rbind (lm_item m view (word_of_nat i)) (\<lambda>item.
     rbind (lm_matches m item expected) (\<lambda>same.
     if \<not> same \<or> \<not> lm_exceeded m item then Err BadLayout
     else check_exceeded m view keys (i + 1)))"

text \<open>Taking over a response; the flag tells that the server left out a suffix, to be asked for again.\<close>

definition absorb_response ::
  "('k, 'v, 'r) lookup_method \<Rightarrow> 'k list \<Rightarrow> 'r \<Rightarrow> lookup_progress \<Rightarrow> (lookup_progress \<times> bool) result" where
  "absorb_response m req_keys view p =
     (if lp_generation p \<noteq> None \<and> lp_generation p \<noteq> Some (lm_generation m view) then Err BadLayout
      else
        let p = p\<lparr>lp_generation := Some (lm_generation m view)\<rparr> in
        if lm_item_count m view \<noteq> word_of_nat (length req_keys) then Err BadItemCount
        else
          rbind (collect_items m view req_keys 0 (lp_raw_items p)) (\<lambda>(raw_items, payload_exceeded_at).
          let p = p\<lparr>lp_raw_items := raw_items\<rparr> in
          case payload_exceeded_at of
            Some first \<Rightarrow>
              rbind (check_exceeded m view (drop first req_keys) first) (\<lambda>_.
              if first = 0 then Err Overflow else Ok (p\<lparr>lp_start := lp_start p + first\<rparr>, True))
          | None \<Rightarrow> Ok (p\<lparr>lp_start := lp_start p + length req_keys\<rparr>, False)))"

text \<open>\<open>Vec::resize\<close> with zero bytes.\<close>

definition vec_resize :: "bytes \<Rightarrow> usize \<Rightarrow> bytes" where
  "vec_resize buf n = take n buf @ replicate (n - length buf) 0"

definition lookup_assemble ::
  "('k, 'v, 'r) lookup_method \<Rightarrow> 'k list \<Rightarrow> lookup_progress \<Rightarrow> ('os, 'r lookup_round) client_io" where
  "lookup_assemble m keys p =
     (if length (lp_raw_items p) \<noteq> length keys then io_err BadItemCount
      else
        io_bind (io_lift (lookup_raw_response_size (lm_hdr_size m) (length (lp_raw_items p)) (lp_raw_items p))) (\<lambda>final_size.
        io_bind (of_client rc_max_logical_lookup_response_bytes) (\<lambda>max_bytes.
        if final_size > unat max_bytes then io_err Overflow
        else
          io_bind (on_client (\<lambda>c. c\<lparr>rc_transport_buf := vec_resize (rc_transport_buf c) final_size\<rparr>)) (\<lambda>_.
          io_bind (of_client (\<lambda>c. take final_size (rc_transport_buf c))) (\<lambda>buf.
          io_bind (io_lift (lm_encode_raw_response m (lp_raw_items p) (case lp_generation p of None \<Rightarrow> 0 | Some g \<Rightarrow> g) buf)) (\<lambda>(n, buf).
          io_bind (on_client (\<lambda>c. c\<lparr>rc_transport_buf := upd (rc_transport_buf c) 0 buf\<rparr>)) (\<lambda>_.
          io_bind (of_client (\<lambda>c. slice_rng (rc_transport_buf c) 0 n)) (\<lambda>payload.
          io_bind (io_lift payload) (\<lambda>payload.
          io_bind (io_lift (lm_decode m payload)) (\<lambda>view.
          io_ret (Lr_Done view)))))))))))"

definition lookup_subcall ::
  "('k, 'v, 'r) lookup_method \<Rightarrow> 'os host \<Rightarrow> 'k list \<Rightarrow> nat \<Rightarrow> lookup_progress \<Rightarrow> usize \<Rightarrow> usize \<Rightarrow> ('os, 'r lookup_round) client_io" where
  "lookup_subcall m h keys deadline p req_count req_size =
     io_bind (io_lift (slice_rng keys (lp_start p) (lp_start p + req_count))) (\<lambda>req_keys.
     io_bind (on_client (request_scratch req_size)) (\<lambda>_.
     io_bind (of_client (\<lambda>c. take req_size (rc_request_buf c))) (\<lambda>req_buf.
     io_bind (io_lift (lm_encode_request m req_keys req_buf)) (\<lambda>(req_len, req_buf).
     io_bind (on_client (\<lambda>c. c\<lparr>rc_request_buf := upd (rc_request_buf c) 0 req_buf\<rparr>)) (\<lambda>_.
     io_bind (lookup_remaining_timeout h deadline) (\<lambda>remaining_timeout.
     let p = p\<lparr>lp_subcalls := lp_subcalls p + 1\<rparr> in
     io_bind (of_client rc_max_logical_lookup_subcalls) (\<lambda>max_subcalls.
     if lp_subcalls p > max_subcalls then io_err Overflow
     else
       io_bind (raw_call_with_retry_timeout h (lm_code m) req_len call_kind_single remaining_timeout) (\<lambda>response.
       io_bind (of_client (\<lambda>c. response_payload c response)) (\<lambda>payload.
       io_bind (io_lift payload) (\<lambda>payload.
       io_bind (io_lift (lm_decode m payload)) (\<lambda>view.
       io_bind (io_lift (absorb_response m req_keys view p)) (\<lambda>(p, left_out).
       if left_out \<or> lp_start p < length keys then io_ret (Lr_More p)
       else lookup_assemble m keys p))))))))))))"

section \<open>The calls\<close>

definition cgroups_lookup_pass :: "'os host \<Rightarrow> bytes list \<Rightarrow> nat \<Rightarrow> lookup_progress \<Rightarrow> ('os, cgroups_lookup_response_view lookup_round) client_io" where
  "cgroups_lookup_pass h paths deadline p =
     io_bind (of_client session_max_request_payload_bytes) (\<lambda>max_payload.
     case cgroups_lookup_next_request_count (drop (lp_start p) paths) max_payload of
       Ok (req_count, req_size) \<Rightarrow> lookup_subcall cgroups_lookup_method h paths deadline p req_count req_size
     | Err err \<Rightarrow>
         if err = Overflow \<and> lp_start p < length paths then
           io_bind (io_lift (cgroups_lookup_request_size [paths ! lp_start p])) (\<lambda>one_item_size.
           io_bind (ensure_lookup_request_capacity h one_item_size) (\<lambda>grown.
           if grown then io_ret (Lr_More p)
           else
             io_bind (io_lift (cgroups_lookup_oversized_request_item (paths ! lp_start p))) (\<lambda>item.
             let p = p\<lparr>lp_raw_items := lp_raw_items p @ [item], lp_start := lp_start p + 1\<rparr> in
             if lp_start p < length paths then io_ret (Lr_More p)
             else
               io_bind (of_client session_max_request_payload_bytes) (\<lambda>max_payload.
               io_bind (io_lift (cgroups_lookup_next_request_count (drop (lp_start p) paths) max_payload)) (\<lambda>(req_count, req_size).
               lookup_subcall cgroups_lookup_method h paths deadline p req_count req_size)))))
         else io_err err
     | Panic \<Rightarrow> io_lift Panic)"

definition apps_lookup_pass :: "'os host \<Rightarrow> u32 list \<Rightarrow> nat \<Rightarrow> lookup_progress \<Rightarrow> ('os, apps_lookup_response_view lookup_round) client_io" where
  "apps_lookup_pass h pids deadline p =
     io_bind (of_client session_max_request_payload_bytes) (\<lambda>max_payload.
     case apps_lookup_next_request_count (usize_sub (length pids) (lp_start p)) max_payload of
       Ok (req_count, req_size) \<Rightarrow> lookup_subcall apps_lookup_method h pids deadline p req_count req_size
     | Err err \<Rightarrow>
         if err = Overflow \<and> lp_start p < length pids then
           io_bind (io_lift (apps_lookup_request_size 1)) (\<lambda>one_item_size.
           io_bind (ensure_lookup_request_capacity h one_item_size) (\<lambda>grown.
           if grown then io_ret (Lr_More p) else io_err Overflow))
         else io_err err
     | Panic \<Rightarrow> io_lift Panic)"

partial_function (option) lookup_loop ::
  "(lookup_progress \<Rightarrow> 'os client_st \<Rightarrow> ((nipc_error, 'r lookup_round) outcome \<times> 'os client_st) option) \<Rightarrow> lookup_progress \<Rightarrow>
   'os client_st \<Rightarrow> ((nipc_error, 'r) outcome \<times> 'os client_st) option" where
  "lookup_loop pass p st =
     (case pass p st of
        None \<Rightarrow> None
      | Some (Ok (Lr_More p), st) \<Rightarrow> lookup_loop pass p st
      | Some (Ok (Lr_Done view), st) \<Rightarrow> Some (Ok view, st)
      | Some (Err e, st) \<Rightarrow> Some (Err e, st)
      | Some (Panic, st) \<Rightarrow> Some (Panic, st))"

definition logical_lookup_call ::
  "('k, 'v, 'r) lookup_method \<Rightarrow> 'os host \<Rightarrow> (nat \<Rightarrow> lookup_progress \<Rightarrow> ('os, 'r lookup_round) client_io) \<Rightarrow> 'k list \<Rightarrow> u32 \<Rightarrow>
   ('os, 'r) client_io" where
  "logical_lookup_call m h pass keys timeout_ms =
     io_bind (of_client (\<lambda>c. validate_method c (lm_code m))) (\<lambda>valid.
     io_bind (io_lift valid) (\<lambda>_.
     io_bind (of_client rc_max_logical_lookup_items) (\<lambda>max_items.
     if length keys > unat max_items then io_err Overflow
     else
       io_bind (ensure_ready_for_logical_lookup h) (\<lambda>_.
       io_bind (lookup_deadline h timeout_ms) (\<lambda>deadline.
       lookup_loop (pass deadline) lookup_progress_new)))))"

definition call_cgroups_lookup_with_timeout :: "'os host \<Rightarrow> bytes list \<Rightarrow> u32 \<Rightarrow> ('os, cgroups_lookup_response_view) client_io" where
  "call_cgroups_lookup_with_timeout h paths timeout_ms =
     logical_lookup_call cgroups_lookup_method h (cgroups_lookup_pass h paths) paths timeout_ms"

definition call_apps_lookup_with_timeout :: "'os host \<Rightarrow> u32 list \<Rightarrow> u32 \<Rightarrow> ('os, apps_lookup_response_view) client_io" where
  "call_apps_lookup_with_timeout h pids timeout_ms =
     logical_lookup_call apps_lookup_method h (apps_lookup_pass h pids) pids timeout_ms"

definition new_cgroups_lookup :: "bytes \<Rightarrow> bytes \<Rightarrow> client_config \<Rightarrow> raw_client" where
  "new_cgroups_lookup run_dir service_name config = new_bound run_dir service_name METHOD_CGROUPS_LOOKUP config"

definition new_apps_lookup :: "bytes \<Rightarrow> bytes \<Rightarrow> client_config \<Rightarrow> raw_client" where
  "new_apps_lookup run_dir service_name config = new_bound run_dir service_name METHOD_APPS_LOOKUP config"

definition call_cgroups_lookup :: "'os host \<Rightarrow> bytes list \<Rightarrow> ('os, cgroups_lookup_response_view) client_io" where
  "call_cgroups_lookup h paths = call_cgroups_lookup_with_timeout h paths 0"

definition call_apps_lookup :: "'os host \<Rightarrow> u32 list \<Rightarrow> ('os, apps_lookup_response_view) client_io" where
  "call_apps_lookup h pids = call_apps_lookup_with_timeout h pids 0"

section \<open>The requests that are cut\<close>

text \<open>The size of a request, and of a response put together from raw items, in the reference layout.\<close>

definition request_bytes :: "bytes list \<Rightarrow> nat" where
  "request_bytes paths = 16 + length paths * 8 + length (pack_data (map cl_key paths))"

lemma request_loop_eq:
  assumes "base mod 8 = 0" "base + length (pack_data (map cl_key (ps @ paths))) < 2 ^ 63"
  shows "cgroups_lookup_request_loop (base + length (pack_data (map cl_key ps))) paths =
    Ok (base + length (pack_data (map cl_key (ps @ paths))))"
  using assms(2)
proof (induction paths arbitrary: ps)
  case (Cons p paths)
  let ?d = "base + length (pack_data (map cl_key ps))"
  have le: "base + length (pack_data (map cl_key (ps @ [p]))) < 2 ^ 63"
    using Cons.prems pack_data_step [of "map cl_key (ps @ p # paths)" "map cl_key ps" "cl_key p" "map cl_key paths"]
    by (simp add: length_pack_data_snoc del: pack_data_snoc)
  have al: "(?d + 7) div 8 * 8 = base + al8 (length (pack_data (map cl_key ps)))"
    using al8_add [OF assms(1)] by (simp add: al8_def add.assoc)
  have c: "checked_add ?d 7 = Some (?d + 7)" "Option.bind (checked_add (base + al8 (length (pack_data (map cl_key ps)))) (length p))
      (\<lambda>v. checked_add v 1) = Some (base + length (pack_data (map cl_key (ps @ [p]))))"
    using le al8_ge [of "length (pack_data (map cl_key ps))"]
    by (simp_all add: checked_ok USIZE_MAX_def length_pack_data_snoc del: pack_data_snoc)
  show ?case
    unfolding cgroups_lookup_request_loop.simps c option.map al ok_or.simps rbind.simps using Cons.IH [of "ps @ [p]"] Cons.prems by simp
qed simp

lemma request_size_eq: "request_bytes paths < 2 ^ 63 \<Longrightarrow> cgroups_lookup_request_size paths = Ok (request_bytes paths)"
  using request_loop_eq [of "16 + length paths * 8" "[]" paths]
  by (simp add: cgroups_lookup_request_size_def request_bytes_def cl_sizes checked_ok USIZE_MAX_def)

lemma request_bytes_less: "request_bytes (take n paths) < request_bytes (take (Suc n) paths)" if "n < length paths"
  using that al8_ge [of "length (pack_data (map cl_key (take n paths)))"]
  by (simp add: request_bytes_def take_Suc_conv_app_nth length_pack_data_snoc del: pack_data_snoc)

lemma request_bytes_mono: "n \<le> k \<Longrightarrow> k \<le> length paths \<Longrightarrow> request_bytes (take n paths) \<le> request_bytes (take k paths)"
proof (induction rule: dec_induct)
  case (step k)
  then show ?case using request_bytes_less [of k paths] by simp
qed simp

text \<open>The search returns the longest prefix that fits.\<close>

definition longest_fit :: "bytes list \<Rightarrow> nat \<Rightarrow> nat \<Rightarrow> nat \<Rightarrow> bool" where
  "longest_fit paths cap n sz \<longleftrightarrow> n \<le> length paths \<and> (0 < n \<longrightarrow> sz = request_bytes (take n paths) \<and> sz \<le> cap) \<and>
     (\<forall>k. n < k \<and> k \<le> length paths \<longrightarrow> cap < request_bytes (take k paths))"

lemma search_longest:
  assumes "request_bytes paths < 2 ^ 63" "0 < lo" "lo \<le> hi + 1" "hi \<le> length paths" "best = lo - 1"
    and "0 < best \<longrightarrow> best_size = request_bytes (take best paths) \<and> best_size \<le> cap"
    and "\<And>k. hi < k \<Longrightarrow> k \<le> length paths \<Longrightarrow> cap < request_bytes (take k paths)"
  shows "\<exists>n sz. cgroups_lookup_search paths cap lo hi best best_size = Ok (n, sz) \<and> longest_fit paths cap n sz"
  using assms
proof (induction paths cap lo hi best best_size rule: cgroups_lookup_search.induct)
  case (1 paths cap lo hi best best_size)
  let ?mid = "lo + (hi - lo) div 2"
  show ?case
  proof (cases "lo \<le> hi")
    case True
    then have mid: "lo \<le> ?mid" "?mid \<le> hi" "?mid \<le> length paths" using 1(6) by auto
    have pre: "slice_rng paths 0 ?mid = (Ok (take ?mid paths) :: bytes list result)" using mid by (simp add: slice_rng_def sub_def)
    have sz: "cgroups_lookup_request_size (take ?mid paths) = Ok (request_bytes (take ?mid paths))"
      using request_bytes_mono [of ?mid "length paths" paths] mid 1(3) by (intro request_size_eq) simp
    note step = cgroups_lookup_search.simps [of paths cap lo hi best best_size, unfolded Let_def if_P [OF True] pre sz rbind.simps]
    show ?thesis
    proof (cases "request_bytes (take ?mid paths) \<le> cap")
      case fits: True
      show ?thesis
        unfolding step if_P [OF fits] using 1(3-) mid fits by (intro 1(1) [OF True refl fits]) auto
    next
      case False
      have grow: "cap < request_bytes (take k paths)" if "?mid - 1 < k" "k \<le> length paths" for k
      proof -
        have "?mid \<le> k" using that(1) by linarith
        then show ?thesis using request_bytes_mono [of ?mid k paths] that(2) False by simp
      qed
      have nz: "?mid \<noteq> 0" using mid 1(4) by simp
      show ?thesis
        unfolding step if_not_P [OF False] if_not_P [OF nz] using 1(3-) mid grow by (intro 1(2) [OF True refl False nz]) auto
    qed
  next
    case False
    then have "lo = hi + 1" using 1(5) by simp
    then show ?thesis
      using 1(3-) False by (subst cgroups_lookup_search.simps) (auto simp: longest_fit_def)
  qed
qed

abbreviation request_cap :: "u32 \<Rightarrow> nat" where
  "request_cap max_payload \<equiv> unat (if max_payload = 0 then MAX_PAYLOAD_DEFAULT else max_payload)"

lemma next_request_longest:
  assumes "request_bytes paths < 2 ^ 63" "paths \<noteq> []"
  shows "case cgroups_lookup_next_request_count paths max_payload of
      Ok (n, sz) \<Rightarrow> 0 < n \<and> longest_fit paths (request_cap max_payload) n sz
    | Err e \<Rightarrow> e = Overflow \<and> request_cap max_payload < request_bytes (take 1 paths)
    | Panic \<Rightarrow> False"
proof -
  obtain n sz where s: "cgroups_lookup_search paths (request_cap max_payload) 1 (length paths) 0 0 = Ok (n, sz)"
      "longest_fit paths (request_cap max_payload) n sz"
    using search_longest [of paths 1 "length paths" 0 0 "request_cap max_payload"] assms(1) by auto
  have nx: "cgroups_lookup_next_request_count paths max_payload = (if n = 0 then Err Overflow else Ok (n, sz))"
    unfolding cgroups_lookup_next_request_count_def Let_def if_not_P [OF assms(2)] s(1) by simp
  have "1 \<le> length paths" using assms(2) by (cases paths) simp_all
  then show ?thesis using s(2) unfolding nx by (auto simp: longest_fit_def)
qed

lemma next_request_empty: "cgroups_lookup_next_request_count [] max_payload = Ok (0, 16)"
  by (simp add: cgroups_lookup_next_request_count_def cgroups_lookup_request_size_def cl_sizes checked_ok USIZE_MAX_def)

section \<open>A logical lookup answers every key\<close>

text \<open>What a complete response has: one item per key, in order, for that key and not cut off.\<close>

definition lookup_complete :: "('k, 'v, 'r) lookup_method \<Rightarrow> 'k list \<Rightarrow> 'r \<Rightarrow> bool" where
  "lookup_complete m keys view \<longleftrightarrow> unat (lm_item_count m view) = length keys \<and>
     (\<forall>i < length keys. \<exists>item. lm_item m view (word_of_nat i) = Ok item \<and> lm_matches m item (keys ! i) = Ok True \<and> \<not> lm_exceeded m item)"

lemma length_pack_data_le:
  "(\<And>x. x \<in> set xs \<Longrightarrow> length x < 2 ^ 32) \<Longrightarrow> length (pack_data xs) \<le> length xs * (2 ^ 32 + 7)"
proof (induction xs rule: rev_induct)
  case (snoc x xs)
  have "length x < 2 ^ 32" "length (pack_data xs) \<le> length xs * (2 ^ 32 + 7)" using snoc by simp_all
  then show ?case using al8_le [of "length (pack_data xs)"] by (simp add: length_pack_data_snoc del: pack_data_snoc)
qed (simp add: pack_def)

lemma raw_loop_eq:
  assumes "base mod 8 = 0" "base + length (pack_data (xs @ ys)) < 2 ^ 63"
  shows "lookup_raw_response_loop (base + length (pack_data xs)) ys = Ok (base + length (pack_data (xs @ ys)))"
  using assms(2)
proof (induction ys arbitrary: xs)
  case (Cons y ys)
  have le: "base + length (pack_data (xs @ [y])) < 2 ^ 63"
    using Cons.prems pack_data_step [of "xs @ y # ys" xs y ys] by (simp add: length_pack_data_snoc del: pack_data_snoc)
  have al: "align8 (base + length (pack_data xs)) = base + al8 (length (pack_data xs))"
    using le al8_ge [of "length (pack_data xs)"] al8_add [OF assms(1)]
    by (subst align8_al8) (simp_all add: USIZE_MAX_def length_pack_data_snoc del: pack_data_snoc)
  have c: "checked_add (base + al8 (length (pack_data xs))) (length y) = Some (base + length (pack_data (xs @ [y])))"
    using le by (simp add: checked_ok USIZE_MAX_def length_pack_data_snoc del: pack_data_snoc)
  show ?case
    unfolding lookup_raw_response_loop.simps Let_def al c ok_or.simps rbind.simps using Cons.IH [of "xs @ [y]"] Cons.prems by simp
qed simp

lemma raw_size_eq:
  "16 + length xs * 8 + length (pack_data xs) < 2 ^ 63 \<Longrightarrow>
     lookup_raw_response_size 16 (length xs) xs = Ok (16 + length xs * 8 + length (pack_data xs))"
  using raw_loop_eq [of "16 + length xs * 8" "[]" xs]
  by (simp add: lookup_raw_response_size_def lookup_sizes checked_ok USIZE_MAX_def pack_def)

lemma client_inv_bufs [simp]:
  "client_inv (c\<lparr>rc_transport_buf := buf\<rparr>) = client_inv c" "client_inv (request_scratch n c) = client_inv c"
  by (simp_all add: client_inv_def conn_ok_def request_scratch_def)

lemma raw_call_inv:
  assumes "host_ok h"
  shows "prog_rule (\<lambda>c. client_inv c \<and> n \<le> length (rc_request_buf c)) (raw_call_with_retry_timeout h code n kind t)
    (\<lambda>resp c. client_inv c \<and> readable resp c) client_inv"
  unfolding prog_rule_def
proof (intro allI impI, goal_cases)
  case (1 st)
  let ?c = "fst st"
  have "n \<le> length (fst (call_view ?c))" using 1 by (simp add: call_view_def)
  note rule = raw_call_rule [OF assms this, of "rc_state ?c" code kind t]
  have "settled (call_view ?c) (rc_state ?c) ?c" using 1 by (simp add: client_inv_at)
  from prog_ruleD [OF rule this, of "snd st"] show ?case
    unfolding prod.collapse by (rule io_post_mono) (auto dest: counted_ok counted_error split: outcome.splits)
qed

text \<open>The items so far answer the keys before the next one; \<open>good\<close> relates a raw item to the key it answers.\<close>

definition progressed :: "(bytes \<Rightarrow> 'k \<Rightarrow> bool) \<Rightarrow> 'k list \<Rightarrow> lookup_progress \<Rightarrow> bool" where
  "progressed good keys p \<longleftrightarrow> length (lp_raw_items p) = lp_start p \<and> lp_start p \<le> length keys \<and>
     (\<forall>i < lp_start p. good (lp_raw_items p ! i) (keys ! i))"

lemma progressed_simps [simp]:
  "progressed good keys (p\<lparr>lp_subcalls := n\<rparr>) = progressed good keys p"
  "progressed good keys (p\<lparr>lp_generation := g\<rparr>) = progressed good keys p" "progressed good keys lookup_progress_new"
  by (simp_all add: progressed_def lookup_progress_new_def)

lemma progressed_append:
  assumes "progressed good keys p" "\<forall>j < length xs. good (xs ! j) (keys ! (lp_start p + j))" "lp_start p + length xs \<le> length keys"
  shows "progressed good keys (p\<lparr>lp_raw_items := lp_raw_items p @ xs, lp_start := lp_start p + length xs\<rparr>)"
  unfolding progressed_def
proof (intro conjI allI impI, goal_cases)
  case (3 i)
  then show ?case
    using assms by (cases "i < lp_start p") (auto simp: progressed_def nth_append dest: spec [of _ "i - lp_start p"])
qed (use assms in \<open>auto simp: progressed_def\<close>)

text \<open>What a pass of the loop leaves.\<close>

fun round_ok :: "(bytes \<Rightarrow> 'k \<Rightarrow> bool) \<Rightarrow> ('k, 'v, 'r) lookup_method \<Rightarrow> 'k list \<Rightarrow> 'r lookup_round \<Rightarrow> bool" where
  "round_ok good m keys (Lr_Done view) = lookup_complete m keys view"
| "round_ok good m keys (Lr_More p) = progressed good keys p"

lemma lookup_loop_post:
  assumes "lookup_loop pass p st = Some y"
  shows "(\<forall>p. progressed good keys p \<longrightarrow> prog_rule client_inv (pass p) (\<lambda>r c. client_inv c \<and> round_ok good m keys r) client_inv) \<longrightarrow>
    progressed good keys p \<longrightarrow> client_inv (fst st) \<longrightarrow>
    client_inv (fst (snd y)) \<and> (case fst y of Ok view \<Rightarrow> lookup_complete m keys view | Err e \<Rightarrow> True | Panic \<Rightarrow> False)"
proof (rule lookup_loop.raw_induct [where P = "\<lambda>pass p st y.
    (\<forall>p. progressed good keys p \<longrightarrow> prog_rule client_inv (pass p) (\<lambda>r c. client_inv c \<and> round_ok good m keys r) client_inv) \<longrightarrow>
    progressed good keys p \<longrightarrow> client_inv (fst st) \<longrightarrow>
    client_inv (fst (snd y)) \<and> (case fst y of Ok view \<Rightarrow> lookup_complete m keys view | Err e \<Rightarrow> True | Panic \<Rightarrow> False)", OF _ assms],
    intro impI, goal_cases)
  case (1 f pass p st y)
  have "io_post (pass p) st (\<lambda>r st'. case r of Ok r \<Rightarrow> client_inv (fst st') \<and> round_ok good m keys r | Err e \<Rightarrow> client_inv (fst st') | Panic \<Rightarrow> False)"
    using 1(3,4,5) by (cases st) (auto dest: prog_ruleD)
  moreover obtain r st' where r: "pass p st = Some (r, st')" using 1(2) by (auto split: option.splits)
  ultimately have post: "case r of Ok r \<Rightarrow> client_inv (fst st') \<and> round_ok good m keys r | Err e \<Rightarrow> client_inv (fst st') | Panic \<Rightarrow> False"
    by (simp add: io_post_def)
  show ?case
  proof (cases r)
    case (Ok a)
    then show ?thesis using 1(2) 1(1) [of pass _ st' y, THEN mp, OF _ 1(3)] post r by (cases a) auto
  qed (use 1(2) post r in auto)
qed

lemma lookup_loop_rule:
  assumes "\<And>p. progressed good keys p \<Longrightarrow> prog_rule client_inv (pass p) (\<lambda>r c. client_inv c \<and> round_ok good m keys r) client_inv"
    and "progressed good keys p"
  shows "prog_rule client_inv (lookup_loop pass p) (\<lambda>view c. client_inv c \<and> lookup_complete m keys view) client_inv"
  unfolding prog_rule_def io_post_def
proof (intro allI impI, goal_cases)
  case (1 st)
  show ?case
  proof (cases "lookup_loop pass p st")
    case (Some y)
    have "client_inv (fst (snd y)) \<and> (case fst y of Ok view \<Rightarrow> lookup_complete m keys view | Err e \<Rightarrow> True | Panic \<Rightarrow> False)"
      using assms(1) by (intro lookup_loop_post [THEN mp, THEN mp, THEN mp, OF Some _ assms(2) 1]) blast
    then show ?thesis using Some by (cases y) (auto split: outcome.splits)
  qed simp
qed

locale logical_lookup =
  fixes m :: "('k, 'v, 'r) lookup_method" and good :: "bytes \<Rightarrow> 'k \<Rightarrow> bool"
  assumes hdr_size: "lm_hdr_size m = 16"
    and request_no_panic: "length buf < 2 ^ 32 \<Longrightarrow> lm_encode_request m keys buf \<noteq> Panic"
    and request_fits: "length buf < 2 ^ 32 \<Longrightarrow> lm_encode_request m keys buf = Ok (n, buf') \<Longrightarrow> n \<le> length buf \<and> length buf' = length buf"
    and decode_safe: "length buf < 2 ^ 32 \<Longrightarrow> lm_decode m buf \<noteq> Panic"
    and item_ok: "lm_decode m buf = Ok view \<Longrightarrow> length buf < 2 ^ 32 \<Longrightarrow> unat i < unat (lm_item_count m view) \<Longrightarrow>
      \<exists>x item same. lm_item m view i = Ok item \<and> lm_raw_item m view i = Ok x \<and> lm_matches m item key = Ok same \<and>
        (same \<and> \<not> lm_exceeded m item \<longrightarrow> good x key)"
    and good_length: "good x key \<Longrightarrow> length x < 2 ^ 32"
    and assemble: "length xs = length keys \<Longrightarrow> (\<forall>i < length keys. good (xs ! i) (keys ! i)) \<Longrightarrow> length buf < 2 ^ 32 \<Longrightarrow>
      16 + length xs * 8 + length (pack_data xs) \<le> length buf \<Longrightarrow>
      \<exists>n buf' view. lm_encode_raw_response m xs g buf = Ok (n, buf') \<and> n \<le> length buf \<and> length buf' = length buf \<and>
        lm_decode m (take n buf') = Ok view \<and> lookup_complete m keys view"
begin

lemma collect_items_post:
  assumes "lm_decode m buf = Ok view" "length buf < 2 ^ 32" "i + length ks \<le> unat (lm_item_count m view)"
  shows "case collect_items m view ks i acc of
      Ok (acc', ex) \<Rightarrow> \<exists>xs. acc' = acc @ xs \<and> length xs \<le> length ks \<and> (\<forall>j < length xs. good (xs ! j) (ks ! j)) \<and>
        (case ex of None \<Rightarrow> length xs = length ks | Some f \<Rightarrow> f = i + length xs \<and> length xs < length ks)
    | Err e \<Rightarrow> True | Panic \<Rightarrow> False"
  using assms(3)
proof (induction ks arbitrary: i acc)
  case (Cons key ks)
  have ui: "unat (word_of_nat i :: u32) = i"
    using Cons.prems u32_lt [of "lm_item_count m view"] by simp
  obtain x item same where it: "lm_item m view (word_of_nat i) = Ok item" "lm_raw_item m view (word_of_nat i) = Ok x"
      "lm_matches m item key = Ok same" "same \<and> \<not> lm_exceeded m item \<longrightarrow> good x key"
    using item_ok [OF assms(1,2), of "word_of_nat i" key] Cons.prems ui by auto
  show ?case
  proof (cases "same \<and> \<not> lm_exceeded m item")
    case True
    have step: "collect_items m view (key # ks) i acc = collect_items m view ks (i + 1) (acc @ [x])"
      using it True by simp
    have "case collect_items m view ks (i + 1) (acc @ [x]) of
        Ok (acc', ex) \<Rightarrow> \<exists>xs. acc' = (acc @ [x]) @ xs \<and> length xs \<le> length ks \<and> (\<forall>j < length xs. good (xs ! j) (ks ! j)) \<and>
          (case ex of None \<Rightarrow> length xs = length ks | Some f \<Rightarrow> f = i + 1 + length xs \<and> length xs < length ks)
      | Err e \<Rightarrow> True | Panic \<Rightarrow> False"
      using Cons.prems by (intro Cons.IH) simp
    then show ?thesis
      unfolding step using it(4) True
      by (auto split: outcome.splits option.splits intro!: exI [of _ "x # _"] simp: less_Suc_eq_0_disj)
  next
    case False
    then show ?thesis using it(1-3) by auto
  qed
qed simp

lemma check_exceeded_no_panic:
  assumes "lm_decode m buf = Ok view" "length buf < 2 ^ 32" "i + length ks \<le> unat (lm_item_count m view)"
  shows "check_exceeded m view ks i \<noteq> Panic"
  using assms(3)
proof (induction ks arbitrary: i)
  case (Cons key ks)
  have ui: "unat (word_of_nat i :: u32) = i"
    using Cons.prems u32_lt [of "lm_item_count m view"] by simp
  then show ?case
    using item_ok [OF assms(1,2), of "word_of_nat i" key] Cons.prems Cons.IH [of "i + 1"] by (auto split: if_splits)
qed simp

lemma absorb_response_post:
  assumes "lm_decode m buf = Ok view" "length buf < 2 ^ 32" "length keys < 2 ^ 30" "progressed good keys p"
    and "lp_start p + n \<le> length keys" "req_keys = sub keys (lp_start p) n"
  shows "case absorb_response m req_keys view p of
      Ok (p', left_out) \<Rightarrow> progressed good keys p' \<and> (\<not> left_out \<longrightarrow> lp_start p' = lp_start p + n) | Err e \<Rightarrow> True | Panic \<Rightarrow> False"
proof -
  let ?p = "p\<lparr>lp_generation := Some (lm_generation m view)\<rparr>"
  have len: "length req_keys = n" using assms(5,6) by simp
  have nth: "req_keys ! j = keys ! (lp_start p + j)" if "j < n" for j using that assms(5,6) by (simp add: nth_sub)
  show ?thesis
  proof (cases "lp_generation p \<noteq> None \<and> lp_generation p \<noteq> Some (lm_generation m view) \<or> lm_item_count m view \<noteq> word_of_nat (length req_keys)")
    case True
    then show ?thesis by (auto simp: absorb_response_def Let_def)
  next
    case False
    then have f: "\<not> (lp_generation p \<noteq> None \<and> lp_generation p \<noteq> Some (lm_generation m view))"
        "\<not> lm_item_count m view \<noteq> word_of_nat (length req_keys)" by blast+
    have cnt: "unat (lm_item_count m view) = n" using f(2) len assms(3,5) by simp
    have step: "absorb_response m req_keys view p =
        rbind (collect_items m view req_keys 0 (lp_raw_items ?p)) (\<lambda>(raw_items, payload_exceeded_at).
          case payload_exceeded_at of
            Some first \<Rightarrow>
              rbind (check_exceeded m view (drop first req_keys) first) (\<lambda>_.
              if first = 0 then Err Overflow else Ok (?p\<lparr>lp_raw_items := raw_items, lp_start := lp_start (?p\<lparr>lp_raw_items := raw_items\<rparr>) + first\<rparr>, True))
          | None \<Rightarrow> Ok (?p\<lparr>lp_raw_items := raw_items, lp_start := lp_start (?p\<lparr>lp_raw_items := raw_items\<rparr>) + length req_keys\<rparr>, False))"
      unfolding absorb_response_def Let_def if_not_P [OF f(1)] if_not_P [OF f(2)] ..
    note col = collect_items_post [OF assms(1,2), of 0 req_keys "lp_raw_items ?p", unfolded cnt len add_0, OF order_refl]
    show ?thesis
    proof (cases "collect_items m view req_keys 0 (lp_raw_items ?p)")
      case (Ok a)
      obtain acc ex where a: "a = (acc, ex)" by fastforce
      obtain xs where xs: "acc = lp_raw_items ?p @ xs" "length xs \<le> n" "\<forall>j < length xs. good (xs ! j) (req_keys ! j)"
          "case ex of None \<Rightarrow> length xs = n | Some f \<Rightarrow> f = length xs \<and> length xs < n"
        using col unfolding Ok a outcome.case prod.case by blast
      have "\<forall>j < length xs. good (xs ! j) (keys ! (lp_start ?p + j))" using xs(2,3) nth by simp
      then have prog: "progressed good keys (?p\<lparr>lp_raw_items := acc, lp_start := lp_start p + length xs\<rparr>)"
        using progressed_append [of good keys ?p xs] assms(4,5) xs(1,2) by simp
      show ?thesis
      proof (cases ex)
        case None
        then show ?thesis unfolding step Ok a using prog xs(4) len by simp
      next
        case (Some f)
        then have "check_exceeded m view (drop f req_keys) f \<noteq> Panic"
          using xs(4) len cnt by (intro check_exceeded_no_panic [OF assms(1,2)]) simp
        then show ?thesis
          unfolding step Ok a using prog xs(4) Some by (cases "check_exceeded m view (drop f req_keys) f") auto
      qed
    qed (use col in \<open>simp_all add: step\<close>)
  qed
qed

end

lemma remaining_timeout_rule:
  "(\<And>c. P c \<Longrightarrow> E c) \<Longrightarrow> prog_rule P (lookup_remaining_timeout h deadline) (\<lambda>_. P) E"
  unfolding lookup_remaining_timeout_def
  by (intro rule_bind [OF abort_requested_rule] rule_if rule_err) (simp_all add: prog_rule_def io_posts split: prod.splits)

lemma length_vec_resize [simp]: "length (vec_resize buf n) = n"
  by (simp add: vec_resize_def)

lemma client_inv_request [simp]: "client_inv (c\<lparr>rc_request_buf := buf\<rparr>) = client_inv c"
  by (simp add: client_inv_def conn_ok_def)

context logical_lookup
begin

lemma progressed_size:
  assumes "progressed good keys p" "length keys < 2 ^ 30" "length (lp_raw_items p) = length keys"
  shows "lookup_raw_response_size 16 (length (lp_raw_items p)) (lp_raw_items p) =
    Ok (16 + length (lp_raw_items p) * 8 + length (pack_data (lp_raw_items p)))"
proof (rule raw_size_eq)
  have "length x < 2 ^ 32" if "x \<in> set (lp_raw_items p)" for x
    using that assms(1) good_length by (auto simp: progressed_def in_set_conv_nth)
  then have "length (pack_data (lp_raw_items p)) \<le> length keys * (2 ^ 32 + 7)"
    using length_pack_data_le [of "lp_raw_items p"] assms(3) by simp
  then show "16 + length (lp_raw_items p) * 8 + length (pack_data (lp_raw_items p)) < 2 ^ 63"
    using assms(2,3) by simp
qed

lemma assemble_rule:
  assumes p: "progressed good keys p" and k: "length keys < 2 ^ 30"
  shows "prog_rule client_inv (lookup_assemble m keys p) (\<lambda>r c. client_inv c \<and> round_ok good m keys r) client_inv"
proof (cases "length (lp_raw_items p) = length keys")
  case all: True
  let ?xs = "lp_raw_items p"
  let ?s = "16 + length ?xs * 8 + length (pack_data ?xs)"
  show ?thesis
    unfolding lookup_assemble_def hdr_size progressed_size [OF p k all]
  proof (simp only: all simp_thms if_False, intro rule_bind_Ok rule_bind_of rule_if rule_err, goal_cases)
    case (2 c)
    have s: "?s < 2 ^ 32" using 2(2) u32_lt [of "rc_max_logical_lookup_response_bytes c"] all by simp
    have ok: "\<forall>i < length keys. good (?xs ! i) (keys ! i)" using p all by (simp add: progressed_def)
    show ?case
    proof (rule rule_bind [where R = "\<lambda>_ c. client_inv c \<and> length (rc_transport_buf c) = ?s"], goal_cases)
      case 1
      show ?case by (intro rule_on) (simp add: all)
    next
      case (2 u)
      show ?case
      proof (rule rule_bind_of, goal_cases)
        case (1 c)
        let ?g = "case lp_generation p of None \<Rightarrow> 0 | Some g \<Rightarrow> g"
        obtain n buf' view where e: "lm_encode_raw_response m ?xs ?g (take ?s (rc_transport_buf c)) = Ok (n, buf')" "n \<le> ?s" "length buf' = ?s"
            "lm_decode m (take n buf') = Ok view" "lookup_complete m keys view"
          using assemble [OF all ok, of "take ?s (rc_transport_buf c)" ?g] 1 s by auto
        show ?case
          unfolding all [symmetric] e(1)
        proof (intro rule_bind_Ok, simp only: prod.case, rule rule_bind [where R = "\<lambda>_ c. client_inv c \<and> rc_transport_buf c = buf'"], goal_cases)
          case 1
          show ?case using e(3) by (intro rule_on) (auto simp: upd_def)
        next
          case (2 u)
          show ?case
          proof (rule rule_bind_of, goal_cases)
            case (1 c)
            then have "slice_rng (rc_transport_buf c) 0 n = (Ok (take n buf') :: bytes result)"
              using e(2,3) by (simp add: slice_rng_def sub_def)
            then show ?case using e(4,5) by (auto intro!: rule_bind_Ok rule_ret)
          qed
        qed
      qed
    qed
  qed simp
qed (simp add: lookup_assemble_def prog_rule_def io_posts)

lemma subcall_rule:
  assumes h: "host_ok h" and p: "progressed good keys p" and k: "length keys < 2 ^ 30"
    and n: "lp_start p + n \<le> length keys" and sz: "sz < 2 ^ 32"
  shows "prog_rule client_inv (lookup_subcall m h keys deadline p n sz) (\<lambda>r c. client_inv c \<and> round_ok good m keys r) client_inv"
proof -
  let ?req = "sub keys (lp_start p) n" and ?q = "p\<lparr>lp_subcalls := lp_subcalls p + 1\<rparr>"
  let ?Q = "\<lambda>r c. client_inv c \<and> round_ok good m keys r"
  have sl: "slice_rng keys (lp_start p) (lp_start p + n) = (Ok ?req :: 'k list result)"
    using n by (simp add: slice_rng_def)
  have tail: "prog_rule (\<lambda>c. client_inv c \<and> readable resp c) (io_bind (of_client (\<lambda>c. response_payload c resp)) (\<lambda>payload.
      io_bind (io_lift payload) (\<lambda>payload. io_bind (io_lift (lm_decode m payload)) (\<lambda>view.
      io_bind (io_lift (absorb_response m ?req view ?q)) (\<lambda>(p, left_out).
      if left_out \<or> lp_start p < length keys then io_ret (Lr_More p) else lookup_assemble m keys p))))) ?Q client_inv" for resp
  proof (rule rule_bind_of, goal_cases)
    case (1 c)
    then obtain payload where pl: "response_payload c resp = Ok payload" "length payload < 2 ^ 32" by (auto simp: readable_def)
    show ?case
      unfolding pl(1)
    proof (intro rule_bind_Ok rule_bind_lift rule_pair rule_if decode_safe [OF pl(2)], goal_cases)
      case (1 view a p' left_out)
      then show ?case
        using absorb_response_post [OF 1(1) pl(2) k _ _ refl, of ?q n] p n by (intro rule_ret) auto
    next
      case (2 view a p' left_out)
      then have "progressed good keys p'"
        using absorb_response_post [OF 2(1) pl(2) k _ _ refl, of ?q n] p n by auto
      then show ?case by (intro rule_conseq [OF assemble_rule [OF _ k]]) auto
    next
      case (4 view)
      then show ?case using absorb_response_post [OF 4 pl(2) k _ _ refl, of ?q n] p n by auto
    qed simp_all
  qed
  show ?thesis
    unfolding lookup_subcall_def sl Let_def
  proof (intro rule_bind_Ok, rule rule_bind [where R = "\<lambda>_ c. client_inv c \<and> sz \<le> length (rc_request_buf c)"], goal_cases)
    case 1
    show ?case by (intro rule_on) (auto simp: request_scratch_def ensure_client_scratch_def)
  next
    case (2 u)
    show ?case
    proof (rule rule_bind_of, goal_cases)
      case (1 c)
      let ?b = "take sz (rc_request_buf c)"
      have b: "length ?b < 2 ^ 32" "length ?b = sz" using 1 sz by auto
      show ?case
      proof (intro rule_bind_lift rule_pair request_no_panic [OF b(1)], goal_cases)
        case (1 a req_len req_buf)
        have f: "req_len \<le> sz" "length req_buf = sz" using request_fits [OF b(1), of ?req req_len req_buf] 1 b(2) by auto
        show ?case
        proof (rule rule_bind [where R = "\<lambda>_ c. client_inv c \<and> req_len \<le> length (rc_request_buf c)"], goal_cases)
          case 1
          show ?case using f by (intro rule_on) auto
        next
          case (2 u)
          show ?case
            by (intro rule_bind [OF remaining_timeout_rule] rule_bind_of rule_if rule_err rule_bind [OF raw_call_inv [OF h] tail]) simp_all
        qed
      qed simp
    qed
  qed
qed

end

section \<open>The two lookups\<close>

definition request_post :: "nat \<Rightarrow> (usize \<times> bytes) result \<Rightarrow> bool" where
  "request_post k r \<longleftrightarrow> (case r of Ok (n, buf) \<Rightarrow> n \<le> k \<and> length buf = k | Err e \<Rightarrow> True | Panic \<Rightarrow> False)"

lemma encode_paths_post:
  assumes "length buf < 2 ^ 32" "16 + (i + length paths) * 8 \<le> base" "base \<le> data" "data \<le> length buf"
  shows "request_post (length buf) (encode_cgroups_lookup_paths buf base data i paths)"
  using assms
proof (induction paths arbitrary: buf data i)
  case (Cons p paths)
  let ?o = "al8 data" and ?l = "length p + 1"
  have al: "align8 data = ?o" using Cons.prems(1,4) by (intro align8_al8) (simp add: USIZE_MAX_def)
  have g: "data \<le> ?o" by (rule al8_ge)
  show ?case
  proof (cases "source_string_invalid p True \<or> checked_add (length p) 1 = None \<or> checked_add ?o ?l = None \<or> length buf < ?o + ?l")
    case True
    then show ?thesis
      by (auto simp: request_post_def al Let_def checked_add_def split: if_splits)
  next
    case False
    then have fit: "?o + ?l \<le> length buf" "\<not> source_string_invalid p True" by auto
    let ?b1 = "upd buf data (replicate (?o - data) 0)"
    let ?d1 = "upd ?b1 (16 + i * 8) (u32_to_ne (word_of_nat (?o - base)))"
    let ?d2 = "upd ?d1 (16 + i * 8 + 4) (u32_to_ne (word_of_nat ?l))"
    let ?b3 = "upd (upd ?d2 ?o p) (?o + length p) [0]"
    have hb: "16 + i * 8 + 8 \<le> data" using Cons.prems(2,3) by simp
    have l: "length ?b1 = length buf" "length ?d1 = length buf" "length ?d2 = length buf" "length ?b3 = length buf"
      using fit g hb by simp_all
    have c: "checked_add (length p) 1 = Some ?l" "checked_add ?o ?l = Some (?o + ?l)"
        "checked_u32 (?o - base) = Ok (word_of_nat (?o - base))" "checked_u32 ?l = Ok (word_of_nat ?l)" "usize_sub ?o base = ?o - base"
      using fit Cons.prems(1,3) g by (simp_all add: checked_ok USIZE_MAX_def)
    have f: "(if ?o > data then fill buf data ?o 0 else Ok buf) = (Ok ?b1 :: bytes result)"
      using g fit Cons.prems(4) by (auto simp: fill_ok not_less)
    have w: "put_u32 ?b1 (16 + i * 8) (word_of_nat (?o - base)) = (Ok ?d1 :: bytes result)"
        "put_u32 ?d1 (16 + i * 8 + 4) (word_of_nat ?l) = (Ok ?d2 :: bytes result)"
        "copy_from_slice ?d2 ?o (?o + length p) p = (Ok (upd ?d2 ?o p) :: bytes result)"
        "index_set (upd ?d2 ?o p) (?o + length p) 0 = (Ok ?b3 :: bytes result)"
      using l hb fit Cons.prems(4) by (simp_all add: copy_from_slice_ok index_set_ok)
    have nf: "\<not> ?o + ?l > length buf" using fit by simp
    have "encode_cgroups_lookup_paths buf base data i (p # paths) = encode_cgroups_lookup_paths ?b3 base (?o + ?l) (i + 1) paths"
      unfolding encode_cgroups_lookup_paths.simps if_not_P [OF fit(2)] Let_def al c(1,2) ok_or.simps rbind.simps if_not_P [OF nf] f
        cl_sizes c(3,4,5) w ..
    moreover have "request_post (length ?b3) (encode_cgroups_lookup_paths ?b3 base (?o + ?l) (i + 1) paths)"
      using Cons.prems fit g l by (intro Cons.IH) (simp_all only: l, auto)
    ultimately show ?thesis using l by simp
  qed
qed (simp add: request_post_def)

lemma encode_request_post:
  assumes "length buf < 2 ^ 32"
  shows "request_post (length buf) (encode_cgroups_lookup_request paths buf)"
proof (cases "16 + length paths * 8 \<le> length buf")
  case True
  have c: "checked_mul (length paths) 8 = Some (length paths * 8)" "checked_add 16 (length paths * 8) = Some (16 + length paths * 8)"
      "checked_u32 (length paths) = Ok (word_of_nat (length paths))"
    using True assms by (simp_all add: checked_ok USIZE_MAX_def)
  have "request_post (length buf) (encode_cgroups_lookup_paths buf (16 + length paths * 8) (16 + length paths * 8) 0 paths)"
    using assms True by (intro encode_paths_post) simp_all
  then show ?thesis
    using True by (auto simp: encode_cgroups_lookup_request_def cl_sizes Let_def c request_post_def split: outcome.splits)
qed (auto simp: encode_cgroups_lookup_request_def cl_sizes Let_def request_post_def checked_add_def checked_mul_def)

lemma encode_apps_request_post:
  assumes "length buf < 2 ^ 32"
  shows "request_post (length buf) (encode_apps_lookup_request pids buf)"
proof (cases "16 + length pids * 16 \<le> length buf")
  case True
  then show ?thesis using encode_apps_lookup_request_ok [OF True assms] by (auto simp: request_post_def)
next
  case False
  then have "encode_apps_lookup_request pids buf = Err Overflow"
    by (auto simp: encode_apps_lookup_request_def al_sizes checked_add_def checked_mul_def Let_def)
  then show ?thesis by (simp add: request_post_def)
qed

context lookup_response
begin

lemma raw_assembled:
  assumes len: "length buf < 2 ^ 32" and fit: "16 + length xs * 8 + length (pack_data xs) \<le> length buf"
    and ok: "\<And>x. x \<in> set xs \<Longrightarrow> min_len \<le> length x \<and> (\<exists>w. decode x = Ok w) \<and> validate x = Ok ()"
  shows "\<exists>n buf' v. encode_raw_response buf 16 g xs min_len validate = Ok (n, buf') \<and> n \<le> length buf \<and> length buf' = length buf \<and>
    resp_decode (take n buf') = Ok v \<and> unat (count v) = length xs \<and> (\<forall>i < length xs. item v (word_of_nat i) = decode (xs ! i))"
proof -
  let ?n = "16 + length xs * 8 + length (pack_data xs)"
  obtain buf' where e: "encode_raw_response buf 16 g xs min_len validate = Ok (?n, buf')" "length buf' = length buf"
      "take 16 buf' = lookup_hdr_wire (word_of_nat (length xs)) g" "packed_final buf' 16 xs"
    using encode_raw_response_ok [of xs buf 16 min_len validate g] len fit ok by auto
  let ?b = "take ?n buf'"
  have h: "take 16 ?b = lookup_hdr_wire (word_of_nat (length xs)) g" using e(3) by simp
  have f: "packed_final ?b 16 xs" using e(4) by (intro packed_final_take) simp_all
  have l: "length ?b < 2 ^ 32" using e(2) len by simp
  have u: "unat (word_of_nat (length xs) :: u32) = length xs" using fit len by simp
  note d = final_decode [OF h f l _ refl]
  show ?thesis
    using e(1,2) fit d(1,2) ok view_fields u by (intro exI [of _ ?n] exI [of _ buf'] exI) auto
qed

end

text \<open>A raw item that answers a path, or a pid.\<close>

definition answers_path :: "bytes \<Rightarrow> bytes \<Rightarrow> bool" where
  "answers_path x path \<longleftrightarrow> length x < 2 ^ 32 \<and>
     (\<exists>item. decode_cgroups_item x = Ok item \<and> str_view_as_bytes (cli_path item) = (Ok path :: bytes result) \<and>
        cli_status item \<noteq> CGROUP_LOOKUP_PAYLOAD_EXCEEDED)"

definition answers_pid :: "bytes \<Rightarrow> u32 \<Rightarrow> bool" where
  "answers_pid x pid \<longleftrightarrow> length x < 2 ^ 32 \<and>
     (\<exists>item. decode_apps_item x = Ok item \<and> ali_pid item = pid \<and> ali_status item \<noteq> PID_LOOKUP_PAYLOAD_EXCEEDED)"

lemma u32_ISIZE: "length buf < 2 ^ 32 \<Longrightarrow> length buf \<le> ISIZE_MAX"
  by (simp add: ISIZE_MAX_def)

interpretation cgl: logical_lookup cgroups_lookup_method answers_path
proof (unfold_locales, goal_cases)
  case (2 buf keys)
  then show ?case using encode_request_post [of buf keys] by (auto simp: cgroups_lookup_method_def request_post_def)
next
  case (3 buf keys n buf')
  then show ?case using encode_request_post [of buf keys] by (auto simp: cgroups_lookup_method_def request_post_def)
next
  case (4 buf)
  then show ?case using clresp.resp_decode_ok(1) [OF u32_ISIZE] by (simp add: cgroups_lookup_method_def)
next
  case (5 buf view i key)
  let ?x = "sub buf (16 + unat (clr_item_count view) * 8 + dir_off buf 16 (unat i)) (dir_len buf 16 (unat i))"
  note d = 5(1) [unfolded cgroups_lookup_method_def lookup_method.simps]
  note f = clresp.item_facts [OF d u32_ISIZE [OF 5(2)] _ refl, of i]
  have i: "unat i < unat (clr_item_count view)" using 5(3) by (simp add: cgroups_lookup_method_def)
  obtain item where it: "decode_cgroups_item ?x = Ok item" using f(2) i by blast
  have l: "length ?x < 2 ^ 32" using f(3) [OF i] 5(2) by simp
  have "str_view_ok (cli_path item)" using decode_cgroups_item_readable(1) [OF it u32_ISIZE [OF l]] .
  then show ?case
    using f(1,4) [OF i] it l by (auto simp: cgroups_lookup_method_def answers_path_def str_view_ok_as_bytes)
next
  case (7 xs keys buf g)
  have ok: "28 \<le> length x \<and> (\<exists>w. decode_cgroups_item x = Ok w) \<and> validate_cgroups_lookup_raw_item x = Ok ()" if "x \<in> set xs" for x
    using that 7(1,2) decode_cgroups_item_facts(1) by (fastforce simp: in_set_conv_nth answers_path_def validate_cgroups_lookup_raw_item_def)
  from clresp.raw_assembled [OF 7(3,4) this, of g] obtain n buf' v where r:
      "encode_raw_response buf 16 g xs 28 validate_cgroups_lookup_raw_item = Ok (n, buf')" "n \<le> length buf" "length buf' = length buf"
      "cgroups_lookup_response_decode (take n buf') = Ok v" "unat (clr_item_count v) = length xs"
      "\<forall>i < length xs. cgroups_lookup_response_item v (word_of_nat i) = decode_cgroups_item (xs ! i)" by blast
  then have "lookup_complete cgroups_lookup_method keys v"
    using 7(1,2) by (fastforce simp: lookup_complete_def cgroups_lookup_method_def answers_path_def)
  then show ?case
    using r(1-4) by (auto simp: cgroups_lookup_method_def encode_cgroups_lookup_raw_response_def cl_sizes)
qed (simp_all add: cgroups_lookup_method_def cl_sizes answers_path_def)

interpretation apl: logical_lookup apps_lookup_method answers_pid
proof (unfold_locales, goal_cases)
  case (2 buf keys)
  then show ?case using encode_apps_request_post [of buf keys] by (auto simp: apps_lookup_method_def request_post_def)
next
  case (3 buf keys n buf')
  then show ?case using encode_apps_request_post [of buf keys] by (auto simp: apps_lookup_method_def request_post_def)
next
  case (4 buf)
  then show ?case using alresp.resp_decode_ok(1) [OF u32_ISIZE] by (simp add: apps_lookup_method_def)
next
  case (5 buf view i key)
  let ?x = "sub buf (16 + unat (alr_item_count view) * 8 + dir_off buf 16 (unat i)) (dir_len buf 16 (unat i))"
  note d = 5(1) [unfolded apps_lookup_method_def lookup_method.simps]
  note f = alresp.item_facts [OF d u32_ISIZE [OF 5(2)] _ refl, of i]
  have i: "unat i < unat (alr_item_count view)" using 5(3) by (simp add: apps_lookup_method_def)
  obtain item where it: "decode_apps_item ?x = Ok item" using f(2) i by blast
  have l: "length ?x < 2 ^ 32" using f(3) [OF i] 5(2) by simp
  show ?case
    using f(1,4) [OF i] it l by (auto simp: apps_lookup_method_def answers_pid_def)
next
  case (7 xs keys buf g)
  have ok: "60 \<le> length x \<and> (\<exists>w. decode_apps_item x = Ok w) \<and> validate_apps_lookup_raw_item x = Ok ()" if "x \<in> set xs" for x
    using that 7(1,2) decode_apps_item_facts(1) by (fastforce simp: in_set_conv_nth answers_pid_def validate_apps_lookup_raw_item_def)
  from alresp.raw_assembled [OF 7(3,4) this, of g] obtain n buf' v where r:
      "encode_raw_response buf 16 g xs 60 validate_apps_lookup_raw_item = Ok (n, buf')" "n \<le> length buf" "length buf' = length buf"
      "apps_lookup_response_decode (take n buf') = Ok v" "unat (alr_item_count v) = length xs"
      "\<forall>i < length xs. apps_lookup_response_item v (word_of_nat i) = decode_apps_item (xs ! i)" by blast
  then have "lookup_complete apps_lookup_method keys v"
    using 7(1,2) by (fastforce simp: lookup_complete_def apps_lookup_method_def answers_pid_def)
  then show ?case
    using r(1-4) by (auto simp: apps_lookup_method_def encode_apps_lookup_raw_response_def al_sizes)
qed (simp_all add: apps_lookup_method_def al_sizes answers_pid_def)

lemma clb_add_oversized:
  assumes st: "clb_state cap b []" and b: "\<not> clb_payload_exceeded_suffix b" "clb_max_items b = 1" "clb_data_offset b = 24"
    and cap: "cap = 54 + length path"
  shows "case clb_add CGROUP_LOOKUP_OVERSIZED_ITEM 0 path [] [] b of
      Ok b' \<Rightarrow> cl_path_ok path \<and> clb_state cap b' [cl_degraded CGROUP_LOOKUP_OVERSIZED_ITEM path]
    | Err e \<Rightarrow> True | Panic \<Rightarrow> False"
proof (cases "cl_path_ok path")
  case True
  obtain b' where b': "clb_add_non_known_item CGROUP_LOOKUP_OVERSIZED_ITEM path b = Ok b'"
      "clb_state cap b' [cl_degraded CGROUP_LOOKUP_OVERSIZED_ITEM path]"
    using clb_add_non_known_item_ok [OF st, of path CGROUP_LOOKUP_OVERSIZED_ITEM] b cap by (auto simp: al8_def)
  have "\<not> clb_max_items b \<le> clb_item_count b" using clb_state_facts(4) [OF st] b(2) by simp
  then have "clb_add CGROUP_LOOKUP_OVERSIZED_ITEM 0 path [] [] b = Ok b'"
    using True b(1) b'(1)
    by (simp add: clb_add_def clb_add_with_path_def validate_cgroups_lookup_semantics_def cgroup_status_defs source_string_invalid_def cl_path_ok_def)
  then show ?thesis using True b'(2) by simp
next
  case False
  then show ?thesis
    using b by (auto simp: clb_add_def clb_add_with_path_def validate_cgroups_lookup_semantics_def cgroup_status_defs
        source_string_invalid_def cl_path_ok_def clb_fail_def)
qed

lemma oversized_item_post:
  assumes "length path + 64 < 2 ^ 32"
  shows "case cgroups_lookup_oversized_request_item path of Ok x \<Rightarrow> answers_path x path | Err e \<Rightarrow> True | Panic \<Rightarrow> False"
proof -
  let ?n = "54 + length path" and ?e = "cl_degraded CGROUP_LOOKUP_OVERSIZED_ITEM path"
  obtain b where b: "cgroups_lookup_builder_new (replicate ?n 0) 1 0 = Ok b" "clb_state ?n b []" "clb_max_items b = 1"
      "\<not> clb_payload_exceeded_suffix b" "clb_data_offset b = 24"
    using cgroups_lookup_builder_new_ok [of 1 "replicate ?n 0" 0] assms by auto
  have c: "checked_add 16 8 = Some 24" "checked_add 24 7 = Some 31" "Option.bind (checked_add 28 (length path)) (\<lambda>v. checked_add v 2) = Some (30 + length path)"
      "checked_add 24 (30 + length path) = Some ?n" "\<not> ISIZE_MAX < ?n"
    using assms by (simp_all add: checked_ok USIZE_MAX_def ISIZE_MAX_def)
  have al: "31 div 8 * 8 = (24 :: nat)" by simp
  have eq: "cgroups_lookup_oversized_request_item path =
      rbind (map_err fst (clb_add CGROUP_LOOKUP_OVERSIZED_ITEM 0 path [] [] b)) (\<lambda>builder.
      rbind (clb_finish builder) (\<lambda>(n, buf). rbind (slice_rng buf 0 n) (\<lambda>payload.
      rbind (cgroups_lookup_response_decode payload) (\<lambda>view. cgroups_lookup_raw_item view 0))))"
    unfolding cgroups_lookup_oversized_request_item_def cl_sizes c(1-4) al option.map ok_or.simps rbind.simps if_not_P [OF c(5)] b(1) ..
  note add = clb_add_oversized [OF b(2) b(4,3,5) refl]
  show ?thesis
  proof (cases "clb_add CGROUP_LOOKUP_OVERSIZED_ITEM 0 path [] [] b")
    case (Ok b')
    then have st: "cl_path_ok path" "clb_state ?n b' [?e]" using add by simp_all
    have e: "cl_entry_ok ?e" using st(1) assms by (intro cl_degraded_ok) (simp_all add: cgroup_status_defs)
    obtain n buf' v where f: "clb_finish b' = Ok (n, buf')" "n \<le> ?n" "length buf' = ?n" "cgroups_lookup_response_decode (take n buf') = Ok v"
        "unat (clr_item_count v) = 1" "cgroups_lookup_response_item v 0 = Ok (cl_view ?e)"
      using clb_finish_decodes [OF st(2)] e by auto
    have l: "length (take n buf') < 2 ^ 32" using f(2,3) assms by simp
    note it = clresp.item_facts [OF f(4) u32_ISIZE [OF l] _ refl, of 0]
    let ?x = "sub (take n buf') (16 + unat (clr_item_count v) * 8 + dir_off (take n buf') 16 (unat (0 :: u32))) (dir_len (take n buf') 16 (unat (0 :: u32)))"
    have x: "cgroups_lookup_raw_item v 0 = Ok ?x" "decode_cgroups_item ?x = Ok (cl_view ?e)" "length ?x < 2 ^ 32"
      using it f(5,6) l by auto
    have "answers_path ?x path"
      using x(2,3) assms unfolding answers_path_def
      by (intro conjI exI [of _ "cl_view ?e"]) (simp_all add: cl_view_def cl_degraded_def str_view_as_bytes_def slice_rng_def sub_def cgroup_status_defs)
    then show ?thesis
      using f(1-4) x(1) by (simp add: eq Ok slice_rng_def sub_def)
  qed (use add in \<open>simp_all add: eq\<close>)
qed

section \<open>The passes of the loop\<close>

definition lookup_paths_ok :: "bytes list \<Rightarrow> bool" where
  "lookup_paths_ok paths \<longleftrightarrow> length paths < 2 ^ 30 \<and> (\<forall>p \<in> set paths. length p + 64 < 2 ^ 32)"

lemma lookup_paths_drop: "lookup_paths_ok paths \<Longrightarrow> lookup_paths_ok (drop k paths)"
  by (auto simp: lookup_paths_ok_def dest: in_set_dropD)

lemma lookup_paths_bytes: "lookup_paths_ok paths \<Longrightarrow> request_bytes paths < 2 ^ 63"
  using length_pack_data_le [of "map cl_key paths"] by (fastforce simp: lookup_paths_ok_def request_bytes_def)

lemma request_cap_less: "request_cap max_payload < 2 ^ 32"
  using u32_lt by (simp split: if_splits)

lemma next_request_post:
  assumes "lookup_paths_ok paths"
  shows "case cgroups_lookup_next_request_count paths max_payload of Ok (n, sz) \<Rightarrow> n \<le> length paths \<and> sz < 2 ^ 32 | Err e \<Rightarrow> True | Panic \<Rightarrow> False"
proof (cases "paths = []")
  case False
  have "w < 2 ^ 32" if "w \<le> request_cap max_payload" for w using that request_cap_less [of max_payload] by linarith
  then show ?thesis
    using next_request_longest [OF lookup_paths_bytes [OF assms] False, of max_payload]
    by (auto simp: longest_fit_def split: outcome.splits)
qed (simp add: next_request_empty)

lemma cgroups_pass_rule:
  assumes h: "host_ok h" and ok: "lookup_paths_ok paths" and p: "progressed answers_path paths p"
  shows "prog_rule client_inv (cgroups_lookup_pass h paths deadline p)
    (\<lambda>r c. client_inv c \<and> round_ok answers_path cgroups_lookup_method paths r) client_inv"
proof -
  have k: "length paths < 2 ^ 30" using ok by (simp add: lookup_paths_ok_def)
  have start: "lp_start p \<le> length paths" using p by (simp add: progressed_def)
  have sub: "prog_rule client_inv (lookup_subcall cgroups_lookup_method h paths deadline q n sz)
      (\<lambda>r c. client_inv c \<and> round_ok answers_path cgroups_lookup_method paths r) client_inv"
    if "progressed answers_path paths q" "cgroups_lookup_next_request_count (drop (lp_start q) paths) w = Ok (n, sz)" for q n sz w
    using next_request_post [OF lookup_paths_drop [OF ok, of "lp_start q"], of w] that
    by (intro cgl.subcall_rule [OF h that(1) k]) (auto simp: progressed_def)
  have np: "cgroups_lookup_next_request_count (drop j paths) w \<noteq> Panic" for j w
    using next_request_post [OF lookup_paths_drop [OF ok, of j], of w] by auto
  have over: "prog_rule client_inv (io_bind (io_lift (cgroups_lookup_oversized_request_item (paths ! lp_start p))) (\<lambda>item.
      let p = p\<lparr>lp_raw_items := lp_raw_items p @ [item], lp_start := lp_start p + 1\<rparr> in
      if lp_start p < length paths then io_ret (Lr_More p)
      else io_bind (of_client session_max_request_payload_bytes) (\<lambda>max_payload.
        io_bind (io_lift (cgroups_lookup_next_request_count (drop (lp_start p) paths) max_payload)) (\<lambda>(req_count, req_size).
        lookup_subcall cgroups_lookup_method h paths deadline p req_count req_size))))
      (\<lambda>r c. client_inv c \<and> round_ok answers_path cgroups_lookup_method paths r) client_inv" if lt: "lp_start p < length paths"
  proof -
    have path: "length (paths ! lp_start p) + 64 < 2 ^ 32" using ok lt by (simp add: lookup_paths_ok_def)
    note o = oversized_item_post [OF path]
    have q: "progressed answers_path paths (p\<lparr>lp_raw_items := lp_raw_items p @ [x], lp_start := lp_start p + 1\<rparr>)"
      if "cgroups_lookup_oversized_request_item (paths ! lp_start p) = Ok x" for x
      using progressed_append [OF p, of "[x]"] o that lt by simp
    show ?thesis
      unfolding Let_def
      by (intro rule_bind_lift rule_if rule_bind_of rule_pair rule_ret; (rule sub, erule q)?)
        (use o np q in \<open>auto simp: next_request_empty split: outcome.splits\<close>)
  qed
  have size: "cgroups_lookup_request_size [paths ! lp_start p] \<noteq> Panic" if "lp_start p < length paths"
  proof -
    have "lookup_paths_ok [paths ! lp_start p]" using ok that by (simp add: lookup_paths_ok_def)
    then show ?thesis using request_size_eq [OF lookup_paths_bytes] by simp
  qed
  show ?thesis
    unfolding cgroups_lookup_pass_def
    by (intro rule_bind_of rule_outcome rule_pair sub [OF p] np rule_if rule_err rule_bind_lift size
        rule_bind [OF ensure_capacity_rule [OF h]] rule_ret over) (use p in auto)
qed

lemma apps_request_size_eq: "n \<le> 2 ^ 32 \<Longrightarrow> apps_lookup_request_size n = Ok (16 + n * 16)"
  by (simp add: apps_lookup_request_size_def al_sizes checked_ok USIZE_MAX_def)

lemma apps_fit:
  fixes c :: nat
  assumes "c < 2 ^ 32" "32 \<le> c" "k = min n ((c - 16) div 16)"
  shows "k \<le> 2 ^ 32" "k \<le> n" "16 + k * 16 \<le> c" "0 < (c - 16) div 16"
proof -
  have "(c - 16) div 16 * 16 \<le> c - 16" by (rule div_times_less_eq_dividend)
  moreover have "k \<le> (c - 16) div 16" "k \<le> n" using assms(3) by simp_all
  ultimately show "k \<le> 2 ^ 32" "k \<le> n" "16 + k * 16 \<le> c" using assms(1,2) by linarith+
  show "0 < (c - 16) div 16" using assms(2) by (simp add: div_greater_zero_iff)
qed

lemma apps_next_request_eq:
  assumes "0 < n" "k = min n ((request_cap max_payload - 16) div 16)"
  shows "apps_lookup_next_request_count n max_payload = (if request_cap max_payload < 32 then Err Overflow else Ok (k, 16 + k * 16))"
proof -
  have c: "checked_add 8 8 = Some 16" by (simp add: checked_ok USIZE_MAX_def)
  define cap where "cap = request_cap max_payload"
  have cap: "cap < 2 ^ 32" unfolding cap_def by (rule request_cap_less)
  have eq: "apps_lookup_next_request_count n max_payload =
      (if cap < 16 \<or> cap - 16 < 16 then Err Overflow
       else if (cap - 16) div 16 = 0 then Err Overflow else rbind (apps_lookup_request_size k) (\<lambda>sz. Ok (k, sz)))"
    using assms unfolding apps_lookup_next_request_count_def al_sizes c Let_def cap_def by simp
  show ?thesis
  proof (cases "32 \<le> cap")
    case True
    note f = apps_fit [OF cap True, of k n]
    have "k = min n ((cap - 16) div 16)" using assms(2) by (simp add: cap_def)
    moreover have "\<not> (cap < 16 \<or> cap - 16 < 16)" using True by linarith
    ultimately show ?thesis using f True apps_request_size_eq [of k] by (simp add: eq flip: cap_def)
  qed (auto simp: eq simp flip: cap_def)
qed

lemma apps_next_request_post:
  "case apps_lookup_next_request_count n max_payload of Ok (k, sz) \<Rightarrow> k \<le> n \<and> sz < 2 ^ 32 | Err e \<Rightarrow> True | Panic \<Rightarrow> False"
proof (cases "n = 0")
  case True
  then show ?thesis using apps_request_size_eq [of 0] by (simp add: apps_lookup_next_request_count_def)
next
  case False
  then show ?thesis
    using apps_next_request_eq [OF _ refl, of n max_payload] apps_fit(2,3) [OF request_cap_less [of max_payload] _ refl, of n]
      request_cap_less [of max_payload]
    by (simp only: not_less [symmetric] split: if_splits) (auto simp: not_less)
qed

lemma apps_pass_rule:
  assumes h: "host_ok h" and k: "length pids < 2 ^ 30" and p: "progressed answers_pid pids p"
  shows "prog_rule client_inv (apps_lookup_pass h pids deadline p)
    (\<lambda>r c. client_inv c \<and> round_ok answers_pid apps_lookup_method pids r) client_inv"
proof -
  have start: "lp_start p \<le> length pids" using p by (simp add: progressed_def)
  have sub: "prog_rule client_inv (lookup_subcall apps_lookup_method h pids deadline p n sz)
      (\<lambda>r c. client_inv c \<and> round_ok answers_pid apps_lookup_method pids r) client_inv"
    if "apps_lookup_next_request_count (usize_sub (length pids) (lp_start p)) w = Ok (n, sz)" for n sz w
    using apps_next_request_post [of "length pids - lp_start p" w] that start
    by (intro apl.subcall_rule [OF h p k]) auto
  have np: "apps_lookup_next_request_count n w \<noteq> Panic" for n w
    using apps_next_request_post [of n w] by auto
  have size: "apps_lookup_request_size 1 \<noteq> Panic" using apps_request_size_eq [of 1] by simp
  show ?thesis
    unfolding apps_lookup_pass_def
    by (intro rule_bind_of rule_outcome rule_pair sub np rule_if rule_err rule_bind_lift size
        rule_bind [OF ensure_capacity_rule [OF h]] rule_ret) (use p in auto)
qed

lemma deadline_rule: "prog_keeps client_inv (lookup_deadline h t)"
  unfolding lookup_deadline_def
  by (rule keeps_bind, rule keeps_snd, intro no_panic_prims) (intro rule_bind_of rule_if rule_ret rule_err; assumption)

lemma logical_call_rule:
  assumes "\<And>deadline p. progressed good keys p \<Longrightarrow>
      prog_rule client_inv (pass deadline p) (\<lambda>r c. client_inv c \<and> round_ok good m keys r) client_inv"
  shows "prog_rule client_inv (logical_lookup_call m h pass keys t) (\<lambda>view c. client_inv c \<and> lookup_complete m keys view) client_inv"
  unfolding logical_lookup_call_def
  by (intro rule_bind_of rule_bind_lift rule_if rule_err rule_bind [OF ensure_ready_rule] rule_bind [OF deadline_rule]
      lookup_loop_rule [OF assms]) (auto simp: validate_method_def)

section \<open>Properties\<close>

text \<open>C29: The next request of a cgroup lookup is the longest one possible: the binary search returns a non-empty prefix of the
  remaining paths whose encoding has the returned size and fits the session's limit, while every longer prefix exceeds the limit; it
  fails exactly when not even the first path fits.\<close>

theorem next_request_maximal:
  assumes "request_bytes paths < 2 ^ 63" "paths \<noteq> []"
  shows "case cgroups_lookup_next_request_count paths max_payload of
      Ok (n, sz) \<Rightarrow> 0 < n \<and> n \<le> length paths \<and> sz = request_bytes (take n paths) \<and> sz \<le> request_cap max_payload \<and>
        (\<forall>k. n < k \<and> k \<le> length paths \<longrightarrow> request_cap max_payload < request_bytes (take k paths))
    | Err e \<Rightarrow> e = Overflow \<and> request_cap max_payload < request_bytes (take 1 paths)
    | Panic \<Rightarrow> False"
  using next_request_longest [OF assms, of max_payload] by (auto simp: longest_fit_def split: outcome.splits)

theorem next_request_maximal_witness:
  "cgroups_lookup_next_request_count [[47, 97], [47, 98], [47, 99]] 50 = Ok (2, 43)"
proof -
  let ?ps = "[[47, 97], [47, 98], [47, 99]] :: bytes list"
  have sizes: "request_bytes (take 1 ?ps) = 27" "request_bytes (take 2 ?ps) = 43" "request_bytes (take 3 ?ps) = 59" "request_bytes ?ps = 59"
    by (simp_all add: request_bytes_def pack_def pack_step_def al8_def Let_def)
  note t = next_request_maximal [of ?ps 50]
  show ?thesis
  proof (cases "cgroups_lookup_next_request_count ?ps 50")
    case (Ok a)
    obtain n sz where a: "a = (n, sz)" by fastforce
    have r: "0 < n" "n \<le> 3" "sz = request_bytes (take n ?ps)" "sz \<le> 50" "\<forall>k. n < k \<and> k \<le> 3 \<longrightarrow> 50 < request_bytes (take k ?ps)"
      using t sizes(4) unfolding Ok a by auto
    have "n \<noteq> 1" using spec [OF r(5), of 2] sizes(2) by auto
    moreover have "n \<noteq> 3" using r(3,4) sizes(3) by auto
    ultimately have "n = 2" using r(1,2) by linarith
    then show ?thesis using r(3) sizes(2) Ok a by simp
  qed (use t sizes in auto)
qed

text \<open>C15: A logical lookup that succeeds answers every key. However the keys are split into requests, whatever the server answers,
  leaves out or refuses to take, and over either transport, the call does not panic and keeps the client's invariant; a response
  it returns has exactly one item per path or pid, in order, each for its key and none marked as cut off.\<close>

theorem logical_lookups_complete:
  assumes "host_ok h" "client_reachable h c" "lookup_paths_ok paths" "length pids < 2 ^ 30"
  shows "io_post (call_cgroups_lookup_with_timeout h paths t) (c, os) (\<lambda>r (c', _). client_inv c' \<and>
      (case r of
         Ok view \<Rightarrow> unat (clr_item_count view) = length paths \<and>
           (\<forall>i < length paths. \<exists>item. cgroups_lookup_response_item view (word_of_nat i) = Ok item \<and>
              str_view_as_bytes (cli_path item) = (Ok (paths ! i) :: bytes result) \<and> cli_status item \<noteq> CGROUP_LOOKUP_PAYLOAD_EXCEEDED)
       | Err e \<Rightarrow> True | Panic \<Rightarrow> False)) \<and>
    io_post (call_apps_lookup_with_timeout h pids t) (c, os) (\<lambda>r (c', _). client_inv c' \<and>
      (case r of
         Ok view \<Rightarrow> unat (alr_item_count view) = length pids \<and>
           (\<forall>i < length pids. \<exists>item. apps_lookup_response_item view (word_of_nat i) = Ok item \<and>
              ali_pid item = pids ! i \<and> ali_status item \<noteq> PID_LOOKUP_PAYLOAD_EXCEEDED)
       | Err e \<Rightarrow> True | Panic \<Rightarrow> False))"
proof
  have c: "client_inv c" by (rule reachable_inv [OF assms(2,1)])
  have cg: "prog_rule client_inv (logical_lookup_call cgroups_lookup_method h (cgroups_lookup_pass h paths) paths t)
      (\<lambda>view c. client_inv c \<and> lookup_complete cgroups_lookup_method paths view) client_inv"
    by (rule logical_call_rule [OF cgroups_pass_rule [OF assms(1,3)]])
  have ap: "prog_rule client_inv (logical_lookup_call apps_lookup_method h (apps_lookup_pass h pids) pids t)
      (\<lambda>view c. client_inv c \<and> lookup_complete apps_lookup_method pids view) client_inv"
    by (rule logical_call_rule [OF apps_pass_rule [OF assms(1,4)]])
  show "io_post (call_cgroups_lookup_with_timeout h paths t) (c, os) (\<lambda>r (c', _). client_inv c' \<and>
      (case r of
         Ok view \<Rightarrow> unat (clr_item_count view) = length paths \<and>
           (\<forall>i < length paths. \<exists>item. cgroups_lookup_response_item view (word_of_nat i) = Ok item \<and>
              str_view_as_bytes (cli_path item) = (Ok (paths ! i) :: bytes result) \<and> cli_status item \<noteq> CGROUP_LOOKUP_PAYLOAD_EXCEEDED)
       | Err e \<Rightarrow> True | Panic \<Rightarrow> False))"
    unfolding call_cgroups_lookup_with_timeout_def
    by (rule io_post_mono [OF prog_ruleD [OF cg c]]) (fastforce simp: lookup_complete_def cgroups_lookup_method_def rbind_eq_Ok split: outcome.splits prod.splits)
  show "io_post (call_apps_lookup_with_timeout h pids t) (c, os) (\<lambda>r (c', _). client_inv c' \<and>
      (case r of
         Ok view \<Rightarrow> unat (alr_item_count view) = length pids \<and>
           (\<forall>i < length pids. \<exists>item. apps_lookup_response_item view (word_of_nat i) = Ok item \<and>
              ali_pid item = pids ! i \<and> ali_status item \<noteq> PID_LOOKUP_PAYLOAD_EXCEEDED)
       | Err e \<Rightarrow> True | Panic \<Rightarrow> False))"
    unfolding call_apps_lookup_with_timeout_def
    by (rule io_post_mono [OF prog_ruleD [OF ap c]]) (fastforce simp: lookup_complete_def apps_lookup_method_def split: outcome.splits prod.splits)
qed

theorem logical_lookups_complete_witness:
  "\<exists>c os. client_refresh wire_host (wire_new, ([ack_packet STATUS_OK wire_ack], [])) = Some (Ok True, (c, os)) \<and> rc_state c = Cs_Ready \<and>
     io_post (call_cgroups_lookup_with_timeout wire_host [[47]] 0) (c, os) (\<lambda>r (c', _). client_inv c' \<and>
       (case r of
          Ok view \<Rightarrow> unat (clr_item_count view) = 1 \<and>
            (\<exists>item. cgroups_lookup_response_item view 0 = Ok item \<and> str_view_as_bytes (cli_path item) = (Ok [47] :: bytes result))
        | Err e \<Rightarrow> True | Panic \<Rightarrow> False))"
proof -
  let ?c = "wire_new\<lparr>rc_state := Cs_Ready, rc_session := Some (client_session 3 wire_ack), rc_connect_count := 1\<rparr>"
  obtain os where r: "client_refresh wire_host (wire_new, ([ack_packet STATUS_OK wire_ack], [])) = Some (Ok True, (?c, os))"
    using wire_refresh .
  have reach: "client_reachable wire_host ?c" by (rule reach_refresh [OF reach_new r])
  have "lookup_paths_ok [[47]]" by (simp add: lookup_paths_ok_def)
  from logical_lookups_complete [OF wire_host_ok reach this, of "[]" 0 os]
  have "io_post (call_cgroups_lookup_with_timeout wire_host [[47]] 0) (?c, os) (\<lambda>r (c', _). client_inv c' \<and>
       (case r of
          Ok view \<Rightarrow> unat (clr_item_count view) = 1 \<and>
            (\<exists>item. cgroups_lookup_response_item view 0 = Ok item \<and> str_view_as_bytes (cli_path item) = (Ok [47] :: bytes result))
        | Err e \<Rightarrow> True | Panic \<Rightarrow> False))"
    by (auto elim!: io_post_mono split: outcome.splits)
  then show ?thesis using r by (intro exI [of _ ?c] exI [of _ os]) simp
qed
end
