(* ===== verification/Spec2Isabelle.thy ===== *)
theory Spec2Isabelle
  imports Batch Methods Snapshot Cgroups_Lookup Apps_Lookup Cgroups_Cache Lookup_Calls
begin

text \<open>
  \<^bold>\<open>netipc: a verified model of the Rust implementation.\<close>

  netipc is an inter-process communication library for request/response services on one host. This development models the
  Rust crate \<open>src/crates/netipc\<close> in its Linux configuration (64-bit, little-endian, release build) and proves its codecs, its two
  transports and its client correct. File names below are relative to \<open>src/crates/netipc/src\<close>.

  \<^bold>\<open>The program.\<close> A \<^emph>\<open>client\<close> connects to a service over a Unix SEQPACKET socket. Both sides exchange HELLO and HELLO_ACK
  packets, which fix payload limits, a packet size and a profile. If the profile is a shared-memory one, the server creates a region
  file and the client attaches to it; messages then go through the region, otherwise through the socket, split into chunks when
  they exceed the packet size. A message is a 32-byte header and a payload; the payload is a request or response of one method
  (INCREMENT, STRING_REVERSE, CGROUPS_SNAPSHOT, CGROUPS_LOOKUP, APPS_LOOKUP) or a batch of them. On the server a dispatch function decodes
  the request, lets a handler fill a response builder, and returns the finished bytes. A cache on the client's side keeps the last
  snapshot in a hash table.

  \<^bold>\<open>How Rust is modelled.\<close> Fixed-width integers are words; \<open>usize\<close> is \<open>nat\<close>, with the wrap-around of release builds and the
  checked operations written out. A fallible function returns \<open>Ok\<close>, \<open>Err\<close> or \<open>Panic\<close>; \<open>Panic\<close> also stands for undefined behaviour in
  unsafe code, such as a copy past the end of a field. A \<open>&mut\<close> argument is returned updated. Programs that call the system are functions
  from a state to an outcome and a state, or to \<open>None\<close> if they do not return. The operating system is a parameter: a record of
  functions on an arbitrary state (\<open>posix\<close>, \<open>shm_sys\<close>, \<open>host\<close>), so that one theorem covers every behaviour of peers, threads and
  system calls. What a property needs of the system beyond that is a named hypothesis: \<open>recv_bounded\<close> and \<open>loads_exact\<close> (a call
  yields no more bytes than asked for, a load exactly as many), \<open>seqpacket_end\<close> (packets arrive whole and in order), \<open>shm_files\<close> (the
  documented effect of opening, sizing and mapping files and of accesses to mapped memory). Each is shown to hold of a concrete system, on which the witnesses run.

  \<^bold>\<open>Theories, and the code they model.\<close>

  \<^item> \<open>Wire_Prelude\<close>: outcomes, checked arithmetic, slices and little-endian integers; the locale \<open>ne_codec\<close>.
  \<^item> \<open>Envelope\<close> (\<open>protocol/mod.rs\<close>): constants, errors, \<open>align8\<close>, Header, ChunkHeader, Hello and HelloAck. The locales \<open>fixed_codec\<close> and
    \<open>canonical_codec\<close> state what an encoder and a decoder of a fixed structure promise each other.
  \<^item> \<open>Packing\<close>: the reference layout of packed items with a directory, and the locale \<open>item_builder\<close> for builders that produce it.
  \<^item> \<open>Batch\<close> (\<open>protocol/mod.rs\<close>): batch directory, validation, item access, BatchBuilder.
  \<^item> \<open>Methods\<close> (\<open>protocol/increment.rs\<close>, \<open>protocol/string_reverse.rs\<close>): the scalar codecs.
  \<^item> \<open>Snapshot\<close> (\<open>protocol/cgroups_snapshot.rs\<close>): request, response view, builder, dispatch.
  \<^item> \<open>Lookup_Common\<close> (\<open>protocol/lookup/common.rs\<close>): directories, strings, labels and the reservation for items that do not fit; the
    locales \<open>lookup_items\<close>, \<open>lookup_response\<close> and \<open>answering_builder\<close> carry the proofs that the two lookup codecs share.
  \<^item> \<open>Cgroups_Lookup\<close>, \<open>Apps_Lookup\<close> (\<open>protocol/lookup/cgroups_lookup.rs\<close>, \<open>apps_lookup.rs\<close>): requests, responses, builders with their
    payload-exceeded mode, raw responses, dispatch.
  \<^item> \<open>Service_Common\<close> (\<open>service/raw/common.rs\<close>, \<open>dispatch.rs\<close>): sizes, power-of-two capacities, single-request dispatch, and the
    compare-and-swap loop on the learned capacity as a step relation of concurrent threads.
  \<^item> \<open>Utf8\<close>, \<open>Cgroups_Cache\<close> (\<open>service/raw/cgroups_cache.rs\<close>): the snapshot cache with its open-addressing table.
  \<^item> \<open>Posix_IO\<close>, \<open>Uds_Session\<close>, \<open>Uds_Channel\<close>, \<open>Uds_Handshake\<close> (\<open>transport/posix.rs\<close>): packets and deadlines, sending and receiving
    with chunks and in-flight ids, the session as a channel, configuration, endpoints and both sides of the handshake.
  \<^item> \<open>Program_Logic\<close>: rules for pre- and postconditions of programs on a state, used for the client.
  \<^item> \<open>Shm\<close>, \<open>Shm_Exchange\<close> (\<open>transport/shm.rs\<close>): region layout, create, attach, send, receive, release, recovery of stale regions, and a
    whole exchange over one region.
  \<^item> \<open>Client\<close> (\<open>service/raw/client.rs\<close>, \<open>client_call.rs\<close>, \<open>client_unix.rs\<close>): the connection state machine, connecting with the upgrade to
    shared memory, one call over either transport, and its retries.
  \<^item> \<open>Lookup_Calls\<close> (\<open>service/raw/cgroups_lookup.rs\<close>, \<open>apps_lookup.rs\<close>): a lookup of any number of keys, split into requests that fit the
    session and put together again. The locale \<open>logical_lookup\<close> states what the call needs of a codec; both lookup codecs provide it.

  Records keep the fields of the Rust structures, with a prefix per structure (\<open>hdr_\<close>, \<open>us_\<close>, \<open>sm_\<close>, \<open>rc_\<close>); functions keep their names,
  with a prefix where several types have a method of that name (\<open>clb_add\<close> is \<open>CgroupsLookupBuilder::add\<close>). A long function is cut
  into definitions at its loops and its nested blocks.

  \<^bold>\<open>What the lemmas show.\<close>

  \<^item> \<^emph>\<open>Round trips\<close>: every structure, request, response and batch decodes to what was encoded; a message sent over a socket or a region
    is the one received.
  \<^item> \<^emph>\<open>Safety on hostile input\<close>: no decoder, receiver or connection step panics or leaves its buffer, whatever bytes, peers and
    system calls do; what is accepted can be read completely.
  \<^item> \<^emph>\<open>Dispatch\<close>: whatever a handler does through the builder interface, dispatch does not panic, and a response that is returned fits and
    decodes; for CGROUPS_LOOKUP it decodes if the handler gives no empty path and no path with a NUL to a builder that is in its
    payload-exceeded state, where the code does not check them. A handler that answers every item succeeds when the buffer has the
    room the protocol reserves.
  \<^item> \<^emph>\<open>Agreement\<close>: both sides of a handshake end with the same session parameters or the same error.
  \<^item> \<^emph>\<open>Refinement\<close>: the cache's hash table behaves as a search through the last snapshot, after any history of operations.
  \<^item> \<^emph>\<open>Concurrency\<close>: the learned capacity is the maximum of what any interleaving of threads noted.
  \<^item> \<^emph>\<open>The client\<close>: the invariant of a client holds after any sequence of its operations, and every call ends in exactly one of its
    two ways, counted once. A logical lookup that succeeds answers every key in order, however it was split, and each request it
    sends is the longest that fits.
  \<^item> \<^emph>\<open>Defects\<close>: where the code falls short of its documentation, a theorem states the behaviour, for all inputs that show it or on a
    concrete one.

  \<^bold>\<open>Loops and fuel.\<close> Loops over items and chunks are structural recursions on the number of rounds the source computes before the loop.
  The overflow retries of a call are a recursion that stops at eight. Loops without such a bound are \<open>partial_function (option)\<close>, whose
  value is \<open>None\<close> if they do not return. The search for a free bucket of the cache and the probe of a lookup are such loops;
  both are proved to return, because the table always has an empty bucket. The others wait for a peer (the receive loops, the futex loop, attaching, reconnecting without shared memory, the
  requests of a lookup): safety holds of every run that returns, and the receive with a timeout over shared memory is proved to return
  when time passes in the futex call. No definition takes fuel.

  \<^bold>\<open>Not modelled.\<close> The texts of errors; the memory fences of the shared-memory transport, whose accesses are atomic steps on a shared
  state here; the server's threads, accept loop and session loop (\<open>server*.rs\<close>), which run modelled operations but whose handlers
  and thread scheduling are the user's and the system's; the typed calls of INCREMENT, STRING_REVERSE and CGROUPS_SNAPSHOT
  (\<open>service/raw/increment.rs\<close> and its siblings), which put a modelled codec around a modelled call; the facades
  under \<open>service\<close> that only forward; the Windows transports and service (\<open>windows.rs\<close>, \<open>win_shm.rs\<close>, \<open>*_windows.rs\<close>), which rest on Win32
  pipes, events and file mappings; \<open>bin/interop_codec.rs\<close> and the benchmark drivers, which are programs around the library.
\<close>

section \<open>Both lookup codecs\<close>

text \<open>C30: a list of lookup keys survives the request encoding. Every list of non-empty NUL-free cgroup paths that fits the
  buffer is encoded, the payload decodes, and \<open>item(i)\<close> is the i-th path, NUL-terminated. Every list of pids that fits the buffer
  is encoded in 16 bytes plus 16 per pid, the payload decodes, and \<open>item(i)\<close> is the i-th pid; pids that do not fit are
  refused with Overflow.\<close>

theorem lookup_request_roundtrip:
  assumes "length buf < 2 ^ 32"
  shows "(16 + length paths * 8 + length (pack_data (map cl_key paths)) \<le> length buf \<and> (\<forall>p \<in> set paths. p \<noteq> [] \<and> 0 \<notin> set p) \<longrightarrow>
      (\<exists>n buf' v. encode_cgroups_lookup_request paths buf = Ok (n, buf') \<and> n \<le> length buf \<and>
        cgroups_lookup_request_decode (take n buf') = Ok v \<and> clq_item_count v = word_of_nat (length paths) \<and>
        (\<forall>i < length paths. cgroups_lookup_request_item v (word_of_nat i) =
           Ok \<lparr>sv_bytes = paths ! i @ [0], sv_len = word_of_nat (length (paths ! i))\<rparr>))) \<and>
    (16 + length pids * 16 \<le> length buf \<longrightarrow>
      (\<exists>buf' v. encode_apps_lookup_request pids buf = Ok (16 + length pids * 16, buf') \<and>
        apps_lookup_request_decode (take (16 + length pids * 16) buf') = Ok v \<and> alq_item_count v = word_of_nat (length pids) \<and>
        (\<forall>i < length pids. apps_lookup_request_item v (word_of_nat i) = Ok (pids ! i)))) \<and>
    (\<not> 16 + length pids * 16 \<le> length buf \<longrightarrow> encode_apps_lookup_request pids buf = Err Overflow)"
  using cgroups_request_reads_back [OF _ assms, of paths] apps_request_reads_back [OF assms, of pids] by blast

theorem lookup_request_roundtrip_witness:
  "(\<exists>n buf' v. encode_cgroups_lookup_request [[47, 97], [47]] (replicate 64 170) = Ok (n, buf') \<and> n \<le> 64 \<and>
      cgroups_lookup_request_decode (take n buf') = Ok v \<and>
      cgroups_lookup_request_item v 1 = Ok \<lparr>sv_bytes = [47, 0], sv_len = 1\<rparr>) \<and>
   (\<exists>buf' v. encode_apps_lookup_request [7, 4294967295] (replicate 64 170) = Ok (48, buf') \<and>
      apps_lookup_request_decode (take 48 buf') = Ok v \<and> apps_lookup_request_item v 1 = Ok 4294967295) \<and>
   encode_apps_lookup_request [7, 4294967295] (replicate 47 170) = Err Overflow"
proof (intro conjI)
  let ?ps = "[[47, 97], [47]] :: bytes list" and ?ids = "[7, 4294967295] :: u32 list"
  note t = lookup_request_roundtrip [of "replicate 64 170" ?ps ?ids]
  obtain n buf' v where r: "encode_cgroups_lookup_request ?ps (replicate 64 170) = Ok (n, buf')" "n \<le> 64"
      "cgroups_lookup_request_decode (take n buf') = Ok v"
      "\<forall>i < length ?ps. cgroups_lookup_request_item v (word_of_nat i) =
        Ok \<lparr>sv_bytes = ?ps ! i @ [0], sv_len = word_of_nat (length (?ps ! i))\<rparr>"
    using t by (auto simp: pack_def pack_step_def al8_def)
  have "cgroups_lookup_request_item v 1 = Ok \<lparr>sv_bytes = [47, 0], sv_len = 1\<rparr>"
    using r(4) [rule_format, of 1] by simp
  with r(1-3) show "\<exists>n buf' v. encode_cgroups_lookup_request ?ps (replicate 64 170) = Ok (n, buf') \<and> n \<le> 64 \<and>
      cgroups_lookup_request_decode (take n buf') = Ok v \<and>
      cgroups_lookup_request_item v 1 = Ok \<lparr>sv_bytes = [47, 0], sv_len = 1\<rparr>" by blast
  obtain buf' v where s: "encode_apps_lookup_request ?ids (replicate 64 170) = Ok (48, buf')"
      "apps_lookup_request_decode (take 48 buf') = Ok v"
      "\<forall>i < length ?ids. apps_lookup_request_item v (word_of_nat i) = Ok (?ids ! i)"
    using t by auto
  then show "\<exists>buf' v. encode_apps_lookup_request ?ids (replicate 64 170) = Ok (48, buf') \<and>
      apps_lookup_request_decode (take 48 buf') = Ok v \<and> apps_lookup_request_item v 1 = Ok 4294967295"
    using s(3) [rule_format, of 1] by auto
  show "encode_apps_lookup_request ?ids (replicate 47 170) = Err Overflow"
    using lookup_request_roundtrip [of "replicate 47 170" "[]" ?ids] by simp
qed

text \<open>C31: reading lookup messages never panics, whatever bytes the peer sent. Every index of an accepted cgroup request has a
  non-empty NUL-free path inside the payload, every index of an accepted process request a pid. Every item of an accepted
  response decodes, its strings are NUL-terminated windows of the payload, and every label it announces can be read; a cgroup
  item has a path, a KNOWN process item has a command name, and no command name is longer than 15 bytes.\<close>

theorem lookup_views_safe:
  assumes "length buf \<le> ISIZE_MAX"
  shows "cgroups_lookup_request_decode buf \<noteq> Panic \<and> cgroups_lookup_response_decode buf \<noteq> Panic \<and>
    (\<forall>v i. cgroups_lookup_request_decode buf = Ok v \<longrightarrow>
       (i < clq_item_count v \<longrightarrow> (\<exists>sv path. cgroups_lookup_request_item v i = Ok sv \<and>
          str_view_as_bytes sv = (Ok path :: bytes result) \<and> path \<noteq> [] \<and> 0 \<notin> set path)) \<and>
       (\<not> i < clq_item_count v \<longrightarrow> cgroups_lookup_request_item v i = Err OutOfBounds)) \<and>
    (\<forall>v i. cgroups_lookup_response_decode buf = Ok v \<longrightarrow>
       (i < clr_item_count v \<longrightarrow> (\<exists>iv. cgroups_lookup_response_item v i = Ok iv \<and>
          str_view_ok (cli_path iv) \<and> str_view_ok (cli_name iv) \<and> 0 < sv_len (cli_path iv) \<and>
          (\<forall>j. unat j < unat (cli_label_count iv) \<longrightarrow> (\<exists>lv. cgroups_lookup_item_label iv j = Ok lv)))) \<and>
       (\<not> i < clr_item_count v \<longrightarrow> cgroups_lookup_response_item v i = Err OutOfBounds)) \<and>
    apps_lookup_request_decode buf \<noteq> Panic \<and> apps_lookup_response_decode buf \<noteq> Panic \<and>
    (\<forall>q i. apps_lookup_request_decode buf = Ok q \<longrightarrow>
       apps_lookup_request_item q i = (if i < alq_item_count q then Ok (alq_pid q (unat i)) else Err OutOfBounds)) \<and>
    (\<forall>v i. apps_lookup_response_decode buf = Ok v \<longrightarrow>
       (i < alr_item_count v \<longrightarrow> (\<exists>iv. apps_lookup_response_item v i = Ok iv \<and>
          str_view_ok (ali_comm iv) \<and> str_view_ok (ali_cgroup_path iv) \<and> str_view_ok (ali_cgroup_name iv) \<and>
          unat (sv_len (ali_comm iv)) \<le> 15 \<and> (ali_status iv = PID_LOOKUP_KNOWN \<longrightarrow> 0 < unat (sv_len (ali_comm iv))) \<and>
          (\<forall>j. unat j < unat (ali_label_count iv) \<longrightarrow> (\<exists>lv. apps_lookup_item_label iv j = Ok lv)))) \<and>
       (\<not> i < alr_item_count v \<longrightarrow> apps_lookup_response_item v i = Err OutOfBounds))"
proof -
  note c = cgroups_views_readable [OF assms] and a = apps_views_readable [OF assms]
  show ?thesis
    by (intro conjI c [THEN conjunct1] c [THEN conjunct2, THEN conjunct1] c [THEN conjunct2, THEN conjunct2, THEN conjunct1]
        c [THEN conjunct2, THEN conjunct2, THEN conjunct2] a [THEN conjunct1] a [THEN conjunct2, THEN conjunct1]
        a [THEN conjunct2, THEN conjunct2, THEN conjunct1] a [THEN conjunct2, THEN conjunct2, THEN conjunct2])
qed

theorem lookup_views_safe_witness:
  "(\<exists>v sv path. cgroups_lookup_request_decode sample_cl_request = Ok v \<and> cgroups_lookup_request_item v 0 = Ok sv \<and>
     str_view_as_bytes sv = (Ok path :: bytes result) \<and> path \<noteq> []) \<and>
   (\<exists>v iv. cgroups_lookup_response_decode sample_cl_response = Ok v \<and> cgroups_lookup_response_item v 0 = Ok iv \<and>
     0 < sv_len (cli_path iv)) \<and>
   (\<exists>v iv. apps_lookup_response_decode sample_al_response = Ok v \<and> apps_lookup_response_item v 0 = Ok iv \<and>
     unat (sv_len (ali_comm iv)) \<le> 15)"
proof (intro conjI)
  obtain v where v: "cgroups_lookup_request_decode sample_cl_request = Ok v" "clq_item_count v = 1"
    using sample_cl_request_decodes by blast
  have "length sample_cl_request \<le> ISIZE_MAX" by (simp add: sample_cl_request_def ISIZE_MAX_def)
  from lookup_views_safe [OF this] v
  show "\<exists>v sv path. cgroups_lookup_request_decode sample_cl_request = Ok v \<and> cgroups_lookup_request_item v 0 = Ok sv \<and>
     str_view_as_bytes sv = (Ok path :: bytes result) \<and> path \<noteq> []" by fastforce
next
  obtain v where v: "cgroups_lookup_response_decode sample_cl_response = Ok v" "clr_item_count v = 1"
    using sample_cl_response_decodes by blast
  have "length sample_cl_response \<le> ISIZE_MAX"
    by (simp add: sample_cl_response_def sample_cl_answer_def length_cl_wire length_label_block al8_def ISIZE_MAX_def)
  from lookup_views_safe [OF this] v
  show "\<exists>v iv. cgroups_lookup_response_decode sample_cl_response = Ok v \<and> cgroups_lookup_response_item v 0 = Ok iv \<and>
     0 < sv_len (cli_path iv)" by fastforce
next
  obtain v where v: "apps_lookup_response_decode sample_al_response = Ok v" "alr_item_count v = 1"
    using sample_al_response_decodes by blast
  have "length sample_al_response \<le> ISIZE_MAX" by (simp add: sample_al_response_def sample_al_length ISIZE_MAX_def)
  from lookup_views_safe [OF this] v
  show "\<exists>v iv. apps_lookup_response_decode sample_al_response = Ok v \<and> apps_lookup_response_item v 0 = Ok iv \<and>
     unat (sv_len (ali_comm iv)) \<le> 15" by fastforce
qed

text \<open>C32: a raw response re-encodes validated items unchanged. Any list of raw items of either lookup that decode and fit the
  buffer is encoded with the given generation, the payload decodes, and \<open>raw_item(i)\<close> is byte for byte the i-th item.\<close>

theorem lookup_raw_roundtrip:
  assumes "length buf < 2 ^ 32" "16 + length items * 8 + length (pack_data items) \<le> length buf"
  shows "((\<forall>x \<in> set items. \<exists>w. decode_cgroups_item x = Ok w) \<longrightarrow>
      (\<exists>n buf' v. encode_cgroups_lookup_raw_response items g buf = Ok (n, buf') \<and> n \<le> length buf \<and>
        cgroups_lookup_response_decode (take n buf') = Ok v \<and> clr_item_count v = word_of_nat (length items) \<and> clr_generation v = g \<and>
        (\<forall>i < length items. cgroups_lookup_raw_item v (word_of_nat i) = Ok (items ! i)))) \<and>
    ((\<forall>x \<in> set items. \<exists>w. decode_apps_item x = Ok w) \<longrightarrow>
      (\<exists>n buf' v. encode_apps_lookup_raw_response items g buf = Ok (n, buf') \<and> n \<le> length buf \<and>
        apps_lookup_response_decode (take n buf') = Ok v \<and> alr_item_count v = word_of_nat (length items) \<and> alr_generation v = g \<and>
        (\<forall>i < length items. apps_lookup_raw_item v (word_of_nat i) = Ok (items ! i))))"
  using cgroups_raw_items_kept [OF assms] apps_raw_items_kept [OF assms] by blast

theorem lookup_raw_roundtrip_witness:
  "(\<exists>n buf' v. encode_cgroups_lookup_raw_response [cl_wire sample_cl_answer] 7 (replicate 200 1) = Ok (n, buf') \<and>
      cgroups_lookup_response_decode (take n buf') = Ok v \<and> clr_generation v = 7 \<and>
      cgroups_lookup_raw_item v 0 = Ok (cl_wire sample_cl_answer)) \<and>
   (\<exists>n buf' v. encode_apps_lookup_raw_response [al_wire sample_al_answer] 7 (replicate 200 1) = Ok (n, buf') \<and>
      apps_lookup_response_decode (take n buf') = Ok v \<and> alr_generation v = 7 \<and>
      apps_lookup_raw_item v 0 = Ok (al_wire sample_al_answer))"
proof
  have "length (pack_data [cl_wire sample_cl_answer]) \<le> 170"
    by (simp add: pack_def pack_step_def sample_cl_answer_def length_cl_wire length_label_block al8_def)
  then obtain n buf' v where r: "encode_cgroups_lookup_raw_response [cl_wire sample_cl_answer] 7 (replicate 200 1) = Ok (n, buf')"
      "cgroups_lookup_response_decode (take n buf') = Ok v" "clr_generation v = 7"
      "\<forall>i < length [cl_wire sample_cl_answer]. cgroups_lookup_raw_item v (word_of_nat i) = Ok ([cl_wire sample_cl_answer] ! i)"
    using lookup_raw_roundtrip [of "replicate 200 1" "[cl_wire sample_cl_answer]" 7]
      decode_cgroups_item_wire [OF sample_cl_entry_ok] by auto
  then show "\<exists>n buf' v. encode_cgroups_lookup_raw_response [cl_wire sample_cl_answer] 7 (replicate 200 1) = Ok (n, buf') \<and>
      cgroups_lookup_response_decode (take n buf') = Ok v \<and> clr_generation v = 7 \<and>
      cgroups_lookup_raw_item v 0 = Ok (cl_wire sample_cl_answer)" using r(4) [rule_format, of 0] by auto
next
  have "length (pack_data [al_wire sample_al_answer]) \<le> 170"
    by (simp add: pack_def pack_step_def sample_al_length al8_def)
  then obtain n buf' v where r: "encode_apps_lookup_raw_response [al_wire sample_al_answer] 7 (replicate 200 1) = Ok (n, buf')"
      "apps_lookup_response_decode (take n buf') = Ok v" "alr_generation v = 7"
      "\<forall>i < length [al_wire sample_al_answer]. apps_lookup_raw_item v (word_of_nat i) = Ok ([al_wire sample_al_answer] ! i)"
    using lookup_raw_roundtrip [of "replicate 200 1" "[al_wire sample_al_answer]" 7]
      decode_apps_item_wire [OF sample_al_entry_ok] by auto
  then show "\<exists>n buf' v. encode_apps_lookup_raw_response [al_wire sample_al_answer] 7 (replicate 200 1) = Ok (n, buf') \<and>
      apps_lookup_response_decode (take n buf') = Ok v \<and> alr_generation v = 7 \<and>
      apps_lookup_raw_item v 0 = Ok (al_wire sample_al_answer)" using r(4) [rule_format, of 0] by auto
qed

end
